(* ===== verification/Prelude.thy ===== *)
theory Prelude
  imports Main "HOL-Library.Word"
begin

unbundle bit_operations_syntax

text \<open>
  What every component of the CantayaOS development shares: the machine integer types of the
  Rust sources as words, the little- and big-endian byte codecs of \<^verbatim>\<open>u16::from_be_bytes\<close>,
  \<^verbatim>\<open>u32::from_le_bytes\<close> and their inverses, Rust's range loops with an early return
  (\<^verbatim>\<open>for i in a..b { if p(i) { return .. } }\<close>) as \<^const>\<open>List.find\<close> over an interval,
  and the lemmas on words, lists and cardinalities that the component proofs rest on.

  Integer conventions. A Rust \<^verbatim>\<open>u8 / u16 / u32 / u64\<close> whose value can reach the end of its
  range is a word, so that \<^verbatim>\<open>+\<close>, \<^verbatim>\<open>-\<close> and \<^verbatim>\<open>*\<close> wrap as they do in the release
  profile of \<^verbatim>\<open>Cargo.toml\<close>. An index or a counter that the code itself keeps below an array
  bound is a \<^typ>\<open>nat\<close>. Operations that panic in every profile (slice ranges, division by
  zero, \<^verbatim>\<open>unwrap\<close>) are explicit values of the model.
\<close>

type_synonym u8 = "8 word"
type_synonym u16 = "16 word"
type_synonym u32 = "32 word"
type_synonym u64 = "64 word"

type_synonym byte = u8

named_theorems codec_simps \<open>byte codecs evaluated on their own output\<close>
named_theorems frame_simps \<open>how an operation changes each observer of a component's state\<close>
named_theorems inv_intros \<open>operations keep the invariant of their component\<close>


subsection \<open>Byte codecs\<close>

definition be16 :: "u8 \<Rightarrow> u8 \<Rightarrow> u16" where
  "be16 a b = push_bit 8 (ucast a) OR ucast b"

definition be16_bytes :: "u16 \<Rightarrow> u8 list" where
  "be16_bytes x = [ucast (drop_bit 8 x), ucast x]"

definition le16 :: "u8 \<Rightarrow> u8 \<Rightarrow> u16" where
  "le16 a b = ucast a OR push_bit 8 (ucast b)"

definition le32 :: "u8 \<Rightarrow> u8 \<Rightarrow> u8 \<Rightarrow> u8 \<Rightarrow> u32" where
  "le32 a b c d = ucast a OR push_bit 8 (ucast b) OR push_bit 16 (ucast c) OR push_bit 24 (ucast d)"

definition le32_bytes :: "u32 \<Rightarrow> u8 list" where
  "le32_bytes x = [ucast x, ucast (drop_bit 8 x), ucast (drop_bit 16 x), ucast (drop_bit 24 x)]"

lemma length_be16_bytes [simp, codec_simps]: "length (be16_bytes x) = 2"
  by (simp add: be16_bytes_def)

lemma length_le32_bytes [simp, codec_simps]: "length (le32_bytes x) = 4"
  by (simp add: le32_bytes_def)

lemma be16_of_bytes [simp, codec_simps]: "be16 (ucast (drop_bit 8 x)) (ucast x) = x"
  unfolding be16_def by (rule bit_word_eqI) (auto simp: bit_simps)

lemma be16_nth_bytes [codec_simps]: "be16 (be16_bytes x ! 0) (be16_bytes x ! Suc 0) = x"
  by (simp add: be16_bytes_def)

lemma le32_of_bytes [simp, codec_simps]:
  "le32 (ucast x) (ucast (drop_bit 8 x)) (ucast (drop_bit 16 x)) (ucast (drop_bit 24 x)) = x"
proof (rule bit_word_eqI)
  fix n :: nat
  consider "n < 8" | "8 \<le> n" "n < 16" | "16 \<le> n" "n < 24" | "24 \<le> n" by linarith
  then show "bit (le32 (ucast x) (ucast (drop_bit 8 x)) (ucast (drop_bit 16 x)) (ucast (drop_bit 24 x))) n
      = bit x n" if "n < LENGTH(32)"
    using that unfolding le32_def by cases (auto simp: bit_simps)
qed

lemma not_bit_u8: "8 \<le> n \<Longrightarrow> \<not> bit (b :: u8) n"
  by (auto dest: bit_imp_le_length)

lemma be16_bytes_of [codec_simps]: "be16_bytes (be16 a b) = [a, b]"
  unfolding be16_bytes_def be16_def
  by (auto intro!: bit_word_eqI simp: bit_simps not_bit_u8)

lemma unat_lt2p: "unat (w :: 'a::len word) < 2 ^ LENGTH('a)"
  by (fact unsigned_less)

lemma unat_ucast_le: "LENGTH('a) \<le> LENGTH('b) \<Longrightarrow> unat (ucast (w :: 'a::len word) :: 'b::len word) = unat w"
  by (simp add: unsigned_ucast_eq unsigned_take_bit_eq take_bit_nat_eq_self_iff
      order.strict_trans2 [OF unat_lt2p])

lemma unat_be16: "unat (be16 a b) = 256 * unat a + unat b"
proof -
  have "push_bit 8 (ucast a) AND (ucast b :: u16) = 0"
    by (rule bit_word_eqI) (auto simp: bit_simps dest: bit_imp_le_length)
  then have "be16 a b = push_bit 8 (ucast a) + ucast b"
    unfolding be16_def by (simp add: disjunctive_add_eq_or)
  moreover have "unat (push_bit 8 (ucast a :: u16)) = 256 * unat a"
    using unat_lt2p [of a] by (simp add: push_bit_eq_mult unat_word_ariths unat_ucast_le)
  moreover have "unat (ucast b :: u16) = unat b"
    by (simp add: unat_ucast_le)
  ultimately show ?thesis
    using unat_lt2p [of a] unat_lt2p [of b] by (simp add: unat_word_ariths)
qed


subsection \<open>Range loops with an early return\<close>

lemma find_upt_Some_iff:
  "List.find P [a..<b] = Some i \<longleftrightarrow> a \<le> i \<and> i < b \<and> P i \<and> (\<forall>j. a \<le> j \<and> j < i \<longrightarrow> \<not> P j)"
proof
  assume "List.find P [a..<b] = Some i"
  then obtain k where k: "k < b - a" "P (a + k)" "i = a + k" "\<forall>j<k. \<not> P (a + j)"
    by (auto simp: find_Some_iff)
  have "\<not> P j" if "a \<le> j" "j < i" for j
    using k(4) [rule_format, of "j - a"] that k(3) by simp
  with k show "a \<le> i \<and> i < b \<and> P i \<and> (\<forall>j. a \<le> j \<and> j < i \<longrightarrow> \<not> P j)"
    by simp
next
  assume i: "a \<le> i \<and> i < b \<and> P i \<and> (\<forall>j. a \<le> j \<and> j < i \<longrightarrow> \<not> P j)"
  then have "i - a < length [a..<b]" "P ([a..<b] ! (i - a))" "i = [a..<b] ! (i - a)"
    "\<forall>j < i - a. \<not> P ([a..<b] ! j)"
    by (auto simp: nth_upt)
  then show "List.find P [a..<b] = Some i"
    unfolding find_Some_iff by blast
qed

lemma find_upt_None_iff: "List.find P [a..<b] = None \<longleftrightarrow> (\<forall>j. a \<le> j \<and> j < b \<longrightarrow> \<not> P j)"
  by (auto simp: find_None_iff)

lemma find_upt_least:
  "P i \<Longrightarrow> i < n \<Longrightarrow> List.find P [0..<n] = Some (LEAST j. P j)"
proof -
  assume "P i" "i < n"
  then have "P (LEAST j. P j)" and "(LEAST j. P j) < n"
    using LeastI [of P i] Least_le [of P i] by auto
  then show ?thesis
    using not_less_Least by (auto simp: find_upt_Some_iff)
qed


subsection \<open>Decimal digits\<close>

definition digit :: "nat \<Rightarrow> u8" where
  "digit k = 0x30 + of_nat k"

text \<open>\<^verbatim>\<open>{}\<close> of an unsigned integer.\<close>

fun dec :: "nat \<Rightarrow> u8 list" where
  "dec n = (if n < 10 then [digit n] else dec (n div 10) @ [digit (n mod 10)])"

declare dec.simps [simp del]


subsection \<open>Splitting strings\<close>

text \<open>\<^verbatim>\<open>str::split\<close> with a one-byte separator.\<close>

fun split_at :: "u8 \<Rightarrow> u8 list \<Rightarrow> u8 list \<Rightarrow> u8 list list" where
  "split_at c acc [] = [acc]"
| "split_at c acc (b # bs) = (if b = c then acc # split_at c [] bs else split_at c (acc @ [b]) bs)"

lemma split_at_append: "c \<notin> set xs \<Longrightarrow> split_at c acc (xs @ ys) = split_at c (acc @ xs) ys"
  by (induction xs arbitrary: acc) auto


subsection \<open>Words\<close>

lemma and_bit_eq_0_iff: "(w AND push_bit n 1 = 0) \<longleftrightarrow> \<not> bit w n" for w :: "'a::len word"
  by (simp add: push_bit_of_1 and_exp_eq_0_iff_not_bit)

lemma unat_add_no_overflow:
  "unat x + unat y < 2 ^ LENGTH('a) \<Longrightarrow> unat (x + y) = unat x + unat y" for x y :: "'a::len word"
  by (simp add: unat_word_ariths)

lemma unat_mult_no_overflow:
  "unat x * unat y < 2 ^ LENGTH('a) \<Longrightarrow> unat (x * y) = unat x * unat y" for x y :: "'a::len word"
  by (simp add: unat_word_ariths)

lemma unat_of_nat_small: "n < 2 ^ LENGTH('a) \<Longrightarrow> unat (of_nat n :: 'a::len word) = n"
  by (simp add: unsigned_of_nat take_bit_nat_eq_self)

lemma unat_digit: "k < 10 \<Longrightarrow> unat (digit k) = 48 + k"
  unfolding digit_def by (subst unat_add_no_overflow) (simp_all add: unat_of_nat_small)

lemma dec_nonempty [simp]: "dec n \<noteq> []"
  by (subst dec.simps) simp

lemma set_dec: "b \<in> set (dec n) \<Longrightarrow> 48 \<le> unat b \<and> unat b \<le> 57"
proof (induction n rule: dec.induct)
  case (1 n)
  show ?case
  proof (cases "n < 10")
    case True
    then show ?thesis using "1.prems" by (subst (asm) dec.simps) (simp add: unat_digit)
  next
    case False
    have "n mod 10 < 10" by simp
    then show ?thesis using "1.prems" "1.IH" [OF False] False by (subst (asm) dec.simps) (auto simp: unat_digit)
  qed
qed

lemma foldl_dec: "foldl (\<lambda>acc d. acc * 10 + (unat d - 48)) 0 (dec n) = n"
proof (induction n rule: dec.induct)
  case (1 n)
  show ?case
  proof (cases "n < 10")
    case False
    have "n mod 10 < 10" by simp
    then show ?thesis using "1.IH" [OF False] False by (subst dec.simps) (simp add: unat_digit)
  qed (subst dec.simps, simp add: unat_digit)
qed

lemma add_mod_inj:
  fixes i j n p :: nat
  assumes "i < n" "j < n"
  shows "(p + i) mod n = (p + j) mod n \<longleftrightarrow> i = j"
proof
  assume eq: "(p + i) mod n = (p + j) mod n"
  show "i = j"
  proof (cases "i \<le> j")
    case True
    then have "n dvd j - i" using eq mod_eq_dvd_iff_nat [of "p + i" "p + j" n] by simp
    with assms(2) True show ?thesis
      by (meson dvd_imp_le le_neq_implies_less less_imp_diff_less linorder_not_le zero_less_diff)
  next
    case False
    then have "n dvd i - j" using eq mod_eq_dvd_iff_nat [of "p + j" "p + i" n] by simp
    with assms(1) False show ?thesis by (meson dvd_imp_le less_imp_diff_less linorder_not_le zero_less_diff)
  qed
qed simp

end
