(* ===== verification/Boot_Info.thy ===== *)
theory Boot_Info
  imports Prelude "HOL-Library.Multiset"
begin

text \<open>
  The boot protocol's memory map (\<^verbatim>\<open>shared/src/memory.rs\<close>, \<^verbatim>\<open>shared/src/boot_info.rs\<close>):
  a fixed array of 512 regions and a count of the valid ones, filled by the bootloader, sorted,
  merged and re-tagged before the kernel reads it. The array is a list of length 512, so an
  index is always compared with the count as the code does.
\<close>

datatype MemoryRegionKind =
    Usable | Reserved | AcpiReclaimable | AcpiNvs | KernelAndModules | Bootloader
  | Framebuffer | PageTables

record MemoryRegion =
  mr_base :: u64
  mr_size :: u64
  mr_kind :: MemoryRegionKind

definition region_empty :: MemoryRegion where
  "region_empty = \<lparr>mr_base = 0, mr_size = 0, mr_kind = Reserved\<rparr>"

definition region_end :: "MemoryRegion \<Rightarrow> u64" where
  "region_end r = mr_base r + mr_size r"

definition MAX_MEMORY_REGIONS :: nat where
  "MAX_MEMORY_REGIONS = 512"

record MemoryMap =
  mm_regions :: "MemoryRegion list"
  mm_count :: nat

definition map_empty :: MemoryMap where
  "map_empty = \<lparr>mm_regions = replicate MAX_MEMORY_REGIONS region_empty, mm_count = 0\<rparr>"

definition add_region :: "MemoryMap \<Rightarrow> MemoryRegion \<Rightarrow> MemoryMap \<times> bool" where
  "add_region mm r =
     (if mm_count mm \<ge> MAX_MEMORY_REGIONS then (mm, False)
      else (mm\<lparr>mm_regions := (mm_regions mm)[mm_count mm := r], mm_count := mm_count mm + 1\<rparr>, True))"

definition map_iter :: "MemoryMap \<Rightarrow> MemoryRegion list" where
  "map_iter mm = take (mm_count mm) (mm_regions mm)"

definition total_usable_memory :: "MemoryMap \<Rightarrow> u64" where
  "total_usable_memory mm = sum_list (map mr_size (filter (\<lambda>r. mr_kind r = Usable) (map_iter mm)))"

text \<open>
  The inner \<^verbatim>\<open>while\<close> of \<^verbatim>\<open>sort_regions\<close>: \<^verbatim>\<open>j\<close> counts down while the element before it
  is larger, each such element moving one place up; the key is stored where the loop stops.
\<close>

fun sort_shift :: "MemoryRegion \<Rightarrow> nat \<Rightarrow> MemoryRegion list \<Rightarrow> MemoryRegion list" where
  "sort_shift key 0 rs = rs[0 := key]"
| "sort_shift key (Suc j) rs =
     (if mr_base (rs ! j) > mr_base key then sort_shift key j (rs[Suc j := rs ! j])
      else rs[Suc j := key])"

definition sort_regions :: "MemoryMap \<Rightarrow> MemoryMap" where
  "sort_regions mm =
     mm\<lparr>mm_regions := fold (\<lambda>i rs. sort_shift (rs ! i) i rs) [1..<mm_count mm] (mm_regions mm)\<rparr>"

definition merge_step :: "nat \<Rightarrow> nat \<times> MemoryRegion list \<Rightarrow> nat \<times> MemoryRegion list" where
  "merge_step rd = (\<lambda>(wr, rs).
     if mr_kind (rs ! wr) = mr_kind (rs ! rd) \<and> region_end (rs ! wr) = mr_base (rs ! rd)
     then (wr, rs[wr := (rs ! wr)\<lparr>mr_size := mr_size (rs ! wr) + mr_size (rs ! rd)\<rparr>])
     else (wr + 1, rs[wr + 1 := rs ! rd]))"

definition merge_adjacent :: "MemoryMap \<Rightarrow> MemoryMap" where
  "merge_adjacent mm =
     (if mm_count mm < 2 then mm
      else let (wr, rs) = fold merge_step [1..<mm_count mm] (0, mm_regions mm)
           in mm\<lparr>mm_regions := rs, mm_count := wr + 1\<rparr>)"

text \<open>
  \<^verbatim>\<open>retag_range\<close> rebuilds the array: \<^const>\<open>add_region\<close> on the fresh array is the code's
  \<^verbatim>\<open>if new_count < MAX_MEMORY_REGIONS\<close> store, its result discarded.
\<close>

definition retag_one ::
  "u64 \<Rightarrow> u64 \<Rightarrow> MemoryRegionKind \<Rightarrow> MemoryMap \<Rightarrow> MemoryRegion \<Rightarrow> MemoryMap" where
  "retag_one range_base range_end new_kind new r =
     (let r_end = mr_base r + mr_size r in
      if mr_base r \<ge> range_end \<or> r_end \<le> range_base then fst (add_region new r)
      else
        let new1 = (if mr_base r < range_base
                    then fst (add_region new
                      \<lparr>mr_base = mr_base r, mr_size = range_base - mr_base r, mr_kind = mr_kind r\<rparr>)
                    else new);
            ovl_start = (if mr_base r > range_base then mr_base r else range_base);
            ovl_end = (if r_end < range_end then r_end else range_end);
            new2 = fst (add_region new1
                      \<lparr>mr_base = ovl_start, mr_size = ovl_end - ovl_start, mr_kind = new_kind\<rparr>)
        in if r_end > range_end
           then fst (add_region new2
                      \<lparr>mr_base = range_end, mr_size = r_end - range_end, mr_kind = mr_kind r\<rparr>)
           else new2)"

definition retag_range :: "MemoryMap \<Rightarrow> u64 \<Rightarrow> u64 \<Rightarrow> MemoryRegionKind \<Rightarrow> MemoryMap" where
  "retag_range mm range_base range_size new_kind =
     (if range_size = 0 then mm
      else foldl (retag_one range_base (range_base + range_size) new_kind) map_empty (map_iter mm))"


subsection \<open>Well-formed maps\<close>

definition map_wf :: "MemoryMap \<Rightarrow> bool" where
  "map_wf mm \<longleftrightarrow> length (mm_regions mm) = MAX_MEMORY_REGIONS \<and> mm_count mm \<le> MAX_MEMORY_REGIONS"

lemma map_wf_empty [simp, inv_intros]: "map_wf map_empty"
  by (simp add: map_wf_def map_empty_def)

lemma map_iter_empty [simp]: "map_iter map_empty = []"
  by (simp add: map_iter_def map_empty_def)

lemma length_map_iter: "map_wf mm \<Longrightarrow> length (map_iter mm) = mm_count mm"
  by (simp add: map_wf_def map_iter_def)

lemma add_region_wf [inv_intros]: "map_wf mm \<Longrightarrow> map_wf (fst (add_region mm r))"
  by (auto simp: map_wf_def add_region_def)

lemma map_iter_add_region:
  assumes "map_wf mm"
  shows "map_iter (fst (add_region mm r)) =
     (if mm_count mm < MAX_MEMORY_REGIONS then map_iter mm @ [r] else map_iter mm)"
  using assms
  by (auto simp: map_wf_def add_region_def map_iter_def take_Suc_conv_app_nth)


subsection \<open>Sorting\<close>

lemma length_sort_shift [simp]: "length (sort_shift key j rs) = length rs"
  by (induction j arbitrary: rs) auto

lemma sort_shift_drop: "j < length rs \<Longrightarrow> drop (Suc j) (sort_shift key j rs) = drop (Suc j) rs"
proof (induction j arbitrary: rs)
  case (Suc j)
  have "drop (Suc (Suc j)) (sort_shift key j (rs[Suc j := rs ! j]))
      = drop (Suc 0) (drop (Suc j) (sort_shift key j (rs[Suc j := rs ! j])))"
    by simp
  also have "\<dots> = drop (Suc 0) (drop (Suc j) (rs[Suc j := rs ! j]))"
    using Suc by simp
  finally show ?case by simp
qed simp

lemma sort_shift_mset:
  "j < length rs \<Longrightarrow> mset (take (Suc j) (sort_shift key j rs)) = add_mset key (mset (take j rs))"
proof (induction j arbitrary: rs)
  case 0
  then show ?case by (cases rs) auto
next
  case (Suc j)
  show ?case
  proof (cases "mr_base (rs ! j) > mr_base key")
    case True
    let ?rs = "rs[Suc j := rs ! j]"
    have "drop (Suc j) (sort_shift key j ?rs) = drop (Suc j) ?rs"
      using Suc.prems by (simp add: sort_shift_drop)
    then have "sort_shift key j ?rs ! Suc j = rs ! j"
      using Suc.prems nth_via_drop by (metis Cons_nth_drop_Suc length_list_update nth_list_update_eq)
    with Suc.prems have "mset (take (Suc (Suc j)) (sort_shift key j ?rs))
        = add_mset (rs ! j) (mset (take (Suc j) (sort_shift key j ?rs)))"
      by (simp add: take_Suc_conv_app_nth)
    with Suc True show ?thesis
      by (simp add: take_Suc_conv_app_nth)
  next
    case False
    with Suc.prems show ?thesis by (simp add: take_Suc_conv_app_nth)
  qed
qed

lemma sort_shift_last:
  assumes "Suc j < length rs"
  shows "sort_shift key j rs ! Suc j = rs ! Suc j"
proof -
  have "sort_shift key j rs ! Suc j = drop (Suc j) (sort_shift key j rs) ! 0"
    using assms by simp
  also have "\<dots> = rs ! Suc j"
    using assms by (subst sort_shift_drop) simp_all
  finally show ?thesis .
qed

lemma sort_shift_sorted:
  "j < length rs \<Longrightarrow> sorted (map mr_base (take j rs)) \<Longrightarrow>
   sorted (map mr_base (take (Suc j) (sort_shift key j rs)))"
proof (induction j arbitrary: rs)
  case 0
  then show ?case by (cases rs) auto
next
  case (Suc j)
  have pre: "sorted (map mr_base (take j rs))" "\<forall>r \<in> set (take j rs). mr_base r \<le> mr_base (rs ! j)"
    using Suc.prems by (auto simp: take_Suc_conv_app_nth sorted_append)
  show ?case
  proof (cases "mr_base (rs ! j) > mr_base key")
    case True
    let ?rs = "rs[Suc j := rs ! j]"
    have "set (take (Suc j) (sort_shift key j ?rs)) = insert key (set (take j rs))"
      using sort_shift_mset [of j ?rs key] Suc.prems
      by (metis Suc_lessD length_list_update lessI list.set_map mset_eq_setD set_mset_add_mset_insert
          set_mset_mset take_update_cancel less_imp_le_nat)
    moreover have "sorted (map mr_base (take (Suc j) (sort_shift key j ?rs)))"
      using Suc.IH [of ?rs] Suc.prems pre by simp
    ultimately show ?thesis
      using True pre Suc.prems
      by (auto simp: take_Suc_conv_app_nth [of "Suc j"] sorted_append sort_shift_last)
  next
    case False
    with Suc.prems pre show ?thesis
      by (fastforce simp: take_Suc_conv_app_nth sorted_append)
  qed
qed

lemma sort_loop:
  assumes "n \<le> length rs"
  shows "let rs' = fold (\<lambda>i rs. sort_shift (rs ! i) i rs) [1..<n] rs in
     length rs' = length rs \<and> drop n rs' = drop n rs \<and> mset (take n rs') = mset (take n rs)
     \<and> sorted (map mr_base (take n rs'))"
  using assms
proof (induction n)
  case 0
  then show ?case by simp
next
  case (Suc n)
  show ?case
  proof (cases "n = 0")
    case True
    with Suc.prems show ?thesis by (cases rs) simp_all
  next
    case False
    define rs1 where "rs1 = fold (\<lambda>i rs. sort_shift (rs ! i) i rs) [1..<n] rs"
    have IH: "length rs1 = length rs" "drop n rs1 = drop n rs" "mset (take n rs1) = mset (take n rs)"
      "sorted (map mr_base (take n rs1))"
      using Suc by (simp_all add: rs1_def Let_def)
    have n: "n < length rs1" using Suc.prems IH by simp
    have key: "rs1 ! n = rs ! n"
      using IH(2) n Suc.prems by (metis Suc_le_lessD nth_via_drop Cons_nth_drop_Suc)
    have "fold (\<lambda>i rs. sort_shift (rs ! i) i rs) [1..<Suc n] rs = sort_shift (rs1 ! n) n rs1"
      using False by (simp add: rs1_def)
    moreover have "drop (Suc n) rs1 = drop (Suc n) rs"
      using IH(2) by (metis drop_drop plus_1_eq_Suc)
    ultimately show ?thesis
      using n IH key Suc.prems
      by (simp add: Let_def sort_shift_drop sort_shift_mset sort_shift_sorted take_Suc_conv_app_nth [of n rs])
  qed
qed

lemma map_wf_sort_regions [inv_intros]: "map_wf mm \<Longrightarrow> map_wf (sort_regions mm)"
  using sort_loop [of "mm_count mm" "mm_regions mm"]
  by (simp add: map_wf_def sort_regions_def Let_def)

lemma sort_regions_correct:
  assumes "map_wf mm"
  shows "mset (map_iter (sort_regions mm)) = mset (map_iter mm)
    \<and> sorted (map mr_base (map_iter (sort_regions mm)))
    \<and> drop (mm_count mm) (mm_regions (sort_regions mm)) = drop (mm_count mm) (mm_regions mm)"
  using assms sort_loop [of "mm_count mm" "mm_regions mm"]
  by (simp add: map_wf_def sort_regions_def map_iter_def Let_def)


subsection \<open>What a map says of an address\<close>

text \<open>
  \<^verbatim>\<open>kinds_at rs a\<close> lists the kinds of the regions that contain address \<^verbatim>\<open>a\<close>, in the order of
  the array. Merging and re-tagging are specified by what they do to it.
\<close>

definition covers :: "u64 \<Rightarrow> MemoryRegion \<Rightarrow> bool" where
  "covers a r \<longleftrightarrow> unat (mr_base r) \<le> unat a \<and> unat a < unat (mr_base r) + unat (mr_size r)"

definition kinds_at :: "MemoryRegion list \<Rightarrow> u64 \<Rightarrow> MemoryRegionKind list" where
  "kinds_at rs a = map mr_kind (filter (covers a) rs)"

definition no_wrap :: "MemoryRegion \<Rightarrow> bool" where
  "no_wrap r \<longleftrightarrow> unat (mr_base r) + unat (mr_size r) < 2 ^ 64"

lemma kinds_at_Nil [simp]: "kinds_at [] a = []"
  and kinds_at_append [simp]: "kinds_at (rs @ rs') a = kinds_at rs a @ kinds_at rs' a"
  and kinds_at_Cons: "kinds_at (r # rs) a = (if covers a r then mr_kind r # kinds_at rs a else kinds_at rs a)"
  by (simp_all add: kinds_at_def)

lemma unat_region_end: "no_wrap r \<Longrightarrow> unat (region_end r) = unat (mr_base r) + unat (mr_size r)"
  by (simp add: no_wrap_def region_end_def unat_add_no_overflow)

lemma merge_two:
  assumes "no_wrap w" "no_wrap r" "mr_kind w = mr_kind r" "region_end w = mr_base r"
  defines "m \<equiv> w\<lparr>mr_size := mr_size w + mr_size r\<rparr>"
  shows "no_wrap m \<and> kinds_at [m] a = kinds_at [w, r] a"
proof -
  have base: "unat (mr_base r) = unat (mr_base w) + unat (mr_size w)"
    using assms(1,4) unat_region_end [of w] by simp
  then have "unat (mr_size w + mr_size r) = unat (mr_size w) + unat (mr_size r)"
    using assms(2) by (intro unat_add_no_overflow) (simp add: no_wrap_def)
  with base assms(2,3) show ?thesis
    by (auto simp: m_def no_wrap_def covers_def kinds_at_Cons)
qed

lemma merge_loop:
  assumes "1 \<le> n" "n \<le> length rs" "\<forall>r \<in> set (take n rs). no_wrap r"
  shows "\<exists>wr rs'. fold merge_step [1..<n] (0, rs) = (wr, rs') \<and> wr < n \<and> length rs' = length rs
     \<and> drop n rs' = drop n rs \<and> (\<forall>r \<in> set (take (wr + 1) rs'). no_wrap r)
     \<and> (\<forall>a. kinds_at (take (wr + 1) rs') a = kinds_at (take n rs) a)"
  using assms
proof (induction n rule: dec_induct)
  case base
  then show ?case by (cases rs) auto
next
  case (step n)
  have sub: "\<forall>r \<in> set (take n rs). no_wrap r" "no_wrap (rs ! n)"
    using step.prems by (auto simp: take_Suc_conv_app_nth)
  then obtain wr rs' where IH: "fold merge_step [1..<n] (0, rs) = (wr, rs')" "wr < n"
    "length rs' = length rs" "drop n rs' = drop n rs" "\<forall>r \<in> set (take (wr + 1) rs'). no_wrap r"
    "\<forall>a. kinds_at (take (wr + 1) rs') a = kinds_at (take n rs) a"
    using step by auto
  have n: "n < length rs'" using step.prems IH(3) by simp
  have rd: "rs' ! n = rs ! n"
    using IH(4) n step.prems by (metis Suc_le_lessD nth_via_drop Cons_nth_drop_Suc)
  have drops: "drop (Suc n) rs' = drop (Suc n) rs"
    using IH(4) by (metis drop_drop plus_1_eq_Suc)
  have fold: "fold merge_step [1..<Suc n] (0, rs) = merge_step n (wr, rs')"
    using IH(1) step.hyps by simp
  have wr: "take (wr + 1) rs' = take wr rs' @ [rs' ! wr]" and nw: "no_wrap (rs' ! wr)"
    using IH(2,5) n by (simp_all add: take_Suc_conv_app_nth)
  have goal: "kinds_at (take (Suc n) rs) a = kinds_at (take wr rs') a @ kinds_at [rs' ! wr, rs' ! n] a" for a
    using IH(6)[rule_format, of a] n IH(3) rd wr
    by (simp add: take_Suc_conv_app_nth kinds_at_Cons split: if_splits)
  show ?case
  proof (cases "mr_kind (rs' ! wr) = mr_kind (rs' ! n) \<and> region_end (rs' ! wr) = mr_base (rs' ! n)")
    case True
    let ?m = "(rs' ! wr)\<lparr>mr_size := mr_size (rs' ! wr) + mr_size (rs' ! n)\<rparr>"
    have m: "no_wrap ?m \<and> (\<forall>a. kinds_at [?m] a = kinds_at [rs' ! wr, rs' ! n] a)"
      using merge_two [OF nw, of "rs' ! n"] True sub(2) rd by simp
    have "fold merge_step [1..<Suc n] (0, rs) = (wr, rs'[wr := ?m])"
      using fold True by (simp add: merge_step_def)
    moreover have "take (wr + 1) (rs'[wr := ?m]) = take wr rs' @ [?m]"
      using IH(2) n by (simp add: take_Suc_conv_app_nth)
    ultimately show ?thesis
      using m goal IH(2,3,5) drops n wr by auto
  next
    case False
    have "fold merge_step [1..<Suc n] (0, rs) = (wr + 1, rs'[wr + 1 := rs' ! n])"
      using fold False by (simp add: merge_step_def)
    moreover have "take (wr + 1 + 1) (rs'[wr + 1 := rs' ! n]) = take wr rs' @ [rs' ! wr, rs' ! n]"
      using IH(2) n by (simp add: take_Suc_conv_app_nth)
    ultimately show ?thesis
      using goal IH(2,3,5) drops n wr sub(2) rd by auto
  qed
qed

lemma merge_adjacent_kinds:
  assumes "map_wf mm" "\<forall>r \<in> set (map_iter mm). no_wrap r"
  shows "kinds_at (map_iter (merge_adjacent mm)) a = kinds_at (map_iter mm) a"
    and "mm_count (merge_adjacent mm) \<le> mm_count mm"
    and "map_wf (merge_adjacent mm)"
proof -
  have "kinds_at (map_iter (merge_adjacent mm)) a = kinds_at (map_iter mm) a
     \<and> mm_count (merge_adjacent mm) \<le> mm_count mm \<and> map_wf (merge_adjacent mm)"
  proof (cases "mm_count mm < 2")
    case True
    with assms(1) show ?thesis by (simp add: merge_adjacent_def)
  next
    case False
    then show ?thesis
      using assms merge_loop [of "mm_count mm" "mm_regions mm"]
      by (auto simp: merge_adjacent_def map_wf_def map_iter_def)
  qed
  then show "kinds_at (map_iter (merge_adjacent mm)) a = kinds_at (map_iter mm) a"
    and "mm_count (merge_adjacent mm) \<le> mm_count mm"
    and "map_wf (merge_adjacent mm)" by simp_all
qed


subsection \<open>Re-tagging\<close>

text \<open>The pieces \<^const>\<open>retag_one\<close> stores for one region, in order.\<close>

definition retag_pieces :: "u64 \<Rightarrow> u64 \<Rightarrow> MemoryRegionKind \<Rightarrow> MemoryRegion \<Rightarrow> MemoryRegion list" where
  "retag_pieces rb re k r =
     (if mr_base r \<ge> re \<or> region_end r \<le> rb then [r]
      else (if mr_base r < rb then [\<lparr>mr_base = mr_base r, mr_size = rb - mr_base r, mr_kind = mr_kind r\<rparr>] else [])
        @ [\<lparr>mr_base = max (mr_base r) rb,
             mr_size = min (region_end r) re - max (mr_base r) rb, mr_kind = k\<rparr>]
        @ (if region_end r > re then [\<lparr>mr_base = re, mr_size = region_end r - re, mr_kind = mr_kind r\<rparr>] else []))"

lemma max_min_code:
  "(if (x::u64) > y then x else y) = max x y" "(if (x::u64) < y then x else y) = min x y"
  by (auto simp: max_def min_def)

lemma add_regions_iter:
  assumes "map_wf mm" "length (map_iter mm @ rs) \<le> MAX_MEMORY_REGIONS"
  shows "map_wf (foldl (\<lambda>mm r. fst (add_region mm r)) mm rs)
    \<and> map_iter (foldl (\<lambda>mm r. fst (add_region mm r)) mm rs) = map_iter mm @ rs"
  using assms
proof (induction rs arbitrary: mm)
  case (Cons r rs)
  have "mm_count mm < MAX_MEMORY_REGIONS"
    using Cons.prems by (simp add: length_map_iter)
  then have "map_iter (fst (add_region mm r)) = map_iter mm @ [r]"
    using Cons.prems(1) by (simp add: map_iter_add_region)
  with Cons show ?case by (simp add: add_region_wf)
qed simp

lemma retag_one_pieces:
  "retag_one rb re k mm r = foldl (\<lambda>mm r. fst (add_region mm r)) mm (retag_pieces rb re k r)"
  by (simp add: retag_one_def retag_pieces_def region_end_def Let_def max_min_code)

lemma retag_range_iter:
  assumes "sz \<noteq> 0" "length (concat (map (retag_pieces rb (rb + sz) k) (map_iter mm))) \<le> MAX_MEMORY_REGIONS"
  shows "map_iter (retag_range mm rb sz k) = concat (map (retag_pieces rb (rb + sz) k) (map_iter mm))"
proof -
  have "foldl (retag_one rb (rb + sz) k) m rs
      = foldl (\<lambda>mm r. fst (add_region mm r)) m (concat (map (retag_pieces rb (rb + sz) k) rs))" for m rs
    by (induction rs arbitrary: m) (simp_all add: retag_one_pieces)
  with assms show ?thesis
    by (simp add: retag_range_def add_regions_iter)
qed

lemma unat_diff_le: "y \<le> x \<Longrightarrow> unat (x - y) = unat x - unat y" for x y :: u64
  by (simp add: unat_sub)

lemma retag_pieces_kinds:
  assumes "no_wrap r" "rb < re"
  shows "kinds_at (retag_pieces rb re k r) a =
    map (\<lambda>x. if rb \<le> a \<and> a < re then k else x) (kinds_at [r] a)"
proof -
  have e: "unat (region_end r) = unat (mr_base r) + unat (mr_size r)"
    using assms(1) by (rule unat_region_end)
  note nat_view = word_le_nat_alt word_less_nat_alt
  consider "mr_base r \<ge> re \<or> region_end r \<le> rb" | "mr_base r < re" "rb < region_end r" by fastforce
  then show ?thesis
  proof cases
    case 1
    then show ?thesis
      using e by (auto simp: retag_pieces_def kinds_at_Cons covers_def nat_view)
  next
    case 2
    let ?lo = "max (mr_base r) rb" and ?hi = "min (region_end r) re"
    have lohi: "?lo \<le> ?hi" "mr_base r \<le> region_end r"
      using 2 assms(2) e by (auto simp: nat_view max_def min_def)
    have "unat (?hi - ?lo) = unat ?hi - unat ?lo" "mr_base r < rb \<Longrightarrow> unat (rb - mr_base r) = unat rb - unat (mr_base r)"
      "re < region_end r \<Longrightarrow> unat (region_end r - re) = unat (region_end r) - unat re"
      using lohi by (simp_all add: unat_diff_le)
    with 2 e lohi assms(2) show ?thesis
      by (auto simp: retag_pieces_def kinds_at_Cons covers_def nat_view max_def min_def split: if_splits)
  qed
qed

lemma retag_range_kinds:
  assumes "\<forall>r \<in> set (map_iter mm). no_wrap r" "rb < rb + sz"
    and "length (concat (map (retag_pieces rb (rb + sz) k) (map_iter mm))) \<le> MAX_MEMORY_REGIONS"
  shows "kinds_at (map_iter (retag_range mm rb sz k)) a =
    map (\<lambda>x. if rb \<le> a \<and> a < rb + sz then k else x) (kinds_at (map_iter mm) a)"
proof -
  have "kinds_at (concat (map (retag_pieces rb (rb + sz) k) rs)) a
      = map (\<lambda>x. if rb \<le> a \<and> a < rb + sz then k else x) (kinds_at rs a)"
    if "\<forall>r \<in> set rs. no_wrap r" for rs
    using that
  proof (induction rs)
    case (Cons r rs)
    have "kinds_at (r # rs) a = kinds_at [r] a @ kinds_at rs a" by (simp add: kinds_at_Cons)
    with Cons assms(2) show ?case by (simp add: retag_pieces_kinds)
  qed simp
  moreover have "sz \<noteq> 0" using assms(2) by auto
  ultimately show ?thesis
    using assms by (simp add: retag_range_iter)
qed

text \<open>A region splits only where an end of the range lies strictly inside it.\<close>

lemma length_retag_pieces:
  assumes "no_wrap r"
  shows "length (retag_pieces rb re k r) \<le> 1 + length (kinds_at [r] rb) + length (kinds_at [r] re)"
proof -
  have "covers rb r" if "mr_base r < rb" "rb < region_end r"
    using that unat_region_end [OF assms] by (auto simp: covers_def word_less_nat_alt)
  moreover have "covers re r" if "mr_base r < re" "re < region_end r"
    using that unat_region_end [OF assms] by (auto simp: covers_def word_less_nat_alt)
  ultimately show ?thesis by (auto simp: retag_pieces_def kinds_at_Cons not_le)
qed

lemma length_retag_all:
  assumes "\<forall>r \<in> set rs. no_wrap r"
  shows "length (concat (map (retag_pieces rb re k) rs))
    \<le> length rs + length (kinds_at rs rb) + length (kinds_at rs re)"
  using assms
proof (induction rs)
  case (Cons r rs)
  have "length (kinds_at (r # rs) x) = length (kinds_at [r] x) + length (kinds_at rs x)" for x
    by (simp add: kinds_at_Cons)
  with Cons length_retag_pieces [of r rb re k] show ?case by simp
qed simp


subsection \<open>Properties\<close>

definition boot_example :: MemoryMap where
  "boot_example = foldl (\<lambda>mm r. fst (add_region mm r)) map_empty
     [\<lparr>mr_base = 0x3000, mr_size = 0x1000, mr_kind = Usable\<rparr>,
      \<lparr>mr_base = 0x0, mr_size = 0x1000, mr_kind = Reserved\<rparr>,
      \<lparr>mr_base = 0x1000, mr_size = 0x2000, mr_kind = Usable\<rparr>]"

lemma boot_example_iter: "map_wf boot_example \<and> map_iter boot_example =
    [\<lparr>mr_base = 0x3000, mr_size = 0x1000, mr_kind = Usable\<rparr>,
     \<lparr>mr_base = 0x0, mr_size = 0x1000, mr_kind = Reserved\<rparr>,
     \<lparr>mr_base = 0x1000, mr_size = 0x2000, mr_kind = Usable\<rparr>]"
  unfolding boot_example_def
  using add_regions_iter [of map_empty "[\<lparr>mr_base = 0x3000, mr_size = 0x1000, mr_kind = Usable\<rparr>,
     \<lparr>mr_base = 0x0, mr_size = 0x1000, mr_kind = Reserved\<rparr>,
     \<lparr>mr_base = 0x1000, mr_size = 0x2000, mr_kind = Usable\<rparr>]"]
  by (simp add: MAX_MEMORY_REGIONS_def)

lemma boot_example_no_wrap: "\<forall>r \<in> set (map_iter boot_example). no_wrap r"
  by (simp add: boot_example_iter no_wrap_def)

text \<open>
  \<^verbatim>\<open>sort_regions\<close> (an in-place insertion sort) leaves the regions in ascending order of
  their base addresses, is a permutation of the regions of the map, does not touch the unused
  tail of the array and keeps the map well formed.
\<close>

theorem sort_regions_sorts:
  assumes "map_wf mm"
  shows "sorted (map mr_base (map_iter (sort_regions mm)))
    \<and> mset (map_iter (sort_regions mm)) = mset (map_iter mm)
    \<and> drop (mm_count mm) (mm_regions (sort_regions mm)) = drop (mm_count mm) (mm_regions mm)
    \<and> map_wf (sort_regions mm)"
  using sort_regions_correct [OF assms] map_wf_sort_regions [OF assms] by simp

theorem sort_regions_sorts_witness:
  "map_wf boot_example \<and> sorted (map mr_base (map_iter (sort_regions boot_example)))"
  using sort_regions_sorts [of boot_example] boot_example_iter by simp

text \<open>
  \<^verbatim>\<open>merge_adjacent\<close> changes the description of no address: for every address the kinds of the
  regions that contain it are the same before and after, in the same order, and the number of regions does not
  grow.
\<close>

theorem merge_adjacent_same_map:
  assumes "map_wf mm" "\<forall>r \<in> set (map_iter mm). no_wrap r"
  shows "(\<forall>a. kinds_at (map_iter (merge_adjacent mm)) a = kinds_at (map_iter mm) a)
    \<and> mm_count (merge_adjacent mm) \<le> mm_count mm \<and> map_wf (merge_adjacent mm)"
  using merge_adjacent_kinds [OF assms] by simp

theorem merge_adjacent_same_map_witness:
  "map_wf boot_example \<and> kinds_at (map_iter (merge_adjacent boot_example)) 0x1800 = [Usable]"
  using merge_adjacent_same_map [OF _ boot_example_no_wrap]
  by (simp add: boot_example_iter kinds_at_def covers_def)

text \<open>
  C14: \<^verbatim>\<open>retag_range\<close> gives the new kind to exactly the described addresses of the range: an address
  inside the range that some region contains gets the new kind, every other address
  keeps its kind, and none appears or disappears, provided the two cuts fit the array.
\<close>

theorem retag_range_exact:
  assumes "map_wf mm" "\<forall>r \<in> set (map_iter mm). no_wrap r" "rb < rb + sz"
    and "mm_count mm + length (kinds_at (map_iter mm) rb) + length (kinds_at (map_iter mm) (rb + sz))
           \<le> MAX_MEMORY_REGIONS"
  shows "kinds_at (map_iter (retag_range mm rb sz k)) a =
    map (\<lambda>x. if rb \<le> a \<and> a < rb + sz then k else x) (kinds_at (map_iter mm) a)"
  using assms retag_range_kinds [OF assms(2,3), of k a]
    length_retag_all [OF assms(2), of rb "rb + sz" k]
  by (simp add: length_map_iter)

theorem retag_range_exact_witness:
  "kinds_at (map_iter (retag_range boot_example 0x1800 0x100 KernelAndModules)) 0x1850 = [KernelAndModules]
    \<and> kinds_at (map_iter (retag_range boot_example 0x1800 0x100 KernelAndModules)) 0x1950 = [Usable]"
proof -
  have "mm_count boot_example = 3"
    using boot_example_iter length_map_iter [of boot_example] by simp
  then have "kinds_at (map_iter (retag_range boot_example 0x1800 0x100 KernelAndModules)) a =
    map (\<lambda>x. if 0x1800 \<le> a \<and> a < 0x1800 + 0x100 then KernelAndModules else x) (kinds_at (map_iter boot_example) a)" for a
    using boot_example_iter boot_example_no_wrap
    by (intro retag_range_exact) (simp_all add: kinds_at_def covers_def MAX_MEMORY_REGIONS_def)
  then show ?thesis by (simp add: boot_example_iter kinds_at_def covers_def)
qed

end
