(* ===== verification/Frame_Allocator.thy ===== *)
theory Frame_Allocator
  imports Boot_Info
begin

text \<open>
  The bitmap frame allocator (\<^verbatim>\<open>kernel/src/memory/frame_allocator.rs\<close>). The bitmap is the map
  from a byte index to its byte; the code reads and writes it only under
  \<^verbatim>\<open>frame_index < MAX_FRAMES\<close>, so that every index lies in the array of \<^verbatim>\<open>BITMAP_SIZE\<close>
  bytes. The counters are natural numbers: the decrement in \<^verbatim>\<open>mark_allocated\<close> is shown never
  to start from zero.
\<close>

definition PAGE_SIZE :: u64 where
  "PAGE_SIZE = 4096"

definition MAX_FRAMES :: nat where
  "MAX_FRAMES = 16 * 1024 * 1024 * 1024 div 4096"

record FrameAllocator =
  bitmap :: "nat \<Rightarrow> u8"
  total_frames :: nat
  free_frames :: nat
  next_free_hint :: nat

definition fa_new :: FrameAllocator where
  "fa_new = \<lparr>bitmap = (\<lambda>_. 0xFF), total_frames = 0, free_frames = 0, next_free_hint = 0\<rparr>"

definition mark_free :: "FrameAllocator \<Rightarrow> nat \<Rightarrow> FrameAllocator" where
  "mark_free fa frame_index =
     (if frame_index \<ge> MAX_FRAMES then fa
      else let byte = frame_index div 8; bt = frame_index mod 8 in
        if bitmap fa byte AND push_bit bt 1 \<noteq> 0
        then fa\<lparr>bitmap := (bitmap fa)(byte := bitmap fa byte AND NOT (push_bit bt 1)),
                free_frames := free_frames fa + 1\<rparr>
        else fa)"

definition mark_allocated :: "FrameAllocator \<Rightarrow> nat \<Rightarrow> FrameAllocator" where
  "mark_allocated fa frame_index =
     (if frame_index \<ge> MAX_FRAMES then fa
      else let byte = frame_index div 8; bt = frame_index mod 8 in
        if bitmap fa byte AND push_bit bt 1 = 0
        then fa\<lparr>bitmap := (bitmap fa)(byte := bitmap fa byte OR push_bit bt 1),
                free_frames := free_frames fa - 1\<rparr>
        else fa)"

definition is_free :: "FrameAllocator \<Rightarrow> nat \<Rightarrow> bool" where
  "is_free fa frame_index =
     (if frame_index \<ge> MAX_FRAMES then False
      else let byte = frame_index div 8; bt = frame_index mod 8 in
        bitmap fa byte AND push_bit bt 1 = 0)"

text \<open>Both search loops of \<^verbatim>\<open>allocate_frame\<close>: from the hint to the end, then from 0 to the hint.\<close>

definition take_frame :: "FrameAllocator \<Rightarrow> nat \<Rightarrow> FrameAllocator \<times> u64 option" where
  "take_frame fa i = ((mark_allocated fa i)\<lparr>next_free_hint := i + 1\<rparr>, Some (of_nat i * PAGE_SIZE))"

definition allocate_frame :: "FrameAllocator \<Rightarrow> FrameAllocator \<times> u64 option" where
  "allocate_frame fa =
     (let start = next_free_hint fa in
      case List.find (is_free fa) [start..<total_frames fa] of
        Some i \<Rightarrow> take_frame fa i
      | None \<Rightarrow>
          (case List.find (is_free fa) [0..<start] of
             Some i \<Rightarrow> take_frame fa i
           | None \<Rightarrow> (fa, None)))"

definition free_frame :: "FrameAllocator \<Rightarrow> u64 \<Rightarrow> FrameAllocator" where
  "free_frame fa physical_addr =
     (let frame_index = unat (physical_addr div PAGE_SIZE);
          fa' = mark_free fa frame_index
      in if frame_index < next_free_hint fa' then fa'\<lparr>next_free_hint := frame_index\<rparr> else fa')"

definition init_frame :: "nat \<Rightarrow> FrameAllocator \<Rightarrow> FrameAllocator" where
  "init_frame frame fa =
     (if frame < MAX_FRAMES
      then let fa' = mark_free fa frame
           in if frame \<ge> total_frames fa' then fa'\<lparr>total_frames := frame + 1\<rparr> else fa'
      else fa)"

definition init_region :: "FrameAllocator \<Rightarrow> MemoryRegion \<Rightarrow> FrameAllocator" where
  "init_region fa r =
     (if mr_kind r \<noteq> Usable then fa
      else if mr_base r < 0x100000 then fa
      else let start_frame = unat (mr_base r div PAGE_SIZE);
               end_frame = unat ((mr_base r + mr_size r) div PAGE_SIZE)
           in fold init_frame [start_frame..<end_frame] fa)"

definition frame_init :: "FrameAllocator \<Rightarrow> MemoryMap \<Rightarrow> FrameAllocator" where
  "frame_init fa mm = foldl init_region fa (map_iter mm)"

text \<open>
  The \<^verbatim>\<open>'outer\<close> loop of \<^verbatim>\<open>allocate_contiguous_frames\<close>, from \<^verbatim>\<open>start\<close> on.
\<close>

function contiguous_from :: "FrameAllocator \<Rightarrow> nat \<Rightarrow> nat \<Rightarrow> FrameAllocator \<times> u64 option" where
  "contiguous_from fa n start =
     (if start < total_frames fa then
        if start + n > total_frames fa then (fa, None)
        else if list_all (\<lambda>off. is_free fa (start + off)) [0..<n]
        then (fold (\<lambda>off fa. mark_allocated fa (start + off)) [0..<n] fa,
              Some (of_nat start * PAGE_SIZE))
        else contiguous_from fa n (start + 1)
      else (fa, None))"
  by pat_completeness auto
termination
  by (relation "measure (\<lambda>(fa, n, start). total_frames fa - start)") auto

declare contiguous_from.simps [simp del]

definition allocate_contiguous_frames :: "FrameAllocator \<Rightarrow> nat \<Rightarrow> FrameAllocator \<times> u64 option" where
  "allocate_contiguous_frames fa n = contiguous_from fa n 0"


subsection \<open>Bits of the bitmap\<close>

definition free_set :: "FrameAllocator \<Rightarrow> nat set" where
  "free_set fa = {i. is_free fa i}"

lemma MAX_FRAMES_eq: "MAX_FRAMES = 4194304"
  by (simp add: MAX_FRAMES_def)

lemma is_free_bit: "is_free fa i \<longleftrightarrow> i < MAX_FRAMES \<and> \<not> bit (bitmap fa (i div 8)) (i mod 8)"
  by (simp add: is_free_def Let_def and_exp_eq_0_iff_not_bit not_le)

lemma is_free_less: "is_free fa i \<Longrightarrow> i < MAX_FRAMES"
  by (simp add: is_free_bit)

lemma finite_free_set [simp]: "finite (free_set fa)"
  by (rule finite_subset [of _ "{..<MAX_FRAMES}"]) (auto simp: free_set_def is_free_less)

lemma div_mod_eq_iff: "i div 8 = j div 8 \<and> i mod 8 = j mod 8 \<longleftrightarrow> i = j" for i j :: nat
  by (metis div_mult_mod_eq)

lemma is_free_mark_free [frame_simps]:
  "is_free (mark_free fa i) j \<longleftrightarrow> (if j = i then i < MAX_FRAMES else is_free fa j)"
  using div_mod_eq_iff [of i j]
  by (auto simp: mark_free_def is_free_bit Let_def and_exp_eq_0_iff_not_bit bit_simps)

lemma is_free_mark_allocated [frame_simps]:
  "is_free (mark_allocated fa i) j \<longleftrightarrow> j \<noteq> i \<and> is_free fa j"
  using div_mod_eq_iff [of i j]
  by (auto simp: mark_allocated_def is_free_bit Let_def and_exp_eq_0_iff_not_bit bit_simps)

lemma free_set_mark_free [frame_simps]:
  "free_set (mark_free fa i) = (if i < MAX_FRAMES then insert i (free_set fa) else free_set fa)"
  by (auto simp: free_set_def is_free_mark_free is_free_less)

lemma free_set_mark_allocated [frame_simps]: "free_set (mark_allocated fa i) = free_set fa - {i}"
  by (auto simp: free_set_def is_free_mark_allocated)

lemma total_mark [simp, frame_simps]:
  "total_frames (mark_free fa i) = total_frames fa"
  "total_frames (mark_allocated fa i) = total_frames fa"
  "next_free_hint (mark_free fa i) = next_free_hint fa"
  "next_free_hint (mark_allocated fa i) = next_free_hint fa"
  by (simp_all add: mark_free_def mark_allocated_def Let_def)

lemma free_frames_mark_free:
  "free_frames (mark_free fa i) =
     (if i < MAX_FRAMES \<and> i \<notin> free_set fa then free_frames fa + 1 else free_frames fa)"
  by (simp add: mark_free_def free_set_def is_free_bit Let_def and_exp_eq_0_iff_not_bit)

lemma free_frames_mark_allocated:
  "free_frames (mark_allocated fa i) =
     (if i \<in> free_set fa then free_frames fa - 1 else free_frames fa)"
  by (simp add: mark_allocated_def free_set_def is_free_bit Let_def and_exp_eq_0_iff_not_bit)

lemma free_set_hint [simp]: "free_set (fa\<lparr>next_free_hint := h\<rparr>) = free_set fa"
  and free_set_total [simp]: "free_set (fa\<lparr>total_frames := t\<rparr>) = free_set fa"
  by (auto simp: free_set_def is_free_bit)


subsection \<open>The invariant\<close>

text \<open>
  The counter is the number of clear bits, free frames lie below \<^verbatim>\<open>total_frames\<close>, and no frame
  below the search hint is free.
\<close>

definition fa_inv :: "FrameAllocator \<Rightarrow> bool" where
  "fa_inv fa \<longleftrightarrow> free_frames fa = card (free_set fa) \<and> free_set fa \<subseteq> {..<total_frames fa}
     \<and> total_frames fa \<le> MAX_FRAMES \<and> next_free_hint fa \<le> total_frames fa
     \<and> (\<forall>i \<in> free_set fa. next_free_hint fa \<le> i)"

lemma free_set_new: "free_set fa_new = {}"
proof -
  have "bit (0xFF :: u8) b" if "b < 8" for b
  proof -
    have "b = 0 \<or> b = 1 \<or> b = 2 \<or> b = 3 \<or> b = 4 \<or> b = 5 \<or> b = 6 \<or> b = 7" using that by auto
    then show ?thesis by auto
  qed
  then show ?thesis
    by (auto simp: free_set_def is_free_bit fa_new_def)
qed

lemma fa_inv_new [inv_intros]: "fa_inv fa_new"
  unfolding fa_inv_def free_set_new by (simp add: fa_new_def)

text \<open>The decrement of \<^verbatim>\<open>mark_allocated\<close> never starts from zero.\<close>

lemma mark_allocated_no_underflow: "fa_inv fa \<Longrightarrow> i \<in> free_set fa \<Longrightarrow> 0 < free_frames fa"
  by (auto simp: fa_inv_def card_gt_0_iff)

lemma fa_inv_mark_allocated [inv_intros]: "fa_inv fa \<Longrightarrow> fa_inv (mark_allocated fa i)"
  by (auto simp: fa_inv_def free_set_mark_allocated free_frames_mark_allocated card_Diff_singleton)

lemma fa_inv_take_frame:
  assumes "fa_inv fa" "i \<in> free_set fa" "\<forall>j \<in> free_set fa. i \<le> j"
  shows "fa_inv (fst (take_frame fa i))"
proof -
  have "fa_inv (mark_allocated fa i)" using assms(1) by (rule fa_inv_mark_allocated)
  moreover have "i < total_frames fa" using assms by (auto simp: fa_inv_def)
  moreover have "\<forall>j \<in> free_set fa - {i}. i + 1 \<le> j" using assms(3) by force
  ultimately show ?thesis
    by (auto simp: take_frame_def fa_inv_def free_set_mark_allocated)
qed

text \<open>Under the invariant the first loop finds the lowest free frame and the second finds none.\<close>

lemma allocate_frame_cases:
  assumes "fa_inv fa"
  shows "allocate_frame fa =
    (if free_set fa = {} then (fa, None) else take_frame fa (Min (free_set fa)))"
proof (cases "free_set fa = {}")
  case True
  then show ?thesis
    by (auto simp: allocate_frame_def free_set_def find_None_iff Let_def split: option.splits
        dest: find_upt_Some_iff [THEN iffD1])
next
  case False
  define i where "i = Min (free_set fa)"
  have i: "i \<in> free_set fa" "\<forall>j \<in> free_set fa. i \<le> j"
    using False by (simp_all add: i_def)
  then have "List.find (is_free fa) [next_free_hint fa..<total_frames fa] = Some i"
    using assms by (auto simp: find_upt_Some_iff fa_inv_def free_set_def)
  with False show ?thesis
    by (simp add: allocate_frame_def Let_def i_def)
qed

lemma fa_inv_allocate_frame [inv_intros]: "fa_inv fa \<Longrightarrow> fa_inv (fst (allocate_frame fa))"
  by (simp add: allocate_frame_cases fa_inv_take_frame)


subsection \<open>Addresses\<close>

definition frame_addr :: "nat \<Rightarrow> u64" where
  "frame_addr i = of_nat i * PAGE_SIZE"

definition frame_of :: "u64 \<Rightarrow> nat" where
  "frame_of a = unat (a div PAGE_SIZE)"

lemma unat_frame_addr: "i < MAX_FRAMES \<Longrightarrow> unat (frame_addr i) = i * 4096"
  by (simp add: frame_addr_def PAGE_SIZE_def MAX_FRAMES_eq unat_word_ariths unat_of_nat_small)

lemma frame_of_eq: "frame_of a = unat a div 4096"
  by (simp add: frame_of_def PAGE_SIZE_def unat_div)

lemma frame_of_addr [simp]: "i < MAX_FRAMES \<Longrightarrow> frame_of (frame_addr i) = i"
  by (simp add: frame_of_eq unat_frame_addr)

lemma inj_frame_addr: "inj_on frame_addr {..<MAX_FRAMES}"
  by (rule inj_on_inverseI [of _ frame_of]) simp

lemma take_frame_eq:
  "take_frame fa i = ((mark_allocated fa i)\<lparr>next_free_hint := i + 1\<rparr>, Some (frame_addr i))"
  by (simp add: take_frame_def frame_addr_def)

text \<open>The physical addresses of the free frames: what a client may be handed.\<close>

definition avail :: "FrameAllocator \<Rightarrow> u64 set" where
  "avail fa = frame_addr ` free_set fa"

lemma free_set_less: "i \<in> free_set fa \<Longrightarrow> i < MAX_FRAMES"
  by (simp add: free_set_def is_free_less)

lemma free_set_subset: "free_set fa \<subseteq> {..<MAX_FRAMES}"
  by (auto simp: free_set_less)

lemma avail_diff: "i \<in> free_set fa \<Longrightarrow> frame_addr ` (free_set fa - {i}) = avail fa - {frame_addr i}"
  unfolding avail_def
  by (subst inj_on_image_set_diff [OF inj_frame_addr]) (use free_set_subset in auto)

lemma avail_aligned: "a \<in> avail fa \<Longrightarrow> unat a mod 4096 = 0 \<and> unat a < 4096 * MAX_FRAMES"
  by (auto simp: avail_def unat_frame_addr free_set_less)

lemma frame_of_avail: "a \<in> avail fa \<Longrightarrow> frame_of a \<in> free_set fa \<and> frame_addr (frame_of a) = a"
  by (auto simp: avail_def free_set_less)


subsection \<open>Allocation and release\<close>

lemma allocate_frame_Some:
  assumes "fa_inv fa" "allocate_frame fa = (fa', Some a)"
  shows "a \<in> avail fa" "avail fa' = avail fa - {a}" "fa_inv fa'" "total_frames fa' = total_frames fa"
    "free_set fa' = free_set fa - {frame_of a}" "\<forall>b \<in> avail fa. a \<le> b"
proof -
  define i where "i = Min (free_set fa)"
  have ne: "free_set fa \<noteq> {}" and tf: "take_frame fa i = (fa', Some a)"
    using assms by (auto simp: allocate_frame_cases i_def split: if_splits)
  then have i: "i \<in> free_set fa" "\<forall>j \<in> free_set fa. i \<le> j" by (simp_all add: i_def)
  have im: "i < MAX_FRAMES" using i(1) free_set_subset by auto
  have a: "a = frame_addr i" and fa': "fa' = (mark_allocated fa i)\<lparr>next_free_hint := i + 1\<rparr>"
    using tf by (simp_all add: take_frame_eq)
  show "a \<in> avail fa" using i a by (simp add: avail_def)
  show fs: "free_set fa' = free_set fa - {frame_of a}"
    using fa' a im by (simp add: free_set_mark_allocated)
  then show "avail fa' = avail fa - {a}"
    using avail_diff [OF i(1)] a im by (simp add: avail_def)
  show "fa_inv fa'" using fa_inv_take_frame [OF assms(1) i] tf by simp
  show "total_frames fa' = total_frames fa" using fa' by simp
  show "\<forall>b \<in> avail fa. a \<le> b"
    using i(2) im a by (auto simp: avail_def word_le_nat_alt unat_frame_addr free_set_less)
qed

lemma allocate_frame_None:
  assumes "fa_inv fa"
  shows "allocate_frame fa = (fa', None) \<longleftrightarrow> avail fa = {} \<and> fa' = fa"
  using assms by (auto simp: allocate_frame_cases avail_def take_frame_eq)

lemma free_set_free_frame:
  "free_set (free_frame fa a) = (if frame_of a < MAX_FRAMES then insert (frame_of a) (free_set fa) else free_set fa)"
  by (simp add: free_frame_def Let_def frame_of_def [symmetric] free_set_mark_free)

lemma total_free_frame [simp]: "total_frames (free_frame fa a) = total_frames fa"
  by (simp add: free_frame_def Let_def)

lemma fa_inv_free_frame [inv_intros]:
  assumes "fa_inv fa" "frame_of a < total_frames fa"
  shows "fa_inv (free_frame fa a)"
proof -
  let ?i = "frame_of a"
  have i: "?i < MAX_FRAMES" using assms by (simp add: fa_inv_def)
  have "next_free_hint (free_frame fa a) = min (next_free_hint fa) ?i"
    by (simp add: free_frame_def Let_def frame_of_def min_def)
  moreover have "free_frames (free_frame fa a) = card (insert ?i (free_set fa))"
    using assms(1) i
    by (simp add: free_frame_def Let_def frame_of_def [symmetric] free_frames_mark_free fa_inv_def
        card_insert_if)
  ultimately show ?thesis
    using assms i by (auto simp: fa_inv_def free_set_free_frame)
qed

lemma avail_free_frame:
  assumes "frame_addr (frame_of a) = a" "frame_of a < MAX_FRAMES"
  shows "avail (free_frame fa a) = insert a (avail fa)"
  using assms by (simp add: avail_def free_set_free_frame)

text \<open>Releasing the frame just allocated gives back the set of free frames, and vice versa.\<close>

lemma free_after_allocate:
  assumes "fa_inv fa" "allocate_frame fa = (fa', Some a)"
  shows "free_set (free_frame fa' a) = free_set fa" "fa_inv (free_frame fa' a)"
proof -
  have a: "a \<in> avail fa" "free_set fa' = free_set fa - {frame_of a}" "fa_inv fa'"
    "total_frames fa' = total_frames fa"
    using allocate_frame_Some [OF assms] by simp_all
  then have f: "frame_of a \<in> free_set fa" using frame_of_avail by simp
  then show "free_set (free_frame fa' a) = free_set fa"
    using a(2) free_set_less [OF f] by (auto simp: free_set_free_frame)
  show "fa_inv (free_frame fa' a)"
    using f a(3,4) assms(1) by (intro fa_inv_free_frame) (auto simp: fa_inv_def)
qed


subsection \<open>Contiguous runs\<close>

definition run_free :: "FrameAllocator \<Rightarrow> nat \<Rightarrow> nat \<Rightarrow> bool" where
  "run_free fa n start \<longleftrightarrow> start < total_frames fa \<and> start + n \<le> total_frames fa
     \<and> {start..<start + n} \<subseteq> free_set fa"

lemma fold_mark_allocated_free:
  "free_set (fold (\<lambda>off fa. mark_allocated fa (start + off)) [0..<n] fa) = free_set fa - {start..<start + n}"
proof (induction n)
  case (Suc n)
  have "{start..<start + Suc n} = insert (start + n) {start..<start + n}" by auto
  with Suc show ?case by (simp add: free_set_mark_allocated) blast
qed simp

lemma fold_mark_allocated_total [simp]:
  "total_frames (fold (\<lambda>off fa. mark_allocated fa (start + off)) [0..<n] fa) = total_frames fa"
  by (induction n) simp_all

lemma fold_mark_allocated_inv:
  "fa_inv fa \<Longrightarrow> fa_inv (fold (\<lambda>off fa. mark_allocated fa (start + off)) [0..<n] fa)"
  by (induction n) (simp_all add: fa_inv_mark_allocated)

lemma list_all_free_iff:
  "list_all (\<lambda>off. is_free fa (start + off)) [0..<n] \<longleftrightarrow> {start..<start + n} \<subseteq> free_set fa"
proof -
  have "(\<forall>off < n. P (start + off)) \<longleftrightarrow> (\<forall>k. start \<le> k \<and> k < start + n \<longrightarrow> P k)" for P
    by (metis le_add1 le_add_diff_inverse nat_add_left_cancel_less)
  from this [of "is_free fa"] show ?thesis
    by (simp add: list_all_iff free_set_def subset_iff Ball_def)
qed

lemma contiguous_from_spec:
  "contiguous_from fa n start = (fa', Some a) \<Longrightarrow>
    \<exists>k \<ge> start. run_free fa n k \<and> (\<forall>j. start \<le> j \<and> j < k \<longrightarrow> \<not> run_free fa n j) \<and> a = frame_addr k
      \<and> fa' = fold (\<lambda>off fa. mark_allocated fa (k + off)) [0..<n] fa"
  "contiguous_from fa n start = (fa', None) \<Longrightarrow> fa' = fa \<and> (\<forall>k \<ge> start. \<not> run_free fa n k)"
proof (induction fa n start rule: contiguous_from.induct)
  case (1 fa n start)
  have unf: "contiguous_from fa n start =
     (if start < total_frames fa then
        if start + n > total_frames fa then (fa, None)
        else if {start..<start + n} \<subseteq> free_set fa
        then (fold (\<lambda>off fa. mark_allocated fa (start + off)) [0..<n] fa, Some (frame_addr start))
        else contiguous_from fa n (start + 1)
      else (fa, None))"
    by (subst contiguous_from.simps) (simp add: list_all_free_iff frame_addr_def)
  have step: "(\<forall>k \<ge> start. Q k) \<longleftrightarrow> Q start \<and> (\<forall>k \<ge> start + 1. Q k)" for Q
  proof safe
    fix k
    assume "Q start" "\<forall>k \<ge> start + 1. Q k" "start \<le> k"
    then show "Q k" by (cases "k = start") auto
  qed auto
  { case 1
    show ?case
    proof (cases "run_free fa n start")
      case True
      then show ?thesis using 1 unf by (auto simp: run_free_def)
    next
      case False
      then have rec: "start < total_frames fa" "\<not> start + n > total_frames fa"
        "\<not> {start..<start + n} \<subseteq> free_set fa" "contiguous_from fa n (start + 1) = (fa', Some a)"
        using 1 unf by (auto simp: run_free_def split: if_splits)
      then obtain k where "k \<ge> start + 1" "run_free fa n k"
        "\<forall>j. start + 1 \<le> j \<and> j < k \<longrightarrow> \<not> run_free fa n j" "a = frame_addr k"
        "fa' = fold (\<lambda>off fa. mark_allocated fa (k + off)) [0..<n] fa"
        using "1.IH"(1) [unfolded list_all_free_iff] by blast
      moreover have "\<not> run_free fa n j" if "start \<le> j" "j < k" for j
        using False that calculation(3) by (cases "j = start") auto
      ultimately show ?thesis by (intro exI [of _ k]) auto
    qed
  next
    case 2
    show ?case
    proof (cases "start < total_frames fa \<and> start + n \<le> total_frames fa")
      case True
      with 2 unf have "\<not> run_free fa n start" "contiguous_from fa n (start + 1) = (fa', None)"
        "\<not> {start..<start + n} \<subseteq> free_set fa"
        by (auto simp: run_free_def split: if_splits)
      with "1.IH"(2) [unfolded list_all_free_iff] True show ?thesis
        using step [of "\<lambda>k. \<not> run_free fa n k"] by simp
    next
      case False
      with 2 unf show ?thesis by (auto simp: run_free_def split: if_splits)
    qed
  }
qed

lemma allocate_contiguous_Some:
  assumes "allocate_contiguous_frames fa n = (fa', Some a)"
  obtains k where "run_free fa n k" "\<forall>j < k. \<not> run_free fa n j" "a = frame_addr k"
    "free_set fa' = free_set fa - {k..<k + n}" "total_frames fa' = total_frames fa"
    "fa_inv fa \<Longrightarrow> fa_inv fa'"
  using contiguous_from_spec(1) [of fa n 0 fa' a] assms
  by (auto simp: allocate_contiguous_frames_def fold_mark_allocated_free fold_mark_allocated_inv)

lemma allocate_contiguous_None:
  assumes "allocate_contiguous_frames fa n = (fa', None)"
  shows "fa' = fa \<and> (\<forall>k. \<not> run_free fa n k)"
  using contiguous_from_spec(2) [of fa n 0 fa'] assms
  by (simp add: allocate_contiguous_frames_def)

lemma fa_inv_contiguous [inv_intros]: "fa_inv fa \<Longrightarrow> fa_inv (fst (allocate_contiguous_frames fa n))"
  by (cases "allocate_contiguous_frames fa n"; cases "snd (allocate_contiguous_frames fa n)")
    (auto dest: allocate_contiguous_None elim: allocate_contiguous_Some)


subsection \<open>Boot-time initialisation\<close>

definition usable_frames :: "MemoryRegion list \<Rightarrow> nat set" where
  "usable_frames rs = {i. i < MAX_FRAMES \<and> (\<exists>r \<in> set rs. mr_kind r = Usable \<and> 0x100000 \<le> mr_base r
     \<and> unat (mr_base r div PAGE_SIZE) \<le> i \<and> i < unat ((mr_base r + mr_size r) div PAGE_SIZE))}"

lemma free_set_init_frame:
  "free_set (init_frame i fa) = free_set fa \<union> ({i} \<inter> {..<MAX_FRAMES})"
  by (simp add: init_frame_def Let_def free_set_mark_free)

lemma free_set_init_frames:
  "free_set (fold init_frame xs fa) = free_set fa \<union> (set xs \<inter> {..<MAX_FRAMES})"
  by (induction xs arbitrary: fa) (auto simp: free_set_init_frame)

lemma free_set_init_region: "free_set (init_region fa r) = free_set fa \<union> usable_frames [r]"
  by (auto simp: init_region_def usable_frames_def Let_def not_less free_set_init_frames)

lemma free_set_init_regions: "free_set (foldl init_region fa rs) = free_set fa \<union> usable_frames rs"
proof (induction rs arbitrary: fa)
  case (Cons r rs)
  have "usable_frames (r # rs) = usable_frames [r] \<union> usable_frames rs"
    by (auto simp: usable_frames_def)
  with Cons show ?case by (simp add: free_set_init_region Un_assoc)
qed (simp add: usable_frames_def)

definition init_inv :: "FrameAllocator \<Rightarrow> bool" where
  "init_inv fa \<longleftrightarrow> fa_inv fa \<and> next_free_hint fa = 0"

lemma init_inv_frame: "init_inv fa \<Longrightarrow> init_inv (init_frame i fa)"
  by (auto simp: init_inv_def init_frame_def fa_inv_def Let_def free_set_mark_free free_frames_mark_free
      insert_absorb)

lemma init_inv_frames: "init_inv fa \<Longrightarrow> init_inv (fold init_frame xs fa)"
  by (induction xs arbitrary: fa) (simp_all add: init_inv_frame)

lemma init_inv_regions: "init_inv fa \<Longrightarrow> init_inv (foldl init_region fa rs)"
  by (induction rs arbitrary: fa) (simp_all add: init_region_def Let_def init_inv_frames)

lemma fa_inv_frame_init: "fa_inv (frame_init fa_new mm)"
  using init_inv_regions [of fa_new] fa_inv_new
  by (simp add: frame_init_def init_inv_def) (simp add: fa_new_def)

lemma free_set_frame_init: "free_set (frame_init fa_new mm) = usable_frames (map_iter mm)"
  by (simp add: frame_init_def free_set_init_regions free_set_new)


subsection \<open>The interface the clients rely on\<close>

text \<open>
  Page tables, the virtual memory manager and the drivers use the allocator through two calls. The
  contract: a granted frame was free, page aligned and in the managed range, no other frame becomes
  free or taken by the call; a refusal means that nothing was free; a returned frame is free again.
\<close>

primrec alloc_seq :: "('s \<Rightarrow> 's \<times> u64 option) \<Rightarrow> nat \<Rightarrow> 's \<Rightarrow> 's \<times> u64 list" where
  "alloc_seq alloc 0 s = (s, [])"
| "alloc_seq alloc (Suc n) s =
     (case alloc s of
        (s, None) \<Rightarrow> (s, [])
      | (s, Some a) \<Rightarrow> (case alloc_seq alloc n s of (s, as) \<Rightarrow> (s, a # as)))"

locale frame_source =
  fixes alloc :: "'s \<Rightarrow> 's \<times> u64 option"
    and release :: "'s \<Rightarrow> u64 \<Rightarrow> 's"
    and available :: "'s \<Rightarrow> u64 set"
    and managed :: "'s \<Rightarrow> u64 set"
    and ok :: "'s \<Rightarrow> bool"
  assumes alloc_ok: "ok s \<Longrightarrow> alloc s = (s', Some a) \<Longrightarrow> ok s'"
    and alloc_from: "ok s \<Longrightarrow> alloc s = (s', Some a) \<Longrightarrow> a \<in> available s"
    and alloc_takes: "ok s \<Longrightarrow> alloc s = (s', Some a) \<Longrightarrow> available s' = available s - {a}"
    and alloc_managed: "ok s \<Longrightarrow> alloc s = (s', Some a) \<Longrightarrow> managed s' = managed s"
    and alloc_refuses: "ok s \<Longrightarrow> alloc s = (s', None) \<Longrightarrow> available s = {} \<and> s' = s"
    and release_ok: "ok s \<Longrightarrow> a \<in> managed s \<Longrightarrow> ok (release s a)"
    and release_gives: "ok s \<Longrightarrow> a \<in> managed s \<Longrightarrow> available (release s a) = insert a (available s)"
    and release_managed: "managed (release s a) = managed s"
    and available_managed: "ok s \<Longrightarrow> available s \<subseteq> managed s"
    and available_aligned: "ok s \<Longrightarrow> a \<in> available s \<Longrightarrow> unat a mod 4096 = 0"
    and finite_available: "ok s \<Longrightarrow> finite (available s)"
begin

lemma alloc_seq_frames:
  assumes "ok s" "alloc_seq alloc n s = (s', as)"
  shows "distinct as \<and> set as \<subseteq> available s \<and> available s' = available s - set as \<and> ok s' \<and> managed s' = managed s
    \<and> length as = min n (card (available s))"
  using assms
proof (induction n arbitrary: s s' as)
  case (Suc n)
  show ?case
  proof (cases "alloc s")
    case (Pair t r)
    show ?thesis
    proof (cases r)
      case None
      then show ?thesis using Suc.prems Pair alloc_refuses [of s t] by simp
    next
      case (Some a)
      obtain t' bs where rec: "alloc_seq alloc n t = (t', bs)" by fastforce
      have a: "ok t" "a \<in> available s" "available t = available s - {a}" "managed t = managed s"
        using alloc_ok alloc_from alloc_takes alloc_managed Suc.prems(1) Pair Some by auto
      have "card (available t) + 1 = card (available s)"
        using a finite_available [OF Suc.prems(1)]
        by (metis card_Suc_Diff1 Suc_eq_plus1)
      with Suc.IH [OF a(1) rec] show ?thesis using Suc.prems(2) Pair Some rec a by auto
    qed
  qed
qed simp

lemma release_seq:
  assumes "ok s" "set as \<subseteq> managed s"
  shows "ok (foldl release s as) \<and> available (foldl release s as) = available s \<union> set as"
  using assms
  by (induction as arbitrary: s) (auto simp: release_ok release_gives release_managed)

lemma alloc_release_seq:
  assumes "ok s" "alloc_seq alloc n s = (s', as)" "mset bs = mset as"
  shows "available (foldl release s' bs) = available s \<and> ok (foldl release s' bs)"
proof -
  note f = alloc_seq_frames [OF assms(1,2)]
  have bs: "set bs = set as" using assms(3) by (metis set_mset_mset)
  then have "set bs \<subseteq> managed s'" using f available_managed [OF assms(1)] by auto
  from release_seq [OF _ this] show ?thesis using f bs by auto
qed

end

definition managed_frames :: "FrameAllocator \<Rightarrow> u64 set" where
  "managed_frames fa = frame_addr ` {..<min (total_frames fa) MAX_FRAMES}"

lemma managed_framesD:
  "a \<in> managed_frames fa \<Longrightarrow> frame_of a < total_frames fa \<and> frame_of a < MAX_FRAMES \<and> frame_addr (frame_of a) = a"
  by (auto simp: managed_frames_def)

interpretation fsrc: frame_source allocate_frame free_frame avail managed_frames fa_inv
proof unfold_locales
  fix s s' a
  assume "fa_inv s" "allocate_frame s = (s', Some a)"
  from allocate_frame_Some [OF this]
  show "fa_inv s'" "a \<in> avail s" "avail s' = avail s - {a}" "managed_frames s' = managed_frames s"
    by (simp_all add: managed_frames_def)
next
  fix s s'
  assume "fa_inv s" "allocate_frame s = (s', None)"
  then show "avail s = {} \<and> s' = s" using allocate_frame_None by blast
next
  fix s a
  assume "fa_inv s" "a \<in> managed_frames s"
  then show "fa_inv (free_frame s a)" "avail (free_frame s a) = insert a (avail s)"
    using managed_framesD [of a s] fa_inv_free_frame [of s a] avail_free_frame [of a s] by blast+
next
  fix s a
  show "managed_frames (free_frame s a) = managed_frames s" by (simp add: managed_frames_def)
next
  fix s
  assume "fa_inv s"
  then show "avail s \<subseteq> managed_frames s" "finite (avail s)"
    by (auto simp: avail_def managed_frames_def fa_inv_def)
next
  fix s a
  assume "fa_inv s" "a \<in> avail s"
  then show "unat a mod 4096 = 0" using avail_aligned by blast
qed


subsection \<open>Properties\<close>

text \<open>A small allocator state for the witnesses: frames 3 and 5 of eight are free.\<close>

definition fa_example :: FrameAllocator where
  "fa_example = mark_free (mark_free (fa_new\<lparr>total_frames := 8\<rparr>) 3) 5"

lemma free_set_example: "free_set fa_example = {3, 5}"
  by (auto simp: fa_example_def free_set_mark_free free_set_new MAX_FRAMES_eq)

lemma fa_inv_example: "fa_inv fa_example"
proof -
  have "total_frames fa_example = 8" "next_free_hint fa_example = 0"
    by (simp_all add: fa_example_def fa_new_def)
  moreover have "free_frames fa_example = 2"
    by (simp add: fa_example_def free_frames_mark_free free_set_mark_free free_set_new MAX_FRAMES_eq)
      (simp add: fa_new_def)
  ultimately show ?thesis by (simp add: fa_inv_def free_set_example MAX_FRAMES_eq)
qed

lemma avail_example: "avail fa_example = {0x3000, 0x5000}"
  by (simp add: avail_def free_set_example frame_addr_def PAGE_SIZE_def)

text \<open>
  C3: Allocation with the search hint grants the lowest free frame: on a state that satisfies the
  invariant, \<^verbatim>\<open>allocate_frame\<close> returns the least address of the free frames, removes exactly
  that frame from the free set, leaves the free-frame counter equal to the number of clear bits and the
  hint valid; it refuses only when no frame is free, and then changes nothing.
\<close>

theorem allocate_frame_lowest:
  assumes "fa_inv fa"
  shows "case allocate_frame fa of
      (fa', Some a) \<Rightarrow> free_set fa \<noteq> {} \<and> a = frame_addr (Min (free_set fa))
        \<and> free_set fa' = free_set fa - {Min (free_set fa)} \<and> free_frames fa' = free_frames fa - 1
        \<and> free_frames fa > 0 \<and> fa_inv fa'
    | (fa', None) \<Rightarrow> free_set fa = {} \<and> fa' = fa"
proof (cases "free_set fa = {}")
  case False
  define i where "i = Min (free_set fa)"
  have i: "i \<in> free_set fa" using False by (simp add: i_def)
  have "allocate_frame fa = ((mark_allocated fa i)\<lparr>next_free_hint := i + 1\<rparr>, Some (frame_addr i))"
    using assms False by (simp add: allocate_frame_cases take_frame_eq i_def)
  with fa_inv_allocate_frame [OF assms] False i mark_allocated_no_underflow [OF assms i]
  show ?thesis
    by (simp add: i_def [symmetric] free_set_mark_allocated free_frames_mark_allocated)
qed (simp add: allocate_frame_cases assms)

theorem allocate_frame_lowest_witness:
  "fa_inv fa_example \<and> snd (allocate_frame fa_example) = Some 0x3000
    \<and> free_set (fst (allocate_frame fa_example)) = {5}"
  using allocate_frame_lowest [OF fa_inv_example] fa_inv_example
  by (auto simp: free_set_example frame_addr_def PAGE_SIZE_def split: prod.splits option.splits)

text \<open>
  C4: A sequence of \<^verbatim>\<open>n\<close> allocations grants pairwise distinct free frames, as many as the smaller of
  \<^verbatim>\<open>n\<close> and the number of free frames; returning the granted frames in any order makes the set of
  available frames what it was and keeps the invariant.
\<close>

theorem allocate_release_restores:
  assumes "fa_inv fa" and "alloc_seq allocate_frame n fa = (fa', as)" and "mset bs = mset as"
  shows "distinct as \<and> set as \<subseteq> avail fa \<and> length as = min n (card (avail fa))
    \<and> avail fa' = avail fa - set as
    \<and> avail (foldl free_frame fa' bs) = avail fa \<and> fa_inv (foldl free_frame fa' bs)"
  using fsrc.alloc_seq_frames [OF assms(1,2)] fsrc.alloc_release_seq [OF assms] by simp

theorem allocate_release_restores_witness:
  "let (fa', as) = alloc_seq allocate_frame 7 fa_example
   in distinct as \<and> length as = 2 \<and> avail (foldl free_frame fa' (rev as)) = {0x3000, 0x5000}"
proof -
  obtain fa' as where "alloc_seq allocate_frame 7 fa_example = (fa', as)" by fastforce
  with allocate_release_restores [OF fa_inv_example this, of "rev as"] show ?thesis
    by (simp add: avail_example)
qed

text \<open>
  \<^verbatim>\<open>allocate_contiguous_frames\<close> is first fit: it grants the lowest start of a run of
  \<^verbatim>\<open>n\<close> free frames inside the tracked range, takes exactly the frames of the run and keeps the
  invariant; it fails, leaving the allocator alone, only if no such run exists.
\<close>

theorem allocate_contiguous_first_fit:
  assumes "fa_inv fa"
  shows "case allocate_contiguous_frames fa n of
      (fa', Some a) \<Rightarrow> (\<exists>k. a = frame_addr k \<and> run_free fa n k \<and> (\<forall>j < k. \<not> run_free fa n j)
        \<and> free_set fa' = free_set fa - {k..<k + n}) \<and> fa_inv fa'
    | (fa', None) \<Rightarrow> fa' = fa \<and> (\<forall>k. \<not> run_free fa n k)"
  using assms allocate_contiguous_None [of fa n]
  by (auto split: prod.splits option.splits elim!: allocate_contiguous_Some)

theorem allocate_contiguous_first_fit_witness:
  "fa_inv fa_example \<and> snd (allocate_contiguous_frames fa_example 2) = None"
proof -
  have "\<not> run_free fa_example 2 k" for k
  proof
    assume "run_free fa_example 2 k"
    then have "{k..<k + 2} \<subseteq> {3, 5}" by (simp add: run_free_def free_set_example)
    from subsetD [OF this, of k] subsetD [OF this, of "k + 1"] show False by auto
  qed
  with allocate_contiguous_first_fit [OF fa_inv_example, of 2] fa_inv_example show ?thesis
    by (auto split: prod.splits option.splits)
qed

lemma frame_in_region:
  fixes base size b :: nat
  assumes "base mod 4096 = 0" "base div 4096 \<le> b div 4096" "b div 4096 < (base + size) div 4096"
  shows "base \<le> b \<and> b < base + size"
proof
  have "base = base div 4096 * 4096" using assms(1) by auto
  also have "\<dots> \<le> b div 4096 * 4096" using assms(2) by simp
  also have "\<dots> \<le> b" by simp
  finally show "base \<le> b" .
  show "b < base + size" using assms(3) div_le_mono [of "base + size" b 4096] by (meson not_less)
qed

text \<open>
  C5: After \<^verbatim>\<open>init\<close> on a boot memory map the free frames are exactly those below the 16 GiB limit
  that the usable regions starting at or above 1 MiB span, the counter agrees with them and the
  invariant holds. Where the bases of these regions are page aligned, every byte of a free
  frame lies in a usable region: no reserved, firmware or kernel memory is handed out.
\<close>

theorem frame_init_exact:
  assumes "\<And>r. r \<in> set (map_iter mm) \<Longrightarrow> mr_kind r = Usable \<Longrightarrow>
      unat (mr_base r) mod 4096 = 0 \<and> no_wrap r"
  shows "free_set (frame_init fa_new mm) = usable_frames (map_iter mm)
    \<and> free_frames (frame_init fa_new mm) = card (usable_frames (map_iter mm))
    \<and> fa_inv (frame_init fa_new mm)
    \<and> (\<forall>i \<in> free_set (frame_init fa_new mm). \<forall>b. frame_of b = i \<longrightarrow>
         (\<exists>r \<in> set (map_iter mm). mr_kind r = Usable \<and> covers b r))"
proof -
  have "\<exists>r \<in> set (map_iter mm). mr_kind r = Usable \<and> covers b r"
    if b: "frame_of b \<in> usable_frames (map_iter mm)" for b
  proof -
    from b obtain r where r: "r \<in> set (map_iter mm)" "mr_kind r = Usable"
      "unat (mr_base r div PAGE_SIZE) \<le> frame_of b"
      "frame_of b < unat ((mr_base r + mr_size r) div PAGE_SIZE)"
      by (auto simp: usable_frames_def)
    have "covers b r"
      unfolding covers_def using assms [OF r(1,2)] r(3,4)
      by (intro frame_in_region)
        (simp_all add: no_wrap_def frame_of_eq PAGE_SIZE_def unat_div unat_add_no_overflow)
    with r show ?thesis by blast
  qed
  moreover have "free_frames (frame_init fa_new mm) = card (usable_frames (map_iter mm))"
    using fa_inv_frame_init [of mm] by (simp add: fa_inv_def free_set_frame_init)
  ultimately show ?thesis by (simp add: free_set_frame_init fa_inv_frame_init)
qed


definition map_example :: MemoryMap where
  "map_example = foldl (\<lambda>mm r. fst (add_region mm r)) map_empty
     [\<lparr>mr_base = 0, mr_size = 0xA0000, mr_kind = Usable\<rparr>,
      \<lparr>mr_base = 0x100000, mr_size = 0x2000, mr_kind = Usable\<rparr>]"

theorem frame_init_exact_witness:
  "free_set (frame_init fa_new map_example) = {256..<258} \<and> fa_inv (frame_init fa_new map_example)"
proof -
  have it: "map_iter map_example =
    [\<lparr>mr_base = 0, mr_size = 0xA0000, mr_kind = Usable\<rparr>, \<lparr>mr_base = 0x100000, mr_size = 0x2000, mr_kind = Usable\<rparr>]"
    unfolding map_example_def by (subst add_regions_iter) (simp_all add: MAX_MEMORY_REGIONS_def)
  have "usable_frames (map_iter map_example) = {256..<258}"
    by (simp add: it usable_frames_def PAGE_SIZE_def MAX_FRAMES_eq unat_div) auto
  moreover have "\<And>r. r \<in> set (map_iter map_example) \<Longrightarrow> mr_kind r = Usable \<Longrightarrow>
      unat (mr_base r) mod 4096 = 0 \<and> no_wrap r"
    by (auto simp: it no_wrap_def)
  ultimately show ?thesis using frame_init_exact [of map_example] by simp
qed

end
