(* ===== verification/Paging.thy ===== *)
theory Paging
  imports Frame_Allocator "HOL-Library.Sublist"
begin

text \<open>
  Four-level x86-64 page tables (\<^verbatim>\<open>kernel/src/memory/paging.rs\<close>). The code reads and writes
  tables through their physical addresses (the tables are identity mapped), so that the state is a
  store of 64-bit words indexed by the address of the word: entry \<^verbatim>\<open>i\<close> of the table at
  \<^verbatim>\<open>t\<close> is the word at \<^verbatim>\<open>t + 8 * i\<close>. Beside the store the state holds the frame
  allocator, the address kept in \<^verbatim>\<open>KERNEL_PML4_PHYS\<close> and the log of \<^verbatim>\<open>invlpg\<close>
  instructions. A \<^verbatim>\<open>PageFlags\<close> value is its 64 bits.
\<close>

record Machine =
  frames :: FrameAllocator
  mem :: "u64 \<Rightarrow> u64"
  kernel_pml4_phys :: u64
  invlpg_log :: "u64 list"

definition ENTRIES_PER_TABLE :: nat where
  "ENTRIES_PER_TABLE = 512"

definition HUGE_PAGE_SIZE :: u64 where
  "HUGE_PAGE_SIZE = 2 * 1024 * 1024"

definition GIANT_PAGE_SIZE :: u64 where
  "GIANT_PAGE_SIZE = 1024 * 1024 * 1024"

definition PRESENT :: u64 where
  "PRESENT = 0x1"

definition WRITABLE :: u64 where
  "WRITABLE = 0x2"

definition USER :: u64 where
  "USER = 0x4"

definition NO_CACHE :: u64 where
  "NO_CACHE = 0x10"

definition HUGE_PAGE :: u64 where
  "HUGE_PAGE = 0x80"

definition NO_EXECUTE :: u64 where
  "NO_EXECUTE = 0x8000000000000000"

definition ADDR_MASK :: u64 where
  "ADDR_MASK = 0x000FFFFFFFFFF000"

lemmas flag_defs = PRESENT_def WRITABLE_def USER_def NO_CACHE_def HUGE_PAGE_def NO_EXECUTE_def ADDR_MASK_def

text \<open>\<^verbatim>\<open>PageTableEntry\<close>\<close>

definition is_present :: "u64 \<Rightarrow> bool" where
  "is_present e \<longleftrightarrow> e AND PRESENT \<noteq> 0"

definition is_huge :: "u64 \<Rightarrow> bool" where
  "is_huge e \<longleftrightarrow> e AND HUGE_PAGE \<noteq> 0"

definition pte_address :: "u64 \<Rightarrow> u64" where
  "pte_address e = e AND ADDR_MASK"

definition pte_set :: "u64 \<Rightarrow> u64 \<Rightarrow> u64" where
  "pte_set address flags = (address AND ADDR_MASK) OR flags"

text \<open>Virtual address decomposition\<close>

definition pml4_index :: "u64 \<Rightarrow> nat" where
  "pml4_index vaddr = unat (drop_bit 39 vaddr AND 0x1FF)"

definition pdp_index :: "u64 \<Rightarrow> nat" where
  "pdp_index vaddr = unat (drop_bit 30 vaddr AND 0x1FF)"

definition pd_index :: "u64 \<Rightarrow> nat" where
  "pd_index vaddr = unat (drop_bit 21 vaddr AND 0x1FF)"

definition pt_index :: "u64 \<Rightarrow> nat" where
  "pt_index vaddr = unat (drop_bit 12 vaddr AND 0x1FF)"

definition page_offset :: "u64 \<Rightarrow> u64" where
  "page_offset vaddr = vaddr AND 0xFFF"

text \<open>Entry \<^verbatim>\<open>i\<close> of the table at \<^verbatim>\<open>t\<close>, its update, and \<^verbatim>\<open>zero_frame\<close>.\<close>

definition entry_addr :: "u64 \<Rightarrow> nat \<Rightarrow> u64" where
  "entry_addr t i = t + 8 * of_nat i"

definition table_entry :: "(u64 \<Rightarrow> u64) \<Rightarrow> u64 \<Rightarrow> nat \<Rightarrow> u64" where
  "table_entry mm t i = mm (entry_addr t i)"

definition write_entry :: "'a Machine_scheme \<Rightarrow> u64 \<Rightarrow> nat \<Rightarrow> u64 \<Rightarrow> 'a Machine_scheme" where
  "write_entry m t i e = m\<lparr>mem := (mem m)(entry_addr t i := e)\<rparr>"

definition zero_frame :: "'a Machine_scheme \<Rightarrow> u64 \<Rightarrow> 'a Machine_scheme" where
  "zero_frame m phys =
     m\<lparr>mem := (\<lambda>a. if unat phys \<le> unat a \<and> unat a < unat phys + 4096 then 0 else mem m a)\<rparr>"

definition invlpg :: "'a Machine_scheme \<Rightarrow> u64 \<Rightarrow> 'a Machine_scheme" where
  "invlpg m vaddr = m\<lparr>invlpg_log := vaddr # invlpg_log m\<rparr>"

definition m_allocate_frame :: "'a Machine_scheme \<Rightarrow> 'a Machine_scheme \<times> u64 option" where
  "m_allocate_frame m = (let (fa, r) = allocate_frame (frames m) in (m\<lparr>frames := fa\<rparr>, r))"

definition m_free_frame :: "'a Machine_scheme \<Rightarrow> u64 \<Rightarrow> 'a Machine_scheme" where
  "m_free_frame m a = m\<lparr>frames := free_frame (frames m) a\<rparr>"

definition set_kernel_pml4 :: "'a Machine_scheme \<Rightarrow> u64 \<Rightarrow> 'a Machine_scheme" where
  "set_kernel_pml4 m phys = m\<lparr>kernel_pml4_phys := phys\<rparr>"

definition translate :: "'a Machine_scheme \<Rightarrow> u64 \<Rightarrow> u64 \<Rightarrow> u64 option" where
  "translate m pml4_phys vaddr =
     (let pml4e = table_entry (mem m) pml4_phys (pml4_index vaddr) in
      if \<not> is_present pml4e then None else
      let pdpe = table_entry (mem m) (pte_address pml4e) (pdp_index vaddr) in
      if \<not> is_present pdpe then None else
      if is_huge pdpe then Some (pte_address pdpe OR (vaddr AND (GIANT_PAGE_SIZE - 1))) else
      let pde = table_entry (mem m) (pte_address pdpe) (pd_index vaddr) in
      if \<not> is_present pde then None else
      if is_huge pde then Some (pte_address pde OR (vaddr AND (HUGE_PAGE_SIZE - 1))) else
      let pte = table_entry (mem m) (pte_address pde) (pt_index vaddr) in
      if \<not> is_present pte then None else
      Some (pte_address pte OR page_offset vaddr))"

text \<open>
  One walk/create step of \<^verbatim>\<open>map_page\<close>: an absent entry gets a fresh zeroed table, a present
  entry is followed. \<^verbatim>\<open>check_huge\<close> is set for the PDP and PD levels only. The result is the
  next table, \<^verbatim>\<open>None\<close> where the code returns \<^verbatim>\<open>false\<close>.
\<close>

definition walk_create :: "'a Machine_scheme \<Rightarrow> bool \<Rightarrow> u64 \<Rightarrow> nat \<Rightarrow> u64 \<Rightarrow> 'a Machine_scheme \<times> u64 option" where
  "walk_create m check_huge t i flags =
     (let e = table_entry (mem m) t i in
      if \<not> is_present e then
        case m_allocate_frame m of
          (m, None) \<Rightarrow> (m, None)
        | (m, Some frame) \<Rightarrow>
            let m = zero_frame m frame;
                m = write_entry m t i (pte_set frame (PRESENT OR WRITABLE OR (flags AND USER)))
            in (m, Some (pte_address (table_entry (mem m) t i)))
      else if check_huge \<and> is_huge e then (m, None)
      else (m, Some (pte_address e)))"

definition map_page :: "'a Machine_scheme \<Rightarrow> u64 \<Rightarrow> u64 \<Rightarrow> u64 \<Rightarrow> u64 \<Rightarrow> 'a Machine_scheme \<times> bool" where
  "map_page m pml4_phys vaddr phys flags =
     (let full_flags = flags OR PRESENT in
      case walk_create m False pml4_phys (pml4_index vaddr) flags of
        (m, None) \<Rightarrow> (m, False)
      | (m, Some pdp) \<Rightarrow>
          (case walk_create m True pdp (pdp_index vaddr) flags of
             (m, None) \<Rightarrow> (m, False)
           | (m, Some pd) \<Rightarrow>
               (case walk_create m True pd (pd_index vaddr) flags of
                  (m, None) \<Rightarrow> (m, False)
                | (m, Some pt) \<Rightarrow>
                    if is_present (table_entry (mem m) pt (pt_index vaddr)) then (m, False)
                    else (invlpg (write_entry m pt (pt_index vaddr) (pte_set phys full_flags)) vaddr, True))))"

text \<open>
  The walk that \<^verbatim>\<open>unmap_page\<close> and \<^verbatim>\<open>update_flags\<close> share: the page table that holds the
  leaf entry, if all levels are present and none maps a huge page.
\<close>

definition find_pt :: "'a Machine_scheme \<Rightarrow> u64 \<Rightarrow> u64 \<Rightarrow> u64 option" where
  "find_pt m pml4_phys vaddr =
     (let pml4e = table_entry (mem m) pml4_phys (pml4_index vaddr) in
      if \<not> is_present pml4e then None else
      let pdpe = table_entry (mem m) (pte_address pml4e) (pdp_index vaddr) in
      if \<not> is_present pdpe \<or> is_huge pdpe then None else
      let pde = table_entry (mem m) (pte_address pdpe) (pd_index vaddr) in
      if \<not> is_present pde \<or> is_huge pde then None else
      Some (pte_address pde))"

definition unmap_page :: "'a Machine_scheme \<Rightarrow> u64 \<Rightarrow> u64 \<Rightarrow> 'a Machine_scheme \<times> u64 option" where
  "unmap_page m pml4_phys vaddr =
     (case find_pt m pml4_phys vaddr of
        None \<Rightarrow> (m, None)
      | Some pt \<Rightarrow>
          let pte = table_entry (mem m) pt (pt_index vaddr) in
          if \<not> is_present pte then (m, None)
          else (invlpg (write_entry m pt (pt_index vaddr) 0) vaddr, Some (pte_address pte)))"

definition update_flags :: "'a Machine_scheme \<Rightarrow> u64 \<Rightarrow> u64 \<Rightarrow> u64 \<Rightarrow> 'a Machine_scheme \<times> bool" where
  "update_flags m pml4_phys vaddr new_flags =
     (case find_pt m pml4_phys vaddr of
        None \<Rightarrow> (m, False)
      | Some pt \<Rightarrow>
          let pte = table_entry (mem m) pt (pt_index vaddr) in
          if \<not> is_present pte then (m, False)
          else (invlpg (write_entry m pt (pt_index vaddr)
                  (pte_set (pte_address pte) (new_flags OR PRESENT))) vaddr, True))"

text \<open>\<^verbatim>\<open>map_range\<close> from page \<^verbatim>\<open>i\<close> on, with \<^verbatim>\<open>n\<close> pages left; the result is the number of pages mapped.\<close>

fun map_range_from :: "'a Machine_scheme \<Rightarrow> u64 \<Rightarrow> u64 \<Rightarrow> u64 \<Rightarrow> nat \<Rightarrow> nat \<Rightarrow> u64 \<Rightarrow> 'a Machine_scheme \<times> nat" where
  "map_range_from m pml4_phys vaddr phys i 0 flags = (m, i)"
| "map_range_from m pml4_phys vaddr phys i (Suc n) flags =
     (let offset = of_nat i * PAGE_SIZE in
      case map_page m pml4_phys (vaddr + offset) (phys + offset) flags of
        (m, False) \<Rightarrow> (m, i)
      | (m, True) \<Rightarrow> map_range_from m pml4_phys vaddr phys (Suc i) n flags)"

definition map_range :: "'a Machine_scheme \<Rightarrow> u64 \<Rightarrow> u64 \<Rightarrow> u64 \<Rightarrow> nat \<Rightarrow> u64 \<Rightarrow> 'a Machine_scheme \<times> nat" where
  "map_range m pml4_phys vaddr phys n flags = map_range_from m pml4_phys vaddr phys 0 n flags"

definition unmap_range :: "'a Machine_scheme \<Rightarrow> u64 \<Rightarrow> u64 \<Rightarrow> nat \<Rightarrow> 'a Machine_scheme \<times> u64 list" where
  "unmap_range m pml4_phys vaddr n =
     foldl (\<lambda>(m, fs) i. case unmap_page m pml4_phys (vaddr + of_nat i * PAGE_SIZE) of
              (m, Some phys) \<Rightarrow> (m, fs @ [phys])
            | (m, None) \<Rightarrow> (m, fs)) (m, []) [0..<n]"

definition create_user_page_table :: "'a Machine_scheme \<Rightarrow> 'a Machine_scheme \<times> u64 option" where
  "create_user_page_table m =
     (case m_allocate_frame m of
        (m, None) \<Rightarrow> (m, None)
      | (m, Some frame) \<Rightarrow>
          let m = zero_frame m frame
          in (foldl (\<lambda>m i. write_entry m frame i (table_entry (mem m) (kernel_pml4_phys m) i)) m [256..<512],
              Some frame))"

text \<open>The three nested loops of \<^verbatim>\<open>free_user_page_table\<close>, innermost first.\<close>

definition free_pts :: "u64 \<Rightarrow> 'a Machine_scheme \<Rightarrow> 'a Machine_scheme" where
  "free_pts pd m =
     foldl (\<lambda>m k. let pde = table_entry (mem m) pd k in
              if \<not> is_present pde \<or> is_huge pde then m else m_free_frame m (pte_address pde)) m [0..<512]"

definition free_pds :: "u64 \<Rightarrow> 'a Machine_scheme \<Rightarrow> 'a Machine_scheme" where
  "free_pds pdp m =
     foldl (\<lambda>m j. let pdpe = table_entry (mem m) pdp j in
              if \<not> is_present pdpe \<or> is_huge pdpe then m
              else m_free_frame (free_pts (pte_address pdpe) m) (pte_address pdpe)) m [0..<512]"

definition free_user_page_table :: "'a Machine_scheme \<Rightarrow> u64 \<Rightarrow> 'a Machine_scheme" where
  "free_user_page_table m pml4_phys =
     m_free_frame
       (foldl (\<lambda>m i. let pml4e = table_entry (mem m) pml4_phys i in
                 if \<not> is_present pml4e then m
                 else m_free_frame (free_pds (pte_address pml4e) m) (pte_address pml4e)) m [0..<256])
       pml4_phys"


subsection \<open>Entries and addresses\<close>

definition aligned :: "u64 \<Rightarrow> bool" where
  "aligned t \<longleftrightarrow> unat t mod 4096 = 0"

text \<open>The bits a \<^verbatim>\<open>PageFlags\<close> value can have: 0 to 8 and 63.\<close>

definition flags_ok :: "u64 \<Rightarrow> bool" where
  "flags_ok flags \<longleftrightarrow> flags AND 0x7FFFFFFFFFFFFE00 = 0"

lemma bit_ADDR_MASK: "bit ADDR_MASK n \<longleftrightarrow> 12 \<le> n \<and> n < 52"
proof -
  have e: "ADDR_MASK = push_bit 12 (mask 40)" by (simp add: ADDR_MASK_def mask_eq_exp_minus_1 push_bit_eq_mult)
  show ?thesis unfolding e by (auto simp: bit_simps)
qed

lemma ADDR_MASK_idem [simp]: "(x AND ADDR_MASK) AND ADDR_MASK = x AND ADDR_MASK"
  by (simp add: and.assoc)

lemma aligned_iff_bits: "aligned t \<longleftrightarrow> (\<forall>n < 12. \<not> bit t n)"
proof -
  have "aligned t \<longleftrightarrow> take_bit 12 t = 0"
    by (simp add: aligned_def unat_eq_0 [symmetric] take_bit_eq_mod unat_mod)
  also have "\<dots> \<longleftrightarrow> (\<forall>n < 12. \<not> bit t n)"
    by (auto simp: bit_eq_iff bit_take_bit_iff)
  finally show ?thesis .
qed

lemma aligned_pte_address [simp]: "aligned (pte_address e)"
  by (simp add: aligned_iff_bits pte_address_def bit_simps bit_ADDR_MASK)

lemma mask_frame:
  assumes "aligned f" "unat f < 2 ^ 52"
  shows "f AND ADDR_MASK = f"
proof -
  have hi: "\<not> bit f n" if "n \<ge> 52" for n
  proof -
    have "take_bit 52 (unat f) = unat f" using assms(2) by (rule take_bit_nat_eq_self)
    then have "\<not> bit (unat f) n" using that by (metis bit_take_bit_iff not_le)
    then show ?thesis by (auto simp: bit_unsigned_iff dest: bit_imp_le_length)
  qed
  have "bit f n \<Longrightarrow> 12 \<le> n \<and> n < 52" for n
    using assms(1) hi [of n] unfolding aligned_iff_bits by (meson not_le)
  then show ?thesis by (intro bit_word_eqI) (auto simp: bit_simps bit_ADDR_MASK)
qed


text \<open>What \<open>pte_set\<close> stores is read back.\<close>

lemma flags_ok_iff_bits: "flags_ok flags \<longleftrightarrow> (\<forall>n. bit flags n \<longrightarrow> n < 9 \<or> n = 63)"
proof -
  have e: "(0x7FFFFFFFFFFFFE00 :: u64) = push_bit 9 (mask 54)"
    by (simp add: mask_eq_exp_minus_1 push_bit_eq_mult)
  have mask: "bit (0x7FFFFFFFFFFFFE00 :: u64) n \<longleftrightarrow> 9 \<le> n \<and> n < 63" for n
    unfolding e by (auto simp: bit_simps)
  have zero: "x = 0 \<longleftrightarrow> (\<forall>n. \<not> bit x n)" for x :: u64
    by (auto intro: bit_word_eqI)
  have "bit flags n \<Longrightarrow> n < 64" for n using bit_imp_le_length [of flags n] by simp
  then have "bit flags n \<Longrightarrow> \<not> (9 \<le> n \<and> n < 63) \<longleftrightarrow> n < 9 \<or> n = 63" for n by fastforce
  then show ?thesis
    unfolding flags_ok_def zero bit_and_iff mask by blast
qed

lemma pte_address_set:
  assumes "flags_ok flags"
  shows "pte_address (pte_set a flags) = a AND ADDR_MASK"
  unfolding pte_address_def pte_set_def using assms
  by (intro bit_word_eqI) (auto simp: bit_simps bit_ADDR_MASK flags_ok_iff_bits)

lemma is_present_bit: "is_present e \<longleftrightarrow> bit e 0"
  by (simp add: is_present_def PRESENT_def and_exp_eq_0_iff_not_bit [of _ 0, simplified])

lemma is_huge_bit: "is_huge e \<longleftrightarrow> bit e 7"
  using and_exp_eq_0_iff_not_bit [of e 7] by (simp add: is_huge_def HUGE_PAGE_def)

lemma is_present_set: "is_present (pte_set a flags) \<longleftrightarrow> bit flags 0"
  by (simp add: is_present_bit pte_set_def bit_simps bit_ADDR_MASK)

lemma is_huge_set: "is_huge (pte_set a flags) \<longleftrightarrow> bit flags 7"
  by (simp add: is_huge_bit pte_set_def bit_simps bit_ADDR_MASK)

lemma not_present_0 [simp]: "\<not> is_present 0"
  by (simp add: is_present_def)

lemma bit_flags:
  "bit PRESENT n \<longleftrightarrow> n = 0" "bit WRITABLE n \<longleftrightarrow> n = 1" "bit USER n \<longleftrightarrow> n = 2"
proof -
  have "PRESENT = 2 ^ 0" "WRITABLE = 2 ^ 1" "USER = 2 ^ 2" by (simp_all add: flag_defs)
  note e = this
  show "bit PRESENT n \<longleftrightarrow> n = 0" "bit WRITABLE n \<longleftrightarrow> n = 1" "bit USER n \<longleftrightarrow> n = 2"
    unfolding e bit_exp_iff by auto
qed

text \<open>The entry \<open>walk_create\<close> stores for a fresh table.\<close>

definition table_flags :: "u64 \<Rightarrow> u64" where
  "table_flags flags = PRESENT OR WRITABLE OR (flags AND USER)"

lemma table_flags_ok:
  "flags_ok (table_flags flags)" "bit (table_flags flags) 0" "\<not> bit (table_flags flags) 7"
  by (auto simp: flags_ok_iff_bits table_flags_def bit_simps bit_flags)

lemma leaf_flags_ok: "flags_ok flags \<Longrightarrow> flags_ok (flags OR PRESENT) \<and> bit (flags OR PRESENT) 0"
  by (auto simp: flags_ok_iff_bits bit_simps bit_flags)

lemma alignedE:
  assumes "aligned t"
  obtains k where "unat t = 4096 * k" "k < 2 ^ 52"
proof -
  from assms obtain k where k: "unat t = 4096 * k" unfolding aligned_def by auto
  moreover have "unat t < 2 ^ 64" using unat_lt2p [of t] by simp
  ultimately show thesis using that [of k] by simp
qed

lemma aligned_offset_eq_iff:
  assumes "unat t = 4096 * k" "unat t' = 4096 * k'" "x < 4096" "y < 4096"
  shows "unat t + x = unat t' + y \<longleftrightarrow> k = k' \<and> x = y"
proof -
  have "k = k'" if "4096 * k + x = 4096 * k' + y"
  proof (rule ccontr)
    assume "k \<noteq> k'"
    then consider "k + 1 \<le> k'" | "k' + 1 \<le> k" by linarith
    then show False using that assms(3,4) by cases linarith+
  qed
  with assms show ?thesis by (cases "k = k'") auto
qed

lemma unat_entry_addr: "aligned t \<Longrightarrow> i < 512 \<Longrightarrow> unat (entry_addr t i) = unat t + 8 * i"
  by (elim alignedE) (simp add: entry_addr_def unat_word_ariths unat_of_nat_small)

lemma entry_addr_eq_iff:
  assumes "aligned t" "aligned t'" "i < 512" "j < 512"
  shows "entry_addr t i = entry_addr t' j \<longleftrightarrow> t = t' \<and> i = j"
proof -
  obtain k k' where k: "unat t = 4096 * k" "unat t' = 4096 * k'"
    using assms(1,2) by (auto elim!: alignedE)
  have "entry_addr t i = entry_addr t' j \<longleftrightarrow> unat t + 8 * i = unat t' + 8 * j"
    using assms by (simp add: word_unat_eq_iff unat_entry_addr)
  also have "\<dots> \<longleftrightarrow> k = k' \<and> i = j"
    using aligned_offset_eq_iff [OF k, of "8 * i" "8 * j"] assms(3,4) by simp
  also have "k = k' \<longleftrightarrow> t = t'"
    using k by (simp add: word_unat_eq_iff)
  finally show ?thesis .
qed

lemma zero_frame_entry:
  assumes "aligned t" "aligned f" "j < 512"
  shows "table_entry (mem (zero_frame m f)) t j = (if t = f then 0 else table_entry (mem m) t j)"
proof -
  obtain k k' where k: "unat t = 4096 * k" "unat f = 4096 * k'"
    using assms(1,2) by (auto elim!: alignedE)
  have "unat f \<le> unat t + 8 * j \<and> unat t + 8 * j < unat f + 4096 \<longleftrightarrow> k = k'"
    using k assms(3) by auto
  also have "\<dots> \<longleftrightarrow> t = f"
    using k by (simp add: word_unat_eq_iff)
  finally show ?thesis
    using assms by (simp add: zero_frame_def table_entry_def unat_entry_addr)
qed


subsection \<open>The tables as a tree\<close>

text \<open>
  \<open>descend mm t n p\<close> follows the path \<open>p\<close> of indices from a table at level \<open>n\<close> (3 for the PML4,
  0 for a page table) to the table it leads to; \<open>resolve mm t p\<close> follows a full path to the entry
  that ends the walk, a leaf or a huge page, with the number of levels below it.
\<close>

fun descend :: "(u64 \<Rightarrow> u64) \<Rightarrow> u64 \<Rightarrow> nat \<Rightarrow> nat list \<Rightarrow> u64 option" where
  "descend mm t n [] = Some t"
| "descend mm t 0 (i # is) = None"
| "descend mm t (Suc n) (i # is) =
     (let e = table_entry mm t i in
      if is_present e \<and> \<not> (n < 2 \<and> is_huge e) then descend mm (pte_address e) n is else None)"

fun resolve :: "(u64 \<Rightarrow> u64) \<Rightarrow> u64 \<Rightarrow> nat list \<Rightarrow> (nat \<times> u64) option" where
  "resolve mm t [] = None"
| "resolve mm t (i # is) =
     (let e = table_entry mm t i in
      if \<not> is_present e then None
      else if is = [] \<or> length is < 3 \<and> is_huge e then Some (length is, e)
      else resolve mm (pte_address e) is)"

definition pidx :: "nat list \<Rightarrow> bool" where
  "pidx p \<longleftrightarrow> list_all (\<lambda>i. i < 512) p"

definition tables :: "(u64 \<Rightarrow> u64) \<Rightarrow> u64 \<Rightarrow> u64 set" where
  "tables mm r = {t. \<exists>p. pidx p \<and> descend mm r 3 p = Some t}"

text \<open>No table is reached by two paths.\<close>

definition pt_tree :: "(u64 \<Rightarrow> u64) \<Rightarrow> u64 \<Rightarrow> bool" where
  "pt_tree mm r \<longleftrightarrow> aligned r \<and>
     (\<forall>p q t. pidx p \<and> pidx q \<and> descend mm r 3 p = Some t \<and> descend mm r 3 q = Some t \<longrightarrow> p = q)"

lemma pidx_simps [simp]: "pidx []" "pidx (i # p) \<longleftrightarrow> i < 512 \<and> pidx p" "pidx (p @ q) \<longleftrightarrow> pidx p \<and> pidx q"
  by (simp_all add: pidx_def)

lemma descend_length: "descend mm t n p = Some t' \<Longrightarrow> length p \<le> n"
  by (induction mm t n p rule: descend.induct) (auto simp: Let_def split: if_splits)

lemma descend_append:
  "descend mm t n (p @ q) =
     (case descend mm t n p of None \<Rightarrow> None | Some t' \<Rightarrow> descend mm t' (n - length p) q)"
  by (induction mm t n p rule: descend.induct) (auto simp: Let_def split: option.split)

lemma descend_aligned: "descend mm t n p = Some t' \<Longrightarrow> aligned t \<Longrightarrow> aligned t'"
  by (induction mm t n p rule: descend.induct) (auto simp: Let_def split: if_splits)

lemma resolve_descend:
  "descend mm t n p = Some t' \<Longrightarrow> length p + length is = Suc n \<Longrightarrow> is \<noteq> [] \<Longrightarrow> n \<le> 3 \<Longrightarrow>
   resolve mm t (p @ is) = resolve mm t' is"
  by (induction mm t n p rule: descend.induct) (auto simp: Let_def split: if_splits)

lemma tables_aligned: "pt_tree mm r \<Longrightarrow> t \<in> tables mm r \<Longrightarrow> aligned t"
  by (auto simp: pt_tree_def tables_def dest: descend_aligned)

lemma tables_root [simp, intro]: "r \<in> tables mm r"
  unfolding tables_def by (auto intro: exI [of _ "[]"])

lemma tablesI: "pidx p \<Longrightarrow> descend mm r 3 p = Some t \<Longrightarrow> t \<in> tables mm r"
  by (auto simp: tables_def)

text \<open>
  \<open>mm'\<close> differs from \<open>mm\<close>, as far as the tables are concerned, in one entry at most: entry
  \<open>i0\<close> of the table at the end of \<open>p0\<close>.
\<close>

definition one_entry :: "(u64 \<Rightarrow> u64) \<Rightarrow> (u64 \<Rightarrow> u64) \<Rightarrow> u64 \<Rightarrow> u64 \<Rightarrow> nat \<Rightarrow> bool" where
  "one_entry mm mm' r t0 i0 \<longleftrightarrow>
     (\<forall>t \<in> tables mm r. \<forall>j < 512. \<not> (t = t0 \<and> j = i0) \<longrightarrow> table_entry mm' t j = table_entry mm t j)"

lemma descend_snoc:
  assumes "descend mm r 3 a = Some s" "3 - length a = Suc n"
  shows "descend mm r 3 (a @ [j]) =
    (if is_present (table_entry mm s j) \<and> \<not> (n < 2 \<and> is_huge (table_entry mm s j))
     then Some (pte_address (table_entry mm s j)) else None)"
  using assms by (simp add: descend_append Let_def)

lemma one_entry_same:
  assumes "pt_tree mm r" "one_entry mm mm' r t0 i0" "pidx p0" "descend mm r 3 p0 = Some t0"
    and "pidx (a @ j # b)" "descend mm r 3 a = Some s" "\<not> prefix (p0 @ [i0]) (a @ j # b)"
  shows "table_entry mm' s j = table_entry mm s j"
proof -
  have "\<not> (s = t0 \<and> j = i0)"
  proof
    assume "s = t0 \<and> j = i0"
    then have "a = p0" using assms by (auto simp: pt_tree_def)
    with \<open>s = t0 \<and> j = i0\<close> assms(7) show False by simp
  qed
  moreover have "s \<in> tables mm r" using assms by (auto intro: tablesI)
  ultimately show ?thesis using assms(2,5) by (auto simp: one_entry_def)
qed

lemma descend_one_entry_from:
  assumes "pt_tree mm r" "one_entry mm mm' r t0 i0" "pidx p0" "descend mm r 3 p0 = Some t0"
  shows "pidx (a @ b) \<Longrightarrow> descend mm r 3 a = Some s \<Longrightarrow> \<not> prefix (p0 @ [i0]) (a @ b) \<Longrightarrow>
    descend mm' s (3 - length a) b = descend mm s (3 - length a) b"
proof (induction b arbitrary: a s)
  case (Cons j b)
  show ?case
  proof (cases "3 - length a")
    case (Suc n)
    have e: "table_entry mm' s j = table_entry mm s j"
      using one_entry_same [OF assms Cons.prems] .
    have "3 - length (a @ [j]) = n" using Suc by simp
    then show ?thesis
      using Cons.IH [of "a @ [j]" "pte_address (table_entry mm s j)"] Cons.prems
        descend_snoc [OF Cons.prems(2) Suc, of j] Suc
      by (auto simp: e Let_def)
  qed simp
qed simp

lemma resolve_one_entry_from:
  assumes "pt_tree mm r" "one_entry mm mm' r t0 i0" "pidx p0" "descend mm r 3 p0 = Some t0"
  shows "pidx (a @ b) \<Longrightarrow> length (a @ b) = 4 \<Longrightarrow> descend mm r 3 a = Some s \<Longrightarrow>
    \<not> prefix (p0 @ [i0]) (a @ b) \<Longrightarrow> resolve mm' s b = resolve mm s b"
proof (induction b arbitrary: a s)
  case (Cons j b)
  have e: "table_entry mm' s j = table_entry mm s j"
    using one_entry_same [OF assms Cons.prems(1,3,4)] .
  show ?case
  proof (cases "b = []")
    case False
    then obtain n where n: "length b = Suc n" by (cases b) auto
    with Cons.prems(2) have "3 - length a = Suc n" by simp
    from descend_snoc [OF Cons.prems(3) this, of j] False n show ?thesis
      using Cons.IH [of "a @ [j]" "pte_address (table_entry mm s j)"] Cons.prems
      by (auto simp: e Let_def)
  qed (simp add: e Let_def)
qed simp

lemma descend_one_entry:
  assumes "pt_tree mm r" "one_entry mm mm' r t0 i0" "pidx p0" "descend mm r 3 p0 = Some t0"
    and "pidx q" "\<not> prefix (p0 @ [i0]) q"
  shows "descend mm' r 3 q = descend mm r 3 q"
  using descend_one_entry_from [OF assms(1-4), of "[]" q r] assms(5,6) by simp

lemma resolve_one_entry:
  assumes "pt_tree mm r" "one_entry mm mm' r t0 i0" "pidx p0" "descend mm r 3 p0 = Some t0"
    and "pidx q" "length q = 4" "\<not> prefix (p0 @ [i0]) q"
  shows "resolve mm' r q = resolve mm r q"
  using resolve_one_entry_from [OF assms(1-4), of "[]" q r] assms(5-7) by simp

lemma descend_to_changed:
  assumes "pt_tree mm r" "one_entry mm mm' r t0 i0" "pidx p0" "descend mm r 3 p0 = Some t0"
  shows "descend mm' r 3 p0 = Some t0"
proof -
  have "\<not> prefix (p0 @ [i0]) p0" by (auto dest: prefix_length_le)
  from descend_one_entry [OF assms assms(3) this] assms(4) show ?thesis by simp
qed

text \<open>A fresh, empty table is hung below an absent entry.\<close>

lemma attach_table:
  assumes tree: "pt_tree mm r" and one: "one_entry mm mm' r t0 i0"
    and p0: "pidx p0" "descend mm r 3 p0 = Some t0" "length p0 < 3" and i0: "i0 < 512"
    and absent: "\<not> is_present (table_entry mm t0 i0)"
    and new: "is_present (table_entry mm' t0 i0)" "\<not> is_huge (table_entry mm' t0 i0)"
      "pte_address (table_entry mm' t0 i0) = f"
    and empty: "\<And>j. j < 512 \<Longrightarrow> table_entry mm' f j = 0" and fresh: "f \<notin> tables mm r"
  shows "pidx q \<Longrightarrow> descend mm' r 3 q = (if q = p0 @ [i0] then Some f else descend mm r 3 q)"
    and "pidx q \<Longrightarrow> length q = 4 \<Longrightarrow> resolve mm' r q = resolve mm r q"
proof -
  obtain n where n: "3 - length p0 = Suc n" using p0(3) by (metis Suc_diff_Suc)
  have to': "descend mm' r 3 p0 = Some t0" using descend_to_changed [OF tree one p0(1,2)] .
  { assume q: "pidx q"
    show "descend mm' r 3 q = (if q = p0 @ [i0] then Some f else descend mm r 3 q)"
    proof (cases "prefix (p0 @ [i0]) q")
      case False
      then show ?thesis using descend_one_entry [OF tree one p0(1,2) q] by auto
    next
      case True
      then obtain b where b: "q = p0 @ i0 # b" by (auto simp: prefix_def)
      have "descend mm r 3 q = None"
        using p0(2) n absent b by (simp add: descend_append Let_def)
      moreover have "descend mm' r 3 q = (if b = [] then Some f else None)"
        using to' n new b q empty by (cases b; cases n) (simp_all add: descend_append Let_def)
      ultimately show ?thesis using b by simp
    qed }
  { assume q: "pidx q" "length q = 4"
    show "resolve mm' r q = resolve mm r q"
    proof (cases "prefix (p0 @ [i0]) q")
      case False
      then show ?thesis using resolve_one_entry [OF tree one p0(1,2) q] by auto
    next
      case True
      then obtain b where b: "q = p0 @ i0 # b" by (auto simp: prefix_def)
      then obtain j b' where j: "b = j # b'" using q p0(3) by (cases b) auto
      have "resolve mm r q = None"
        using resolve_descend [OF p0(2), of "i0 # b"] q b absent by (simp add: Let_def)
      moreover have "resolve mm' r q = None"
        using resolve_descend [OF to', of "i0 # b"] q b j new empty by (simp add: Let_def)
      ultimately show ?thesis by simp
    qed }
qed

lemma attach_table_tree:
  assumes "pt_tree mm r" "one_entry mm mm' r t0 i0"
    and p0: "pidx p0" "descend mm r 3 p0 = Some t0" "length p0 < 3" and "i0 < 512"
    and absent: "\<not> is_present (table_entry mm t0 i0)"
    and "is_present (table_entry mm' t0 i0)" "\<not> is_huge (table_entry mm' t0 i0)"
      "pte_address (table_entry mm' t0 i0) = f"
    and "\<And>j. j < 512 \<Longrightarrow> table_entry mm' f j = 0" and fresh: "f \<notin> tables mm r"
  shows "pt_tree mm' r" "tables mm' r = insert f (tables mm r)"
proof -
  note at = attach_table(1) [OF assms]
  show "pt_tree mm' r"
    using assms(1) fresh at unfolding pt_tree_def by (auto intro: tablesI split: if_splits)
  have old: "descend mm r 3 (p0 @ [i0]) = None"
    using p0(2,3) absent by (cases "3 - length p0") (simp_all add: descend_append Let_def)
  show "tables mm' r = insert f (tables mm r)"
  proof (intro equalityI subsetI)
    fix x
    assume "x \<in> tables mm' r"
    then obtain q where "pidx q" "descend mm' r 3 q = Some x" by (auto simp: tables_def)
    then show "x \<in> insert f (tables mm r)" using at by (auto intro: tablesI split: if_splits)
  next
    fix x
    assume "x \<in> insert f (tables mm r)"
    then consider "x = f" | q where "pidx q" "descend mm r 3 q = Some x" by (auto simp: tables_def)
    then show "x \<in> tables mm' r"
    proof cases
      case 1
      with at [of "p0 @ [i0]"] p0(1) assms(6) show ?thesis by (intro tablesI [of "p0 @ [i0]"]) auto
    next
      case 2
      with at [of q] old show ?thesis by (intro tablesI [of q]) (auto split: if_splits)
    qed
  qed
qed

text \<open>An entry of a page table (level 0) is overwritten.\<close>

lemma overwrite_leaf:
  assumes tree: "pt_tree mm r" and one: "one_entry mm mm' r t0 i0"
    and p0: "pidx p0" "descend mm r 3 p0 = Some t0" "length p0 = 3"
  shows "pidx q \<Longrightarrow> descend mm' r 3 q = descend mm r 3 q"
    and "pidx q \<Longrightarrow> length q = 4 \<Longrightarrow> resolve mm' r q =
      (if q = p0 @ [i0]
       then if is_present (table_entry mm' t0 i0) then Some (0, table_entry mm' t0 i0) else None
       else resolve mm r q)"
proof -
  have to': "descend mm' r 3 p0 = Some t0" using descend_to_changed [OF tree one p0(1,2)] .
  { assume q: "pidx q"
    show "descend mm' r 3 q = descend mm r 3 q"
    proof (cases "prefix (p0 @ [i0]) q")
      case False
      then show ?thesis using descend_one_entry [OF tree one p0(1,2) q] by auto
    next
      case True
      then have "length q > 3" using p0(3) by (auto dest: prefix_length_le)
      then show ?thesis
        using descend_length [of mm r 3 q] descend_length [of mm' r 3 q]
        by (cases "descend mm r 3 q"; cases "descend mm' r 3 q") auto
    qed }
  { assume q: "pidx q" "length q = 4"
    show "resolve mm' r q = (if q = p0 @ [i0]
       then if is_present (table_entry mm' t0 i0) then Some (0, table_entry mm' t0 i0) else None
       else resolve mm r q)"
    proof (cases "q = p0 @ [i0]")
      case True
      then show ?thesis using resolve_descend [OF to', of "[i0]"] p0(3) by (simp add: Let_def)
    next
      case False
      then have "\<not> prefix (p0 @ [i0]) q" using q(2) p0(3) by (auto simp: prefix_def)
      with False show ?thesis using resolve_one_entry [OF tree one p0(1,2) q] by simp
    qed }
qed


subsection \<open>The state invariant\<close>

text \<open>
  The allocator invariant, the tree shape of the hierarchy below the root \<open>r\<close>, and no table frame
  on the free list.
\<close>

definition mach_inv :: "'a Machine_scheme \<Rightarrow> u64 \<Rightarrow> bool" where
  "mach_inv m r \<longleftrightarrow> fa_inv (frames m) \<and> pt_tree (mem m) r \<and> tables (mem m) r \<inter> avail (frames m) = {}"

abbreviation lookup_path :: "'a Machine_scheme \<Rightarrow> u64 \<Rightarrow> nat list \<Rightarrow> (nat \<times> u64) option" where
  "lookup_path m r q \<equiv> resolve (mem m) r q"

text \<open>
  \<open>m'\<close> is \<open>m\<close> with at most some empty tables added: every mapping is the same, and each frame that left
  the free list has become a table.
\<close>

definition grows :: "u64 \<Rightarrow> 'a Machine_scheme \<Rightarrow> 'a Machine_scheme \<Rightarrow> bool" where
  "grows r m m' \<longleftrightarrow> mach_inv m' r \<and> (\<forall>q. pidx q \<and> length q = 4 \<longrightarrow> lookup_path m' r q = lookup_path m r q)
     \<and> tables (mem m) r \<subseteq> tables (mem m') r
     \<and> avail (frames m') \<union> tables (mem m') r = avail (frames m) \<union> tables (mem m) r
     \<and> managed_frames (frames m') = managed_frames (frames m)
     \<and> kernel_pml4_phys m' = kernel_pml4_phys m \<and> invlpg_log m' = invlpg_log m \<and> Machine.more m' = Machine.more m"

lemma grows_refl [simp]: "grows r m m \<longleftrightarrow> mach_inv m r"
  by (simp add: grows_def)

lemma grows_trans: "grows r m m' \<Longrightarrow> grows r m' m'' \<Longrightarrow> grows r m m''"
  by (auto simp: grows_def)

lemma mem_write_entry:
  assumes "aligned t" "aligned t'" "i < 512" "j < 512"
  shows "table_entry (mem (write_entry m t i e)) t' j = (if t' = t \<and> j = i then e else table_entry (mem m) t' j)"
  using assms by (auto simp: write_entry_def table_entry_def entry_addr_eq_iff)

lemma one_entry_write:
  assumes "pt_tree (mem m) r" "t0 \<in> tables (mem m) r" "i0 < 512"
  shows "one_entry (mem m) (mem (write_entry m t0 i0 e)) r t0 i0"
    "table_entry (mem (write_entry m t0 i0 e)) t0 i0 = e"
  using assms tables_aligned [OF assms(1)]
  by (auto simp: one_entry_def mem_write_entry)

lemma walk_create_new:
  assumes inv: "mach_inv m r" and p0: "pidx p0" "descend (mem m) r 3 p0 = Some t" "length p0 < 3" "i < 512"
    and absent: "\<not> is_present (table_entry (mem m) t i)"
    and alloc: "allocate_frame (frames m) = (fa, Some f)"
    and m': "m' = write_entry (zero_frame (m\<lparr>frames := fa\<rparr>) f) t i (pte_set f (table_flags flags))"
  shows "grows r m m' \<and> descend (mem m') r 3 (p0 @ [i]) = Some f \<and> pte_address (table_entry (mem m') t i) = f"
proof -
  have tree: "pt_tree (mem m) r" and fa: "fa_inv (frames m)" using inv by (simp_all add: mach_inv_def)
  have f: "f \<in> avail (frames m)" "avail fa = avail (frames m) - {f}" "fa_inv fa"
    "managed_frames fa = managed_frames (frames m)"
    using fsrc.alloc_from [OF fa alloc] fsrc.alloc_takes [OF fa alloc] fsrc.alloc_ok [OF fa alloc]
      fsrc.alloc_managed [OF fa alloc] by simp_all
  have al: "aligned f" and small: "unat f < 2 ^ 52"
    using avail_aligned [OF f(1)] by (simp_all add: aligned_def MAX_FRAMES_eq)
  have fresh: "f \<notin> tables (mem m) r" using f(1) inv by (auto simp: mach_inv_def)
  have t: "t \<in> tables (mem m) r" "aligned t" "t \<noteq> f"
    using tablesI [OF p0(1,2)] tables_aligned [OF tree] fresh by auto
  have read: "table_entry (mem m') t' j =
      (if t' = t \<and> j = i then pte_set f (table_flags flags) else if t' = f then 0 else table_entry (mem m) t' j)"
    if "aligned t'" "j < 512" for t' j
    using that p0(4) t(2) al unfolding m' by (simp add: mem_write_entry zero_frame_entry)
  have one: "one_entry (mem m) (mem m') r t i"
    using tables_aligned [OF tree] fresh by (auto simp: one_entry_def read)
  have e: "pte_address (table_entry (mem m') t i) = f" "is_present (table_entry (mem m') t i)"
    "\<not> is_huge (table_entry (mem m') t i)"
    using t p0(4) table_flags_ok [of flags] mask_frame [OF al small]
    by (simp_all add: read pte_address_set is_present_set is_huge_set)
  have z: "\<And>j. j < 512 \<Longrightarrow> table_entry (mem m') f j = 0" using al t(3) by (simp add: read)
  note at = attach_table [OF tree one p0 absent e(2,3,1) z fresh]
  note tr = attach_table_tree [OF tree one p0 absent e(2,3,1) z fresh]
  have "frames m' = fa" "kernel_pml4_phys m' = kernel_pml4_phys m" "invlpg_log m' = invlpg_log m"
    "Machine.more m' = Machine.more m"
    by (simp_all add: m' write_entry_def zero_frame_def)
  then have "grows r m m'"
    using at(2) tr f inv unfolding grows_def mach_inv_def by auto
  then show ?thesis using e(1) at(1) p0(1,4) by simp
qed

lemma walk_create_ok:
  assumes inv: "mach_inv m r" and p0: "pidx p0" "descend (mem m) r 3 p0 = Some t" "length p0 < 3" "i < 512"
    and res: "walk_create m (p0 \<noteq> []) t i flags = (m', res)"
  shows "grows r m m' \<and> (\<forall>t'. res = Some t' \<longrightarrow> descend (mem m') r 3 (p0 @ [i]) = Some t')
    \<and> (res = None \<longrightarrow> avail (frames m') = {}
         \<or> (\<forall>b. length (p0 @ i # b) = 4 \<longrightarrow> lookup_path m r (p0 @ i # b) \<noteq> None))
    \<and> card (avail (frames m)) \<le> Suc (card (avail (frames m')))"
proof (cases "is_present (table_entry (mem m) t i)")
  case True
  obtain n where n: "3 - length p0 = Suc n" using p0(3) by (metis Suc_diff_Suc)
  then have n2: "n < 2 \<longleftrightarrow> p0 \<noteq> []" by (cases p0) auto
  have "lookup_path m r (p0 @ i # b) \<noteq> None"
    if "is_huge (table_entry (mem m) t i)" "p0 \<noteq> []" "length (p0 @ i # b) = 4" for b
    using resolve_descend [OF p0(2), of "i # b"] that True by (cases p0) (auto simp: Let_def)
  with True n2 show ?thesis
    using res inv descend_snoc [OF p0(2) n, of i] by (auto simp: walk_create_def Let_def split: if_splits)
next
  case False
  obtain fa a where alloc: "allocate_frame (frames m) = (fa, a)" by fastforce
  show ?thesis
  proof (cases a)
    case None
    with alloc inv have "fa = frames m \<and> avail (frames m) = {}"
      using fsrc.alloc_refuses by (auto simp: mach_inv_def)
    with None alloc False res inv show ?thesis
      by (auto simp: walk_create_def m_allocate_frame_def Let_def)
  next
    case (Some f)
    define m1 where "m1 = write_entry (zero_frame (m\<lparr>frames := fa\<rparr>) f) t i (pte_set f (table_flags flags))"
    have "walk_create m (p0 \<noteq> []) t i flags = (m1, Some (pte_address (table_entry (mem m1) t i)))"
      using alloc Some False by (simp add: walk_create_def m_allocate_frame_def Let_def m1_def table_flags_def)
    moreover have "frames m1 = fa" by (simp add: m1_def write_entry_def zero_frame_def)
    moreover have "avail fa = avail (frames m) - {f}"
      using fsrc.alloc_takes inv alloc Some by (auto simp: mach_inv_def)
    moreover have "card A \<le> Suc (card (A - {f}))" for A :: "u64 set"
      by (cases "f \<in> A") (simp_all add: card_Diff_singleton)
    ultimately show ?thesis
      using walk_create_new [OF inv p0 False alloc [unfolded Some] m1_def] res by simp
  qed
qed


subsection \<open>Virtual addresses\<close>

definition indices :: "u64 \<Rightarrow> nat list" where
  "indices v = [pml4_index v, pdp_index v, pd_index v, pt_index v]"

lemma index_bits: "unat (drop_bit n v AND 0x1FF) = unat v div 2 ^ n mod 512" for v :: u64
proof -
  have "(0x1FF :: u64) = mask 9" by (simp add: mask_eq_exp_minus_1)
  then have "drop_bit n v AND 0x1FF = take_bit 9 (drop_bit n v)" by (simp add: take_bit_eq_mask)
  then have "unat (drop_bit n v AND 0x1FF) = take_bit 9 (unat (drop_bit n v))"
    by (simp only: unsigned_take_bit_eq)
  also have "unat (drop_bit n v) = drop_bit n (unat v)"
    using unat_lt2p [of v] by (simp only: unsigned_drop_bit_eq take_bit_nat_eq_self)
  finally show ?thesis by (simp add: take_bit_eq_mod drop_bit_eq_div)
qed

lemmas index_defs = pml4_index_def pdp_index_def pd_index_def pt_index_def

lemma pidx_indices [simp]: "pidx (indices v)" "length (indices v) = 4"
  by (simp_all add: indices_def index_defs index_bits)

text \<open>Two addresses have the same indices iff they lie in the same page of the 48-bit space.\<close>

lemma digits_eq_iff:
  fixes x y :: nat
  shows "x mod 512 = y mod 512 \<and> x div 512 mod 512 = y div 512 mod 512
      \<and> x div 262144 mod 512 = y div 262144 mod 512 \<and> x div 134217728 mod 512 = y div 134217728 mod 512
    \<longleftrightarrow> x mod 68719476736 = y mod 68719476736"
proof -
  have split: "z mod 68719476736 = z mod 512 + 512 * (z div 512 mod 512) + 262144 * (z div 262144 mod 512)
      + 134217728 * (z div 134217728 mod 512)" for z :: nat
    using mod_mult2_eq [of z 512 134217728] mod_mult2_eq [of "z div 512" 512 262144]
      mod_mult2_eq [of "z div 512 div 512" 512 512]
    by (simp add: div_mult2_eq [symmetric])
  have div_mod: "z mod (a * b) div a = z div a mod b" if "a > 0" for z a b :: nat
    using that by (simp add: mod_mult2_eq)
  have digit: "z mod 68719476736 mod 512 = z mod 512"
    "z mod 68719476736 div 512 mod 512 = z div 512 mod 512"
    "z mod 68719476736 div 262144 mod 512 = z div 262144 mod 512"
    "z mod 68719476736 div 134217728 mod 512 = z div 134217728 mod 512" for z :: nat
    using div_mod [of 512 z 134217728] div_mod [of 262144 z 262144] div_mod [of 134217728 z 512]
    by (simp_all add: mod_mod_cancel)
  show ?thesis using split [of x] split [of y] digit [of x] digit [of y] by metis
qed

definition page_of :: "u64 \<Rightarrow> nat" where
  "page_of v = unat v div 4096 mod 2 ^ 36"

lemma indices_eq_iff: "indices v = indices w \<longleftrightarrow> page_of v = page_of w"
  using digits_eq_iff [of "unat v div 4096" "unat w div 4096"]
  by (auto simp: indices_def index_defs index_bits page_of_def div_mult2_eq [symmetric])

definition page_mask :: "nat \<Rightarrow> u64" where
  "page_mask n = (if n = 0 then 0xFFF else if n = 1 then HUGE_PAGE_SIZE - 1 else GIANT_PAGE_SIZE - 1)"

lemma translate_lookup:
  "translate m r v = map_option (\<lambda>(n, e). pte_address e OR (v AND page_mask n)) (lookup_path m r (indices v))"
  by (simp add: translate_def indices_def Let_def page_mask_def page_offset_def)


subsection \<open>Mapping and unmapping a page\<close>

declare descend.simps(3) [simp del] resolve.simps(2) [simp del]

lemma indices_snoc: "indices v = [pml4_index v, pdp_index v, pd_index v] @ [pt_index v]"
  by (simp add: indices_def)

text \<open>
  \<open>remaps r v e m m'\<close>: the only mapping that changes is that of the page of \<open>v\<close>, which becomes
  \<open>e\<close>; the frames on the free list and in tables are together the same.
\<close>

definition remaps :: "u64 \<Rightarrow> u64 \<Rightarrow> (nat \<times> u64) option \<Rightarrow> 'a Machine_scheme \<Rightarrow> 'a Machine_scheme \<Rightarrow> bool" where
  "remaps r v e m m' \<longleftrightarrow> mach_inv m' r \<and> lookup_path m' r (indices v) = e
     \<and> (\<forall>q. pidx q \<and> length q = 4 \<and> q \<noteq> indices v \<longrightarrow> lookup_path m' r q = lookup_path m r q)
     \<and> tables (mem m) r \<subseteq> tables (mem m') r
     \<and> avail (frames m') \<union> tables (mem m') r = avail (frames m) \<union> tables (mem m) r
     \<and> managed_frames (frames m') = managed_frames (frames m)
     \<and> kernel_pml4_phys m' = kernel_pml4_phys m \<and> invlpg_log m' = v # invlpg_log m \<and> Machine.more m' = Machine.more m"

lemma grows_remaps: "grows r m m' \<Longrightarrow> remaps r v e m' m'' \<Longrightarrow> remaps r v e m m''"
  by (auto simp: grows_def remaps_def)

lemma leaf_write_remaps:
  assumes inv: "mach_inv m r" and pt: "descend (mem m) r 3 [pml4_index v, pdp_index v, pd_index v] = Some pt"
    and m': "m' = invlpg (write_entry m pt (pt_index v) e) v"
  shows "remaps r v (if is_present e then Some (0, e) else None) m m'"
proof -
  have tree: "pt_tree (mem m) r" using inv by (simp add: mach_inv_def)
  have p: "pidx [pml4_index v, pdp_index v, pd_index v]" "pt_index v < 512"
    using pidx_indices(1) [of v] by (simp_all add: indices_def)
  have mm: "mem m' = mem (write_entry m pt (pt_index v) e)" by (simp add: m' invlpg_def)
  note w = one_entry_write [OF tree tablesI [OF p(1) pt] p(2), of e, folded mm]
  note o = overwrite_leaf [OF tree w(1) p(1) pt]
  have tabs: "tables (mem m') r = tables (mem m) r"
    using o(1) unfolding tables_def by auto
  have "pt_tree (mem m') r"
    using tree o(1) unfolding pt_tree_def by auto
  then have i: "mach_inv m' r" using inv tabs by (simp add: mach_inv_def m' invlpg_def write_entry_def)
  have l: "lookup_path m' r q = (if q = indices v then if is_present e then Some (0, e) else None else lookup_path m r q)"
    if "pidx q" "length q = 4" for q
    using o(2) [OF _ that] w(2) by (simp add: indices_snoc)
  show ?thesis
    unfolding remaps_def using i l tabs by (simp add: m' invlpg_def write_entry_def)
qed

lemma walk_create_facts:
  assumes "mach_inv m r" and "pidx p0" "descend (mem m) r 3 p0 = Some t" "length p0 < 3" "i < 512"
    and "walk_create m (p0 \<noteq> []) t i flags = (m', res)"
  shows "grows r m m'" "mach_inv m' r" "res = Some t' \<Longrightarrow> descend (mem m') r 3 (p0 @ [i]) = Some t'"
    "res = None \<Longrightarrow> length (p0 @ i # b) = 4 \<Longrightarrow> avail (frames m') = {} \<or> lookup_path m r (p0 @ i # b) \<noteq> None"
    "card (avail (frames m)) \<le> Suc (card (avail (frames m')))"
  using walk_create_ok [OF assms] by (auto simp: grows_def)

definition mapped_leaf :: "'a Machine_scheme \<Rightarrow> u64 \<Rightarrow> u64 \<Rightarrow> u64 \<Rightarrow> 'a Machine_scheme \<Rightarrow> bool" where
  "mapped_leaf m1 r v e m' \<longleftrightarrow>
    (\<exists>pt. descend (mem m1) r 3 [pml4_index v, pdp_index v, pd_index v] = Some pt
       \<and> \<not> is_present (table_entry (mem m1) pt (pt_index v))
       \<and> m' = invlpg (write_entry m1 pt (pt_index v) e) v)"

lemma map_page_cases:
  assumes inv: "mach_inv m r" and res: "map_page m r v phys flags = (m', ok)"
  obtains m1 where "ok" "grows r m m1" "mapped_leaf m1 r v (pte_set phys (flags OR PRESENT)) m'"
  | "\<not> ok" "grows r m m'" "avail (frames m') = {} \<and> card (avail (frames m)) \<le> 3 \<or> lookup_path m r (indices v) \<noteq> None"
proof -
  have p: "pml4_index v < 512" "pdp_index v < 512" "pd_index v < 512"
    using pidx_indices(1) [of v] by (simp_all add: indices_def)
  obtain m1 r1 where w1: "walk_create m False r (pml4_index v) flags = (m1, r1)" by fastforce
  have g1: "grows r m m1" "mach_inv m1 r" "\<And>t. r1 = Some t \<Longrightarrow> descend (mem m1) r 3 [pml4_index v] = Some t"
    "r1 = None \<Longrightarrow> avail (frames m1) = {} \<or> lookup_path m r (indices v) \<noteq> None"
    "card (avail (frames m)) \<le> Suc (card (avail (frames m1)))"
    using walk_create_facts(1-3,5) [OF inv, of "[]" r "pml4_index v" flags m1 r1]
        walk_create_facts(4) [OF inv, of "[]" r "pml4_index v" flags m1 r1 "[pdp_index v, pd_index v, pt_index v]"] w1 p
    unfolding indices_def by simp_all
  show thesis
  proof (cases r1)
    case None
    with w1 res have "m' = m1" "\<not> ok" by (auto simp: map_page_def)
    with g1(1,4,5) None show thesis by (intro that(2)) auto
  next
    case (Some pdp)
    obtain m2 r2 where w2: "walk_create m1 True pdp (pdp_index v) flags = (m2, r2)" by fastforce
    have g2: "grows r m1 m2" "mach_inv m2 r"
      "\<And>t. r2 = Some t \<Longrightarrow> descend (mem m2) r 3 [pml4_index v, pdp_index v] = Some t"
      "r2 = None \<Longrightarrow> avail (frames m2) = {} \<or> lookup_path m1 r (indices v) \<noteq> None"
      "card (avail (frames m1)) \<le> Suc (card (avail (frames m2)))"
      using walk_create_facts(1-3,5) [OF g1(2) _ g1(3) [OF Some], of "pdp_index v" flags m2 r2]
        walk_create_facts(4) [OF g1(2) _ g1(3) [OF Some], of "pdp_index v" flags m2 r2 "[pd_index v, pt_index v]"] w2 p
      unfolding indices_def by simp_all
    have g12: "grows r m m2" using g1(1) g2(1) by (rule grows_trans)
    have s1: "lookup_path m1 r (indices v) = lookup_path m r (indices v)" using g1(1) by (simp add: grows_def)
    show thesis
    proof (cases r2)
      case None
      with w1 w2 res Some have "m' = m2" "\<not> ok" by (auto simp: map_page_def)
      with g12 g2(4,5) g1(5) None s1 show thesis by (intro that(2)) auto
    next
      case Some2: (Some pd)
      obtain m3 r3 where w3: "walk_create m2 True pd (pd_index v) flags = (m3, r3)" by fastforce
      have g3: "grows r m2 m3"
        "\<And>t. r3 = Some t \<Longrightarrow> descend (mem m3) r 3 [pml4_index v, pdp_index v, pd_index v] = Some t"
        "r3 = None \<Longrightarrow> avail (frames m3) = {} \<or> lookup_path m2 r (indices v) \<noteq> None"
        "card (avail (frames m2)) \<le> Suc (card (avail (frames m3)))"
        using walk_create_facts(1-3,5) [OF g2(2) _ g2(3) [OF Some2], of "pd_index v" flags m3 r3]
        walk_create_facts(4) [OF g2(2) _ g2(3) [OF Some2], of "pd_index v" flags m3 r3 "[pt_index v]"] w3 p
        unfolding indices_def by simp_all
      have g: "grows r m m3" using g12 g3(1) by (rule grows_trans)
      have s2: "lookup_path m2 r (indices v) = lookup_path m r (indices v)" using g12 by (simp add: grows_def)
      have s3: "lookup_path m3 r (indices v) = lookup_path m r (indices v)" using g by (simp add: grows_def)
      show thesis
      proof (cases r3)
        case None
        with w1 w2 w3 res Some Some2 have "m' = m3" "\<not> ok" by (auto simp: map_page_def)
        with g g3(3,4) g2(5) g1(5) None s2 show thesis by (intro that(2)) auto
      next
        case Some3: (Some pt)
        have d: "descend (mem m3) r 3 [pml4_index v, pdp_index v, pd_index v] = Some pt"
          using g3(2) Some3 by simp
        have "lookup_path m3 r (indices v) = resolve (mem m3) pt [pt_index v]"
          using resolve_descend [OF d, of "[pt_index v]"] by (simp add: indices_def)
        then have "lookup_path m r (indices v) \<noteq> None" if "is_present (table_entry (mem m3) pt (pt_index v))"
          using that s3 by (simp add: resolve.simps(2) [of _ _ _ "[]"] Let_def)
        with w1 w2 w3 res Some Some2 Some3 d g that show thesis
          by (auto simp: map_page_def Let_def mapped_leaf_def split: if_splits)
      qed
    qed
  qed
qed

lemma resolve_leaf:
  assumes "descend mm t n p = Some pt" "length p = n" "n \<le> 3"
  shows "resolve mm t (p @ [i]) = (if is_present (table_entry mm pt i) then Some (0, table_entry mm pt i) else None)"
  using resolve_descend [OF assms(1), of "[i]"] assms(2,3)
  by (simp add: resolve.simps(2) [of _ _ _ "[]"] Let_def)

lemma resolve_no_leaf:
  "resolve mm t (p @ [i]) = Some (0, e) \<Longrightarrow> length p = n \<Longrightarrow> n \<le> 3 \<Longrightarrow> descend mm t n p \<noteq> None"
proof (induction p arbitrary: t n)
  case (Cons j p)
  then show ?case
    by (cases n) (auto simp: resolve.simps(2) [of _ _ _ "_ @ _"] descend.simps(3) Let_def split: if_splits)
qed simp

lemma find_pt_descend: "find_pt m r v = descend (mem m) r 3 [pml4_index v, pdp_index v, pd_index v]"
  by (simp add: find_pt_def numeral_3_eq_3 descend.simps(3) Let_def)

lemma lookup_find_pt:
  "lookup_path m r (indices v) = Some (0, e) \<longleftrightarrow>
    (\<exists>pt. find_pt m r v = Some pt \<and> is_present (table_entry (mem m) pt (pt_index v))
       \<and> e = table_entry (mem m) pt (pt_index v))"
proof (cases "find_pt m r v")
  case None
  then show ?thesis
    using resolve_no_leaf [of "mem m" r "[pml4_index v, pdp_index v, pd_index v]" "pt_index v" e 3]
    unfolding find_pt_descend indices_snoc by (simp only: list.size) auto
next
  case (Some pt)
  then show ?thesis
    using resolve_leaf [of "mem m" r 3 "[pml4_index v, pdp_index v, pd_index v]" pt "pt_index v"]
    unfolding find_pt_descend indices_snoc by auto
qed

lemma map_page_remaps:
  assumes "mach_inv m r" "map_page m r v phys flags = (m', True)"
  shows "remaps r v (Some (0, pte_set phys (flags OR PRESENT))) m m'" "lookup_path m r (indices v) = None"
proof -
  obtain m1 where m1: "grows r m m1" "mapped_leaf m1 r v (pte_set phys (flags OR PRESENT)) m'"
    using map_page_cases [OF assms] by blast
  then obtain pt where pt: "descend (mem m1) r 3 [pml4_index v, pdp_index v, pd_index v] = Some pt"
    "\<not> is_present (table_entry (mem m1) pt (pt_index v))"
    "m' = invlpg (write_entry m1 pt (pt_index v) (pte_set phys (flags OR PRESENT))) v"
    by (auto simp: mapped_leaf_def)
  have "mach_inv m1 r" using m1(1) by (simp add: grows_def)
  from leaf_write_remaps [OF this pt(1,3)]
  have "remaps r v (Some (0, pte_set phys (flags OR PRESENT))) m1 m'"
    by (simp add: is_present_set bit_simps bit_flags)
  with m1(1) show "remaps r v (Some (0, pte_set phys (flags OR PRESENT))) m m'" by (rule grows_remaps)
  have "lookup_path m1 r (indices v) = None"
    using resolve_leaf [OF pt(1), of "pt_index v"] pt(2) by (simp add: indices_snoc)
  with m1(1) show "lookup_path m r (indices v) = None" by (simp add: grows_def)
qed

lemma map_page_grows:
  assumes "mach_inv m r" "map_page m r v phys flags = (m', False)"
  shows "grows r m m'" "avail (frames m') = {} \<or> lookup_path m r (indices v) \<noteq> None"
    "card (avail (frames m)) \<le> 3 \<or> lookup_path m r (indices v) \<noteq> None"
  using map_page_cases [OF assms] by blast+

lemma unmap_page_remaps:
  assumes "mach_inv m r" "unmap_page m r v = (m', Some phys)"
  obtains e where "lookup_path m r (indices v) = Some (0, e)" "phys = pte_address e" "remaps r v None m m'"
proof -
  from assms(2) obtain pt where pt: "find_pt m r v = Some pt" "is_present (table_entry (mem m) pt (pt_index v))"
    "phys = pte_address (table_entry (mem m) pt (pt_index v))"
    "m' = invlpg (write_entry m pt (pt_index v) 0) v"
    by (auto simp: unmap_page_def Let_def split: option.splits if_splits)
  from leaf_write_remaps [OF assms(1) pt(1) [unfolded find_pt_descend] pt(4)]
  have "remaps r v None m m'" by simp
  with pt lookup_find_pt [of m r v "table_entry (mem m) pt (pt_index v)"] that show thesis by blast
qed

lemma unmap_page_None:
  "unmap_page m r v = (m', None) \<longleftrightarrow> m' = m \<and> (\<forall>e. lookup_path m r (indices v) \<noteq> Some (0, e))"
  by (auto simp: unmap_page_def lookup_find_pt Let_def split: option.splits)

lemma update_flags_remaps:
  assumes "mach_inv m r" "update_flags m r v new_flags = (m', True)"
  obtains e where "lookup_path m r (indices v) = Some (0, e)"
    "remaps r v (Some (0, pte_set (pte_address e) (new_flags OR PRESENT))) m m'"
proof -
  from assms(2) obtain pt where pt: "find_pt m r v = Some pt" "is_present (table_entry (mem m) pt (pt_index v))"
    "m' = invlpg (write_entry m pt (pt_index v)
       (pte_set (pte_address (table_entry (mem m) pt (pt_index v))) (new_flags OR PRESENT))) v"
    by (auto simp: update_flags_def Let_def split: option.splits if_splits)
  from leaf_write_remaps [OF assms(1) pt(1) [unfolded find_pt_descend] pt(3)]
  have "remaps r v (Some (0, pte_set (pte_address (table_entry (mem m) pt (pt_index v))) (new_flags OR PRESENT))) m m'"
    by (simp add: is_present_set bit_simps bit_flags)
  with pt lookup_find_pt [of m r v "table_entry (mem m) pt (pt_index v)"] that show thesis by blast
qed


subsection \<open>Ranges\<close>

lemma page_of_add: "page_of (v + of_nat i * PAGE_SIZE) = (page_of v + i) mod 2 ^ 36"
proof -
  have "unat (v + of_nat i * PAGE_SIZE) = (unat v + 4096 * i) mod 2 ^ 64"
    by (simp add: unat_word_ariths PAGE_SIZE_def unat_of_nat mod_simps mult.commute)
  moreover have "x mod 2 ^ 64 div 4096 = x div 4096 mod 2 ^ 52" for x :: nat
    using mod_mult2_eq [of x 4096 "2 ^ 52"] by simp
  moreover have "(unat v + 4096 * i) div 4096 = unat v div 4096 + i" by simp
  ultimately have "page_of (v + of_nat i * PAGE_SIZE) = (unat v div 4096 + i) mod 2 ^ 52 mod 2 ^ 36"
    by (simp add: page_of_def add.commute)
  also have "\<dots> = (unat v div 4096 + i) mod 2 ^ 36" by (rule mod_mod_cancel) simp
  finally show ?thesis by (simp add: page_of_def mod_add_left_eq)
qed

lemma page_of_add_eq_iff:
  assumes "i < 2 ^ 36" "j < 2 ^ 36"
  shows "page_of (v + of_nat i * PAGE_SIZE) = page_of (v + of_nat j * PAGE_SIZE) \<longleftrightarrow> i = j"
  using add_mod_inj [OF assms, of "page_of v"] by (simp only: page_of_add)

lemma remaps_translate:
  assumes "remaps r v (Some (0, pte_set phys flags)) m m'" "flags_ok flags" "phys AND ADDR_MASK = phys"
  shows "translate m' r w = (if page_of w = page_of v then Some (phys OR (w AND 0xFFF)) else translate m r w)"
  using assms
  by (simp add: remaps_def translate_lookup indices_eq_iff [symmetric] page_mask_def pte_address_set)

lemma grows_translate: "grows r m m' \<Longrightarrow> translate m' r w = translate m r w"
  by (simp add: grows_def translate_lookup)

lemma remaps_None_translate:
  "remaps r v None m m' \<Longrightarrow> translate m' r w = (if page_of w = page_of v then None else translate m r w)"
  by (simp add: remaps_def translate_lookup indices_eq_iff [symmetric])


text \<open>The state after the pages \<open>i0\<close> to \<open>k - 1\<close> of a range have been mapped.\<close>

definition range_mapped :: "u64 \<Rightarrow> u64 \<Rightarrow> u64 \<Rightarrow> u64 \<Rightarrow> nat \<Rightarrow> nat \<Rightarrow> 'a Machine_scheme \<Rightarrow> 'a Machine_scheme \<Rightarrow> bool" where
  "range_mapped r v phys flags i0 k m m' \<longleftrightarrow> mach_inv m' r \<and>
     (\<forall>i. i0 \<le> i \<and> i < k \<longrightarrow> lookup_path m' r (indices (v + of_nat i * PAGE_SIZE))
        = Some (0, pte_set (phys + of_nat i * PAGE_SIZE) (flags OR PRESENT))
        \<and> lookup_path m r (indices (v + of_nat i * PAGE_SIZE)) = None) \<and>
     (\<forall>q. pidx q \<and> length q = 4 \<and> (\<forall>i. i0 \<le> i \<and> i < k \<longrightarrow> q \<noteq> indices (v + of_nat i * PAGE_SIZE)) \<longrightarrow>
        lookup_path m' r q = lookup_path m r q)
     \<and> avail (frames m') \<union> tables (mem m') r = avail (frames m) \<union> tables (mem m) r"

lemma map_range_from_mapped:
  assumes "mach_inv m r" "i0 + n \<le> 2 ^ 36" "map_range_from m r v phys i0 n flags = (m', k)"
  shows "i0 \<le> k \<and> k \<le> i0 + n \<and> range_mapped r v phys flags i0 k m m'
    \<and> (k < i0 + n \<longrightarrow> avail (frames m') = {} \<or> lookup_path m r (indices (v + of_nat k * PAGE_SIZE)) \<noteq> None)"
  using assms
proof (induction n arbitrary: m i0)
  case 0
  then show ?case by (auto simp: range_mapped_def)
next
  case (Suc n)
  let ?v = "\<lambda>i. v + of_nat i * PAGE_SIZE"
  obtain m1 b where m1: "map_page m r (?v i0) (phys + of_nat i0 * PAGE_SIZE) flags = (m1, b)" by fastforce
  show ?case
  proof (cases b)
    case False
    with m1 Suc.prems have e: "m' = m1" "k = i0" by (auto simp: Let_def)
    from m1 False have "map_page m r (?v i0) (phys + of_nat i0 * PAGE_SIZE) flags = (m1, False)" by simp
    from map_page_grows [OF Suc.prems(1) this] show ?thesis unfolding e range_mapped_def by (auto simp: grows_def)
  next
    case True
    from m1 True have "map_page m r (?v i0) (phys + of_nat i0 * PAGE_SIZE) flags = (m1, True)" by simp
    note rm = map_page_remaps [OF Suc.prems(1) this]
    have i1: "mach_inv m1 r" using rm(1) by (simp add: remaps_def)
    have rec: "map_range_from m1 r v phys (Suc i0) n flags = (m', k)"
      using Suc.prems(3) m1 True by (simp add: Let_def)
    have neq: "indices (?v i) \<noteq> indices (?v i0)" if "Suc i0 \<le> i" "i \<le> Suc i0 + n" "i < 2 ^ 36" for i
      using that Suc.prems(2) page_of_add_eq_iff [of i i0 v] by (simp add: indices_eq_iff)
    note IH = Suc.IH [OF i1 _ rec]
    have k: "Suc i0 \<le> k" "k \<le> Suc i0 + n" and rmp: "range_mapped r v phys flags (Suc i0) k m1 m'"
      and fail: "k < Suc i0 + n \<Longrightarrow> avail (frames m') = {} \<or> lookup_path m1 r (indices (?v k)) \<noteq> None"
      using IH Suc.prems(2) by auto
    have other: "lookup_path m1 r q = lookup_path m r q" if "pidx q" "length q = 4" "q \<noteq> indices (?v i0)" for q
      using rm(1) that by (simp add: remaps_def)
    have "range_mapped r v phys flags i0 k m m'"
      unfolding range_mapped_def
    proof (intro conjI allI impI)
      show "mach_inv m' r" using rmp by (simp add: range_mapped_def)
      show "avail (frames m') \<union> tables (mem m') r = avail (frames m) \<union> tables (mem m) r"
        using rmp rm(1) by (simp add: range_mapped_def remaps_def)
    next
      fix i
      assume i: "i0 \<le> i \<and> i < k"
      show "lookup_path m' r (indices (?v i)) = Some (0, pte_set (phys + of_nat i * PAGE_SIZE) (flags OR PRESENT))"
      proof (cases "i = i0")
        case True
        have "\<forall>j. Suc i0 \<le> j \<and> j < k \<longrightarrow> indices (?v i0) \<noteq> indices (?v j)"
          using neq k Suc.prems(2) by fastforce
        then have "lookup_path m' r (indices (?v i0)) = lookup_path m1 r (indices (?v i0))"
          using rmp by (simp add: range_mapped_def)
        with rm(1) True show ?thesis by (simp add: remaps_def)
      next
        case False
        with i rmp show ?thesis by (simp add: range_mapped_def)
      qed
      show "lookup_path m r (indices (?v i)) = None"
      proof (cases "i = i0")
        case True
        with rm(2) show ?thesis by simp
      next
        case False
        with i rmp have "lookup_path m1 r (indices (?v i)) = None" by (simp add: range_mapped_def)
        with other [of "indices (?v i)"] neq [of i] i False k Suc.prems(2) show ?thesis by simp
      qed
    next
      fix q
      assume "pidx q \<and> length q = 4 \<and> (\<forall>i. i0 \<le> i \<and> i < k \<longrightarrow> q \<noteq> indices (?v i))"
      with rmp other k show "lookup_path m' r q = lookup_path m r q" by (simp add: range_mapped_def)
    qed
    moreover have "avail (frames m') = {} \<or> lookup_path m r (indices (?v k)) \<noteq> None" if "k < i0 + Suc n"
      using fail that other [of "indices (?v k)"] neq [of k] k Suc.prems(2) by simp
    ultimately show ?thesis using k by auto
  qed
qed


subsection \<open>Process page tables\<close>

text \<open>The tables reached from a table at level \<open>n\<close>, level by level.\<close>

definition below :: "(u64 \<Rightarrow> u64) \<Rightarrow> nat \<Rightarrow> u64 \<Rightarrow> u64 set" where
  "below mm n t = {t'. \<exists>p. pidx p \<and> descend mm t n p = Some t'}"

definition child :: "(u64 \<Rightarrow> u64) \<Rightarrow> nat \<Rightarrow> u64 \<Rightarrow> nat \<Rightarrow> u64 option" where
  "child mm n t i =
     (let e = table_entry mm t i in
      if is_present e \<and> \<not> (n < 2 \<and> is_huge e) then Some (pte_address e) else None)"

definition below_entry :: "(u64 \<Rightarrow> u64) \<Rightarrow> nat \<Rightarrow> u64 \<Rightarrow> nat \<Rightarrow> u64 set" where
  "below_entry mm n t i = (case child mm n t i of None \<Rightarrow> {} | Some t' \<Rightarrow> below mm n t')"

lemma descend_child:
  "descend mm t (Suc n) (i # p) = (case child mm n t i of None \<Rightarrow> None | Some t' \<Rightarrow> descend mm t' n p)"
  by (auto simp: descend.simps(3) child_def Let_def)

lemma below_0: "below mm 0 t = {t}"
proof -
  have "descend mm t 0 p = Some t' \<longleftrightarrow> p = [] \<and> t' = t" for p t' by (cases p) auto
  then show ?thesis by (auto simp: below_def)
qed

lemma below_Suc: "below mm (Suc n) t = insert t (\<Union>i < 512. below_entry mm n t i)"
proof (intro equalityI subsetI)
  fix x
  assume "x \<in> below mm (Suc n) t"
  then obtain p where p: "pidx p" "descend mm t (Suc n) p = Some x" by (auto simp: below_def)
  show "x \<in> insert t (\<Union>i < 512. below_entry mm n t i)"
  proof (cases p)
    case Nil
    with p show ?thesis by simp
  next
    case (Cons i p')
    with p obtain t' where "child mm n t i = Some t'" "descend mm t' n p' = Some x" "i < 512" "pidx p'"
      by (auto simp: descend_child split: option.splits)
    then have "x \<in> below_entry mm n t i" by (auto simp: below_entry_def below_def)
    with \<open>i < 512\<close> show ?thesis by blast
  qed
next
  fix x
  assume "x \<in> insert t (\<Union>i < 512. below_entry mm n t i)"
  then consider "x = t" | i t' p where "i < 512" "child mm n t i = Some t'" "pidx p" "descend mm t' n p = Some x"
    by (auto simp: below_entry_def below_def split: option.splits)
  then show "x \<in> below mm (Suc n) t"
  proof cases
    case 1
    have "descend mm t (Suc n) [] = Some t \<and> pidx []" by simp
    with 1 show ?thesis unfolding below_def by blast
  next
    case 2
    then have "descend mm t (Suc n) (i # p) = Some x \<and> pidx (i # p)" by (simp add: descend_child)
    then show ?thesis unfolding below_def by blast
  qed
qed

text \<open>\<open>m'\<close> is \<open>m\<close> with the frames \<open>S\<close> returned to the allocator.\<close>

definition frees :: "u64 set \<Rightarrow> 'a Machine_scheme \<Rightarrow> 'a Machine_scheme \<Rightarrow> bool" where
  "frees S m m' \<longleftrightarrow> fa_inv (frames m') \<and> avail (frames m') = avail (frames m) \<union> S
     \<and> managed_frames (frames m') = managed_frames (frames m) \<and> m' = m\<lparr>frames := frames m'\<rparr>"

lemma frees_refl: "fa_inv (frames m) \<Longrightarrow> frees {} m m"
  by (simp add: frees_def)

lemma frees_trans: "frees S m m' \<Longrightarrow> frees T m' m'' \<Longrightarrow> frees (S \<union> T) m m''"
  unfolding frees_def by (auto simp: Un_assoc) (metis Machine.surjective Machine.update_convs(1))

lemma m_free_frame_frees:
  "fa_inv (frames m) \<Longrightarrow> a \<in> managed_frames (frames m) \<Longrightarrow> frees {a} m (m_free_frame m a)"
  by (auto simp: frees_def m_free_frame_def fsrc.release_ok fsrc.release_gives fsrc.release_managed)

lemma foldl_frees:
  assumes "\<And>m k. k \<in> set ks \<Longrightarrow> fa_inv (frames m) \<Longrightarrow> mem m = mm \<Longrightarrow> managed_frames (frames m) = M \<Longrightarrow> frees (S k) m (g m k)"
    and "fa_inv (frames m)" "mem m = mm" "managed_frames (frames m) = M"
  shows "frees (\<Union>k \<in> set ks. S k) m (foldl g m ks)"
  using assms
proof (induction ks arbitrary: m)
  case (Cons k ks)
  have f: "frees (S k) m (g m k)" using Cons.prems by simp
  then have m1: "fa_inv (frames (g m k))" "mem (g m k) = mm" "managed_frames (frames (g m k)) = M"
    using Cons.prems(3,4) unfolding frees_def
    by (simp, metis Machine.select_convs(2) Machine.surjective Machine.update_convs(1), simp)
  have "frees (\<Union>k \<in> set ks. S k) (g m k) (foldl g (g m k) ks)"
    using Cons.prems(1) by (intro Cons.IH [OF _ m1]) auto
  with f show ?case using frees_trans by fastforce
qed (simp add: frees_refl)


lemma frees_cong: "frees S m m' \<Longrightarrow> S = T \<Longrightarrow> m' = m'' \<Longrightarrow> frees T m m''"
  by simp

lemma frees_state:
  "frees S m m' \<Longrightarrow> fa_inv (frames m') \<and> mem m' = mem m \<and> managed_frames (frames m') = managed_frames (frames m)"
  unfolding frees_def by (metis Machine.select_convs(2) Machine.surjective Machine.update_convs(1))

text \<open>One loop over the entries of a table at level \<open>n + 1\<close>, given what it does for each child.\<close>

lemma entries_frees:
  fixes m :: "'a Machine_scheme"
  assumes g: "\<And>m t'. fa_inv (frames m) \<Longrightarrow> mem m = mm \<Longrightarrow> below mm n t' \<subseteq> managed_frames (frames m) \<Longrightarrow>
      frees (below mm n t') m (g t' m)"
    and sub: "(\<Union>i \<in> set ks. below_entry mm n t i) \<subseteq> M"
    and m: "fa_inv (frames m)" "mem m = mm" "managed_frames (frames m) = M"
  shows "frees (\<Union>i \<in> set ks. below_entry mm n t i) m
    (foldl (\<lambda>m i. let e = table_entry (mem m) t i in
       if \<not> is_present e \<or> n < 2 \<and> is_huge e then m else g (pte_address e) m) m ks)"
proof (rule foldl_frees [OF _ m])
  fix m1 :: "'a Machine_scheme" and k
  assume k: "k \<in> set ks" and m1: "fa_inv (frames m1)" "mem m1 = mm" "managed_frames (frames m1) = M"
  have "below_entry mm n t k \<subseteq> M" using sub k by blast
  with g [OF m1(1,2)] m1 show "frees (below_entry mm n t k) m1 (let e = table_entry (mem m1) t k in
       if \<not> is_present e \<or> n < 2 \<and> is_huge e then m1 else g (pte_address e) m1)"
    by (auto simp: below_entry_def child_def Let_def frees_refl split: if_splits)
qed

lemma then_free_frame:
  assumes "frees S m m'" "a \<in> managed_frames (frames m)"
  shows "frees (insert a S) m (m_free_frame m' a)"
proof -
  have "frees {a} m' (m_free_frame m' a)"
    using frees_state [OF assms(1)] assms(2) by (intro m_free_frame_frees) simp_all
  from frees_trans [OF assms(1) this] show ?thesis by simp
qed

lemma free_pts_frees:
  assumes "fa_inv (frames m)" "below (mem m) 1 pd \<subseteq> managed_frames (frames m)"
  shows "frees (below (mem m) 1 pd) m (m_free_frame (free_pts pd m) pd)"
proof -
  have b: "below (mem m) 1 pd = insert pd (\<Union>i \<in> set [0..<512]. below_entry (mem m) 0 pd i)"
    unfolding One_nat_def by (simp add: below_Suc atLeast0LessThan)
  have "frees (\<Union>i \<in> set [0..<512]. below_entry (mem m) 0 pd i) m
    (foldl (\<lambda>m i. let e = table_entry (mem m) pd i in
       if \<not> is_present e \<or> 0 < (2::nat) \<and> is_huge e then m else m_free_frame m (pte_address e)) m [0..<512])"
    using assms(2) unfolding b
    by (intro entries_frees [OF _ _ assms(1) refl refl]) (auto simp: below_0 intro: m_free_frame_frees)
  then have "frees (\<Union>i \<in> set [0..<512]. below_entry (mem m) 0 pd i) m (free_pts pd m)"
    unfolding free_pts_def by (simp only: zero_less_numeral simp_thms)
  from then_free_frame [OF this] assms(2) show ?thesis unfolding b by blast
qed

lemma free_pds_frees:
  fixes m :: "'a Machine_scheme"
  assumes "fa_inv (frames m)" "below (mem m) 2 pdp \<subseteq> managed_frames (frames m)"
  shows "frees (below (mem m) 2 pdp) m (m_free_frame (free_pds pdp m) pdp)"
proof -
  have b: "below (mem m) 2 pdp = insert pdp (\<Union>i \<in> set [0..<512]. below_entry (mem m) 1 pdp i)"
    unfolding numeral_2_eq_2 One_nat_def by (simp add: below_Suc atLeast0LessThan)
  have "frees (\<Union>i \<in> set [0..<512]. below_entry (mem m) 1 pdp i) m
    (foldl (\<lambda>m i. let e = table_entry (mem m) pdp i in
       if \<not> is_present e \<or> 1 < (2::nat) \<and> is_huge e then m
       else m_free_frame (free_pts (pte_address e) m) (pte_address e)) m [0..<512])"
  proof (rule entries_frees [where g = "\<lambda>a m. m_free_frame (free_pts a m) a", OF _ _ assms(1) refl refl])
    show "(\<Union>i \<in> set [0..<512]. below_entry (mem m) 1 pdp i) \<subseteq> managed_frames (frames m)"
      using assms(2) unfolding b by blast
  next
    fix m2 :: "'a Machine_scheme" and t'
    assume "fa_inv (frames m2)" "mem m2 = mem m" "below (mem m) 1 t' \<subseteq> managed_frames (frames m2)"
    then show "frees (below (mem m) 1 t') m2 (m_free_frame (free_pts t' m2) t')"
      using free_pts_frees [of m2 t'] by simp
  qed
  then have "frees (\<Union>i \<in> set [0..<512]. below_entry (mem m) 1 pdp i) m (free_pds pdp m)"
    unfolding free_pds_def by (simp only: one_less_numeral_iff semiring_norm simp_thms)
  from then_free_frame [OF this] assms(2) show ?thesis unfolding b by blast
qed

text \<open>The tables of the user half: those whose path starts below 256, and the PML4 itself.\<close>

definition user_tables :: "(u64 \<Rightarrow> u64) \<Rightarrow> u64 \<Rightarrow> u64 set" where
  "user_tables mm r = insert r (\<Union>i < 256. below_entry mm 2 r i)"

lemma free_user_page_table_frees:
  fixes m :: "'a Machine_scheme"
  assumes "fa_inv (frames m)" "user_tables (mem m) r \<subseteq> managed_frames (frames m)"
  shows "frees (user_tables (mem m) r) m (free_user_page_table m r)"
proof -
  have b: "user_tables (mem m) r = insert r (\<Union>i \<in> set [0..<256]. below_entry (mem m) 2 r i)"
    by (simp add: user_tables_def atLeast0LessThan)
  have "frees (\<Union>i \<in> set [0..<256]. below_entry (mem m) 2 r i) m
    (foldl (\<lambda>m i. let e = table_entry (mem m) r i in
       if \<not> is_present e \<or> 2 < (2::nat) \<and> is_huge e then m
       else m_free_frame (free_pds (pte_address e) m) (pte_address e)) m [0..<256])"
  proof (rule entries_frees [where g = "\<lambda>a m. m_free_frame (free_pds a m) a", OF _ _ assms(1) refl refl])
    show "(\<Union>i \<in> set [0..<256]. below_entry (mem m) 2 r i) \<subseteq> managed_frames (frames m)"
      using assms(2) unfolding b by blast
  next
    fix m2 :: "'a Machine_scheme" and t'
    assume "fa_inv (frames m2)" "mem m2 = mem m" "below (mem m) 2 t' \<subseteq> managed_frames (frames m2)"
    then show "frees (below (mem m) 2 t') m2 (m_free_frame (free_pds t' m2) t')"
      using free_pds_frees [of m2 t'] by simp
  qed
  note loop = this [simplified less_irrefl simp_thms]
  have "r \<in> managed_frames (frames m)" using assms(2) unfolding b by blast
  from then_free_frame [OF loop this] show ?thesis unfolding b free_user_page_table_def .
qed


text \<open>Agreement on every table entry gives the same resolution.\<close>

lemma resolve_cong_tables:
  assumes "pt_tree mm r" "\<forall>t \<in> tables mm r. \<forall>j < 512. table_entry mm' t j = table_entry mm t j"
    and "pidx q" "length q = 4"
  shows "resolve mm' r q = resolve mm r q"
proof -
  obtain i0 where "\<not> prefix [i0] q" by (cases q) (auto, metis n_not_Suc_n)
  moreover have "one_entry mm mm' r r i0" using assms(2) by (auto simp: one_entry_def)
  ultimately show ?thesis
    using resolve_one_entry [OF assms(1), of mm' r i0 "[]"] assms(3,4) by simp
qed

lemma write_entry_sel [simp]:
  "frames (write_entry m t i e) = frames m" "kernel_pml4_phys (write_entry m t i e) = kernel_pml4_phys m"
  "invlpg_log (write_entry m t i e) = invlpg_log m" "Machine.more (write_entry m t i e) = Machine.more m"
  by (simp_all add: write_entry_def)

lemma copy_kernel_half:
  assumes "aligned k" "aligned f" "k \<noteq> f" "n \<le> 512" "kernel_pml4_phys m = k"
  defines "m' \<equiv> foldl (\<lambda>m i. write_entry m f i (table_entry (mem m) (kernel_pml4_phys m) i)) m [256..<n]"
  shows "frames m' = frames m \<and> kernel_pml4_phys m' = k \<and> invlpg_log m' = invlpg_log m \<and>
    (\<forall>t j. aligned t \<longrightarrow> j < 512 \<longrightarrow> table_entry (mem m') t j =
       (if t = f \<and> 256 \<le> j \<and> j < n then table_entry (mem m) k j else table_entry (mem m) t j))"
  using assms(4) unfolding m'_def
proof (induction n)
  case (Suc n)
  show ?case
  proof (cases "256 \<le> n")
    case True
    let ?m = "foldl (\<lambda>m i. write_entry m f i (table_entry (mem m) (kernel_pml4_phys m) i)) m [256..<n]"
    have IH: "frames ?m = frames m" "kernel_pml4_phys ?m = k" "invlpg_log ?m = invlpg_log m"
      "\<And>t j. aligned t \<Longrightarrow> j < 512 \<Longrightarrow> table_entry (mem ?m) t j =
         (if t = f \<and> 256 \<le> j \<and> j < n then table_entry (mem m) k j else table_entry (mem m) t j)"
      using Suc by auto
    have "table_entry (mem (write_entry ?m f n (table_entry (mem ?m) k n))) t j =
       (if t = f \<and> 256 \<le> j \<and> j < Suc n then table_entry (mem m) k j else table_entry (mem m) t j)"
      if "aligned t" "j < 512" for t j
      using that assms(1-3) Suc.prems True by (auto simp: mem_write_entry IH(4))
    then show ?thesis using True IH(1-3) by simp
  next
    case False
    then show ?thesis using assms(5) by auto
  qed
qed (use assms(5) in simp)

lemma create_user_page_table_ok:
  assumes inv: "mach_inv m k" and k: "kernel_pml4_phys m = k"
    and res: "create_user_page_table m = (m', Some f)"
  shows "f \<in> avail (frames m)" "avail (frames m') = avail (frames m) - {f}"
    "f \<notin> tables (mem m) k" "aligned f" "kernel_pml4_phys m' = k" "fa_inv (frames m')"
    "\<And>t j. t \<in> tables (mem m) k \<Longrightarrow> j < 512 \<Longrightarrow> table_entry (mem m') t j = table_entry (mem m) t j"
    "\<And>j. j < 512 \<Longrightarrow> table_entry (mem m') f j = (if 256 \<le> j then table_entry (mem m) k j else 0)"
proof -
  have fa: "fa_inv (frames m)" and tree: "pt_tree (mem m) k" using inv by (simp_all add: mach_inv_def)
  obtain fa' a where alloc: "allocate_frame (frames m) = (fa', a)" by fastforce
  with res have a: "a = Some f" by (auto simp: create_user_page_table_def m_allocate_frame_def Let_def simp del: upt_rec_numeral split: option.splits)
  define m1 where "m1 = zero_frame (m\<lparr>frames := fa'\<rparr>) f"
  have m': "m' = foldl (\<lambda>m i. write_entry m f i (table_entry (mem m) (kernel_pml4_phys m) i)) m1 [256..<512]"
    using res alloc a
    by (simp add: create_user_page_table_def m_allocate_frame_def Let_def m1_def del: upt_rec_numeral)
  note al = alloc [unfolded a]
  show f: "f \<in> avail (frames m)" using fsrc.alloc_from [OF fa al] .
  then show nt: "f \<notin> tables (mem m) k" using inv by (auto simp: mach_inv_def)
  show fal: "aligned f" using avail_aligned [OF f] by (simp add: aligned_def)
  have kal: "aligned k" using tree by (simp add: pt_tree_def)
  have kf: "k \<noteq> f" using nt by auto
  have m1: "kernel_pml4_phys m1 = k" "frames m1 = fa'" using k by (simp_all add: m1_def zero_frame_def)
  note c = copy_kernel_half [OF kal fal kf order_refl m1(1), folded m']
  show "avail (frames m') = avail (frames m) - {f}" "fa_inv (frames m')" "kernel_pml4_phys m' = k"
    using c m1 fsrc.alloc_takes [OF fa al] fsrc.alloc_ok [OF fa al] by simp_all
  have z: "table_entry (mem m1) t j = (if t = f then 0 else table_entry (mem m) t j)" if "aligned t" "j < 512" for t j
    using that fal by (simp add: m1_def zero_frame_entry)
  show "table_entry (mem m') t j = table_entry (mem m) t j" if "t \<in> tables (mem m) k" "j < 512" for t j
    using that nt c z tables_aligned [OF tree that(1)] by auto
  show "table_entry (mem m') f j = (if 256 \<le> j then table_entry (mem m) k j else 0)" if "j < 512" for j
    using that fal kal kf c z by auto
qed

lemma create_user_managed:
  assumes "mach_inv m k" "create_user_page_table m = (m', Some f)"
  shows "managed_frames (frames m') = managed_frames (frames m)"
proof -
  have fold: "frames (foldl (\<lambda>m i. write_entry m f i (table_entry (mem m) (kernel_pml4_phys m) i)) m1 xs) = frames m1"
    for m1 :: "'a Machine_scheme" and f xs
    by (induction xs arbitrary: m1) simp_all
  have "fa_inv (frames m)" using assms(1) by (simp add: mach_inv_def)
  with assms(2) show ?thesis
    by (auto simp: create_user_page_table_def m_allocate_frame_def Let_def fold zero_frame_def
        simp del: upt_rec_numeral split: option.splits prod.splits dest: fsrc.alloc_managed)
qed

lemma create_user_page_table_lookup:
  assumes inv: "mach_inv m k" and k: "kernel_pml4_phys m = k"
    and res: "create_user_page_table m = (m', Some f)" and q: "pidx (i # q)" "length q = 3"
  shows "lookup_path m' k (i # q) = lookup_path m k (i # q)"
    and "lookup_path m' f (i # q) = (if 256 \<le> i then lookup_path m k (i # q) else None)"
proof -
  note c = create_user_page_table_ok [OF inv k res]
  have tree: "pt_tree (mem m) k" using inv by (simp add: mach_inv_def)
  show kk: "lookup_path m' k (i # q) = lookup_path m k (i # q)"
    using resolve_cong_tables [OF tree, of "mem m'" "i # q"] c(7) q by simp
  have "table_entry (mem m') k i = table_entry (mem m) k i" using c(7) q by simp
  then have "lookup_path m' f (i # q) = (if 256 \<le> i then lookup_path m' k (i # q) else None)"
    using c(8) [of i] q by (simp add: resolve.simps(2) Let_def)
  with kk show "lookup_path m' f (i # q) = (if 256 \<le> i then lookup_path m k (i # q) else None)" by simp
qed


subsection \<open>Properties\<close>

text \<open>
  A machine for the witnesses: the boot frame allocator with the frames 16 to 31 free and an empty
  PML4 in frame 8.
\<close>

definition mach_example :: Machine where
  "mach_example = \<lparr>frames = foldl mark_free (fa_new\<lparr>total_frames := 32\<rparr>) [16..<32],
     mem = (\<lambda>_. 0), kernel_pml4_phys = 0x8000, invlpg_log = []\<rparr>"

lemma foldl_mark_free:
  "free_set (foldl mark_free fa xs) = free_set fa \<union> (set xs \<inter> {..<MAX_FRAMES})"
  "total_frames (foldl mark_free fa xs) = total_frames fa" "next_free_hint (foldl mark_free fa xs) = next_free_hint fa"
  by (induction xs arbitrary: fa) (auto simp: free_set_mark_free)

lemma foldl_mark_free_count:
  "free_frames fa = card (free_set fa) \<Longrightarrow> free_frames (foldl mark_free fa xs) = card (free_set (foldl mark_free fa xs))"
  by (induction xs arbitrary: fa) (simp_all add: free_set_mark_free free_frames_mark_free insert_absorb)

lemma foldl_mark_free_inv:
  assumes "set xs \<subseteq> {..<t}" "t \<le> MAX_FRAMES"
  shows "fa_inv (foldl mark_free (fa_new\<lparr>total_frames := t\<rparr>) xs)"
proof -
  have "free_frames (fa_new\<lparr>total_frames := t\<rparr>) = card (free_set (fa_new\<lparr>total_frames := t\<rparr>))"
    by (simp add: free_set_new) (simp add: fa_new_def)
  from foldl_mark_free_count [OF this] show ?thesis
    using assms unfolding fa_inv_def foldl_mark_free by (auto simp: free_set_new) (simp_all add: fa_new_def)
qed

lemma free_set_mach_example: "free_set (frames mach_example) = {16..<32}"
  unfolding mach_example_def Machine.select_convs foldl_mark_free
  by (auto simp: free_set_new MAX_FRAMES_eq simp del: upt_rec_numeral)

lemma empty_tables: "tables (\<lambda>_. 0) r = {r}" "pt_tree (\<lambda>_. 0) r \<longleftrightarrow> aligned r" "resolve (\<lambda>_. 0) r q = None"
proof -
  have d: "descend (\<lambda>_. 0) r 3 p = (if p = [] then Some r else None)" for p
    by (cases p) (simp_all add: numeral_3_eq_3 descend.simps(3) table_entry_def Let_def)
  show "tables (\<lambda>_. 0) r = {r}" by (auto simp: tables_def d intro: exI [of _ "[]"] split: if_splits)
  show "pt_tree (\<lambda>_. 0) r \<longleftrightarrow> aligned r" by (auto simp: pt_tree_def d split: if_splits)
  show "resolve (\<lambda>_. 0) r q = None" by (cases q) (simp_all add: resolve.simps(2) table_entry_def Let_def)
qed

lemma mem_mach_example: "mem mach_example = (\<lambda>_. 0)"
  unfolding mach_example_def Machine.select_convs ..

lemma kernel_mach_example: "kernel_pml4_phys mach_example = 0x8000"
  unfolding mach_example_def Machine.select_convs ..

lemma mach_inv_example: "mach_inv mach_example 0x8000"
proof -
  have "fa_inv (frames mach_example)"
    unfolding mach_example_def Machine.select_convs
    by (rule foldl_mark_free_inv) (auto simp: MAX_FRAMES_eq)
  moreover have "(0x8000 :: u64) \<notin> avail (frames mach_example)"
  proof
    assume "(0x8000 :: u64) \<in> avail (frames mach_example)"
    from frame_of_avail [OF this] show False by (simp add: free_set_mach_example frame_of_eq)
  qed
  ultimately show ?thesis by (simp add: mach_inv_def mem_mach_example empty_tables aligned_def)
qed

lemma avail_mach_example: "avail (frames mach_example) \<noteq> {}" "0x10000 \<in> avail (frames mach_example)"
proof -
  have "frame_addr 16 = 0x10000" by (simp add: frame_addr_def PAGE_SIZE_def)
  then show "0x10000 \<in> avail (frames mach_example)"
    unfolding avail_def free_set_mach_example by (intro image_eqI [of _ _ 16]) simp_all
  then show "avail (frames mach_example) \<noteq> {}" by auto
qed

lemma lookup_mach_example [simp]: "lookup_path mach_example r q = None"
  by (simp add: mem_mach_example empty_tables)

text \<open>
  C15: When \<^verbatim>\<open>map_page\<close> succeeds, every address of the page translates to the given frame plus its
  offset, the page was unmapped before, the translation of every other address is what it was, the hierarchy
  invariant holds, and each frame taken from the allocator is now a table of the hierarchy.
\<close>

theorem map_page_translates:
  assumes "mach_inv m r" "flags_ok flags" "phys AND ADDR_MASK = phys"
    and "map_page m r v phys flags = (m', True)"
  shows "translate m' r w = (if page_of w = page_of v then Some (phys OR (w AND 0xFFF)) else translate m r w)
    \<and> translate m r v = None \<and> mach_inv m' r
    \<and> avail (frames m') \<union> tables (mem m') r = avail (frames m) \<union> tables (mem m) r"
proof -
  note rm = map_page_remaps [OF assms(1,4)]
  have "flags_ok (flags OR PRESENT)" using leaf_flags_ok [OF assms(2)] by simp
  from remaps_translate [OF rm(1) this assms(3)] rm show ?thesis
    by (simp add: translate_lookup remaps_def)
qed

lemma map_page_example:
  "map_page mach_example 0x8000 v phys flags = (fst (map_page mach_example 0x8000 v phys flags), True)"
proof (rule ccontr)
  assume "\<not> ?thesis"
  then have "map_page mach_example 0x8000 v phys flags = (fst (map_page mach_example 0x8000 v phys flags), False)"
    by (cases "map_page mach_example 0x8000 v phys flags") auto
  from map_page_grows(3) [OF mach_inv_example this] have "card (avail (frames mach_example)) \<le> 3" by simp
  moreover have "card (avail (frames mach_example)) = card (free_set (frames mach_example))"
    unfolding avail_def by (rule card_image) (rule inj_on_subset [OF inj_frame_addr free_set_subset])
  ultimately show False by (simp add: free_set_mach_example)
qed

lemma WRITABLE_ok: "flags_ok WRITABLE"
  by (simp add: flags_ok_def WRITABLE_def)

lemma translate_mach_example [simp]: "translate mach_example r w = None"
  by (simp add: translate_lookup)

theorem map_page_translates_witness:
  "\<exists>m'. map_page mach_example 0x8000 0x400000 0x7000 WRITABLE = (m', True)
    \<and> translate m' 0x8000 0x400123 = Some 0x7123 \<and> translate m' 0x8000 0x401000 = None"
proof -
  have "(0x7000 :: u64) AND ADDR_MASK = 0x7000" by (simp add: ADDR_MASK_def)
  note t = map_page_translates [OF mach_inv_example WRITABLE_ok this map_page_example [of "0x400000"], THEN conjunct1]
  show ?thesis
    using t [of "0x400123"] t [of "0x401000"]
    by (intro exI [of _ "fst (map_page mach_example 0x8000 0x400000 0x7000 WRITABLE)"] conjI map_page_example)
      (simp_all add: page_of_def)
qed

text \<open>
  When \<^verbatim>\<open>map_page\<close> fails, no translation changes and no frame is lost: each frame that left the free
  list is a table of the hierarchy. It fails only if the page is mapped already (by a 4 KiB
  leaf or a huge page) or the allocator ran out of frames, which needs at most three frames to be free at the
  start.
\<close>

theorem map_page_failure_harmless:
  assumes "mach_inv m r" "map_page m r v phys flags = (m', False)"
  shows "translate m' r w = translate m r w \<and> mach_inv m' r
    \<and> avail (frames m') \<union> tables (mem m') r = avail (frames m) \<union> tables (mem m) r
    \<and> (translate m r v \<noteq> None \<or> avail (frames m') = {} \<and> card (avail (frames m)) \<le> 3)"
  using map_page_grows [OF assms] grows_translate [of r m m' w]
  by (auto simp: grows_def translate_lookup)

theorem map_page_failure_harmless_witness:
  "\<exists>m' m''. map_page mach_example 0x8000 0x400000 0x7000 WRITABLE = (m', True)
     \<and> map_page m' 0x8000 0x400000 0x6000 WRITABLE = (m'', False)
     \<and> translate m'' 0x8000 0x400000 = translate m' 0x8000 0x400000"
proof -
  define m' where "m' = fst (map_page mach_example 0x8000 0x400000 0x7000 WRITABLE)"
  have e: "map_page mach_example 0x8000 0x400000 0x7000 WRITABLE = (m', True)"
    using map_page_example unfolding m'_def .
  note rm = map_page_remaps [OF mach_inv_example e]
  have inv: "mach_inv m' 0x8000" and mapped: "lookup_path m' 0x8000 (indices 0x400000) \<noteq> None"
    using rm(1) by (simp_all add: remaps_def)
  obtain m'' b where m'': "map_page m' 0x8000 0x400000 0x6000 WRITABLE = (m'', b)" by fastforce
  with map_page_remaps(2) [OF inv, of "0x400000" "0x6000" WRITABLE m''] mapped have "\<not> b" by (cases b) auto
  with m'' have f: "map_page m' 0x8000 0x400000 0x6000 WRITABLE = (m'', False)" by simp
  from map_page_failure_harmless [OF inv f, of "0x400000", THEN conjunct1] e f show ?thesis by blast
qed

text \<open>
  C16: \<^verbatim>\<open>unmap_page\<close> after a successful \<^verbatim>\<open>map_page\<close> returns the frame that was mapped, restores every
  translation to what it was before the mapping, and flushes the TLB entry of the page both times.
\<close>

theorem map_unmap_roundtrip:
  assumes "mach_inv m r" "flags_ok flags" "phys AND ADDR_MASK = phys"
    and "map_page m r v phys flags = (m1, True)"
  shows "\<exists>m2. unmap_page m1 r v = (m2, Some phys) \<and> mach_inv m2 r
    \<and> (\<forall>w. translate m2 r w = translate m r w) \<and> invlpg_log m2 = v # v # invlpg_log m"
proof -
  note rm = map_page_remaps [OF assms(1,4)]
  have inv: "mach_inv m1 r" and l: "lookup_path m1 r (indices v) = Some (0, pte_set phys (flags OR PRESENT))"
    using rm(1) by (simp_all add: remaps_def)
  have pa: "pte_address (pte_set phys (flags OR PRESENT)) = phys"
    using leaf_flags_ok [OF assms(2)] assms(3) by (simp add: pte_address_set)
  obtain m2 x where u: "unmap_page m1 r v = (m2, x)" by fastforce
  with l unmap_page_None [of m1 r v m2] obtain p where x: "x = Some p" by (cases x) auto
  from unmap_page_remaps [OF inv u [unfolded x]] l pa
  have p: "p = phys" and rm2: "remaps r v None m1 m2" by auto
  have "translate m2 r w = translate m r w" for w
    using rm rm2 by (cases "page_of w = page_of v")
      (simp_all add: remaps_None_translate [OF rm2] translate_lookup remaps_def indices_eq_iff [symmetric])
  with u x p rm(1) rm2 show ?thesis by (auto simp: remaps_def)
qed

theorem map_unmap_roundtrip_witness:
  "\<exists>m1 m2. map_page mach_example 0x8000 0x400000 0x7000 WRITABLE = (m1, True)
     \<and> unmap_page m1 0x8000 0x400000 = (m2, Some 0x7000) \<and> translate m2 0x8000 0x400000 = None"
proof -
  have "(0x7000 :: u64) AND ADDR_MASK = 0x7000" by (simp add: ADDR_MASK_def)
  from map_unmap_roundtrip [OF mach_inv_example WRITABLE_ok this map_page_example [of "0x400000"]]
  obtain m2 where "unmap_page (fst (map_page mach_example 0x8000 0x400000 0x7000 WRITABLE)) 0x8000 0x400000 = (m2, Some 0x7000)"
    "translate m2 0x8000 0x400000 = None" by auto
  with map_page_example show ?thesis by blast
qed

text \<open>
  \<^verbatim>\<open>map_range\<close> returns the number \<open>k\<close> of pages it mapped: the first \<open>k\<close> pages of the range
  translate to consecutive frames, every address outside them translates as before, and it stops early only at
  a page that was mapped already or when no frame is left for a table.
\<close>

theorem map_range_maps:
  assumes "mach_inv m r" "flags_ok flags" "n \<le> 2 ^ 36"
    and "\<And>i. i < n \<Longrightarrow> (phys + of_nat i * PAGE_SIZE) AND ADDR_MASK = phys + of_nat i * PAGE_SIZE"
    and "map_range m r v phys n flags = (m', k)"
  shows "k \<le> n \<and> mach_inv m' r
    \<and> (\<forall>i < k. \<forall>w. page_of w = page_of (v + of_nat i * PAGE_SIZE) \<longrightarrow>
         translate m' r w = Some ((phys + of_nat i * PAGE_SIZE) OR (w AND 0xFFF)))
    \<and> (\<forall>w. (\<forall>i < k. page_of w \<noteq> page_of (v + of_nat i * PAGE_SIZE)) \<longrightarrow> translate m' r w = translate m r w)
    \<and> (k < n \<longrightarrow> avail (frames m') = {} \<or> translate m r (v + of_nat k * PAGE_SIZE) \<noteq> None)"
proof -
  from map_range_from_mapped [OF assms(1), of 0 n v phys flags m' k] assms(3,5)
  have k: "k \<le> n" and rm: "range_mapped r v phys flags 0 k m m'"
    and fail: "k < n \<Longrightarrow> avail (frames m') = {} \<or> lookup_path m r (indices (v + of_nat k * PAGE_SIZE)) \<noteq> None"
    by (auto simp: map_range_def)
  have ok: "flags_ok (flags OR PRESENT)" using leaf_flags_ok [OF assms(2)] by simp
  have "translate m' r w = Some ((phys + of_nat i * PAGE_SIZE) OR (w AND 0xFFF))"
    if "i < k" "page_of w = page_of (v + of_nat i * PAGE_SIZE)" for i w
    using that k rm assms(4) [of i]
    by (simp add: range_mapped_def translate_lookup indices_eq_iff [symmetric] pte_address_set [OF ok] page_mask_def)
  moreover have "translate m' r w = translate m r w" if "\<forall>i < k. page_of w \<noteq> page_of (v + of_nat i * PAGE_SIZE)" for w
    using that rm by (simp add: range_mapped_def translate_lookup indices_eq_iff [symmetric])
  moreover have "avail (frames m') = {} \<or> translate m r (v + of_nat k * PAGE_SIZE) \<noteq> None" if "k < n"
    using fail [OF that] by (auto simp: translate_lookup)
  moreover have "mach_inv m' r" using rm by (simp add: range_mapped_def)
  ultimately show ?thesis using k by blast
qed

theorem map_range_maps_witness:
  "\<exists>m' k. map_range mach_example 0x8000 0x400000 0x5000 2 WRITABLE = (m', k) \<and> k \<le> 2 \<and> mach_inv m' 0x8000"
proof -
  obtain m' k where e: "map_range mach_example 0x8000 0x400000 0x5000 2 WRITABLE = (m', k)" by fastforce
  have "(0x5000 + of_nat i * PAGE_SIZE) AND ADDR_MASK = 0x5000 + of_nat i * PAGE_SIZE" if "i < 2" for i
  proof -
    have "i = 0 \<or> i = 1" using that by auto
    then show ?thesis by (auto simp: PAGE_SIZE_def ADDR_MASK_def)
  qed
  from map_range_maps [OF mach_inv_example WRITABLE_ok _ this e] e show ?thesis by auto
qed

text \<open>
  A process page table made by \<^verbatim>\<open>create_user_page_table\<close> has the kernel's translations in the upper
  half and nothing in the lower half; the kernel's own translations do not change and the table takes exactly one
  free frame.
\<close>

theorem create_user_shares_kernel:
  assumes "mach_inv m (kernel_pml4_phys m)" "create_user_page_table m = (m', Some f)"
  shows "translate m' f v = (if 256 \<le> pml4_index v then translate m (kernel_pml4_phys m) v else None)
    \<and> translate m' (kernel_pml4_phys m) v = translate m (kernel_pml4_phys m) v
    \<and> f \<in> avail (frames m) \<and> avail (frames m') = avail (frames m) - {f} \<and> fa_inv (frames m')"
proof -
  have "pidx (pml4_index v # [pdp_index v, pd_index v, pt_index v])"
    using pidx_indices(1) [of v] by (simp only: indices_def)
  note l = create_user_page_table_lookup [OF assms(1) refl assms(2) this]
  with create_user_page_table_ok [OF assms(1) refl assms(2)] show ?thesis
    by (simp add: translate_lookup indices_def)
qed

lemma create_user_example:
  obtains m' f where "create_user_page_table mach_example = (m', Some f)"
proof -
  obtain fa a where alloc: "allocate_frame (frames mach_example) = (fa, a)" by fastforce
  have "a \<noteq> None"
    using fsrc.alloc_refuses [of "frames mach_example" fa] mach_inv_example avail_mach_example(1) alloc
    by (auto simp: mach_inv_def)
  then show thesis
    using alloc that by (auto simp: create_user_page_table_def m_allocate_frame_def Let_def simp del: upt_rec_numeral)
qed

theorem create_user_shares_kernel_witness:
  "\<exists>m' f. create_user_page_table mach_example = (m', Some f) \<and> f \<in> avail (frames mach_example)
     \<and> translate m' f 0x400000 = None"
proof -
  obtain m' f where e: "create_user_page_table mach_example = (m', Some f)" by (rule create_user_example)
  have "mach_inv mach_example (kernel_pml4_phys mach_example)"
    by (simp add: kernel_mach_example mach_inv_example)
  from create_user_shares_kernel [OF this e, of "0x400000"] e show ?thesis by auto
qed

text \<open>
  C17: \<^verbatim>\<open>free_user_page_table\<close> returns to the allocator exactly the tables of the user half and the PML4:
  no mapped frame and no table of the shared kernel half is freed, and no table entry is written. Applied to a
  process table that \<^verbatim>\<open>create_user_page_table\<close> has just made, it restores the free frames.
\<close>

theorem free_user_page_table_exact:
  assumes "fa_inv (frames m)" "user_tables (mem m) r \<subseteq> managed_frames (frames m)"
  shows "avail (frames (free_user_page_table m r)) = avail (frames m) \<union> user_tables (mem m) r
    \<and> mem (free_user_page_table m r) = mem m \<and> fa_inv (frames (free_user_page_table m r))
    \<and> (mach_inv m0 (kernel_pml4_phys m0) \<and> create_user_page_table m0 = (m, Some r) \<longrightarrow>
        avail (frames (free_user_page_table m r)) = avail (frames m0))"
proof -
  note fr = free_user_page_table_frees [OF assms]
  have "avail (frames (free_user_page_table m r)) = avail (frames m0)"
    if c: "mach_inv m0 (kernel_pml4_phys m0)" "create_user_page_table m0 = (m, Some r)"
  proof -
    note cu = create_user_page_table_ok [OF c(1) refl c(2)]
    have "below_entry (mem m) 2 r i = {}" if "i < 256" for i
      using cu(8) [of i] that by (simp add: below_entry_def child_def)
    then have "user_tables (mem m) r = {r}" by (simp add: user_tables_def)
    with fr cu(1,2) show ?thesis by (auto simp: frees_def)
  qed
  with fr frees_state [OF fr] show ?thesis by (simp add: frees_def)
qed

theorem free_user_page_table_exact_witness:
  "\<exists>m' f. create_user_page_table mach_example = (m', Some f)
     \<and> avail (frames (free_user_page_table m' f)) = avail (frames mach_example)"
proof -
  obtain m' f where e: "create_user_page_table mach_example = (m', Some f)" by (rule create_user_example)
  have k: "mach_inv mach_example (kernel_pml4_phys mach_example)"
    by (simp add: kernel_mach_example mach_inv_example)
  note cu = create_user_page_table_ok [OF k refl e]
  have "below_entry (mem m') 2 f i = {}" if "i < 256" for i
    using cu(8) [of i] that by (simp add: below_entry_def child_def)
  then have ut: "user_tables (mem m') f = {f}" by (simp add: user_tables_def)
  have "managed_frames (frames m') = managed_frames (frames mach_example)"
    using create_user_managed [OF k e] .
  moreover have "f \<in> managed_frames (frames mach_example)"
    using cu(1) fsrc.available_managed k by (auto simp: mach_inv_def)
  ultimately have "user_tables (mem m') f \<subseteq> managed_frames (frames m')" using ut by simp
  from free_user_page_table_exact [OF cu(6) this, of mach_example] k e show ?thesis by blast
qed

end
