(* ===== verification/Vmm.thy ===== *)
theory Vmm
  imports Paging
begin

text \<open>
  The virtual memory manager (\<^verbatim>\<open>kernel/src/memory/vmm.rs\<close>): the allocator of virtual ranges of the
  dynamic region and the operations that back a range with frames. The state extends the machine of
  the page tables by \<^verbatim>\<open>VMM\<close> and \<^verbatim>\<open>HEAP_TOP\<close>. Addresses and sizes are 64-bit words, page counts
  are natural numbers. The console messages are left out.
\<close>

definition VMM_REGION_START :: u64 where
  "VMM_REGION_START = 0xFFFFFFFFA0000000"

definition VMM_REGION_END :: u64 where
  "VMM_REGION_END = 0xFFFFFFFFC0000000"

definition HEAP_REGION_START :: u64 where
  "HEAP_REGION_START = 0xFFFFFFFFC0000000"

definition HEAP_REGION_MAX :: u64 where
  "HEAP_REGION_MAX = 256 * 1024 * 1024"

datatype RegionKind = HeapGrowth | KernelAlloc | Mmio | UserMapping

record VirtualRegion =
  vr_base :: u64
  vr_size :: u64
  vr_flags :: u64
  vr_kind :: RegionKind

record VmmState =
  next_vaddr :: u64
  regions :: "VirtualRegion list"
  free_regions :: "VirtualRegion list"
  total_mapped :: u64

record Kernel = Machine +
  vmm :: "VmmState option"
  heap_top :: u64

definition vmm_init :: "Kernel \<Rightarrow> u64 \<Rightarrow> Kernel" where
  "vmm_init k cr3 =
     (let k = set_kernel_pml4 k (cr3 AND 0x000FFFFFFFFFF000) in
      k\<lparr>vmm := Some \<lparr>next_vaddr = VMM_REGION_START, regions = [], free_regions = [], total_mapped = 0\<rparr>,
        heap_top := HEAP_REGION_START\<rparr>)"

text \<open>
  The best-fit search over \<^verbatim>\<open>free_regions.iter().enumerate()\<close>: index and waste of the best region so
  far; \<open>i\<close> is the index of the head of the rest of the list.
\<close>

fun best_fit :: "u64 \<Rightarrow> nat \<Rightarrow> VirtualRegion list \<Rightarrow> nat option \<times> u64 \<Rightarrow> nat option \<times> u64" where
  "best_fit sz i [] best = best"
| "best_fit sz i (r # rs) (best_idx, best_waste) =
     best_fit sz (Suc i) rs
       (if vr_size r \<ge> sz then
          let waste = vr_size r - sz in
          if waste < best_waste then (Some i, waste) else (best_idx, best_waste)
        else (best_idx, best_waste))"

definition remove_at :: "nat \<Rightarrow> 'a list \<Rightarrow> 'a list" where
  "remove_at i xs = take i xs @ drop (Suc i) xs"

definition insert_at :: "nat \<Rightarrow> 'a \<Rightarrow> 'a list \<Rightarrow> 'a list" where
  "insert_at i x xs = take i xs @ x # drop i xs"

definition vrange_alloc :: "VmmState \<Rightarrow> u64 \<Rightarrow> VmmState \<times> u64 option" where
  "vrange_alloc st sz =
     (case fst (best_fit sz 0 (free_regions st) (None, 0xFFFFFFFFFFFFFFFF)) of
        Some idx \<Rightarrow>
          let region = free_regions st ! idx; vaddr = vr_base region in
          (if vr_size region = sz then st\<lparr>free_regions := remove_at idx (free_regions st)\<rparr>
           else st\<lparr>free_regions := (free_regions st)[idx :=
                  region\<lparr>vr_base := vr_base region + sz, vr_size := vr_size region - sz\<rparr>]\<rparr>,
           Some vaddr)
      | None \<Rightarrow>
          let vaddr = next_vaddr st; new_next = vaddr + sz in
          if new_next > VMM_REGION_END then (st, None)
          else (st\<lparr>next_vaddr := new_next\<rparr>, Some vaddr))"

definition alloc_virtual_range :: "Kernel \<Rightarrow> u64 \<Rightarrow> Kernel \<times> u64 option" where
  "alloc_virtual_range k sz =
     (case vmm k of
        None \<Rightarrow> (k, None)
      | Some st \<Rightarrow> let (st, v) = vrange_alloc st sz in (k\<lparr>vmm := Some st\<rparr>, v))"

definition insert_pos :: "u64 \<Rightarrow> VirtualRegion list \<Rightarrow> nat" where
  "insert_pos vaddr rs = length (takeWhile (\<lambda>r. \<not> vr_base r > vaddr) rs)"

text \<open>\<^verbatim>\<open>free_virtual_range\<close>: insertion at \<^verbatim>\<open>pos\<close>, merge with the next, merge with the previous region.\<close>

definition merge_next :: "nat \<Rightarrow> VirtualRegion list \<Rightarrow> VirtualRegion list" where
  "merge_next pos rs =
     (if pos + 1 < length rs then
        let cur = rs ! pos; nxt = rs ! (pos + 1) in
        if vr_base cur + vr_size cur = vr_base nxt
        then remove_at (pos + 1) (rs[pos := cur\<lparr>vr_size := vr_size cur + vr_size nxt\<rparr>])
        else rs
      else rs)"

definition merge_prev :: "nat \<Rightarrow> VirtualRegion list \<Rightarrow> VirtualRegion list" where
  "merge_prev pos rs =
     (if pos > 0 then
        let prv = rs ! (pos - 1); cur = rs ! pos in
        if vr_base prv + vr_size prv = vr_base cur
        then remove_at pos (rs[pos - 1 := prv\<lparr>vr_size := vr_size prv + vr_size cur\<rparr>])
        else rs
      else rs)"

definition vrange_free :: "VmmState \<Rightarrow> u64 \<Rightarrow> u64 \<Rightarrow> VmmState" where
  "vrange_free st vaddr sz =
     (let pos = insert_pos vaddr (free_regions st);
          rs = insert_at pos \<lparr>vr_base = vaddr, vr_size = sz, vr_flags = 0, vr_kind = KernelAlloc\<rparr> (free_regions st)
      in st\<lparr>free_regions := merge_prev pos (merge_next pos rs)\<rparr>)"

definition free_virtual_range :: "Kernel \<Rightarrow> u64 \<Rightarrow> u64 \<Rightarrow> Kernel" where
  "free_virtual_range k vaddr sz =
     (case vmm k of None \<Rightarrow> k | Some st \<Rightarrow> k\<lparr>vmm := Some (vrange_free st vaddr sz)\<rparr>)"

text \<open>
  The loop \<^verbatim>\<open>for j in 0..n\<close> that unmaps a page and frees its frame: the roll-back loops and
  \<^verbatim>\<open>unmap_and_free\<close>.
\<close>

definition unmap_free_pages :: "'a Machine_scheme \<Rightarrow> u64 \<Rightarrow> u64 \<Rightarrow> nat \<Rightarrow> 'a Machine_scheme" where
  "unmap_free_pages m pml4 vaddr n =
     foldl (\<lambda>m j. case unmap_page m pml4 (vaddr + of_nat j * PAGE_SIZE) of
              (m, Some phys) \<Rightarrow> m_free_frame m phys
            | (m, None) \<Rightarrow> m) m [0..<n]"

text \<open>
  The allocate-and-map loop of \<^verbatim>\<open>alloc_and_map\<close> and \<^verbatim>\<open>map_initial_heap\<close>, from page \<open>i\<close> with
  \<open>n\<close> pages left, with its two roll-backs.
\<close>

fun map_fresh_pages :: "'a Machine_scheme \<Rightarrow> u64 \<Rightarrow> u64 \<Rightarrow> u64 \<Rightarrow> nat \<Rightarrow> nat \<Rightarrow> 'a Machine_scheme \<times> bool" where
  "map_fresh_pages m pml4 vaddr flags i 0 = (m, True)"
| "map_fresh_pages m pml4 vaddr flags i (Suc n) =
     (case m_allocate_frame m of
        (m, None) \<Rightarrow> (unmap_free_pages m pml4 vaddr i, False)
      | (m, Some frame) \<Rightarrow>
          (case map_page m pml4 (vaddr + of_nat i * PAGE_SIZE) frame flags of
             (m, True) \<Rightarrow> map_fresh_pages m pml4 vaddr flags (Suc i) n
           | (m, False) \<Rightarrow> (unmap_free_pages (m_free_frame m frame) pml4 vaddr i, False)))"

definition record_region :: "Kernel \<Rightarrow> VirtualRegion \<Rightarrow> Kernel" where
  "record_region k r =
     (case vmm k of
        None \<Rightarrow> k
      | Some st \<Rightarrow> k\<lparr>vmm := Some (st\<lparr>regions := regions st @ [r], total_mapped := total_mapped st + vr_size r\<rparr>)\<rparr>)"

definition alloc_and_map :: "Kernel \<Rightarrow> nat \<Rightarrow> u64 \<Rightarrow> RegionKind \<Rightarrow> Kernel \<times> u64 option" where
  "alloc_and_map k page_count flags kind =
     (if page_count = 0 then (k, None)
      else let sz = of_nat page_count * PAGE_SIZE; pml4 = kernel_pml4_phys k in
        case alloc_virtual_range k sz of
          (k, None) \<Rightarrow> (k, None)
        | (k, Some vaddr) \<Rightarrow>
            (case map_fresh_pages k pml4 vaddr flags 0 page_count of
               (k, False) \<Rightarrow> (free_virtual_range k vaddr sz, None)
             | (k, True) \<Rightarrow>
                 (record_region k \<lparr>vr_base = vaddr, vr_size = sz, vr_flags = flags, vr_kind = kind\<rparr>,
                  Some vaddr)))"

text \<open>Removal of a tracked region: \<^verbatim>\<open>regions.retain(|r| r.base != vaddr)\<close> and the saturating subtraction.\<close>

definition untrack :: "Kernel \<Rightarrow> u64 \<Rightarrow> u64 \<Rightarrow> Kernel" where
  "untrack k vaddr sz =
     (case vmm k of
        None \<Rightarrow> k
      | Some st \<Rightarrow> k\<lparr>vmm := Some (st\<lparr>regions := filter (\<lambda>r. vr_base r \<noteq> vaddr) (regions st),
            total_mapped := (if sz \<le> total_mapped st then total_mapped st - sz else 0)\<rparr>)\<rparr>)"

definition unmap_and_free :: "Kernel \<Rightarrow> u64 \<Rightarrow> nat \<Rightarrow> Kernel" where
  "unmap_and_free k vaddr page_count =
     (let pml4 = kernel_pml4_phys k; sz = of_nat page_count * PAGE_SIZE;
          k = unmap_free_pages k pml4 vaddr page_count;
          k = untrack k vaddr sz
      in free_virtual_range k vaddr sz)"

definition unmap_pages :: "'a Machine_scheme \<Rightarrow> u64 \<Rightarrow> u64 \<Rightarrow> nat \<Rightarrow> 'a Machine_scheme" where
  "unmap_pages m pml4 vaddr n =
     foldl (\<lambda>m j. fst (unmap_page m pml4 (vaddr + of_nat j * PAGE_SIZE))) m [0..<n]"

text \<open>\<^verbatim>\<open>map_mmio\<close>: the mapping loop is \<^const>\<open>map_range\<close>'s, followed by the roll-back when it stops early.\<close>

definition map_mmio :: "Kernel \<Rightarrow> u64 \<Rightarrow> u64 \<Rightarrow> Kernel \<times> u64 option" where
  "map_mmio k phys_base sz =
     (let page_count = unat ((sz + PAGE_SIZE - 1) div PAGE_SIZE);
          aligned_phys = phys_base AND NOT 0xFFF;
          phys_offset = phys_base - aligned_phys;
          total_size = of_nat page_count * PAGE_SIZE
      in case alloc_virtual_range k total_size of
           (k, None) \<Rightarrow> (k, None)
         | (k, Some vaddr) \<Rightarrow>
             let pml4 = kernel_pml4_phys k; flags = WRITABLE OR NO_CACHE OR NO_EXECUTE in
             case map_range_from k pml4 vaddr aligned_phys 0 page_count flags of
               (k, i) \<Rightarrow>
                 if i < page_count
                 then (free_virtual_range (unmap_pages k pml4 vaddr i) vaddr total_size, None)
                 else (record_region k \<lparr>vr_base = vaddr, vr_size = total_size, vr_flags = flags, vr_kind = Mmio\<rparr>,
                       Some (vaddr + phys_offset)))"

definition unmap_mmio :: "Kernel \<Rightarrow> u64 \<Rightarrow> u64 \<Rightarrow> Kernel" where
  "unmap_mmio k vaddr sz =
     (let pml4 = kernel_pml4_phys k;
          aligned_vaddr = vaddr AND NOT 0xFFF;
          page_count = unat ((sz + PAGE_SIZE - 1) div PAGE_SIZE);
          k = unmap_pages k pml4 aligned_vaddr page_count;
          k = untrack k aligned_vaddr (of_nat page_count * PAGE_SIZE)
      in free_virtual_range k aligned_vaddr (of_nat page_count * PAGE_SIZE))"

text \<open>
  The loop of \<^verbatim>\<open>extend_heap\<close>: the \<^verbatim>\<open>?\<close> after \<^verbatim>\<open>allocate_frame\<close> returns at once, without the
  roll-back of the other failure.
\<close>

fun extend_pages :: "'a Machine_scheme \<Rightarrow> u64 \<Rightarrow> u64 \<Rightarrow> u64 \<Rightarrow> nat \<Rightarrow> nat \<Rightarrow> 'a Machine_scheme \<times> bool" where
  "extend_pages m pml4 current_top flags i 0 = (m, True)"
| "extend_pages m pml4 current_top flags i (Suc n) =
     (case m_allocate_frame m of
        (m, None) \<Rightarrow> (m, False)
      | (m, Some frame) \<Rightarrow>
          (case map_page m pml4 (current_top + of_nat i * PAGE_SIZE) frame flags of
             (m, True) \<Rightarrow> extend_pages m pml4 current_top flags (Suc i) n
           | (m, False) \<Rightarrow> (unmap_free_pages (m_free_frame m frame) pml4 current_top i, False)))"

definition extend_heap :: "Kernel \<Rightarrow> u64 \<Rightarrow> Kernel \<times> (u64 \<times> u64) option" where
  "extend_heap k min_bytes =
     (let page_count = unat ((min_bytes + PAGE_SIZE - 1) div PAGE_SIZE);
          sz = of_nat page_count * PAGE_SIZE;
          current_top = heap_top k;
          new_top = current_top + sz
      in if new_top > HEAP_REGION_START + HEAP_REGION_MAX then (k, None)
         else let pml4 = kernel_pml4_phys k; flags = WRITABLE OR NO_EXECUTE in
           case extend_pages k pml4 current_top flags 0 page_count of
             (k, False) \<Rightarrow> (k, None)
           | (k, True) \<Rightarrow>
               (record_region (k\<lparr>heap_top := new_top\<rparr>)
                  \<lparr>vr_base = current_top, vr_size = sz, vr_flags = flags, vr_kind = HeapGrowth\<rparr>,
                Some (current_top, sz)))"

definition map_initial_heap :: "Kernel \<Rightarrow> nat \<Rightarrow> Kernel \<times> u64 option" where
  "map_initial_heap k page_count =
     (let pml4 = kernel_pml4_phys k; flags = WRITABLE OR NO_EXECUTE;
          vaddr = HEAP_REGION_START; sz = of_nat page_count * PAGE_SIZE
      in case map_fresh_pages k pml4 vaddr flags 0 page_count of
           (k, False) \<Rightarrow> (k, None)
         | (k, True) \<Rightarrow> (k\<lparr>heap_top := vaddr + sz\<rparr>, Some vaddr))"

definition virt_to_phys :: "Kernel \<Rightarrow> u64 \<Rightarrow> u64 option" where
  "virt_to_phys k vaddr = translate k (kernel_pml4_phys k) vaddr"

record VmmStats =
  total_mapped_bytes :: u64
  region_count :: nat
  heap_used_bytes :: u64
  vmm_region_used :: u64
  next_alloc_addr :: u64
  free_region_count :: nat

definition vmm_stats :: "Kernel \<Rightarrow> VmmStats option" where
  "vmm_stats k =
     (case vmm k of
        None \<Rightarrow> None
      | Some st \<Rightarrow> Some \<lparr>total_mapped_bytes = total_mapped st, region_count = length (regions st),
          heap_used_bytes = heap_top k - HEAP_REGION_START, vmm_region_used = next_vaddr st - VMM_REGION_START,
          next_alloc_addr = next_vaddr st, free_region_count = length (free_regions st)\<rparr>)"

definition active_regions :: "Kernel \<Rightarrow> VirtualRegion list" where
  "active_regions k = (case vmm k of Some st \<Rightarrow> regions st | None \<Rightarrow> [])"


subsection \<open>Virtual ranges\<close>

definition rlo :: "VirtualRegion \<Rightarrow> nat" where
  "rlo r = unat (vr_base r)"

definition rhi :: "VirtualRegion \<Rightarrow> nat" where
  "rhi r = unat (vr_base r) + unat (vr_size r)"

text \<open>
  Well-formed: the bump pointer lies in the dynamic region; the free regions lie below it, are not
  empty, ascend, and no two of them overlap or touch.
\<close>

definition vmm_wf :: "VmmState \<Rightarrow> bool" where
  "vmm_wf st \<longleftrightarrow> unat VMM_REGION_START \<le> unat (next_vaddr st) \<and> unat (next_vaddr st) \<le> unat VMM_REGION_END
     \<and> sorted_wrt (\<lambda>r s. rhi r < rlo s) (free_regions st)
     \<and> (\<forall>r \<in> set (free_regions st). unat VMM_REGION_START \<le> rlo r \<and> rlo r < rhi r \<and> rhi r \<le> unat (next_vaddr st))"

text \<open>The addresses that are not handed out: the free regions and what lies above the bump pointer.\<close>

definition free_space :: "VirtualRegion list \<Rightarrow> nat set" where
  "free_space rs = (\<Union>r \<in> set rs. {rlo r..<rhi r})"

definition vspace :: "VmmState \<Rightarrow> nat set" where
  "vspace st = free_space (free_regions st) \<union> {unat (next_vaddr st)..<unat VMM_REGION_END}"

lemma region_consts: "unat VMM_REGION_START = 0xFFFFFFFFA0000000" "unat VMM_REGION_END = 0xFFFFFFFFC0000000"
  by (simp_all add: VMM_REGION_START_def VMM_REGION_END_def)

lemma best_fit_gen:
  assumes "best_fit sz i rs (bi, bw) = (bi', bw')"
  shows "bw' \<le> bw \<and> (\<forall>r \<in> set rs. vr_size r \<ge> sz \<longrightarrow> bw' \<le> vr_size r - sz)
    \<and> ((bi' = bi \<and> bw' = bw) \<or> (\<exists>j < length rs. bi' = Some (i + j) \<and> vr_size (rs ! j) \<ge> sz \<and> bw' = vr_size (rs ! j) - sz))"
  using assms
proof (induction rs arbitrary: i bi bw)
  case (Cons r rs)
  define b where "b = (if vr_size r \<ge> sz then
          let waste = vr_size r - sz in
          if waste < bw then (Some i, waste) else (bi, bw)
        else (bi, bw))"
  obtain bi1 bw1 where b1: "b = (bi1, bw1)" by fastforce
  have "best_fit sz (Suc i) rs (bi1, bw1) = (bi', bw')"
    using Cons.prems b1 unfolding b_def by simp
  note IH = Cons.IH [OF this]
  have bw1: "bw1 \<le> bw" "vr_size r \<ge> sz \<longrightarrow> bw1 \<le> vr_size r - sz"
    and cs: "(bi1 = bi \<and> bw1 = bw) \<or> (bi1 = Some i \<and> vr_size r \<ge> sz \<and> bw1 = vr_size r - sz)"
    using b1 by (auto simp: b_def Let_def split: if_splits)
  have "(bi' = bi \<and> bw' = bw) \<or> (\<exists>j < length (r # rs). bi' = Some (i + j) \<and> vr_size ((r # rs) ! j) \<ge> sz \<and> bw' = vr_size ((r # rs) ! j) - sz)"
    using IH cs by (elim conjE disjE exE) (auto intro: exI [of _ 0] exI [of _ "Suc _"])
  moreover have "bw' \<le> bw" using IH bw1(1) by auto
  moreover have "\<forall>s \<in> set (r # rs). vr_size s \<ge> sz \<longrightarrow> bw' \<le> vr_size s - sz" using IH bw1(2) by auto
  ultimately show ?case by blast
qed simp

lemma best_fit_spec:
  assumes "sz \<noteq> 0"
  shows "case fst (best_fit sz 0 rs (None, 0xFFFFFFFFFFFFFFFF)) of
      Some i \<Rightarrow> i < length rs \<and> sz \<le> vr_size (rs ! i) \<and> (\<forall>r \<in> set rs. sz \<le> vr_size r \<longrightarrow> vr_size (rs ! i) \<le> vr_size r)
    | None \<Rightarrow> \<forall>r \<in> set rs. vr_size r < sz"
proof -
  obtain bi bw where b: "best_fit sz 0 rs (None, 0xFFFFFFFFFFFFFFFF) = (bi, bw)" by fastforce
  note g = best_fit_gen [OF b]
  show ?thesis
  proof (cases bi)
    case None
    with g have bw: "bw = 0xFFFFFFFFFFFFFFFF" by auto
    have "vr_size r < sz" if "r \<in> set rs" for r
    proof (rule ccontr)
      assume "\<not> vr_size r < sz"
      then have le: "sz \<le> vr_size r" by simp
      with g that bw have "0xFFFFFFFFFFFFFFFF \<le> vr_size r - sz" by auto
      moreover have "unat (vr_size r - sz) = unat (vr_size r) - unat sz" using le by (rule unat_diff_le)
      moreover have "unat sz > 0" using assms by (simp add: unat_gt_0)
      ultimately show False using unat_lt2p [of "vr_size r"] by (simp add: word_le_nat_alt)
    qed
    with None b show ?thesis by simp
  next
    case (Some i)
    with g have i: "i < length rs" "sz \<le> vr_size (rs ! i)" "bw = vr_size (rs ! i) - sz" by auto
    have "vr_size (rs ! i) \<le> vr_size r" if "r \<in> set rs" "sz \<le> vr_size r" for r
    proof -
      have "vr_size (rs ! i) - sz \<le> vr_size r - sz" using g i that by auto
      then show ?thesis using i(2) that(2) by (simp add: word_le_nat_alt unat_diff_le)
    qed
    with Some b i show ?thesis by simp
  qed
qed

lemma free_space_simps [simp]:
  "free_space [] = {}" "free_space (r # rs) = {rlo r..<rhi r} \<union> free_space rs"
  "free_space (rs @ rs') = free_space rs \<union> free_space rs'"
  by (auto simp: free_space_def)

lemma split_at: "i < length xs \<Longrightarrow> xs = take i xs @ xs ! i # drop (Suc i) xs"
  by (rule id_take_nth_drop)

lemma gap_disjoint:
  assumes "sorted_wrt (\<lambda>r s. rhi r < rlo s) (xs @ r # ys)"
  shows "{rlo r..<rhi r} \<inter> (free_space xs \<union> free_space ys) = {}"
proof -
  have "rhi s < rlo r \<or> rhi r < rlo s" if "s \<in> set xs \<union> set ys" for s
    using that assms(1) by (auto simp: sorted_wrt_append)
  then show ?thesis by (fastforce simp: free_space_def)
qed

text \<open>A granted range is cut out of the free space; a refusal means that neither list nor top can serve it.\<close>

lemma vrange_alloc_Some:
  assumes wf: "vmm_wf st" and sz: "sz \<noteq> 0" "unat sz \<le> 0x20000000"
    and res: "vrange_alloc st sz = (st', Some v)"
  shows "vmm_wf st' \<and> {unat v..<unat v + unat sz} \<subseteq> vspace st
    \<and> vspace st' = vspace st - {unat v..<unat v + unat sz} \<and> unat VMM_REGION_START \<le> unat v
    \<and> unat v + unat sz \<le> unat (next_vaddr st') \<and> regions st' = regions st \<and> total_mapped st' = total_mapped st"
proof (cases "fst (best_fit sz 0 (free_regions st) (None, 0xFFFFFFFFFFFFFFFF))")
  case None
  have "unat (next_vaddr st + sz) = unat (next_vaddr st) + unat sz"
    using wf sz by (intro unat_add_no_overflow) (simp add: vmm_wf_def region_consts)
  moreover have st': "st' = st\<lparr>next_vaddr := next_vaddr st + sz\<rparr>" "v = next_vaddr st"
    "\<not> next_vaddr st + sz > VMM_REGION_END"
    using res None by (auto simp: vrange_alloc_def Let_def split: if_splits)
  moreover have "free_space (free_regions st) \<inter> {unat (next_vaddr st)..<m} = {}" for m
    using wf by (auto simp: vmm_wf_def free_space_def)
  ultimately show ?thesis
    using wf sz unfolding vmm_wf_def vspace_def by (auto simp: word_less_nat_alt not_less)
next
  case (Some i)
  let ?rs = "free_regions st"
  define r xs ys where "r = ?rs ! i" and "xs = take i ?rs" and "ys = drop (Suc i) ?rs"
  have i: "i < length ?rs" "sz \<le> vr_size r"
    using best_fit_spec [OF sz(1), of ?rs] Some by (auto simp: r_def)
  have rs: "?rs = xs @ r # ys" using split_at [OF i(1)] by (simp add: r_def xs_def ys_def)
  have li: "length xs = i" using i(1) by (simp add: xs_def)
  have w: "sorted_wrt (\<lambda>r s. rhi r < rlo s) (xs @ r # ys)"
    "\<forall>s \<in> set (xs @ r # ys). unat VMM_REGION_START \<le> rlo s \<and> rlo s < rhi s \<and> rhi s \<le> unat (next_vaddr st)"
    using wf by (simp_all add: vmm_wf_def rs)
  have dis: "{rlo r..<rhi r} \<inter> (free_space xs \<union> free_space ys) = {}"
    using gap_disjoint [OF w(1)] .
  have dis2: "{rlo r..<rhi r} \<inter> {unat (next_vaddr st)..<unat VMM_REGION_END} = {}"
    using w(2) by auto
  have szr: "unat sz \<le> unat (vr_size r)" using i(2) by (simp add: word_le_nat_alt)
  have v: "v = vr_base r" using res Some by (auto simp: vrange_alloc_def Let_def r_def split: if_splits)
  show ?thesis
  proof (cases "vr_size r = sz")
    case True
    then have "st' = st\<lparr>free_regions := xs @ ys\<rparr>"
      using res Some by (auto simp: vrange_alloc_def Let_def r_def xs_def ys_def remove_at_def)
    moreover have "{unat v..<unat v + unat sz} = {rlo r..<rhi r}" by (simp add: v True rlo_def rhi_def)
    ultimately show ?thesis
      using wf w dis dis2 unfolding vmm_wf_def vspace_def
      by (auto simp: rs sorted_wrt_append rlo_def rhi_def v True)
  next
    case False
    define r' where "r' = r\<lparr>vr_base := vr_base r + sz, vr_size := vr_size r - sz\<rparr>"
    have "unat (vr_base r + sz) = unat (vr_base r) + unat sz"
      using w(2) szr wf by (intro unat_add_no_overflow) (simp add: rhi_def vmm_wf_def region_consts)
    moreover have "unat (vr_size r - sz) = unat (vr_size r) - unat sz" using i(2) by (rule unat_diff_le)
    moreover have "unat sz \<noteq> unat (vr_size r)" using False by (simp add: word_unat_eq_iff)
    ultimately have r': "rlo r' = rlo r + unat sz" "rhi r' = rhi r" "rlo r' < rhi r'"
      using szr by (simp_all add: r'_def rlo_def rhi_def)
    have "st' = st\<lparr>free_regions := xs @ r' # ys\<rparr>"
      using res Some False rs li by (auto simp: vrange_alloc_def Let_def r'_def r_def [symmetric] list_update_append)
    moreover have "{unat v..<unat v + unat sz} = {rlo r..<rlo r'}" unfolding r'(1) by (simp add: v rlo_def)
    moreover have "{rlo r..<rhi r} = {rlo r..<rlo r'} \<union> {rlo r'..<rhi r}" using r' by auto
    moreover have "{rlo r..<rlo r'} \<inter> {rlo r'..<rhi r} = {}" by auto
    moreover have "unat v + unat sz \<le> rhi r" using szr by (simp add: v rhi_def)
    ultimately show ?thesis
      using wf w dis dis2 r' unfolding vmm_wf_def vspace_def
      by (auto simp: rs sorted_wrt_append rlo_def [of r] v)
  qed
qed

lemma vrange_alloc_None:
  assumes wf: "vmm_wf st" and sz: "sz \<noteq> 0" "unat sz \<le> 0x20000000"
    and res: "vrange_alloc st sz = (st', None)"
  shows "st' = st \<and> (\<forall>r \<in> set (free_regions st). vr_size r < sz)
    \<and> unat (next_vaddr st) + unat sz > unat VMM_REGION_END"
proof -
  have "unat (next_vaddr st + sz) = unat (next_vaddr st) + unat sz"
    using wf sz by (intro unat_add_no_overflow) (simp add: vmm_wf_def region_consts)
  with res best_fit_spec [OF sz(1), of "free_regions st"] show ?thesis
    by (auto simp: vrange_alloc_def Let_def word_less_nat_alt split: option.splits if_splits)
qed

lemma merge_next_append:
  "merge_next (length xs) (xs @ c # ys) =
     (case ys of
        y # ys' \<Rightarrow> if vr_base c + vr_size c = vr_base y
          then xs @ c\<lparr>vr_size := vr_size c + vr_size y\<rparr> # ys' else xs @ c # ys
      | [] \<Rightarrow> xs @ c # ys)"
  by (cases ys) (simp_all add: merge_next_def Let_def nth_append remove_at_def list_update_append)

lemma merge_prev_append:
  "merge_prev (length xs) (xs @ c # ys) =
     (if xs = [] then c # ys
      else if vr_base (last xs) + vr_size (last xs) = vr_base c
      then butlast xs @ (last xs)\<lparr>vr_size := vr_size (last xs) + vr_size c\<rparr> # ys
      else xs @ c # ys)"
proof (cases xs rule: rev_cases)
  case (snoc xs' p)
  then show ?thesis by (simp add: merge_prev_def Let_def nth_append remove_at_def list_update_append)
qed (simp add: merge_prev_def)

text \<open>
  The regions below and above a range that no free region overlaps; what merging with a neighbour
  does to the ends.
\<close>

lemma word_end_eq: "rhi r < 2 ^ 64 \<Longrightarrow> vr_base r + vr_size r = vr_base s \<longleftrightarrow> rhi r = rlo s"
  by (simp add: word_unat_eq_iff unat_add_no_overflow rhi_def rlo_def)

lemma merged_ends:
  assumes "rhi r = rlo s" "rhi s < 2 ^ 64"
  shows "rlo (r\<lparr>vr_size := vr_size r + vr_size s\<rparr>) = rlo r" "rhi (r\<lparr>vr_size := vr_size r + vr_size s\<rparr>) = rhi s"
proof -
  have "unat (vr_size r + vr_size s) = unat (vr_size r) + unat (vr_size s)"
    using assms by (intro unat_add_no_overflow) (simp add: rhi_def rlo_def)
  then show "rlo (r\<lparr>vr_size := vr_size r + vr_size s\<rparr>) = rlo r" "rhi (r\<lparr>vr_size := vr_size r + vr_size s\<rparr>) = rhi s"
    using assms(1) by (simp_all add: rlo_def rhi_def)
qed

definition range_ok :: "nat \<Rightarrow> VirtualRegion list \<Rightarrow> bool" where
  "range_ok lim rs \<longleftrightarrow> sorted_wrt (\<lambda>r s. rhi r < rlo s) rs
     \<and> (\<forall>r \<in> set rs. unat VMM_REGION_START \<le> rlo r \<and> rlo r < rhi r \<and> rhi r \<le> lim)"

lemma merge_next_ok:
  assumes c: "unat VMM_REGION_START \<le> rlo c" "rlo c < rhi c" "rhi c \<le> lim" "lim < 2 ^ 64"
    and ys: "range_ok lim ys" "\<forall>y \<in> set ys. rhi c \<le> rlo y"
  obtains c' ys' where "merge_next (length xs) (xs @ c # ys) = xs @ c' # ys'" "range_ok lim (c' # ys')"
    "rlo c' = rlo c" "vr_base c' = vr_base c" "free_space (c' # ys') = free_space (c # ys)"
proof (cases ys)
  case Nil
  with c that [of c "[]"] show thesis by (simp add: merge_next_append range_ok_def)
next
  case (Cons y ys'')
  have y: "rlo y < rhi y" "rhi y \<le> lim" "\<forall>z \<in> set ys''. rhi y < rlo z" "range_ok lim ys''"
    using ys(1) Cons by (auto simp: range_ok_def)
  have c64: "rhi c < 2 ^ 64" using c by simp
  show thesis
  proof (cases "rhi c = rlo y")
    case True
    let ?c = "c\<lparr>vr_size := vr_size c + vr_size y\<rparr>"
    have "rhi y < 2 ^ 64" using y c(4) by simp
    note e = merged_ends [OF True this]
    have "free_space (?c # ys'') = free_space (c # ys)"
      using True y(1) c(2) unfolding Cons free_space_simps e by auto
    moreover have "range_ok lim (?c # ys'')"
      using y c ys(1) e True unfolding range_ok_def by auto
    moreover have "merge_next (length xs) (xs @ c # ys) = xs @ ?c # ys''"
      using True word_end_eq [OF c64] Cons by (simp add: merge_next_append)
    ultimately show thesis using that [of ?c ys''] e by simp
  next
    case False
    then have "\<forall>z \<in> set ys. rhi c < rlo z"
      using ys Cons y by (fastforce simp: range_ok_def)
    then have "range_ok lim (c # ys)" using c ys(1) by (simp add: range_ok_def)
    moreover have "merge_next (length xs) (xs @ c # ys) = xs @ c # ys"
      using False word_end_eq [OF c64] Cons by (simp add: merge_next_append)
    ultimately show thesis using that [of c ys] by simp
  qed
qed

lemma merge_prev_ok:
  assumes xs: "range_ok lim xs" "\<forall>x \<in> set xs. rhi x \<le> rlo c" and c: "range_ok lim (c # ys)" "lim < 2 ^ 64"
  shows "range_ok lim (merge_prev (length xs) (xs @ c # ys))
    \<and> free_space (merge_prev (length xs) (xs @ c # ys)) = free_space (xs @ c # ys)"
proof (cases xs rule: rev_cases)
  case Nil
  with c show ?thesis by (simp add: merge_prev_def)
next
  case (snoc xs' p)
  have p: "rlo p < rhi p" "rhi p \<le> lim" "\<forall>x \<in> set xs'. rhi x < rlo p" "range_ok lim xs'" "unat VMM_REGION_START \<le> rlo p"
    using xs(1) snoc by (auto simp: range_ok_def sorted_wrt_append)
  have cc: "rlo c < rhi c" "rhi c \<le> lim" "\<forall>y \<in> set ys. rhi c < rlo y" "range_ok lim ys"
    using c by (auto simp: range_ok_def)
  have p64: "rhi p < 2 ^ 64" using p c(2) by simp
  have low: "rhi x < rlo y" if "x \<in> set xs'" "y \<in> set ys" for x y
    using that p(1,3) xs(2) cc(1,3) snoc by fastforce
  show ?thesis
  proof (cases "rhi p = rlo c")
    case True
    let ?p = "p\<lparr>vr_size := vr_size p + vr_size c\<rparr>"
    have "rhi c < 2 ^ 64" using cc c(2) by simp
    note e = merged_ends [OF True this]
    have "merge_prev (length xs) (xs @ c # ys) = xs' @ ?p # ys"
      using merge_prev_append [of xs c ys] True word_end_eq [OF p64, of c] snoc by simp
    moreover have "range_ok lim (xs' @ ?p # ys)"
      using p cc e low True unfolding range_ok_def by (auto simp: sorted_wrt_append)
    moreover have "free_space (xs' @ ?p # ys) = free_space (xs @ c # ys)"
      using True p(1) cc(1) unfolding snoc free_space_simps e by auto
    ultimately show ?thesis by simp
  next
    case False
    then have "merge_prev (length xs) (xs @ c # ys) = xs @ c # ys"
      using merge_prev_append [of xs c ys] word_end_eq [OF p64, of c] snoc by simp
    moreover have "rhi p < rlo c" using False xs(2) snoc by fastforce
    then have "\<forall>x \<in> set xs. rhi x < rlo c" using p(1,3) snoc by fastforce
    then have "range_ok lim (xs @ c # ys)"
      using xs(1) c(1) cc low p unfolding range_ok_def by (fastforce simp: sorted_wrt_append)
    ultimately show ?thesis by simp
  qed
qed

lemma vrange_free_ok:
  assumes wf: "vmm_wf st" and sz: "sz \<noteq> 0" "unat VMM_REGION_START \<le> unat v" "unat v + unat sz \<le> unat (next_vaddr st)"
    and out: "{unat v..<unat v + unat sz} \<inter> vspace st = {}"
  shows "vmm_wf (vrange_free st v sz) \<and> vspace (vrange_free st v sz) = vspace st \<union> {unat v..<unat v + unat sz}
    \<and> regions (vrange_free st v sz) = regions st \<and> total_mapped (vrange_free st v sz) = total_mapped st
    \<and> next_vaddr (vrange_free st v sz) = next_vaddr st"
proof -
  define xs ys c where "xs = takeWhile (\<lambda>r. \<not> vr_base r > v) (free_regions st)"
    and "ys = dropWhile (\<lambda>r. \<not> vr_base r > v) (free_regions st)"
    and "c = \<lparr>vr_base = v, vr_size = sz, vr_flags = 0, vr_kind = KernelAlloc\<rparr>"
  let ?top = "unat (next_vaddr st)"
  have rs: "free_regions st = xs @ ys" by (simp add: xs_def ys_def)
  have lim: "?top < 2 ^ 64" using unat_lt2p [of "next_vaddr st"] by simp
  have ok: "range_ok ?top (xs @ ys)" using wf by (simp add: vmm_wf_def range_ok_def rs)
  then have okx: "range_ok ?top xs" and oky: "range_ok ?top ys" and xy: "\<forall>x \<in> set xs. \<forall>y \<in> set ys. rhi x < rlo y"
    by (auto simp: range_ok_def sorted_wrt_append)
  have sz0: "0 < unat sz" using sz(1) by (simp add: unat_gt_0)
  have c: "rlo c = unat v" "rhi c = unat v + unat sz" by (simp_all add: c_def rlo_def rhi_def)
  have dis: "{rlo c..<rhi c} \<inter> {rlo r..<rhi r} = {}" if "r \<in> set (xs @ ys)" for r
  proof -
    have "{rlo r..<rhi r} \<subseteq> vspace st" using that by (auto simp: vspace_def rs free_space_def)
    with out show ?thesis unfolding c by blast
  qed
  have x: "\<forall>x \<in> set xs. rhi x \<le> rlo c"
  proof
    fix x assume x: "x \<in> set xs"
    then have "\<not> vr_base x > v" unfolding xs_def by (rule set_takeWhileD [THEN conjunct2])
    then have "rlo x \<le> rlo c" unfolding c by (simp add: rlo_def word_less_nat_alt)
    with dis [of x] x c sz0 show "rhi x \<le> rlo c" by (auto simp: set_eq_iff not_less)
  qed
  have y: "\<forall>y \<in> set ys. rhi c \<le> rlo y"
  proof
    fix y assume y: "y \<in> set ys"
    have "ys \<noteq> []" using y by auto
    then have "v < vr_base (hd ys)" using hd_dropWhile [of "\<lambda>r. \<not> vr_base r > v" "free_regions st"]
      unfolding ys_def by simp
    then have "rlo c < rlo (hd ys)" unfolding c by (simp add: rlo_def word_less_nat_alt)
    moreover have "rlo (hd ys) \<le> rlo y" using oky y by (cases ys) (fastforce simp: range_ok_def)+
    moreover have "rlo y < rhi y" using oky y by (simp add: range_ok_def)
    ultimately show "rhi c \<le> rlo y" using dis [of y] y by (auto simp: set_eq_iff) (meson leD leI less_imp_le_nat order_refl)
  qed
  have cs: "unat VMM_REGION_START \<le> rlo c" "rlo c < rhi c" "rhi c \<le> ?top" using sz sz0 c by simp_all
  obtain c' ys' where m: "merge_next (length xs) (xs @ c # ys) = xs @ c' # ys'" "range_ok ?top (c' # ys')"
    "rlo c' = rlo c" "vr_base c' = vr_base c" "free_space (c' # ys') = free_space (c # ys)"
    using merge_next_ok [OF cs lim oky y] by blast
  have x': "\<forall>x \<in> set xs. rhi x \<le> rlo c'" using x m(3) by simp
  note mp = merge_prev_ok [OF okx x' m(2) lim]
  have pos: "insert_pos v (free_regions st) = length xs" by (simp add: insert_pos_def xs_def)
  have "vrange_free st v sz = st\<lparr>free_regions := merge_prev (length xs) (xs @ c' # ys')\<rparr>"
    unfolding vrange_free_def rs pos [unfolded rs] Let_def insert_at_def by (simp add: m(1) c_def [symmetric])
  with mp wf show ?thesis
    unfolding vmm_wf_def range_ok_def vspace_def using m(5) c by (auto simp: rs)
qed

subsection \<open>Backing a range with frames\<close>

abbreviation page_at :: "u64 \<Rightarrow> nat \<Rightarrow> u64" where
  "page_at v i \<equiv> v + of_nat i * PAGE_SIZE"

abbreviation owned :: "'a Machine_scheme \<Rightarrow> u64 \<Rightarrow> u64 set" where
  "owned m r \<equiv> avail (frames m) \<union> tables (mem m) r"

text \<open>
  \<open>backed r v p fs m0 m\<close>: \<open>m\<close> is \<open>m0\<close> except that the pages \<open>p\<close> to \<open>p + length fs - 1\<close> of the
  range at \<open>v\<close> are mapped to the frames \<open>fs\<close>, which came from the free list; everything else on the
  free list of \<open>m0\<close> or in a table of \<open>m0\<close> still is one or the other.
\<close>

definition backed :: "u64 \<Rightarrow> u64 \<Rightarrow> nat \<Rightarrow> u64 list \<Rightarrow> 'a Machine_scheme \<Rightarrow> 'a Machine_scheme \<Rightarrow> bool" where
  "backed r v p fs m0 m \<longleftrightarrow> mach_inv m r \<and> distinct fs \<and> set fs \<subseteq> avail (frames m0)
     \<and> set fs \<inter> owned m r = {} \<and> owned m r \<union> set fs = owned m0 r
     \<and> managed_frames (frames m) = managed_frames (frames m0) \<and> kernel_pml4_phys m = kernel_pml4_phys m0
     \<and> Machine.more m = Machine.more m0 \<and> tables (mem m0) r \<subseteq> tables (mem m) r
     \<and> (\<forall>j < length fs. lookup_path m0 r (indices (page_at v (p + j))) = None
          \<and> (\<exists>e. lookup_path m r (indices (page_at v (p + j))) = Some (0, e) \<and> pte_address e = fs ! j))
     \<and> (\<forall>q. pidx q \<and> length q = 4 \<and> (\<forall>j < length fs. q \<noteq> indices (page_at v (p + j))) \<longrightarrow>
          lookup_path m r q = lookup_path m0 r q)"

lemma backedD:
  assumes "backed r v p fs m0 m"
  shows "mach_inv m r" "distinct fs" "set fs \<subseteq> avail (frames m0)" "set fs \<inter> owned m r = {}"
    "owned m r \<union> set fs = owned m0 r" "managed_frames (frames m) = managed_frames (frames m0)"
    "kernel_pml4_phys m = kernel_pml4_phys m0" "Machine.more m = Machine.more m0"
    "tables (mem m0) r \<subseteq> tables (mem m) r"
    "\<And>j. j < length fs \<Longrightarrow> lookup_path m0 r (indices (page_at v (p + j))) = None"
    "\<And>j. j < length fs \<Longrightarrow> \<exists>e. lookup_path m r (indices (page_at v (p + j))) = Some (0, e) \<and> pte_address e = fs ! j"
    "\<And>q. pidx q \<Longrightarrow> length q = 4 \<Longrightarrow> (\<And>j. j < length fs \<Longrightarrow> q \<noteq> indices (page_at v (p + j))) \<Longrightarrow>
       lookup_path m r q = lookup_path m0 r q"
  using assms unfolding backed_def by blast+

lemma backed_refl: "mach_inv m r \<Longrightarrow> backed r v p [] m m"
  by (simp add: backed_def)

lemma indices_page_eq_iff:
  "i < 2 ^ 36 \<Longrightarrow> j < 2 ^ 36 \<Longrightarrow> indices (page_at v i) = indices (page_at v j) \<longleftrightarrow> i = j"
  by (simp add: indices_eq_iff page_of_add_eq_iff del: of_nat_mult)

lemma m_allocate_frame_Some:
  assumes "mach_inv m r" "m_allocate_frame m = (m1, Some f)"
  shows "mach_inv m1 r" "f \<in> avail (frames m)" "f \<notin> tables (mem m) r" "avail (frames m1) = avail (frames m) - {f}"
    "mem m1 = mem m" "managed_frames (frames m1) = managed_frames (frames m)"
    "kernel_pml4_phys m1 = kernel_pml4_phys m" "Machine.more m1 = Machine.more m"
    "f AND ADDR_MASK = f" "invlpg_log m1 = invlpg_log m"
proof -
  obtain fa where al: "allocate_frame (frames m) = (fa, Some f)" and m1: "m1 = m\<lparr>frames := fa\<rparr>"
    using assms(2) by (auto simp: m_allocate_frame_def split: prod.splits)
  have fa: "fa_inv (frames m)" using assms(1) by (simp add: mach_inv_def)
  show f: "f \<in> avail (frames m)" using fsrc.alloc_from [OF fa al] .
  show t: "avail (frames m1) = avail (frames m) - {f}" using fsrc.alloc_takes [OF fa al] m1 by simp
  show "f \<notin> tables (mem m) r" using f assms(1) by (auto simp: mach_inv_def)
  show "mach_inv m1 r"
    using assms(1) t fsrc.alloc_ok [OF fa al] m1 by (auto simp: mach_inv_def)
  show "managed_frames (frames m1) = managed_frames (frames m)"
    using fsrc.alloc_managed [OF fa al] m1 by simp
  show "mem m1 = mem m" "kernel_pml4_phys m1 = kernel_pml4_phys m" "Machine.more m1 = Machine.more m"
    "invlpg_log m1 = invlpg_log m"
    using m1 by simp_all
  show "f AND ADDR_MASK = f"
    using avail_aligned [OF f] by (intro mask_frame) (simp_all add: aligned_def MAX_FRAMES_eq)
qed

lemma m_allocate_frame_None:
  assumes "mach_inv m r" "m_allocate_frame m = (m1, None)"
  shows "m1 = m" "avail (frames m) = {}"
proof -
  obtain fa where al: "allocate_frame (frames m) = (fa, None)" and m1: "m1 = m\<lparr>frames := fa\<rparr>"
    using assms(2) by (auto simp: m_allocate_frame_def split: prod.splits)
  have "fa_inv (frames m)" using assms(1) by (simp add: mach_inv_def)
  from fsrc.alloc_refuses [OF this al] m1 show "m1 = m" "avail (frames m) = {}" by simp_all
qed

lemma m_free_frame_inv:
  assumes "mach_inv m r" "a \<in> managed_frames (frames m)" "a \<notin> tables (mem m) r"
  shows "mach_inv (m_free_frame m a) r" "avail (frames (m_free_frame m a)) = insert a (avail (frames m))"
    "mem (m_free_frame m a) = mem m" "managed_frames (frames (m_free_frame m a)) = managed_frames (frames m)"
    "kernel_pml4_phys (m_free_frame m a) = kernel_pml4_phys m" "Machine.more (m_free_frame m a) = Machine.more m"
  using assms by (auto simp: m_free_frame_def mach_inv_def fsrc.release_ok fsrc.release_gives fsrc.release_managed)

lemma managed_avail: "mach_inv m r \<Longrightarrow> a \<in> avail (frames m) \<Longrightarrow> a \<in> managed_frames (frames m)"
  using fsrc.available_managed by (auto simp: mach_inv_def)

text \<open>One more page is backed.\<close>

lemma backed_step:
  assumes b: "backed r v 0 fs m0 m" and lim: "Suc (length fs) \<le> 2 ^ 36" and fl: "flags_ok flags"
    and al: "m_allocate_frame m = (m1, Some f)"
    and mp: "map_page m1 r (page_at v (length fs)) f flags = (m2, True)"
  shows "backed r v 0 (fs @ [f]) m0 m2"
proof -
  have inv: "mach_inv m r" using b by (simp add: backed_def)
  note a = m_allocate_frame_Some [OF inv al]
  note rm = map_page_remaps [OF a(1) mp]
  have own: "owned m2 r = owned m r - {f}"
    using rm(1) a(2-5) by (auto simp: remaps_def)
  have fown: "f \<in> owned m r" using a(2) by simp
  have new: "\<exists>e. lookup_path m2 r (indices (page_at v (length fs))) = Some (0, e) \<and> pte_address e = f"
    using rm(1) leaf_flags_ok [OF fl] a(9) by (simp add: remaps_def pte_address_set)
  have others: "lookup_path m2 r q = lookup_path m r q"
    if "pidx q" "length q = 4" "q \<noteq> indices (page_at v (length fs))" for q
    using rm(1) that a(5) by (simp add: remaps_def)
  have ne: "indices (page_at v j) \<noteq> indices (page_at v (length fs))" if "j < length fs" for j
    using that lim indices_page_eq_iff [of j "length fs" v] by simp
  have nothere: "lookup_path m0 r (indices (page_at v (length fs))) = None"
  proof -
    have "lookup_path m r (indices (page_at v (length fs))) = lookup_path m0 r (indices (page_at v (length fs)))"
      using ne by (intro backedD(12) [OF b]) (simp_all, metis)
    with rm(2) a(5) show ?thesis by simp
  qed
  have favail: "f \<in> avail (frames m0)"
    using backedD(5,9) [OF b] fown a(3) by blast
  have ffs: "f \<notin> set fs" using backedD(4) [OF b] fown by blast
  show ?thesis
    unfolding backed_def
  proof (intro conjI allI impI)
    show "mach_inv m2 r" "tables (mem m0) r \<subseteq> tables (mem m2) r"
      "managed_frames (frames m2) = managed_frames (frames m0)" "kernel_pml4_phys m2 = kernel_pml4_phys m0"
      "Machine.more m2 = Machine.more m0"
      using rm(1) a backedD(6-9) [OF b] by (auto simp: remaps_def)
    show "distinct (fs @ [f])" using backedD(2) [OF b] ffs by simp
    show "set (fs @ [f]) \<subseteq> avail (frames m0)" using backedD(3) [OF b] favail by simp
    show "set (fs @ [f]) \<inter> owned m2 r = {}" using backedD(4) [OF b] own by auto
    show "owned m2 r \<union> set (fs @ [f]) = owned m0 r" using backedD(5) [OF b] own fown by auto
  next
    fix j
    assume j: "j < length (fs @ [f])"
    show "lookup_path m0 r (indices (page_at v (0 + j))) = None"
      using backedD(10) [OF b, of j] nothere j by (cases "j = length fs") auto
    show "\<exists>e. lookup_path m2 r (indices (page_at v (0 + j))) = Some (0, e) \<and> pte_address e = (fs @ [f]) ! j"
      using backedD(11) [OF b, of j] new j others [of "indices (page_at v j)"] ne [of j]
      by (cases "j = length fs") (auto simp: nth_append)
  next
    fix q
    assume q: "pidx q \<and> length q = 4 \<and> (\<forall>j < length (fs @ [f]). q \<noteq> indices (page_at v (0 + j)))"
    then have "q \<noteq> indices (page_at v (length fs))" by auto
    with q others have "lookup_path m2 r q = lookup_path m r q" by blast
    also have "\<dots> = lookup_path m0 r q" using q by (intro backedD(12) [OF b]) auto
    finally show "lookup_path m2 r q = lookup_path m0 r q" .
  qed
qed

lemma backed_cong:
  assumes b: "backed r v p fs m0 m" and "mach_inv m' r" "owned m' r = owned m r"
    "managed_frames (frames m') = managed_frames (frames m)" "kernel_pml4_phys m' = kernel_pml4_phys m"
    "Machine.more m' = Machine.more m" "tables (mem m) r \<subseteq> tables (mem m') r"
    and look: "\<And>q. pidx q \<Longrightarrow> length q = 4 \<Longrightarrow> lookup_path m' r q = lookup_path m r q"
  shows "backed r v p fs m0 m'"
  unfolding backed_def assms(3)
proof (intro conjI allI impI)
  fix j
  assume "j < length fs"
  from backedD(10,11) [OF b this] look
  show "lookup_path m0 r (indices (page_at v (p + j))) = None"
    "\<exists>e. lookup_path m' r (indices (page_at v (p + j))) = Some (0, e) \<and> pte_address e = fs ! j" by simp_all
next
  fix q
  assume "pidx q \<and> length q = 4 \<and> (\<forall>j < length fs. q \<noteq> indices (page_at v (p + j)))"
  with backedD(12) [OF b, of q] look show "lookup_path m' r q = lookup_path m0 r q" by auto
qed (use assms backedD [OF b] in auto)

text \<open>A frame that was allocated in vain is given back.\<close>

lemma backed_give_back:
  assumes b: "backed r v 0 fs m0 m"
    and al: "m_allocate_frame m = (m1, Some f)" and mp: "map_page m1 r w f flags = (m2, False)"
  shows "backed r v 0 fs m0 (m_free_frame m2 f)"
proof -
  note inv = backedD(1) [OF b]
  note a = m_allocate_frame_Some [OF inv al]
  note g = map_page_grows(1) [OF a(1) mp]
  have own2: "owned m2 r = owned m r - {f}" using g a(2-5) by (auto simp: grows_def)
  have man: "f \<in> managed_frames (frames m2)"
    using g a(6) managed_avail [OF inv a(2)] by (simp add: grows_def)
  have inv2: "mach_inv m2 r" using g by (simp add: grows_def)
  have "f \<notin> tables (mem m2) r" using own2 by auto
  note fr = m_free_frame_inv [OF inv2 man this]
  have own: "owned (m_free_frame m2 f) r = owned m r" using fr own2 a(2) by auto
  have look: "lookup_path (m_free_frame m2 f) r q = lookup_path m r q" if "pidx q" "length q = 4" for q
    using g that a(5) fr(3) by (simp add: grows_def)
  show ?thesis
    by (rule backed_cong [OF b fr(1) own]) (use fr g a look in \<open>simp_all add: grows_def\<close>)
qed

text \<open>The roll-back loop gives the frames back page by page.\<close>

lemma unmap_free_step:
  assumes b: "backed r v p (f # fs) m0 m" and lim: "p + Suc (length fs) \<le> 2 ^ 36" and inv0: "mach_inv m0 r"
    and u: "unmap_page m r (page_at v p) = (m1, x)"
  shows "x = Some f \<and> backed r v (Suc p) fs m0 (m_free_frame m1 f)"
proof -
  note inv = backedD(1) [OF b]
  obtain e where e: "lookup_path m r (indices (page_at v p)) = Some (0, e)" "pte_address e = f"
    using backedD(11) [OF b, of 0] by auto
  with u unmap_page_None [of m r "page_at v p" m1] obtain y where x: "x = Some y" by (cases x) auto
  obtain e' where e': "lookup_path m r (indices (page_at v p)) = Some (0, e')" "y = pte_address e'"
    and rm: "remaps r (page_at v p) None m m1"
    using unmap_page_remaps [OF inv u [unfolded x]] by blast
  have y: "y = f" using e e' by simp
  have own1: "owned m1 r = owned m r" and inv1: "mach_inv m1 r" using rm by (simp_all add: remaps_def)
  have fn: "f \<notin> owned m r" using backedD(4) [OF b] by auto
  have man: "f \<in> managed_frames (frames m1)"
    using rm backedD(3,6) [OF b] managed_avail [OF inv0, of f] by (auto simp: remaps_def)
  have "f \<notin> tables (mem m1) r" using own1 fn by auto
  note fr = m_free_frame_inv [OF inv1 man this]
  have own: "owned (m_free_frame m1 f) r = insert f (owned m r)" using fr own1 by auto
  have look: "lookup_path (m_free_frame m1 f) r q = (if q = indices (page_at v p) then None else lookup_path m r q)"
    if "pidx q" "length q = 4" for q
    using rm that fr(3) by (auto simp: remaps_def)
  have ne: "indices (page_at v (Suc p + j)) \<noteq> indices (page_at v p)" if "j < length fs" for j
    using that lim indices_page_eq_iff [of "Suc p + j" p v] by simp
  have "backed r v (Suc p) fs m0 (m_free_frame m1 f)"
    unfolding backed_def
  proof (intro conjI allI impI)
    fix j
    assume j: "j < length fs"
    show "lookup_path m0 r (indices (page_at v (Suc p + j))) = None"
      using backedD(10) [OF b, of "Suc j"] j by simp
    show "\<exists>e. lookup_path (m_free_frame m1 f) r (indices (page_at v (Suc p + j))) = Some (0, e) \<and> pte_address e = fs ! j"
      using backedD(11) [OF b, of "Suc j"] j look [of "indices (page_at v (Suc p + j))"] ne [OF j] by simp
  next
    fix q
    assume q: "pidx q \<and> length q = 4 \<and> (\<forall>j < length fs. q \<noteq> indices (page_at v (Suc p + j)))"
    show "lookup_path (m_free_frame m1 f) r q = lookup_path m0 r q"
    proof (cases "q = indices (page_at v p)")
      case True
      then show ?thesis using look q backedD(10) [OF b, of 0] by simp
    next
      case False
      then have "q \<noteq> indices (page_at v (p + j))" if "j < length (f # fs)" for j
        using that q by (cases j) auto
      then have "lookup_path m r q = lookup_path m0 r q" using q by (intro backedD(12) [OF b]) auto
      with False look q show ?thesis by simp
    qed
  next
    show "set fs \<inter> owned (m_free_frame m1 f) r = {}" "owned (m_free_frame m1 f) r \<union> set fs = owned m0 r"
      "distinct fs" "set fs \<subseteq> avail (frames m0)"
      using backedD(2-5) [OF b] unfolding own by auto
  qed (use fr rm backedD(6-9) [OF b] in \<open>auto simp: remaps_def\<close>)
  with x y show ?thesis by simp
qed

lemma unmap_free_pages_backed:
  assumes b: "backed r v 0 fs m0 m" and lim: "length fs \<le> 2 ^ 36" and inv0: "mach_inv m0 r"
  shows "p \<le> length fs \<Longrightarrow> backed r v p (drop p fs) m0 (unmap_free_pages m r v p)"
proof (induction p)
  case 0
  then show ?case using b by (simp add: unmap_free_pages_def)
next
  case (Suc p)
  have d: "drop p fs = fs ! p # drop (Suc p) fs" using Suc.prems by (simp add: Cons_nth_drop_Suc)
  let ?m = "unmap_free_pages m r v p"
  obtain m1 x where u: "unmap_page ?m r (page_at v p) = (m1, x)" by fastforce
  have "backed r v p (fs ! p # drop (Suc p) fs) m0 ?m" using Suc d by simp
  from unmap_free_step [OF this _ inv0 u] Suc.prems lim
  have "x = Some (fs ! p) \<and> backed r v (Suc p) (drop (Suc p) fs) m0 (m_free_frame m1 (fs ! p))" by simp
  moreover have "unmap_free_pages m r v (Suc p) =
      (case unmap_page ?m r (page_at v p) of (m, Some phys) \<Rightarrow> m_free_frame m phys | (m, None) \<Rightarrow> m)"
    by (simp add: unmap_free_pages_def)
  ultimately show ?case using u by simp
qed

text \<open>What undoing everything leaves: no mapping differs and no frame is lost.\<close>

lemma backed_nothing: "backed r v p [] m0 m \<Longrightarrow> translate m r w = translate m0 r w \<and> owned m r = owned m0 r"
  using backedD(5,12) [of r v p "[]" m0 m] by (simp add: translate_lookup)

lemma map_fresh_pages_backed:
  assumes "backed r v 0 fs m0 m" "length fs + n \<le> 2 ^ 36" "mach_inv m0 r" "flags_ok flags"
    and "map_fresh_pages m r v flags (length fs) n = (m', ok)"
  shows "if ok then \<exists>gs. length gs = length fs + n \<and> backed r v 0 gs m0 m' else \<exists>p. backed r v p [] m0 m'"
  using assms
proof (induction n arbitrary: fs m)
  case 0
  then show ?case by auto
next
  case (Suc n)
  obtain m1 x where al: "m_allocate_frame m = (m1, x)" by fastforce
  show ?case
  proof (cases x)
    case None
    with al Suc.prems have "m' = unmap_free_pages m1 r v (length fs)" "\<not> ok" by auto
    moreover have "m1 = m" using m_allocate_frame_None [OF backedD(1) [OF Suc.prems(1)]] al None by simp
    moreover have "backed r v (length fs) (drop (length fs) fs) m0 (unmap_free_pages m r v (length fs))"
      using Suc.prems by (intro unmap_free_pages_backed) auto
    ultimately show ?thesis by auto
  next
    case (Some f)
    obtain m2 ok2 where mp: "map_page m1 r (page_at v (length fs)) f flags = (m2, ok2)" by fastforce
    show ?thesis
    proof (cases ok2)
      case True
      have "backed r v 0 (fs @ [f]) m0 m2"
        using Suc.prems al Some mp True by (intro backed_step [of r v fs m0 m]) auto
      from Suc.IH [OF this] Suc.prems al Some mp True show ?thesis by (auto split: if_splits)
    next
      case False
      with al Some mp Suc.prems have m': "m' = unmap_free_pages (m_free_frame m2 f) r v (length fs)" "\<not> ok" by auto
      have "backed r v 0 fs m0 (m_free_frame m2 f)"
        using Suc.prems al Some mp False by (intro backed_give_back [of r v fs m0 m]) auto
      then have "backed r v (length fs) (drop (length fs) fs) m0 m'"
        unfolding m'(1) using Suc.prems by (intro unmap_free_pages_backed) auto
      with m'(2) show ?thesis by auto
    qed
  qed
qed

lemma backed_translate:
  assumes b: "backed r v 0 fs m0 m"
  shows "i < length fs \<Longrightarrow> page_of w = page_of (page_at v i) \<Longrightarrow> translate m r w = Some (fs ! i OR (w AND 0xFFF))"
    and "(\<And>i. i < length fs \<Longrightarrow> page_of w \<noteq> page_of (page_at v i)) \<Longrightarrow> translate m r w = translate m0 r w"
proof -
  assume i: "i < length fs" "page_of w = page_of (page_at v i)"
  from backedD(11) [OF b i(1)] obtain e where "lookup_path m r (indices (page_at v i)) = Some (0, e)" "pte_address e = fs ! i"
    by auto
  moreover have "indices w = indices (page_at v i)" using i(2) by (simp add: indices_eq_iff)
  ultimately show "translate m r w = Some (fs ! i OR (w AND 0xFFF))"
    by (simp add: translate_lookup page_mask_def)
next
  assume "\<And>i. i < length fs \<Longrightarrow> page_of w \<noteq> page_of (page_at v i)"
  then have "lookup_path m r (indices w) = lookup_path m0 r (indices w)"
    by (intro backedD(12) [OF b]) (simp_all add: indices_eq_iff)
  then show "translate m r w = translate m0 r w" by (simp add: translate_lookup)
qed

text \<open>The machine part of a kernel state does not see the manager's own fields.\<close>

lemma kernel_upd [simp]:
  "mach_inv (k\<lparr>vmm := x\<rparr>) r \<longleftrightarrow> mach_inv k r" "translate (k\<lparr>vmm := x\<rparr>) r w = translate k r w"
  "mach_inv (k\<lparr>heap_top := t\<rparr>) r \<longleftrightarrow> mach_inv k r" "translate (k\<lparr>heap_top := t\<rparr>) r w = translate k r w"
  for k :: Kernel
  by (simp_all add: mach_inv_def translate_lookup)

lemma more_Kernel: "Machine.more k = Machine.more k' \<Longrightarrow> vmm k = vmm k' \<and> heap_top k = heap_top k'" for k k' :: Kernel
  by (cases k; cases k') simp

lemma page_count_size:
  assumes "0 < n" "n \<le> 0x20000"
  shows "unat (of_nat n * PAGE_SIZE) = n * 4096" "of_nat n * PAGE_SIZE \<noteq> (0 :: u64)"
proof -
  show u: "unat (of_nat n * PAGE_SIZE) = n * 4096"
    using assms by (simp add: unat_word_ariths PAGE_SIZE_def unat_of_nat_small)
  with assms(1) show "of_nat n * PAGE_SIZE \<noteq> (0 :: u64)" by (metis mult_is_0 neq0_conv unat_0 zero_neq_numeral)
qed

lemma alloc_and_map_SomeE:
  assumes "mach_inv k (kernel_pml4_phys k)" "vmm k = Some st" "vmm_wf st" "flags_ok flags" "n \<le> 0x20000"
    and "alloc_and_map k n flags kind = (k', Some v)"
  obtains fs st1 st' k2 where "0 < n" "length fs = n" "backed (kernel_pml4_phys k) v 0 fs (k\<lparr>vmm := Some st1\<rparr>) k2"
    "k' = k2\<lparr>vmm := Some st'\<rparr>" "vmm_wf st'" "{unat v..<unat v + n * 4096} \<subseteq> vspace st"
    "vspace st' = vspace st - {unat v..<unat v + n * 4096}" "unat VMM_REGION_START \<le> unat v"
    "unat v + n * 4096 \<le> unat (next_vaddr st')"
    "regions st' = regions st @ [\<lparr>vr_base = v, vr_size = of_nat n * PAGE_SIZE, vr_flags = flags, vr_kind = kind\<rparr>]"
proof -
  let ?r = "kernel_pml4_phys k" and ?sz = "of_nat n * PAGE_SIZE :: u64"
  have n: "0 < n" using assms(6) by (cases n) (auto simp: alloc_and_map_def)
  note sz = page_count_size [OF n assms(5)]
  obtain st1 v1 where va: "vrange_alloc st ?sz = (st1, v1)" by fastforce
  define k1 where "k1 = k\<lparr>vmm := Some st1\<rparr>"
  obtain k2 ok where mf: "map_fresh_pages k1 ?r (the v1) flags 0 n = (k2, ok)" by fastforce
  have v1: "v1 = Some v" and ok: "ok"
    and k': "k' = record_region k2 \<lparr>vr_base = v, vr_size = ?sz, vr_flags = flags, vr_kind = kind\<rparr>"
    using assms(2,6) n va mf unfolding alloc_and_map_def
    by (auto simp: alloc_virtual_range_def k1_def Let_def split: option.splits prod.splits bool.splits)
  have sz2: "unat ?sz \<le> 0x20000000" using sz(1) assms(5) by simp
  note vr = vrange_alloc_Some [OF assms(3) sz(2) sz2 va [unfolded v1]]
  have inv1: "mach_inv k1 ?r" using assms(1) by (simp add: k1_def)
  from map_fresh_pages_backed [OF backed_refl [OF inv1] _ inv1 assms(4), of n v k2 ok] mf v1 ok assms(5)
  obtain fs where fs: "length fs = n" and b: "backed ?r v 0 fs k1 k2" by auto
  have vk2: "vmm k2 = Some st1" using more_Kernel [OF backedD(8) [OF b]] by (simp add: k1_def)
  define st' where "st' = st1\<lparr>regions := regions st1 @ [\<lparr>vr_base = v, vr_size = ?sz, vr_flags = flags, vr_kind = kind\<rparr>],
      total_mapped := total_mapped st1 + ?sz\<rparr>"
  have "k' = k2\<lparr>vmm := Some st'\<rparr>" using k' vk2 by (simp add: record_region_def st'_def)
  moreover have "vmm_wf st'" "vspace st' = vspace st1" "next_vaddr st' = next_vaddr st1"
    "regions st' = regions st @ [\<lparr>vr_base = v, vr_size = ?sz, vr_flags = flags, vr_kind = kind\<rparr>]"
    using vr by (simp_all add: st'_def vmm_wf_def vspace_def)
  ultimately show thesis
    using that [OF n fs b [unfolded k1_def]] vr sz(1) by simp
qed

text \<open>
  C18: A successful \<^verbatim>\<open>alloc_and_map\<close> of \<open>n\<close> pages returns a range of the dynamic region that was handed
  out to nobody; each of its pages translates to a frame of its own, taken from the free list and now
  neither free nor a page table, and no other translation changes. The range leaves the free virtual space and is
  recorded as an active region.
\<close>

theorem alloc_and_map_success:
  assumes "mach_inv k (kernel_pml4_phys k)" "vmm k = Some st" "vmm_wf st" "flags_ok flags" "n \<le> 0x20000"
    and "alloc_and_map k n flags kind = (k', Some v)"
  shows "\<exists>fs st'. length fs = n \<and> distinct fs \<and> set fs \<subseteq> avail (frames k)
    \<and> set fs \<inter> owned k' (kernel_pml4_phys k) = {} \<and> mach_inv k' (kernel_pml4_phys k)
    \<and> (\<forall>i < n. \<forall>w. page_of w = page_of (page_at v i) \<longrightarrow>
          translate k' (kernel_pml4_phys k) w = Some (fs ! i OR (w AND 0xFFF)))
    \<and> (\<forall>w. (\<forall>i < n. page_of w \<noteq> page_of (page_at v i)) \<longrightarrow>
          translate k' (kernel_pml4_phys k) w = translate k (kernel_pml4_phys k) w)
    \<and> {unat v..<unat v + n * 4096} \<subseteq> vspace st \<and> vmm k' = Some st' \<and> vmm_wf st'
    \<and> vspace st' = vspace st - {unat v..<unat v + n * 4096}
    \<and> regions st' = regions st @ [\<lparr>vr_base = v, vr_size = of_nat n * PAGE_SIZE, vr_flags = flags, vr_kind = kind\<rparr>]"
proof -
  let ?r = "kernel_pml4_phys k"
  obtain fs st1 st' k2 where n: "0 < n" and fs: "length fs = n" and b: "backed ?r v 0 fs (k\<lparr>vmm := Some st1\<rparr>) k2"
    and k': "k' = k2\<lparr>vmm := Some st'\<rparr>" and st': "vmm_wf st'" "{unat v..<unat v + n * 4096} \<subseteq> vspace st"
      "vspace st' = vspace st - {unat v..<unat v + n * 4096}"
      "regions st' = regions st @ [\<lparr>vr_base = v, vr_size = of_nat n * PAGE_SIZE, vr_flags = flags, vr_kind = kind\<rparr>]"
    using alloc_and_map_SomeE [OF assms] by metis
  have t: "translate k' ?r w = Some (fs ! i OR (w AND 0xFFF))" if "i < n" "page_of w = page_of (page_at v i)" for i w
    using backed_translate(1) [OF b, of i w] that fs by (simp add: k')
  have o: "translate k' ?r w = translate k ?r w" if "\<forall>i < n. page_of w \<noteq> page_of (page_at v i)" for w
    using backed_translate(2) [OF b, of w] that fs by (simp add: k')
  have "distinct fs" "set fs \<subseteq> avail (frames k)" "set fs \<inter> owned k' ?r = {}" "mach_inv k' ?r"
    using backedD(1-4) [OF b] by (simp_all add: k')
  then show ?thesis
    using fs t o st' k' by (intro exI [of _ fs] exI [of _ st']) simp
qed

text \<open>
  C19: A failed \<^verbatim>\<open>alloc_and_map\<close>, whichever step failed, is rolled back completely: every translation is what it was,
  no frame is lost (each frame is free or a table exactly if it was free or a table), the
  free virtual space and the active regions are unchanged, and the invariants hold.
\<close>

theorem alloc_and_map_rollback:
  assumes "mach_inv k (kernel_pml4_phys k)" "vmm k = Some st" "vmm_wf st" "flags_ok flags" "n \<le> 0x20000"
    and "alloc_and_map k n flags kind = (k', None)"
  shows "(\<forall>w. translate k' (kernel_pml4_phys k) w = translate k (kernel_pml4_phys k) w)
    \<and> owned k' (kernel_pml4_phys k) = owned k (kernel_pml4_phys k) \<and> mach_inv k' (kernel_pml4_phys k)
    \<and> (\<exists>st'. vmm k' = Some st' \<and> vmm_wf st' \<and> vspace st' = vspace st \<and> regions st' = regions st
         \<and> total_mapped st' = total_mapped st)"
proof (cases "n = 0")
  case True
  with assms show ?thesis by (auto simp: alloc_and_map_def)
next
  case False
  let ?r = "kernel_pml4_phys k" and ?sz = "of_nat n * PAGE_SIZE :: u64"
  have n: "0 < n" using False by simp
  note sz = page_count_size [OF n assms(5)]
  have sz2: "unat ?sz \<le> 0x20000000" using sz(1) assms(5) by simp
  obtain st1 v1 where va: "vrange_alloc st ?sz = (st1, v1)" by fastforce
  show ?thesis
  proof (cases v1)
    case None
    with va vrange_alloc_None [OF assms(3) sz(2) sz2] have "st1 = st" by simp
    with assms n va None show ?thesis
      by (auto simp: alloc_and_map_def alloc_virtual_range_def)
  next
    case (Some v)
    define k1 where "k1 = k\<lparr>vmm := Some st1\<rparr>"
    obtain k2 ok where mf: "map_fresh_pages k1 ?r v flags 0 n = (k2, ok)" by fastforce
    have ok: "\<not> ok" and k': "k' = free_virtual_range k2 v ?sz"
      using assms(2,6) n va mf Some unfolding alloc_and_map_def
      by (auto simp: alloc_virtual_range_def k1_def Let_def split: option.splits prod.splits bool.splits)
    note vr = vrange_alloc_Some [OF assms(3) sz(2) sz2 va [unfolded Some]]
    have inv1: "mach_inv k1 ?r" using assms(1) by (simp add: k1_def)
    from map_fresh_pages_backed [OF backed_refl [OF inv1] _ inv1 assms(4), of n v k2 ok] mf ok assms(5)
    obtain p where b: "backed ?r v p [] k1 k2" by auto
    have vk2: "vmm k2 = Some st1" using more_Kernel [OF backedD(8) [OF b]] by (simp add: k1_def)
    have "{unat v..<unat v + unat ?sz} \<inter> vspace st1 = {}" using vr by blast
    note vf = vrange_free_ok [OF _ sz(2) _ _ this]
    have k'2: "k' = k2\<lparr>vmm := Some (vrange_free st1 v ?sz)\<rparr>" using k' vk2 by (simp add: free_virtual_range_def)
    have "vspace st1 \<union> {unat v..<unat v + unat ?sz} = vspace st" using vr by blast
    then show ?thesis
      using backed_nothing [OF b] backedD(1) [OF b] vf vr by (simp add: k'2 k1_def)
  qed
qed

text \<open>
  \<^verbatim>\<open>new_next = vaddr + size\<close> wraps in a release build: a request of 1.5 GiB passes the limit check of
  the 512 MiB region, and leaves the bump pointer at 0.
\<close>

lemma vrange_alloc_wraps:
  "vrange_alloc \<lparr>next_vaddr = VMM_REGION_START, regions = [], free_regions = [], total_mapped = 0\<rparr> 0x60000000
     = (\<lparr>next_vaddr = 0, regions = [], free_regions = [], total_mapped = 0\<rparr>, Some VMM_REGION_START)"
  by (simp add: vrange_alloc_def VMM_REGION_START_def VMM_REGION_END_def)

lemma more_vmm_upd: "Machine.more k = Machine.more k' \<Longrightarrow> Machine.more (k\<lparr>vmm := x\<rparr>) = Machine.more (k'\<lparr>vmm := x\<rparr>)"
  for k k' :: Kernel
  by (cases k; cases k') simp

lemma backed_vmm_upd:
  fixes k k0 :: Kernel
  assumes b: "backed r v p fs k0 k"
  shows "backed r v p fs (k0\<lparr>vmm := x\<rparr>) (k\<lparr>vmm := x\<rparr>)"
proof -
  have sel: "frames (k\<lparr>vmm := x\<rparr>) = frames k" "mem (k\<lparr>vmm := x\<rparr>) = mem k"
    "kernel_pml4_phys (k\<lparr>vmm := x\<rparr>) = kernel_pml4_phys k" for k :: Kernel
    by simp_all
  show ?thesis
    using b more_vmm_upd [OF backedD(8) [OF b], of x] unfolding backed_def kernel_upd sel by blast
qed

text \<open>
  \<^verbatim>\<open>unmap_and_free\<close> of a region that \<^verbatim>\<open>alloc_and_map\<close> has just made restores every translation, returns every
  frame, restores the free virtual space and drops the region from the active ones.
\<close>

theorem alloc_unmap_roundtrip:
  assumes "mach_inv k (kernel_pml4_phys k)" "vmm k = Some st" "vmm_wf st" "flags_ok flags" "n \<le> 0x20000"
    and "alloc_and_map k n flags kind = (k', Some v)"
  shows "(\<forall>w. translate (unmap_and_free k' v n) (kernel_pml4_phys k) w = translate k (kernel_pml4_phys k) w)
    \<and> owned (unmap_and_free k' v n) (kernel_pml4_phys k) = owned k (kernel_pml4_phys k)
    \<and> mach_inv (unmap_and_free k' v n) (kernel_pml4_phys k)
    \<and> (\<exists>st'. vmm (unmap_and_free k' v n) = Some st' \<and> vmm_wf st' \<and> vspace st' = vspace st
         \<and> regions st' = filter (\<lambda>r. vr_base r \<noteq> v) (regions st))"
proof -
  let ?r = "kernel_pml4_phys k" and ?sz = "of_nat n * PAGE_SIZE :: u64"
  obtain fs st1 st' k2 where n: "0 < n" and fs: "length fs = n" and b0: "backed ?r v 0 fs (k\<lparr>vmm := Some st1\<rparr>) k2"
    and k': "k' = k2\<lparr>vmm := Some st'\<rparr>" and st': "vmm_wf st'" "{unat v..<unat v + n * 4096} \<subseteq> vspace st"
      "vspace st' = vspace st - {unat v..<unat v + n * 4096}" "unat VMM_REGION_START \<le> unat v"
      "unat v + n * 4096 \<le> unat (next_vaddr st')"
      "regions st' = regions st @ [\<lparr>vr_base = v, vr_size = ?sz, vr_flags = flags, vr_kind = kind\<rparr>]"
    using alloc_and_map_SomeE [OF assms] by metis
  note sz = page_count_size [OF n assms(5)]
  have b: "backed ?r v 0 fs (k\<lparr>vmm := Some st'\<rparr>) k'"
    using backed_vmm_upd [OF b0, of "Some st'"] k' by simp
  have inv0: "mach_inv (k\<lparr>vmm := Some st'\<rparr>) ?r" using assms(1) by simp
  define k3 where "k3 = unmap_free_pages k' ?r v n"
  have b3: "backed ?r v n [] (k\<lparr>vmm := Some st'\<rparr>) k3"
    using unmap_free_pages_backed [OF b _ inv0, of n] fs assms(5) by (simp add: k3_def)
  have vk3: "vmm k3 = Some st'" using more_Kernel [OF backedD(8) [OF b3]] by simp
  define st2 where "st2 = st'\<lparr>regions := filter (\<lambda>r. vr_base r \<noteq> v) (regions st'),
      total_mapped := (if ?sz \<le> total_mapped st' then total_mapped st' - ?sz else 0)\<rparr>"
  have "unmap_and_free k' v n = k3\<lparr>vmm := Some (vrange_free st2 v ?sz)\<rparr>"
    using vk3 backedD(7) [OF b] by (simp add: unmap_and_free_def Let_def k3_def [symmetric] untrack_def
        free_virtual_range_def st2_def)
  moreover have st2: "vmm_wf st2" "vspace st2 = vspace st'" "next_vaddr st2 = next_vaddr st'"
    "regions st2 = filter (\<lambda>r. vr_base r \<noteq> v) (regions st)"
    using st' by (simp_all add: st2_def vmm_wf_def vspace_def)
  moreover have "vmm_wf (vrange_free st2 v ?sz) \<and> vspace (vrange_free st2 v ?sz) = vspace st2 \<union> {unat v..<unat v + unat ?sz}
    \<and> regions (vrange_free st2 v ?sz) = regions st2"
    using vrange_free_ok [OF st2(1) sz(2), of v] st' st2 sz(1) by auto
  moreover have "vspace st2 \<union> {unat v..<unat v + unat ?sz} = vspace st"
    using st2(2) st'(2,3) sz(1) by auto
  ultimately show ?thesis
    using backed_nothing [OF b3] backedD(1) [OF b3] by simp
qed

subsection \<open>Witness states\<close>

definition vmm_example :: VmmState where
  "vmm_example = \<lparr>next_vaddr = VMM_REGION_START, regions = [], free_regions = [], total_mapped = 0\<rparr>"

definition kern_example :: Kernel where
  "kern_example = \<lparr>frames = frames mach_example, mem = (\<lambda>_. 0), kernel_pml4_phys = 0x8000, invlpg_log = [],
     vmm = Some vmm_example, heap_top = HEAP_REGION_START\<rparr>"

lemma kern_example_sel [simp]:
  "frames kern_example = frames mach_example" "mem kern_example = (\<lambda>_. 0)" "kernel_pml4_phys kern_example = 0x8000"
  "vmm kern_example = Some vmm_example" "heap_top kern_example = HEAP_REGION_START"
  by (simp_all add: kern_example_def)

lemma kern_example_inv: "mach_inv kern_example (kernel_pml4_phys kern_example)" "vmm_wf vmm_example"
  using mach_inv_example mem_mach_example
  by (simp_all add: mach_inv_def vmm_wf_def vmm_example_def region_consts)

lemma card_avail_example: "card (avail (frames mach_example)) = 16"
proof -
  have "card (avail (frames mach_example)) = card (free_set (frames mach_example))"
    unfolding avail_def by (rule card_image) (rule inj_on_subset [OF inj_frame_addr free_set_subset])
  then show ?thesis by (simp add: free_set_mach_example)
qed

lemma alloc_one_example:
  obtains k' where "alloc_and_map kern_example 1 WRITABLE KernelAlloc = (k', Some VMM_REGION_START)"
proof -
  define st1 where "st1 = vmm_example\<lparr>next_vaddr := VMM_REGION_START + 0x1000\<rparr>"
  have va: "vrange_alloc vmm_example 0x1000 = (st1, Some VMM_REGION_START)"
    by (simp add: vrange_alloc_def vmm_example_def st1_def VMM_REGION_START_def VMM_REGION_END_def)
  define k1 where "k1 = kern_example\<lparr>vmm := Some st1\<rparr>"
  have inv1: "mach_inv k1 0x8000" using kern_example_inv(1) by (simp add: k1_def)
  obtain k2 x where al: "m_allocate_frame k1 = (k2, x)" by fastforce
  have "x \<noteq> None"
    using m_allocate_frame_None(2) [OF inv1, of k2] al avail_mach_example(1) by (auto simp: k1_def)
  then obtain f where x: "x = Some f" by auto
  note a = m_allocate_frame_Some [OF inv1 al [unfolded x]]
  obtain k3 ok where mp: "map_page k2 0x8000 VMM_REGION_START f WRITABLE = (k3, ok)" by fastforce
  have "ok"
  proof (rule ccontr)
    assume "\<not> ok"
    with mp map_page_grows(3) [OF a(1), of VMM_REGION_START f WRITABLE k3]
    have "card (avail (frames k2)) \<le> 3 \<or> lookup_path k2 0x8000 (indices VMM_REGION_START) \<noteq> None" by simp
    moreover have "card (avail (frames k2)) = 15"
      using a(2,4) card_avail_example by (simp add: k1_def)
    ultimately show False using a(5) by (simp add: k1_def empty_tables)
  qed
  with va al x mp that show thesis
    by (simp add: alloc_and_map_def alloc_virtual_range_def Let_def k1_def PAGE_SIZE_def)
qed

theorem alloc_and_map_success_witness:
  "\<exists>k' fs. alloc_and_map kern_example 1 WRITABLE KernelAlloc = (k', Some VMM_REGION_START)
     \<and> length fs = 1 \<and> translate k' 0x8000 VMM_REGION_START = Some (hd fs) \<and> set fs \<subseteq> avail (frames kern_example)"
proof -
  obtain k' where e: "alloc_and_map kern_example 1 WRITABLE KernelAlloc = (k', Some VMM_REGION_START)"
    by (rule alloc_one_example)
  from alloc_and_map_success [OF kern_example_inv(1) _ kern_example_inv(2) WRITABLE_ok _ e]
  obtain fs where "length fs = 1" "set fs \<subseteq> avail (frames kern_example)"
    "translate k' 0x8000 VMM_REGION_START = Some (fs ! 0 OR (VMM_REGION_START AND 0xFFF))" by fastforce
  moreover have "VMM_REGION_START AND 0xFFF = 0" by (simp add: VMM_REGION_START_def)
  ultimately show ?thesis using e by (intro exI [of _ k'] exI [of _ fs]) (cases fs, auto)
qed

theorem alloc_and_map_rollback_witness:
  "\<exists>k'. alloc_and_map kern_example 17 WRITABLE KernelAlloc = (k', None) \<and> translate k' 0x8000 VMM_REGION_START = None"
proof -
  obtain k' x where e: "alloc_and_map kern_example 17 WRITABLE KernelAlloc = (k', x)" by fastforce
  have "x = None"
  proof (rule ccontr)
    assume "x \<noteq> None"
    then obtain v where x: "x = Some v" by auto
    obtain fs :: "u64 list" where "length fs = 17" "distinct fs" "set fs \<subseteq> avail (frames kern_example)"
      using alloc_and_map_success [OF kern_example_inv(1) _ kern_example_inv(2) WRITABLE_ok _ e [unfolded x]] by auto
    then have "17 \<le> card (avail (frames mach_example))"
      using card_mono [of "avail (frames mach_example)" "set fs"] distinct_card [of fs]
      by (simp add: avail_def)
    then show False by (simp add: card_avail_example)
  qed
  with e alloc_and_map_rollback [OF kern_example_inv(1) _ kern_example_inv(2) WRITABLE_ok, of 17 KernelAlloc k']
  show ?thesis by (simp add: translate_lookup empty_tables)
qed

theorem alloc_unmap_roundtrip_witness:
  "\<exists>k'. alloc_and_map kern_example 1 WRITABLE KernelAlloc = (k', Some VMM_REGION_START)
     \<and> translate (unmap_and_free k' VMM_REGION_START 1) 0x8000 VMM_REGION_START = None"
proof -
  obtain k' where e: "alloc_and_map kern_example 1 WRITABLE KernelAlloc = (k', Some VMM_REGION_START)"
    by (rule alloc_one_example)
  from alloc_unmap_roundtrip [OF kern_example_inv(1) _ kern_example_inv(2) WRITABLE_ok _ e] e show ?thesis
    by (auto simp: translate_lookup empty_tables)
qed


subsection \<open>Growing the heap\<close>

text \<open>
  The three ends of the loop: all pages backed, everything rolled back, or, when the frames run out,
  the pages so far left mapped.
\<close>

lemma extend_pages_backed:
  assumes "backed r v 0 fs m0 m" "length fs + n \<le> 2 ^ 36" "mach_inv m0 r" "flags_ok flags"
    and "extend_pages m r v flags (length fs) n = (m', ok)"
  shows "if ok then \<exists>gs. length gs = length fs + n \<and> backed r v 0 gs m0 m'
    else (\<exists>p. backed r v p [] m0 m') \<or> (\<exists>gs. length fs \<le> length gs \<and> length gs < length fs + n \<and> backed r v 0 gs m0 m' \<and> avail (frames m') = {})"
  using assms
proof (induction n arbitrary: fs m)
  case 0
  then show ?case by auto
next
  case (Suc n)
  obtain m1 x where al: "m_allocate_frame m = (m1, x)" by fastforce
  show ?case
  proof (cases x)
    case None
    with al Suc.prems have "m' = m1" "\<not> ok" by auto
    with m_allocate_frame_None [OF backedD(1) [OF Suc.prems(1)], of m1] al None Suc.prems(1) show ?thesis by auto
  next
    case (Some f)
    obtain m2 ok2 where mp: "map_page m1 r (page_at v (length fs)) f flags = (m2, ok2)" by fastforce
    show ?thesis
    proof (cases ok2)
      case True
      have "backed r v 0 (fs @ [f]) m0 m2"
        using Suc.prems al Some mp True by (intro backed_step [of r v fs m0 m]) auto
      from Suc.IH [OF this] Suc.prems al Some mp True show ?thesis
        by (auto split: if_splits)
    next
      case False
      with al Some mp Suc.prems have m': "m' = unmap_free_pages (m_free_frame m2 f) r v (length fs)" "\<not> ok" by auto
      have "backed r v 0 fs m0 (m_free_frame m2 f)"
        using Suc.prems al Some mp False by (intro backed_give_back [of r v fs m0 m]) auto
      then have "backed r v (length fs) (drop (length fs) fs) m0 m'"
        unfolding m'(1) using Suc.prems by (intro unmap_free_pages_backed) auto
      with m'(2) show ?thesis by auto
    qed
  qed
qed

lemma heap_flags_ok: "flags_ok (WRITABLE OR NO_EXECUTE)"
  by (simp add: flags_ok_def WRITABLE_def NO_EXECUTE_def)

definition page_count_of :: "u64 \<Rightarrow> nat" where
  "page_count_of min_bytes = unat ((min_bytes + PAGE_SIZE - 1) div PAGE_SIZE)"

lemma page_count_of_bound: "page_count_of b \<le> 2 ^ 52"
  using unat_lt2p [of "b + PAGE_SIZE - 1"] by (simp add: page_count_of_def PAGE_SIZE_def unat_div)

lemma extend_heap_SomeE:
  assumes "mach_inv k (kernel_pml4_phys k)" "unat (heap_top k) \<le> unat HEAP_REGION_START + unat HEAP_REGION_MAX"
    and "page_count_of b \<le> 0x10000" "extend_heap k b = (k', Some (v, sz))"
  obtains fs k2 st where "length fs = page_count_of b" "backed (kernel_pml4_phys k) v 0 fs k k2"
    "k' = k2\<lparr>heap_top := v + sz, vmm := st\<rparr>" "v = heap_top k" "unat sz = page_count_of b * 4096"
    "unat v + unat sz \<le> unat HEAP_REGION_START + unat HEAP_REGION_MAX"
proof -
  let ?r = "kernel_pml4_phys k" and ?n = "page_count_of b"
  let ?sz = "of_nat ?n * PAGE_SIZE :: u64"
  obtain k2 ok where ep: "extend_pages k ?r (heap_top k) (WRITABLE OR NO_EXECUTE) 0 ?n = (k2, ok)" by fastforce
  have u: "unat ?sz = ?n * 4096"
    using assms(3) by (simp add: unat_word_ariths PAGE_SIZE_def unat_of_nat_small)
  have r: "\<not> heap_top k + ?sz > HEAP_REGION_START + HEAP_REGION_MAX" "ok" "v = heap_top k" "sz = ?sz"
    "k' = record_region (k2\<lparr>heap_top := heap_top k + ?sz\<rparr>)
       \<lparr>vr_base = v, vr_size = ?sz, vr_flags = WRITABLE OR NO_EXECUTE, vr_kind = HeapGrowth\<rparr>"
    using assms(4) ep unfolding extend_heap_def page_count_of_def [symmetric] Let_def
    by (auto split: if_splits prod.splits bool.splits)
  have "\<exists>st. k' = k2\<lparr>heap_top := v + sz, vmm := st\<rparr>"
  proof (cases "vmm k2")
    case None
    have "k2\<lparr>heap_top := v + sz\<rparr> = k2\<lparr>heap_top := v + sz, vmm := vmm k2\<rparr>" by (cases k2) simp
    moreover have "k' = k2\<lparr>heap_top := v + sz\<rparr>" using None r(3-5) by (simp add: record_region_def)
    ultimately show ?thesis by metis
  next
    case (Some st)
    then show ?thesis unfolding r(5) using r(3,4) by (auto simp: record_region_def)
  qed
  then obtain st where k': "k' = k2\<lparr>heap_top := v + sz, vmm := st\<rparr>" ..
  from extend_pages_backed [OF backed_refl [OF assms(1)] _ assms(1) heap_flags_ok, of ?n "heap_top k" k2 ok] ep r(2) assms(3)
  obtain fs where fs: "length fs = ?n" and bk: "backed ?r v 0 fs k k2" by (auto simp: r(3))
  have "unat (heap_top k + ?sz) = unat (heap_top k) + unat ?sz"
    using assms(2,3) u by (intro unat_add_no_overflow) (simp add: HEAP_REGION_START_def HEAP_REGION_MAX_def)
  with r(1) have lim: "unat v + unat sz \<le> unat HEAP_REGION_START + unat HEAP_REGION_MAX"
    by (simp add: r(3,4) word_less_nat_alt not_less HEAP_REGION_START_def HEAP_REGION_MAX_def)
  show thesis using that [OF fs bk k' r(3)] u r(4) lim by simp
qed

text \<open>
  A successful \<^verbatim>\<open>extend_heap\<close> returns the old heap top and a size of whole pages that holds the request, stays
  within the 256 MiB heap region, backs each page of the extension with a frame of its own
  from the free list, changes no other translation, and moves the heap top by exactly that size.
\<close>

theorem extend_heap_success:
  assumes "mach_inv k (kernel_pml4_phys k)" "unat (heap_top k) \<le> unat HEAP_REGION_START + unat HEAP_REGION_MAX"
    and "page_count_of b \<le> 0x10000" "extend_heap k b = (k', Some (v, sz))"
  shows "v = heap_top k \<and> unat sz = page_count_of b * 4096 \<and> heap_top k' = v + sz
    \<and> unat v + unat sz \<le> unat HEAP_REGION_START + unat HEAP_REGION_MAX
    \<and> mach_inv k' (kernel_pml4_phys k)
    \<and> (\<exists>fs. length fs = page_count_of b \<and> distinct fs \<and> set fs \<subseteq> avail (frames k)
         \<and> set fs \<inter> owned k' (kernel_pml4_phys k) = {}
         \<and> (\<forall>i < page_count_of b. \<forall>w. page_of w = page_of (page_at v i) \<longrightarrow>
              translate k' (kernel_pml4_phys k) w = Some (fs ! i OR (w AND 0xFFF))))
    \<and> (\<forall>w. (\<forall>i < page_count_of b. page_of w \<noteq> page_of (page_at v i)) \<longrightarrow>
          translate k' (kernel_pml4_phys k) w = translate k (kernel_pml4_phys k) w)"
proof -
  let ?r = "kernel_pml4_phys k" and ?n = "page_count_of b"
  obtain fs k2 st where fs: "length fs = ?n" and bk: "backed ?r v 0 fs k k2"
    and k': "k' = k2\<lparr>heap_top := v + sz, vmm := st\<rparr>" and r: "v = heap_top k" "unat sz = ?n * 4096"
      "unat v + unat sz \<le> unat HEAP_REGION_START + unat HEAP_REGION_MAX"
    using extend_heap_SomeE [OF assms] by metis
  have t: "translate k' ?r w = Some (fs ! i OR (w AND 0xFFF))" if "i < ?n" "page_of w = page_of (page_at v i)" for i w
    using backed_translate(1) [OF bk, of i w] that fs by (simp add: k')
  have o: "translate k' ?r w = translate k ?r w" if "\<forall>i < ?n. page_of w \<noteq> page_of (page_at v i)" for w
    using backed_translate(2) [OF bk, of w] that fs by (simp add: k')
  have "distinct fs" "set fs \<subseteq> avail (frames k)" "set fs \<inter> owned k' ?r = {}" "mach_inv k' ?r"
    using backedD(1-4) [OF bk] by (simp_all add: k')
  then show ?thesis
    using fs t o r k' by (intro conjI exI [of _ fs]) simp_all
qed

lemma kern_page_count: "page_count_of 0x1000 = 1"
  by (simp add: page_count_of_def PAGE_SIZE_def unat_div)

theorem extend_heap_success_witness:
  "\<exists>k' sz. extend_heap kern_example 0x1000 = (k', Some (HEAP_REGION_START, sz)) \<and> unat sz = 4096
     \<and> heap_top k' = HEAP_REGION_START + sz"
proof -
  have inv: "mach_inv kern_example 0x8000" using kern_example_inv(1) by simp
  obtain k2 x where al: "m_allocate_frame kern_example = (k2, x)" by fastforce
  have "x \<noteq> None" using m_allocate_frame_None(2) [OF inv, of k2] al avail_mach_example(1) by auto
  then obtain f where x: "x = Some f" by auto
  note a = m_allocate_frame_Some [OF inv al [unfolded x]]
  obtain k3 ok where mp: "map_page k2 0x8000 HEAP_REGION_START f (WRITABLE OR NO_EXECUTE) = (k3, ok)" by fastforce
  have "ok"
  proof (rule ccontr)
    assume "\<not> ok"
    with mp map_page_grows(3) [OF a(1), of HEAP_REGION_START f "WRITABLE OR NO_EXECUTE" k3]
    have "card (avail (frames k2)) \<le> 3 \<or> lookup_path k2 0x8000 (indices HEAP_REGION_START) \<noteq> None" by simp
    moreover have "card (avail (frames k2)) = 15" using a(2,4) card_avail_example by simp
    ultimately show False using a(5) by (simp add: empty_tables)
  qed
  then have "extend_pages kern_example 0x8000 HEAP_REGION_START (WRITABLE OR NO_EXECUTE) 0 1 = (k3, True)"
    using al x mp by simp
  then obtain k' sz where e: "extend_heap kern_example 0x1000 = (k', Some (HEAP_REGION_START, sz))"
    unfolding extend_heap_def page_count_of_def [symmetric] kern_page_count
    by (simp add: PAGE_SIZE_def HEAP_REGION_START_def HEAP_REGION_MAX_def)
  from extend_heap_success [OF kern_example_inv(1) _ _ e] e show ?thesis by (simp add: kern_page_count)
qed

text \<open>
  When \<^verbatim>\<open>extend_heap\<close> fails, the heap top stays; either everything is as before, or the frames ran out in the
  middle and the first pages of the extension stay mapped to frames nobody owns: the \<^verbatim>\<open>?\<close> on
  \<^verbatim>\<open>allocate_frame\<close> skips the roll-back that the other failure path runs.
\<close>

theorem extend_heap_failure:
  assumes "mach_inv k (kernel_pml4_phys k)" "page_count_of b \<le> 0x10000" "extend_heap k b = (k', None)"
  shows "heap_top k' = heap_top k \<and> mach_inv k' (kernel_pml4_phys k) \<and>
    ((\<forall>w. translate k' (kernel_pml4_phys k) w = translate k (kernel_pml4_phys k) w)
        \<and> owned k' (kernel_pml4_phys k) = owned k (kernel_pml4_phys k)
     \<or> avail (frames k') = {} \<and> (\<exists>fs. fs \<noteq> [] \<and> length fs < page_count_of b \<and> set fs \<subseteq> avail (frames k)
          \<and> set fs \<inter> owned k' (kernel_pml4_phys k) = {}
          \<and> (\<forall>i < length fs. translate k' (kernel_pml4_phys k) (page_at (heap_top k) i) \<noteq> None)))"
proof -
  let ?r = "kernel_pml4_phys k" and ?n = "page_count_of b"
  obtain k2 ok where ep: "extend_pages k ?r (heap_top k) (WRITABLE OR NO_EXECUTE) 0 ?n = (k2, ok)" by fastforce
  have cs: "k' = k \<or> k' = k2 \<and> \<not> ok"
    using assms(3) ep unfolding extend_heap_def page_count_of_def [symmetric] Let_def
    by (auto split: if_splits prod.splits bool.splits)
  show ?thesis
  proof (cases "k' = k")
    case True
    with assms(1) show ?thesis by simp
  next
    case False
    with cs have k': "k' = k2" "\<not> ok" by auto
    from extend_pages_backed [OF backed_refl [OF assms(1)] _ assms(1) heap_flags_ok, of ?n "heap_top k" k2 ok] ep k'(2) assms(2)
    consider p where "backed ?r (heap_top k) p [] k k'" | gs where "length gs < ?n" "backed ?r (heap_top k) 0 gs k k'" "avail (frames k') = {}"
      by (auto simp: k')
    then show ?thesis
    proof cases
      case 1
      then show ?thesis
        using backed_nothing [OF 1] more_Kernel [OF backedD(8) [OF 1]] backedD(1) [OF 1] by simp
    next
      case (2 gs)
      have "translate k' ?r (page_at (heap_top k) i) \<noteq> None" if "i < length gs" for i
        using backed_translate(1) [OF 2(2) that refl] by simp
      moreover have "gs \<noteq> [] \<or> (\<forall>w. translate k' ?r w = translate k ?r w) \<and> owned k' ?r = owned k ?r"
        using backed_nothing [of ?r "heap_top k" 0 k k'] 2(2) by (cases "gs = []") simp_all
      ultimately show ?thesis
        using 2 more_Kernel [OF backedD(8) [OF 2(2)]] backedD(1,3,4) [OF 2(2)] by auto
    qed
  qed
qed

lemma kern_example_seventeen: "page_count_of 0x11000 = 17"
  by (simp add: page_count_of_def PAGE_SIZE_def unat_div)

theorem extend_heap_failure_witness:
  "\<exists>k'. extend_heap kern_example 0x11000 = (k', None) \<and> heap_top k' = HEAP_REGION_START"
proof -
  obtain k' x where e: "extend_heap kern_example 0x11000 = (k', x)" by fastforce
  have "x = None"
  proof (rule ccontr)
    assume "x \<noteq> None"
    then obtain v sz where x: "x = Some (v, sz)" by auto
    have "unat (heap_top kern_example) \<le> unat HEAP_REGION_START + unat HEAP_REGION_MAX" by simp
    moreover have "page_count_of 0x11000 \<le> 0x10000" by (simp add: kern_example_seventeen)
    ultimately obtain fs k2 where "length fs = page_count_of 0x11000" "backed (kernel_pml4_phys kern_example) v 0 fs kern_example k2"
      using extend_heap_SomeE [OF kern_example_inv(1) _ _ e [unfolded x]] by metis
    then have "length fs = 17" "distinct fs" "set fs \<subseteq> avail (frames mach_example)"
      using backedD(2,3) by (fastforce simp: kern_example_seventeen)+
    then have "17 \<le> card (avail (frames mach_example))"
      using card_mono [of "avail (frames mach_example)" "set fs"] distinct_card [of fs] by (simp add: avail_def)
    then show False by (simp add: card_avail_example)
  qed
  with e extend_heap_failure [OF kern_example_inv(1), of "0x11000" k'] show ?thesis
    by (simp add: kern_example_seventeen)
qed

text \<open>
  Once the page at the heap top is mapped, every further \<^verbatim>\<open>extend_heap\<close> fails, whatever memory is
  free, and leaves the page mapped: after such a partial failure the heap can not grow again.
\<close>

theorem extend_heap_stuck:
  assumes "mach_inv k (kernel_pml4_phys k)" "virt_to_phys k (heap_top k) \<noteq> None" "0 < page_count_of b"
    and "extend_heap k b = (k', x)"
  shows "x = None \<and> heap_top k' = heap_top k \<and> virt_to_phys k' (heap_top k') \<noteq> None"
proof -
  let ?r = "kernel_pml4_phys k"
  have lk: "lookup_path k ?r (indices (heap_top k)) \<noteq> None"
    using assms(2) by (auto simp: virt_to_phys_def translate_lookup)
  obtain n where n: "page_count_of b = Suc n" using assms(3) by (cases "page_count_of b") auto
  obtain k2 ok where ep: "extend_pages k ?r (heap_top k) (WRITABLE OR NO_EXECUTE) 0 (Suc n) = (k2, ok)" by fastforce
  have g: "\<not> ok \<and> heap_top k2 = heap_top k \<and> kernel_pml4_phys k2 = ?r
      \<and> lookup_path k2 ?r (indices (heap_top k)) = lookup_path k ?r (indices (heap_top k))"
  proof -
    obtain m1 y where al: "m_allocate_frame k = (m1, y)" by fastforce
    show ?thesis
    proof (cases y)
      case None
      with al ep m_allocate_frame_None(1) [OF assms(1), of m1] show ?thesis by auto
    next
      case (Some f)
      note a = m_allocate_frame_Some [OF assms(1) al [unfolded Some]]
      obtain m2 ok2 where mp: "map_page m1 ?r (heap_top k) f (WRITABLE OR NO_EXECUTE) = (m2, ok2)" by fastforce
      have nok: "\<not> ok2"
      proof
        assume ok2
        with mp map_page_remaps(2) [OF a(1), of "heap_top k" f "WRITABLE OR NO_EXECUTE" m2] a(5) lk show False by simp
      qed
      have k2: "k2 = m_free_frame m2 f" "\<not> ok"
        using ep al Some mp nok by (auto simp: unmap_free_pages_def)
      have gr: "grows ?r m1 m2" using map_page_grows(1) [OF a(1)] mp nok by simp
      have "heap_top m2 = heap_top k" using more_Kernel [of m2 k] gr a(8) by (simp add: grows_def)
      with k2 gr a(5,7) show ?thesis by (simp add: m_free_frame_def grows_def)
    qed
  qed
  have "k' = k \<and> x = None \<or> k' = k2 \<and> x = None"
    using assms(4) ep g n unfolding extend_heap_def page_count_of_def [symmetric] Let_def
    by (auto split: if_splits prod.splits bool.splits)
  with g lk assms(2) show ?thesis by (auto simp: virt_to_phys_def translate_lookup)
qed

theorem extend_heap_stuck_witness:
  "\<exists>k k'. map_page kern_example 0x8000 HEAP_REGION_START 0x7000 WRITABLE = (k, True)
     \<and> extend_heap k 0x1000 = (k', None) \<and> heap_top k' = HEAP_REGION_START"
proof -
  have inv: "mach_inv kern_example 0x8000" using kern_example_inv(1) by simp
  obtain k ok where mp: "map_page kern_example 0x8000 HEAP_REGION_START 0x7000 WRITABLE = (k, ok)" by fastforce
  have "ok"
  proof (rule ccontr)
    assume "\<not> ok"
    with mp map_page_grows(3) [OF inv, of HEAP_REGION_START "0x7000" WRITABLE k] show False
      by (simp add: card_avail_example empty_tables)
  qed
  with mp have mp: "map_page kern_example 0x8000 HEAP_REGION_START 0x7000 WRITABLE = (k, True)" by simp
  note rm = map_page_remaps [OF inv mp]
  have k: "mach_inv k (kernel_pml4_phys k)" "heap_top k = HEAP_REGION_START" "kernel_pml4_phys k = 0x8000"
    using rm(1) more_Kernel [of k kern_example] by (simp_all add: remaps_def)
  have "virt_to_phys k (heap_top k) \<noteq> None"
    using rm(1) k by (simp add: virt_to_phys_def translate_lookup remaps_def)
  moreover obtain k' x where "extend_heap k 0x1000 = (k', x)" by fastforce
  ultimately show ?thesis
    using extend_heap_stuck [OF k(1), of "0x1000" k' x] mp k by (auto simp: kern_page_count)
qed

end
