(* ===== verification/Heap.thy ===== *)
theory Heap
  imports Frame_Allocator "HOL-Library.Multiset"
begin

unbundle bit_operations_syntax

text \<open>
  The kernel heap, \<^verbatim>\<open>kernel/src/memory/heap.rs\<close>: a first-fit allocator over a linked list of
  free blocks whose nodes live in the free memory itself. \<^verbatim>\<open>blk\<close> is the \<^verbatim>\<open>FreeBlock\<close>
  a raw pointer reaches at an address and \<^verbatim>\<open>header\<close> the \<^verbatim>\<open>usize\<close> stored in front of an
  allocation; the list is followed through \<^verbatim>\<open>fb_next\<close> pointers, so a loop over it returns
  \<^const>\<open>None\<close> should the pointers run in a cycle.

  Addresses and sizes are naturals: heap memory is identity mapped below 4 GiB and a Rust
  \<^verbatim>\<open>Layout\<close> has \<^verbatim>\<open>size + align <= 2^63\<close>, so no sum of the code leaves 64 bits. The
  masks of the alignment computations are the code's, on 64-bit words.
\<close>


subsection \<open>State\<close>

record FreeBlock =
  fb_size :: nat
  fb_next :: "nat option"

record Heap =
  free_list :: "nat option"
  total_size :: nat
  allocated_bytes :: nat
  blk :: "nat \<Rightarrow> FreeBlock"
  header :: "nat \<Rightarrow> nat"

definition HEAP_SIZE :: nat where
  "HEAP_SIZE = 1024 * 1024"

definition GROW_INCREMENT :: nat where
  "GROW_INCREMENT = 256 * 1024"

definition GROW_MIN_PAGES :: nat where
  "GROW_MIN_PAGES = 64"

definition MIN_SIZE :: nat where
  "MIN_SIZE = 24"

definition heap_empty :: "(nat \<Rightarrow> FreeBlock) \<Rightarrow> (nat \<Rightarrow> nat) \<Rightarrow> Heap" where
  "heap_empty b hds = \<lparr>free_list = None, total_size = 0, allocated_bytes = 0, blk = b, header = hds\<rparr>"

definition init_heap :: "Heap \<Rightarrow> nat \<Rightarrow> nat \<Rightarrow> Heap" where
  "init_heap h start sz =
     h\<lparr>blk := (blk h)(start := \<lparr>fb_size = sz, fb_next = None\<rparr>),
       free_list := Some start, total_size := sz, allocated_bytes := 0\<rparr>"

text \<open>Writes through a raw pointer.\<close>

definition set_next :: "nat \<Rightarrow> nat option \<Rightarrow> Heap \<Rightarrow> Heap" where
  "set_next p q h = h\<lparr>blk := (blk h)(p := (blk h p)\<lparr>fb_next := q\<rparr>)\<rparr>"

definition set_size :: "nat \<Rightarrow> nat \<Rightarrow> Heap \<Rightarrow> Heap" where
  "set_size p s h = h\<lparr>blk := (blk h)(p := (blk h p)\<lparr>fb_size := s\<rparr>)\<rparr>"

text \<open>\<^verbatim>\<open>prev.next = q\<close> when there is a predecessor, the list head otherwise.\<close>

definition link :: "nat option \<Rightarrow> nat option \<Rightarrow> Heap \<Rightarrow> Heap" where
  "link prev q h = (case prev of Some p \<Rightarrow> set_next p q h | None \<Rightarrow> h\<lparr>free_list := q\<rparr>)"

text \<open>\<^verbatim>\<open>(x + a - 1) & !(a - 1)\<close>\<close>

definition align_up :: "nat \<Rightarrow> nat \<Rightarrow> nat" where
  "align_up x a = unat ((of_nat (x + a - 1) :: u64) AND NOT (of_nat (a - 1)))"


subsection \<open>Allocation\<close>

definition aligned_start :: "nat \<Rightarrow> nat \<Rightarrow> nat" where
  "aligned_start block_addr align = align_up (block_addr + 8) align"

definition total_needed :: "nat \<Rightarrow> nat \<Rightarrow> nat \<Rightarrow> nat" where
  "total_needed block_addr align sz = align_up (aligned_start block_addr align - block_addr + sz) 8"

definition take_block :: "nat option \<Rightarrow> nat \<Rightarrow> nat \<Rightarrow> nat \<Rightarrow> Heap \<Rightarrow> Heap \<times> nat" where
  "take_block prev block_addr align sz h =
     (let block_size = fb_size (blk h block_addr);
          data = aligned_start block_addr align;
          needed = total_needed block_addr align sz;
          h1 = link prev (fb_next (blk h block_addr)) h;
          remaining = block_size - needed;
          h2 = (if remaining > MIN_SIZE * 2
                then let new_block = block_addr + needed
                     in h1\<lparr>blk := (blk h1)(new_block := \<lparr>fb_size = remaining, fb_next = free_list h1\<rparr>),
                           free_list := Some new_block,
                           header := (header h1)(data - 8 := needed)\<rparr>
                else h1\<lparr>header := (header h1)(data - 8 := block_size)\<rparr>)
      in (h2\<lparr>allocated_bytes := allocated_bytes h2 + needed\<rparr>, data))"

partial_function (option) try_allocate_from ::
  "nat \<Rightarrow> nat \<Rightarrow> nat option \<Rightarrow> nat option \<Rightarrow> Heap \<Rightarrow> (Heap \<times> nat option) option" where
  "try_allocate_from sz align prev current h =
     (case current of
        None \<Rightarrow> Some (h, None)
      | Some block_addr \<Rightarrow>
          if total_needed block_addr align sz \<le> fb_size (blk h block_addr)
          then Some (map_prod id Some (take_block prev block_addr align sz h))
          else try_allocate_from sz align current (fb_next (blk h block_addr)) h)"

definition try_allocate :: "nat \<Rightarrow> nat \<Rightarrow> Heap \<Rightarrow> (Heap \<times> nat option) option" where
  "try_allocate sz align h = try_allocate_from (max sz MIN_SIZE) align None (free_list h) h"


subsection \<open>Growth\<close>

text \<open>The search for the position of an address, shared by \<^verbatim>\<open>grow\<close> and \<^verbatim>\<open>deallocate\<close>.\<close>

partial_function (option) seek ::
  "nat \<Rightarrow> nat option \<Rightarrow> nat option \<Rightarrow> Heap \<Rightarrow> (nat option \<times> nat option) option" where
  "seek addr prev current h =
     (case current of
        None \<Rightarrow> Some (prev, None)
      | Some b \<Rightarrow> if b > addr then Some (prev, current)
                  else seek addr current (fb_next (blk h b)) h)"

text \<open>A block absorbs its list successor when that one starts where the block ends.\<close>

definition coalesce_next :: "nat \<Rightarrow> Heap \<Rightarrow> Heap" where
  "coalesce_next b h =
     (case fb_next (blk h b) of
        None \<Rightarrow> h
      | Some nx \<Rightarrow>
          if b + fb_size (blk h b) = nx
          then set_next b (fb_next (blk h nx)) (set_size b (fb_size (blk h b) + fb_size (blk h nx)) h)
          else h)"

definition grow_insert :: "nat \<Rightarrow> nat option \<Rightarrow> nat option \<Rightarrow> Heap \<Rightarrow> Heap" where
  "grow_insert new_region prev current h =
     (let h1 = set_next new_region current h
      in case prev of
           Some p \<Rightarrow>
             (let h2 = set_next p (Some new_region) h1
              in if p + fb_size (blk h2 p) = new_region
                 then let h3 = set_next p (fb_next (blk h2 new_region))
                                 (set_size p (fb_size (blk h2 p) + fb_size (blk h2 new_region)) h2)
                      in coalesce_next p h3
                 else coalesce_next new_region h2)
         | None \<Rightarrow> coalesce_next new_region (h1\<lparr>free_list := Some new_region\<rparr>))"

definition grow :: "nat \<Rightarrow> FrameAllocator \<Rightarrow> Heap \<Rightarrow> (Heap \<times> FrameAllocator \<times> bool) option" where
  "grow min_bytes fa h =
     (let pages = max ((min_bytes + 4096 - 1) div 4096) GROW_MIN_PAGES
      in case allocate_contiguous_frames fa pages of
           (fa', Some phys) \<Rightarrow>
             (let new_region = unat phys;
                  new_size = pages * 4096;
                  h1 = h\<lparr>blk := (blk h)(new_region := \<lparr>fb_size = new_size, fb_next = None\<rparr>)\<rparr>
              in case seek new_region None (free_list h1) h1 of
                   None \<Rightarrow> None
                 | Some (prev, current) \<Rightarrow>
                     (let h2 = grow_insert new_region prev current h1
                      in Some (h2\<lparr>total_size := total_size h2 + new_size\<rparr>, fa', True)))
         | (fa', None) \<Rightarrow> Some (h, fa', False))"

definition allocate :: "nat \<Rightarrow> nat \<Rightarrow> FrameAllocator \<Rightarrow> Heap \<Rightarrow> (Heap \<times> FrameAllocator \<times> nat option) option" where
  "allocate sz align fa h =
     (case try_allocate sz align h of
        None \<Rightarrow> None
      | Some (h1, Some ptr) \<Rightarrow> Some (h1, fa, Some ptr)
      | Some (h1, None) \<Rightarrow>
          (case grow (align_up (max sz MIN_SIZE) GROW_INCREMENT) fa h1 of
             None \<Rightarrow> None
           | Some (h2, fa', False) \<Rightarrow> Some (h2, fa', None)
           | Some (h2, fa', True) \<Rightarrow> map_option (\<lambda>(h3, r). (h3, fa', r)) (try_allocate sz align h2)))"

text \<open>\<^verbatim>\<open>GlobalAlloc::alloc\<close>: the null pointer stands for failure.\<close>

definition alloc :: "nat \<Rightarrow> nat \<Rightarrow> FrameAllocator \<Rightarrow> Heap \<Rightarrow> (Heap \<times> FrameAllocator \<times> nat) option" where
  "alloc sz align fa h =
     map_option (\<lambda>(h', fa', r). (h', fa', case r of Some p \<Rightarrow> p | None \<Rightarrow> 0)) (allocate sz align fa h)"


subsection \<open>Deallocation\<close>

definition dealloc_insert :: "nat \<Rightarrow> nat option \<Rightarrow> nat option \<Rightarrow> Heap \<Rightarrow> Heap" where
  "dealloc_insert block_addr prev current h =
     (let h1 = link prev (Some block_addr) (set_next block_addr current h);
          h2 = coalesce_next block_addr h1
      in case prev of
           None \<Rightarrow> h2
         | Some p \<Rightarrow>
             if p + fb_size (blk h2 p) = block_addr
             then set_next p (fb_next (blk h2 block_addr))
                    (set_size p (fb_size (blk h2 p) + fb_size (blk h2 block_addr)) h2)
             else h2)"

definition deallocate :: "nat \<Rightarrow> Heap \<Rightarrow> Heap option" where
  "deallocate ptr h =
     (let block_addr = ptr - 8;
          total = header h block_addr;
          h1 = set_size block_addr total h
      in case seek block_addr None (free_list h1) h1 of
           None \<Rightarrow> None
         | Some (prev, current) \<Rightarrow>
             (let h2 = dealloc_insert block_addr prev current h1
              in Some (h2\<lparr>allocated_bytes := allocated_bytes h2 - total\<rparr>)))"


subsection \<open>Statistics and start-up\<close>

record HeapStats =
  hs_total_size :: nat
  hs_allocated_bytes :: nat
  hs_free_bytes :: nat
  hs_free_blocks :: nat
  hs_largest_free_block :: nat

partial_function (option) stats_from ::
  "nat option \<Rightarrow> Heap \<Rightarrow> nat \<Rightarrow> nat \<Rightarrow> nat \<Rightarrow> (nat \<times> nat \<times> nat) option" where
  "stats_from current h free_blocks largest_free total_free =
     (case current of
        None \<Rightarrow> Some (free_blocks, largest_free, total_free)
      | Some b \<Rightarrow> stats_from (fb_next (blk h b)) h (free_blocks + 1)
                    (if fb_size (blk h b) > largest_free then fb_size (blk h b) else largest_free)
                    (total_free + fb_size (blk h b)))"

definition stats :: "Heap \<Rightarrow> HeapStats option" where
  "stats h = map_option (\<lambda>(free_blocks, largest_free, total_free).
     \<lparr>hs_total_size = total_size h, hs_allocated_bytes = allocated_bytes h, hs_free_bytes = total_free,
      hs_free_blocks = free_blocks, hs_largest_free_block = largest_free\<rparr>)
     (stats_from (free_list h) h 0 0 0)"

text \<open>\<^verbatim>\<open>init\<close>; \<^const>\<open>None\<close> is the panic of \<^verbatim>\<open>expect\<close>.\<close>

definition heap_init :: "FrameAllocator \<Rightarrow> Heap \<Rightarrow> (FrameAllocator \<times> Heap) option" where
  "heap_init fa h =
     (case allocate_contiguous_frames fa (HEAP_SIZE div 4096) of
        (fa', Some phys) \<Rightarrow> Some (fa', init_heap h (unat phys) HEAP_SIZE)
      | (fa', None) \<Rightarrow> None)"


subsection \<open>Alignment\<close>

lemma and_not_mask_push: "w AND NOT (mask k) = push_bit k (drop_bit k w)" for w :: "'a::len word"
  by (rule bit_word_eqI) (auto simp: bit_simps)

lemma unat_and_not_mask: "unat (w AND NOT (mask k)) = unat w div 2 ^ k * 2 ^ k" for w :: "'a::len word"
proof -
  have "unat w div 2 ^ k * 2 ^ k < 2 ^ LENGTH('a)"
    using unat_lt2p [of w] div_times_less_eq_dividend [of "unat w" "2 ^ k"] by linarith
  then show ?thesis
    unfolding and_not_mask_push unsigned_push_bit_eq unsigned_drop_bit_eq
    by (simp add: push_bit_nat_def drop_bit_nat_def take_bit_nat_eq_self unsigned_take_bit_eq)
qed

lemma align_up_pow2:
  assumes "k < 64" "x + 2 ^ k \<le> 2 ^ 64"
  shows "align_up x (2 ^ k) = (x + 2 ^ k - 1) div 2 ^ k * 2 ^ k"
proof -
  have "(of_nat (2 ^ k - 1) :: u64) = mask k" by (simp add: mask_eq_exp_minus_1)
  moreover have "unat (of_nat (x + 2 ^ k - 1) :: u64) = x + 2 ^ k - 1"
    using assms by (intro unat_of_nat_small) (simp add: less_diff_conv2)
  ultimately show ?thesis unfolding align_up_def by (simp add: unat_and_not_mask)
qed

lemma align_up_props:
  assumes "k < 64" "x + 2 ^ k \<le> 2 ^ 64"
  shows "2 ^ k dvd align_up x (2 ^ k)" "x \<le> align_up x (2 ^ k)" "align_up x (2 ^ k) < x + 2 ^ k"
proof -
  let ?a = "2 ^ k :: nat"
  have e: "align_up x ?a = (x + ?a - 1) div ?a * ?a" by (rule align_up_pow2 [OF assms])
  have d: "(x + ?a - 1) div ?a * ?a + (x + ?a - 1) mod ?a = x + ?a - 1" "(x + ?a - 1) mod ?a < ?a" "0 < ?a"
    by (rule div_mult_mod_eq) simp_all
  show "?a dvd align_up x ?a" unfolding e by simp
  show "x \<le> align_up x ?a" unfolding e using d by linarith
  show "align_up x ?a < x + ?a" unfolding e using d by linarith
qed

subsection \<open>The free list as a list of blocks\<close>

text \<open>\<^verbatim>\<open>seg b p xs q\<close>: following the pointers from \<^verbatim>\<open>p\<close> visits the blocks \<^verbatim>\<open>xs\<close> (address and size) and arrives at \<^verbatim>\<open>q\<close>.\<close>

fun seg :: "(nat \<Rightarrow> FreeBlock) \<Rightarrow> nat option \<Rightarrow> (nat \<times> nat) list \<Rightarrow> nat option \<Rightarrow> bool" where
  "seg b p [] q = (p = q)"
| "seg b p ((a, s) # xs) q = (p = Some a \<and> fb_size (b a) = s \<and> seg b (fb_next (b a)) xs q)"

abbreviation free_blocks :: "Heap \<Rightarrow> (nat \<times> nat) list \<Rightarrow> bool" where
  "free_blocks h xs \<equiv> seg (blk h) (free_list h) xs None"

definition lastp :: "(nat \<times> nat) list \<Rightarrow> nat option" where
  "lastp xs = (if xs = [] then None else Some (fst (last xs)))"

lemma lastp_simps [simp]: "lastp [] = None" "lastp (xs @ [(a, s)]) = Some a"
  by (simp_all add: lastp_def)

lemma seg_append: "seg b p (xs @ ys) q \<longleftrightarrow> (\<exists>r. seg b p xs r \<and> seg b r ys q)"
  by (induction xs arbitrary: p) auto

lemma seg_upd [simp]: "a \<notin> fst ` set xs \<Longrightarrow> seg (b(a := x)) p xs q = seg b p xs q"
  by (induction xs arbitrary: p) auto

lemma seg_snoc: "seg b p (xs @ [(a, s)]) q \<longleftrightarrow> seg b p xs (Some a) \<and> fb_size (b a) = s \<and> fb_next (b a) = q"
  by (auto simp: seg_append)

lemma seg_None_unique: "seg b p xs None \<Longrightarrow> seg b p ys None \<Longrightarrow> xs = ys"
proof (induction xs arbitrary: p ys)
  case Nil then show ?case by (cases ys) auto
next
  case (Cons x xs) then show ?case by (cases x; cases ys) auto
qed

lemma set_next_simps [simp]:
  "free_list (set_next p q h) = free_list h" "header (set_next p q h) = header h"
  "total_size (set_next p q h) = total_size h" "allocated_bytes (set_next p q h) = allocated_bytes h"
  "fb_size (blk (set_next p q h) a) = fb_size (blk h a)"
  "fb_next (blk (set_next p q h) a) = (if a = p then q else fb_next (blk h a))"
  "a \<noteq> p \<Longrightarrow> blk (set_next p q h) a = blk h a"
  by (simp_all add: set_next_def)

lemma set_size_simps [simp]:
  "free_list (set_size p s h) = free_list h" "header (set_size p s h) = header h"
  "total_size (set_size p s h) = total_size h" "allocated_bytes (set_size p s h) = allocated_bytes h"
  "fb_size (blk (set_size p s h) a) = (if a = p then s else fb_size (blk h a))"
  "fb_next (blk (set_size p s h) a) = fb_next (blk h a)"
  "a \<noteq> p \<Longrightarrow> blk (set_size p s h) a = blk h a"
  by (simp_all add: set_size_def)

lemma seg_set [simp]:
  "a \<notin> fst ` set xs \<Longrightarrow> seg (blk (set_next a r h)) p xs q = seg (blk h) p xs q"
  "a \<notin> fst ` set xs \<Longrightarrow> seg (blk (set_size a s h)) p xs q = seg (blk h) p xs q"
  by (simp_all add: set_next_def set_size_def)

lemma link_simps [simp]:
  "header (link p q h) = header h" "total_size (link p q h) = total_size h"
  "allocated_bytes (link p q h) = allocated_bytes h" "fb_size (blk (link p q h) a) = fb_size (blk h a)"
  by (simp_all add: link_def split: option.splits)

lemma seg_link:
  assumes "seg (blk h) (free_list h) xs r" "seg (blk h) q ys None" "distinct (map fst (xs @ ys))"
  shows "free_blocks (link (lastp xs) q h) (xs @ ys)"
proof (cases xs rule: rev_cases)
  case Nil
  with assms show ?thesis by (simp add: link_def)
next
  case (snoc us u)
  obtain p s where u: "u = (p, s)" by (cases u)
  have d: "p \<notin> fst ` set us" "p \<notin> fst ` set ys" using assms(3) snoc u by auto
  have "seg (blk h) (free_list h) us (Some p)" "fb_size (blk h p) = s"
    using assms(1) snoc u by (auto simp: seg_snoc)
  then show ?thesis
    using assms(2) d snoc u by (auto simp: link_def seg_append intro!: exI [of _ "Some p"])
qed

lemma try_allocate_from_eq:
  assumes "seg (blk h) cur post None"
  shows "try_allocate_from sz al (lastp pre) cur h =
     (case List.extract (\<lambda>(a, s). total_needed a al sz \<le> s) post of
        None \<Rightarrow> Some (h, None)
      | Some (u, (a, s), v) \<Rightarrow> Some (map_prod id Some (take_block (lastp (pre @ u)) a al sz h)))"
  using assms
proof (induction post arbitrary: pre cur)
  case Nil
  then show ?case by (subst try_allocate_from.simps) (simp add: extract_Nil_code)
next
  case (Cons x post)
  obtain a s where x: "x = (a, s)" by (cases x)
  have c: "cur = Some a" "fb_size (blk h a) = s" "seg (blk h) (fb_next (blk h a)) post None"
    using Cons.prems x by auto
  have l: "cur = lastp (pre @ [x])" using c x by simp
  show ?case
  proof (cases "total_needed a al sz \<le> s")
    case True
    then show ?thesis using c x by (subst try_allocate_from.simps) (simp add: extract_Cons_code)
  next
    case False
    then have "try_allocate_from sz al (lastp pre) cur h
        = try_allocate_from sz al (lastp (pre @ [x])) (fb_next (blk h a)) h"
      using c l by (subst try_allocate_from.simps) simp
    then show ?thesis
      unfolding Cons.IH [OF c(3), of "pre @ [x]"] using False x
      by (auto simp: extract_Cons_code id_def split: option.splits)
  qed
qed

lemma seek_eq:
  assumes "seg (blk h) cur post None"
  shows "seek addr (lastp pre) cur h =
     Some (lastp (pre @ takeWhile (\<lambda>(a, s). a \<le> addr) post),
           case dropWhile (\<lambda>(a, s). a \<le> addr) post of [] \<Rightarrow> None | (a, s) # v \<Rightarrow> Some a)"
  using assms
proof (induction post arbitrary: pre cur)
  case Nil
  then show ?case by (subst seek.simps) simp
next
  case (Cons x post)
  obtain a s where x: "x = (a, s)" by (cases x)
  have c: "cur = Some a" "seg (blk h) (fb_next (blk h a)) post None"
    using Cons.prems x by auto
  have l: "cur = lastp (pre @ [x])" using c x by simp
  show ?case
  proof (cases "a \<le> addr")
    case False
    then show ?thesis using c x by (subst seek.simps) simp
  next
    case True
    then have "seek addr (lastp pre) cur h = seek addr (lastp (pre @ [x])) (fb_next (blk h a)) h"
      using c l by (subst seek.simps) simp
    then show ?thesis unfolding Cons.IH [OF c(2), of "pre @ [x]"] using True x by simp
  qed
qed

lemma seek_obtain:
  assumes "free_blocks h xs"
  obtains u v cur where "xs = u @ v" "seek addr None (free_list h) h = Some (lastp u, cur)"
    "seg (blk h) (free_list h) u cur" "seg (blk h) cur v None"
proof -
  let ?P = "\<lambda>(a, s). a \<le> addr"
  define u v where "u = takeWhile ?P xs" and "v = dropWhile ?P xs"
  have xs: "xs = u @ v" by (simp add: u_def v_def)
  with assms obtain cur where c: "seg (blk h) (free_list h) u cur" "seg (blk h) cur v None"
    by (auto simp: seg_append)
  then have "cur = (case v of [] \<Rightarrow> None | (a, s) # v \<Rightarrow> Some a)" by (cases v) auto
  with seek_eq [OF assms, of addr "[]"] have "seek addr None (free_list h) h = Some (lastp u, cur)"
    by (simp add: u_def v_def)
  from that [OF xs this c] show ?thesis .
qed

text \<open>What coalescing does to the list: a block absorbs its successor when they are adjacent.\<close>

fun coal :: "nat \<times> nat \<Rightarrow> (nat \<times> nat) list \<Rightarrow> (nat \<times> nat) list" where
  "coal (x, s) [] = [(x, s)]"
| "coal (x, s) ((y, t) # v) = (if x + s = y then (x, s + t) # v else (x, s) # (y, t) # v)"

lemma coalesce_next_simps [simp]:
  "free_list (coalesce_next b h) = free_list h" "header (coalesce_next b h) = header h"
  "total_size (coalesce_next b h) = total_size h" "allocated_bytes (coalesce_next b h) = allocated_bytes h"
  by (simp_all add: coalesce_next_def split: option.splits)

lemma seg_coalesce_next:
  assumes "free_blocks h (u @ (x, s) # v)" "distinct (map fst (u @ (x, s) # v))"
  shows "free_blocks (coalesce_next x h) (u @ coal (x, s) v)"
proof (cases v)
  case Nil
  with assms show ?thesis by (auto simp: coalesce_next_def seg_append)
next
  case (Cons yt w)
  obtain y t where yt: "yt = (y, t)" by (cases yt)
  have d: "x \<notin> fst ` set u" "x \<notin> fst ` set w" "y \<noteq> x" using assms(2) Cons yt by auto
  have s: "seg (blk h) (free_list h) u (Some x)" "fb_size (blk h x) = s" "fb_next (blk h x) = Some y"
    "fb_size (blk h y) = t" "seg (blk h) (fb_next (blk h y)) w None"
    using assms(1) Cons yt by (auto simp: seg_append)
  show ?thesis
  proof (cases "x + s = y")
    case True
    then show ?thesis
      using s d Cons yt by (auto simp: coalesce_next_def seg_append)
  next
    case False
    then show ?thesis using assms(1) s Cons yt by (simp add: coalesce_next_def)
  qed
qed

lemma fst_coal: "fst ` set (coal b v) \<subseteq> insert (fst b) (fst ` set v)"
  by (cases "(b, v)" rule: coal.cases) auto

lemma distinct_coal: "distinct (map fst (u @ b # v)) \<Longrightarrow> distinct (map fst (u @ coal b v))"
  by (cases "(b, v)" rule: coal.cases) auto

lemma coalesce_again:
  assumes "free_blocks h (u @ (p, t) # w)" "w = (x, s') # w'"
  shows "(if p + fb_size (blk h p) = x
          then set_next p (fb_next (blk h x)) (set_size p (fb_size (blk h p) + fb_size (blk h x)) h) else h)
       = coalesce_next p h"
  using assms by (auto simp: coalesce_next_def seg_append)

lemma seg_insert:
  assumes "free_blocks h (u @ v)" "seg (blk h) cur v None" "seg (blk h) (free_list h) u cur"
    and "distinct (map fst (u @ (x, s) # v))" "fb_size (blk h x) = s"
  shows "free_blocks (link (lastp u) (Some x) (set_next x cur h)) (u @ (x, s) # v)"
proof (rule seg_link)
  show "seg (blk (set_next x cur h)) (free_list (set_next x cur h)) u cur"
    using assms by auto
  show "seg (blk (set_next x cur h)) (Some x) ((x, s) # v) None"
    using assms by auto
qed (use assms in simp)

fun coal_prev :: "(nat \<times> nat) list \<Rightarrow> (nat \<times> nat) list \<Rightarrow> (nat \<times> nat) list" where
  "coal_prev u w = (if u = [] then w else butlast u @ coal (last u) w)"

lemma coal_Cons: "\<exists>t w. coal (x, s) v = (x, t) # w"
  by (cases v) auto

lemma seg_dealloc_insert:
  assumes "free_blocks h (u @ v)" "seg (blk h) cur v None" "seg (blk h) (free_list h) u cur"
    and "distinct (map fst (u @ (x, s) # v))" "fb_size (blk h x) = s"
  shows "free_blocks (dealloc_insert x (lastp u) cur h) (coal_prev u (coal (x, s) v))"
proof -
  define h1 where "h1 = link (lastp u) (Some x) (set_next x cur h)"
  define h2 where "h2 = coalesce_next x h1"
  have "free_blocks h1 (u @ (x, s) # v)"
    unfolding h1_def by (rule seg_insert [OF assms])
  then have s2: "free_blocks h2 (u @ coal (x, s) v)"
    unfolding h2_def using assms(4) by (rule seg_coalesce_next)
  have d2: "distinct (map fst (u @ coal (x, s) v))"
    using assms(4) by (rule distinct_coal)
  show ?thesis
  proof (cases u rule: rev_cases)
    case Nil
    with s2 show ?thesis by (simp add: dealloc_insert_def h2_def h1_def Let_def)
  next
    case (snoc us pt)
    obtain p t where pt: "pt = (p, t)" by (cases pt)
    obtain t' w where c: "coal (x, s) v = (x, t') # w" using coal_Cons by blast
    have "free_blocks h2 (us @ (p, t) # coal (x, s) v)" using s2 snoc pt by simp
    note a = coalesce_again [OF this c]
    have "dealloc_insert x (lastp u) cur h = coalesce_next p h2"
      unfolding a [symmetric] using snoc pt by (simp add: dealloc_insert_def h2_def h1_def Let_def)
    moreover have "free_blocks (coalesce_next p h2) (us @ coal (p, t) (coal (x, s) v))"
      using s2 d2 snoc pt by (intro seg_coalesce_next) auto
    ultimately show ?thesis using snoc pt by simp
  qed
qed

definition grow_blocks :: "(nat \<times> nat) list \<Rightarrow> nat \<times> nat \<Rightarrow> (nat \<times> nat) list \<Rightarrow> (nat \<times> nat) list" where
  "grow_blocks u b v = (if u \<noteq> [] \<and> fst (last u) + snd (last u) = fst b
     then butlast u @ coal (fst (last u), snd (last u) + snd b) v else u @ coal b v)"

lemma seg_grow_insert:
  assumes "free_blocks h (u @ v)" "seg (blk h) cur v None" "seg (blk h) (free_list h) u cur"
    and "distinct (map fst (u @ (x, s) # v))" "fb_size (blk h x) = s"
  shows "free_blocks (grow_insert x (lastp u) cur h) (grow_blocks u (x, s) v)"
proof -
  define h1 where "h1 = link (lastp u) (Some x) (set_next x cur h)"
  have s1: "free_blocks h1 (u @ (x, s) # v)"
    unfolding h1_def by (rule seg_insert [OF assms])
  show ?thesis
  proof (cases u rule: rev_cases)
    case Nil
    with seg_coalesce_next [OF s1 assms(4)] show ?thesis
      by (simp add: grow_insert_def h1_def link_def grow_blocks_def Let_def)
  next
    case (snoc us pt)
    obtain p t where pt: "pt = (p, t)" by (cases pt)
    have s2: "free_blocks h1 (us @ (p, t) # (x, s) # v)" using s1 snoc pt by simp
    then have p: "fb_size (blk h1 p) = t" "fb_next (blk h1 p) = Some x" by (auto simp: seg_append)
    have d: "distinct (map fst (us @ (p, t) # (x, s) # v))" using assms(4) snoc pt by simp
    show ?thesis
    proof (cases "p + t = x")
      case True
      have s3: "free_blocks (coalesce_next p h1) (us @ (p, t + s) # v)"
        using seg_coalesce_next [OF s2 d] True by simp
      have "grow_insert x (lastp u) cur h = coalesce_next p (coalesce_next p h1)"
        unfolding coalesce_again [OF s2 refl, symmetric]
        using snoc pt True p by (simp add: grow_insert_def h1_def link_def Let_def)
      moreover have "free_blocks (coalesce_next p (coalesce_next p h1)) (us @ coal (p, t + s) v)"
        using s3 d by (intro seg_coalesce_next) auto
      ultimately show ?thesis using snoc pt True by (simp add: grow_blocks_def)
    next
      case False
      have "grow_insert x (lastp u) cur h = coalesce_next x h1"
        using snoc pt False p by (simp add: grow_insert_def h1_def link_def Let_def)
      then show ?thesis
        using seg_coalesce_next [OF s1 assms(4)] snoc pt False by (simp add: grow_blocks_def)
    qed
  qed
qed

subsection \<open>Blocks tile the heap\<close>

text \<open>How many of the blocks contain a byte; the blocks tile a region when that is 1 inside and 0 outside.\<close>

definition inside :: "nat \<Rightarrow> nat \<times> nat \<Rightarrow> nat" where
  "inside i = (\<lambda>(a, s). if a \<le> i \<and> i < a + s then 1 else 0)"

definition cover :: "(nat \<times> nat) list \<Rightarrow> nat \<Rightarrow> nat" where
  "cover xs i = (\<Sum>x\<leftarrow>xs. inside i x)"

lemma cover_simps [simp]:
  "cover [] i = 0" "cover (x # xs) i = inside i x + cover xs i" "cover (xs @ ys) i = cover xs i + cover ys i"
  by (simp_all add: cover_def)

lemma inside_split: "n \<le> s \<Longrightarrow> inside i (a, s) = inside i (a, n) + inside i (a + n, s - n)"
  by (auto simp: inside_def)

lemma inside_join: "inside i (a, s) + inside i (a + s, t) = inside i (a, s + t)"
  by (auto simp: inside_def)

lemma cover_coal [simp]: "cover (coal b v) i = inside i b + cover v i"
  by (cases "(b, v)" rule: coal.cases) (auto simp: inside_join)

lemma cover_coal_prev [simp]: "cover (coal_prev u w) i = cover u i + cover w i"
  by (cases u rule: rev_cases) auto

lemma cover_grow_blocks [simp]: "cover (grow_blocks u b v) i = cover u i + inside i b + cover v i"
  by (cases u rule: rev_cases; cases b) (auto simp: grow_blocks_def inside_join [symmetric])

lemma cover_mem: "x \<in> set xs \<Longrightarrow> inside i x \<le> cover xs i"
  by (induction xs) auto

lemma cover_distinct:
  assumes "\<And>i. cover xs i \<le> 1" "\<And>a s. (a, s) \<in> set xs \<Longrightarrow> 0 < s"
  shows "distinct (map fst xs)"
  using assms
proof (induction xs)
  case (Cons x xs)
  obtain a s where x: "x = (a, s)" by (cases x)
  have "0 < s" using Cons.prems(2) x by auto
  then have "cover xs a = 0" using Cons.prems(1) [of a] x by (simp add: inside_def)
  then have "a \<notin> fst ` set xs"
    using cover_mem [of _ xs a] Cons.prems(2) by (fastforce simp: inside_def)
  moreover have "distinct (map fst xs)"
  proof (rule Cons.IH)
    show "cover xs i \<le> 1" for i using Cons.prems(1) [of i] by simp
  qed (use Cons.prems(2) in auto)
  ultimately show ?case using x by simp
qed simp

text \<open>Sizes.\<close>

abbreviation bytes_of :: "(nat \<times> nat) list \<Rightarrow> nat" where
  "bytes_of xs \<equiv> sum_list (map snd xs)"

lemma bytes_coal [simp]: "bytes_of (coal b v) = snd b + bytes_of v"
  by (cases "(b, v)" rule: coal.cases) auto

lemma bytes_coal_prev [simp]: "bytes_of (coal_prev u w) = bytes_of u + bytes_of w"
  by (cases u rule: rev_cases) auto

lemma bytes_grow_blocks [simp]: "bytes_of (grow_blocks u b v) = bytes_of u + snd b + bytes_of v"
  by (cases u rule: rev_cases; cases b) (auto simp: grow_blocks_def)

definition block_ok :: "nat \<times> nat \<Rightarrow> bool" where
  "block_ok = (\<lambda>(a, s). 8 dvd a \<and> 8 dvd s \<and> MIN_SIZE \<le> s)"

lemma block_ok_coal: "block_ok b \<Longrightarrow> \<forall>x\<in>set v. block_ok x \<Longrightarrow> \<forall>x\<in>set (coal b v). block_ok x"
  by (cases "(b, v)" rule: coal.cases) (auto simp: block_ok_def)

lemma block_ok_coal_prev: "\<forall>x\<in>set u. block_ok x \<Longrightarrow> \<forall>x\<in>set w. block_ok x \<Longrightarrow> \<forall>x\<in>set (coal_prev u w). block_ok x"
proof (cases u rule: rev_cases)
  case (snoc us p)
  assume "\<forall>x\<in>set u. block_ok x" "\<forall>x\<in>set w. block_ok x"
  then show ?thesis using snoc block_ok_coal [of p w] by auto
qed auto

lemma block_ok_grow_blocks:
  assumes "\<forall>x\<in>set u. block_ok x" "block_ok b" "\<forall>x\<in>set v. block_ok x"
  shows "\<forall>x\<in>set (grow_blocks u b v). block_ok x"
proof (cases u rule: rev_cases)
  case Nil
  then show ?thesis using block_ok_coal [of b v] assms by (auto simp: grow_blocks_def)
next
  case (snoc us p)
  have "block_ok p" "\<forall>x\<in>set us. block_ok x" using assms(1) snoc by simp_all
  moreover from this(1) assms(2) have "block_ok (fst p, snd p + snd b)"
    by (cases p; cases b) (simp add: block_ok_def)
  moreover have "grow_blocks u b v = us @ coal (fst p, snd p + snd b) v \<or> grow_blocks u b v = us @ p # coal b v"
    using snoc by (simp add: grow_blocks_def)
  moreover have "\<forall>x\<in>set (coal b v). block_ok x" by (rule block_ok_coal [OF assms(2,3)])
  ultimately show ?thesis
    using block_ok_coal [OF _ assms(3), of "(fst p, snd p + snd b)"] by auto
qed

text \<open>
  The invariant: the free blocks and the live blocks (given by their addresses, their sizes being in
  the headers) are well formed and tile the region \<^verbatim>\<open>R\<close> the heap got from the frame allocator.
\<close>

definition live_blocks :: "Heap \<Rightarrow> nat list \<Rightarrow> (nat \<times> nat) list" where
  "live_blocks h L = map (\<lambda>a. (a, header h a)) L"

definition heap_ok :: "Heap \<Rightarrow> (nat \<times> nat) list \<Rightarrow> nat list \<Rightarrow> nat set \<Rightarrow> bool" where
  "heap_ok h bs L R \<longleftrightarrow>
     free_blocks h bs \<and> (\<forall>x \<in> set (bs @ live_blocks h L). block_ok x) \<and>
     (\<forall>i. cover (bs @ live_blocks h L) i = of_bool (i \<in> R)) \<and>
     total_size h = bytes_of (bs @ live_blocks h L) \<and>
     R \<subseteq> {..<2 ^ 34}"

lemma heap_okD:
  assumes "heap_ok h bs L R"
  shows "free_blocks h bs" "x \<in> set bs \<Longrightarrow> block_ok x" "a \<in> set L \<Longrightarrow> block_ok (a, header h a)"
    "cover bs i + cover (live_blocks h L) i = of_bool (i \<in> R)"
    "total_size h = bytes_of bs + bytes_of (live_blocks h L)" "R \<subseteq> {..<2 ^ 34}"
    "distinct (map fst bs @ L)"
proof -
  show "free_blocks h bs" "total_size h = bytes_of bs + bytes_of (live_blocks h L)" "R \<subseteq> {..<2 ^ 34}"
    using assms by (simp_all add: heap_ok_def)
  show "x \<in> set bs \<Longrightarrow> block_ok x" "a \<in> set L \<Longrightarrow> block_ok (a, header h a)"
    using assms by (auto simp: heap_ok_def live_blocks_def)
  show "cover bs i + cover (live_blocks h L) i = of_bool (i \<in> R)"
    using assms by (simp add: heap_ok_def)
  have "distinct (map fst (bs @ live_blocks h L))"
  proof (rule cover_distinct)
    show "cover (bs @ live_blocks h L) i \<le> 1" for i using assms by (simp add: heap_ok_def)
    show "0 < s" if "(a, s) \<in> set (bs @ live_blocks h L)" for a s
    proof -
      have "block_ok (a, s)" using assms that unfolding heap_ok_def by blast
      then show ?thesis by (simp add: block_ok_def MIN_SIZE_def)
    qed
  qed
  then show "distinct (map fst bs @ L)" by (simp add: live_blocks_def comp_def)
qed

lemma block_in_region:
  assumes "heap_ok h bs L R" "(a, s) \<in> set bs \<or> a \<in> set L \<and> s = header h a" "a \<le> i" "i < a + s"
  shows "i \<in> R"
proof -
  have "(a, s) \<in> set (bs @ live_blocks h L)" using assms(2) by (auto simp: live_blocks_def)
  then have "1 \<le> cover (bs @ live_blocks h L) i"
    using cover_mem [of "(a, s)" _ i] assms(3,4) by (fastforce simp: inside_def)
  then show ?thesis using assms(1) by (cases "i \<in> R") (auto simp: heap_ok_def)
qed

lemma block_bound:
  assumes "heap_ok h bs L R" "(a, s) \<in> set bs \<or> a \<in> set L \<and> s = header h a"
  shows "a + s \<le> 2 ^ 34"
proof -
  have "block_ok (a, s)" using heap_okD(2,3) [OF assms(1)] assms(2) by blast
  then have "0 < s" by (simp add: block_ok_def MIN_SIZE_def)
  then have "a + s - 1 \<in> R" using block_in_region [OF assms(1,2), of "a + s - 1"] by simp
  then show ?thesis using heap_okD(6) [OF assms(1)] by force
qed

lemma align_up_id:
  assumes "k < 64" "x + 2 ^ k \<le> 2 ^ 64" "2 ^ k dvd x"
  shows "align_up x (2 ^ k) = x"
proof -
  note p = align_up_props [OF assms(1,2)]
  have "2 ^ k dvd align_up x (2 ^ k) - x" using p(1) assms(3) by (rule dvd_diff_nat)
  moreover have "align_up x (2 ^ k) - x < 2 ^ k" using p(2,3) by linarith
  ultimately have "align_up x (2 ^ k) - x = 0" using nat_dvd_not_less by blast
  then show ?thesis using p(2) by simp
qed

lemma align_up_8:
  assumes "x + 8 \<le> 2 ^ 64"
  shows "8 dvd align_up x 8" "x \<le> align_up x 8" "align_up x 8 < x + 8"
  using align_up_props [of 3 x] assms by simp_all

lemma aligned_start_8:
  assumes "8 dvd a" "a \<le> 2 ^ 34" "k \<le> 3"
  shows "aligned_start a (2 ^ k) = a + 8" "2 ^ k dvd a + 8"
proof -
  have "2 ^ k dvd (2 ^ 3 :: nat)" using assms(3) by (rule le_imp_power_dvd)
  then show d: "2 ^ k dvd a + 8" using assms(1) by (simp add: dvd_trans)
  have "(2::nat) ^ k \<le> 8" using power_increasing [OF assms(3), of "2::nat"] by simp
  with assms d show "aligned_start a (2 ^ k) = a + 8"
    unfolding aligned_start_def by (intro align_up_id) simp_all
qed

lemma total_needed_8:
  assumes "8 dvd a" "a \<le> 2 ^ 34" "k \<le> 3" "sz \<le> 2 ^ 62"
  shows "8 dvd total_needed a (2 ^ k) sz" "8 + sz \<le> total_needed a (2 ^ k) sz"
    "total_needed a (2 ^ k) sz < sz + 16" "total_needed a (2 ^ k) sz = align_up (8 + sz) 8"
  using align_up_8 [of "8 + sz"] assms(4) by (simp_all add: total_needed_def aligned_start_8 [OF assms(1-3)])

lemma heap_okI:
  assumes "distinct (map fst bs) \<Longrightarrow> free_blocks h bs" "\<And>x. x \<in> set bs \<Longrightarrow> block_ok x"
    "\<And>a. a \<in> set L \<Longrightarrow> block_ok (a, header h a)"
    "\<And>i. cover bs i + cover (live_blocks h L) i = of_bool (i \<in> R)"
    "total_size h = bytes_of bs + bytes_of (live_blocks h L)" "R \<subseteq> {..<2 ^ 34}"
  shows "heap_ok h bs L R"
proof -
  have "distinct (map fst bs)"
  proof (rule cover_distinct)
    show "cover bs i \<le> 1" for i using assms(4) [of i] by (cases "i \<in> R") auto
    show "(a, s) \<in> set bs \<Longrightarrow> 0 < s" for a s using assms(2) by (fastforce simp: block_ok_def MIN_SIZE_def)
  qed
  moreover have "\<forall>x \<in> set (bs @ live_blocks h L). block_ok x"
    using assms(2,3) by (auto simp: live_blocks_def)
  ultimately show ?thesis using assms(1,4-6) by (simp add: heap_ok_def)
qed

lemma live_blocks_cong:
  "(\<And>a. a \<in> set L \<Longrightarrow> header h' a = header h a) \<Longrightarrow> live_blocks h' L = live_blocks h L"
  by (simp add: live_blocks_def)

lemma take_block_ok:
  assumes ok: "heap_ok h (u @ (a, s) # v) L R" and k: "k \<le> 3" and sz: "MIN_SIZE \<le> sz" "sz \<le> 2 ^ 62"
    and fit: "total_needed a (2 ^ k) sz \<le> s" and t: "take_block (lastp u) a (2 ^ k) sz h = (h', p)"
  obtains bs where "p = a + 8" "heap_ok h' bs (a # L) R" "2 ^ k dvd p" "sz + 8 \<le> header h' a"
    "\<And>b. b \<noteq> a \<Longrightarrow> header h' b = header h b"
proof -
  let ?n = "total_needed a (2 ^ k) sz"
  have b: "block_ok (a, s)" using heap_okD(2) [OF ok, of "(a, s)"] by simp
  have "a + s \<le> 2 ^ 34" by (rule block_bound [OF ok]) simp
  then have a: "8 dvd a" "a \<le> 2 ^ 34" using b by (simp_all add: block_ok_def)
  note st = aligned_start_8 [OF a k] and n = total_needed_8 [OF a k sz(2)]
  have aL: "a \<notin> set L" and d: "distinct (map fst (u @ v))" using heap_okD(7) [OF ok] by auto
  define h1 where "h1 = link (lastp u) (fb_next (blk h a)) h"
  have hs: "header h1 = header h" "total_size h1 = total_size h" by (simp_all add: h1_def)
  have "seg (blk h) (free_list h) u (Some a)" "seg (blk h) (fb_next (blk h a)) v None" and s: "fb_size (blk h a) = s"
    using heap_okD(1) [OF ok] by (auto simp: seg_append)
  then have f1: "free_blocks h1 (u @ v)" unfolding h1_def using d by (intro seg_link)
  have cov: "cover (u @ v) i + inside i (a, s) + cover (live_blocks h L) i = of_bool (i \<in> R)" for i
    using heap_okD(4) [OF ok, of i] by simp
  have lv: "live_blocks h' (a # L) = (a, header h' a) # live_blocks h L" if "\<And>b. b \<noteq> a \<Longrightarrow> header h' b = header h b"
  proof -
    have "live_blocks h' L = live_blocks h L" by (rule live_blocks_cong) (metis aL that)
    then show ?thesis by (simp add: live_blocks_def)
  qed
  have bok: "block_ok x" if "x \<in> set (u @ v)" for x using heap_okD(2) [OF ok, of x] that by auto
  show ?thesis
  proof (cases "s - ?n > MIN_SIZE * 2")
    case True
    have e: "p = a + 8" "free_list h' = Some (a + ?n)" "total_size h' = total_size h"
      "blk h' = (blk h1)(a + ?n := \<lparr>fb_size = s - ?n, fb_next = free_list h1\<rparr>)"
      "header h' = (header h)(a := ?n)"
      using t True by (auto simp: take_block_def Let_def st s hs h1_def [symmetric])
    have hdr: "header h' b = header h b" if "b \<noteq> a" for b using that e(5) by simp
    then have lv': "live_blocks h' (a # L) = (a, header h' a) # live_blocks h L" by (rule lv)
    have "heap_ok h' ((a + ?n, s - ?n) # u @ v) (a # L) R"
    proof (rule heap_okI)
      show "free_blocks h' ((a + ?n, s - ?n) # u @ v)" if "distinct (map fst ((a + ?n, s - ?n) # u @ v))"
        using that f1 e(2,4) by (simp add: image_Un)
      show "block_ok x" if "x \<in> set ((a + ?n, s - ?n) # u @ v)" for x
        using that bok b n(1) True by (auto simp: block_ok_def)
      show "block_ok (b, header h' b)" if "b \<in> set (a # L)" for b
        using that heap_okD(3) [OF ok, of b] a(1) n(1,2) sz(1) e(5) by (auto simp: block_ok_def)
      show "cover ((a + ?n, s - ?n) # u @ v) i + cover (live_blocks h' (a # L)) i = of_bool (i \<in> R)" for i
        unfolding lv' using cov [of i] inside_split [OF fit, of i a] e(5) by simp
      show "total_size h' = bytes_of ((a + ?n, s - ?n) # u @ v) + bytes_of (live_blocks h' (a # L))"
        unfolding lv' using heap_okD(5) [OF ok] e(3,5) fit by simp
    qed (rule heap_okD(6) [OF ok])
    moreover have "sz + 8 \<le> header h' a" using e(5) n(2) by simp
    ultimately show ?thesis using that [OF e(1)] st(2) e(1) hdr by simp
  next
    case False
    have e: "p = a + 8" "free_list h' = free_list h1" "total_size h' = total_size h"
      "blk h' = blk h1" "header h' = (header h)(a := s)"
      using t False by (auto simp: take_block_def Let_def st s hs h1_def [symmetric])
    have hdr: "header h' b = header h b" if "b \<noteq> a" for b using that e(5) by simp
    then have lv': "live_blocks h' (a # L) = (a, header h' a) # live_blocks h L" by (rule lv)
    have "heap_ok h' (u @ v) (a # L) R"
    proof (rule heap_okI)
      show "free_blocks h' (u @ v)" using f1 e(2,4) by simp
      show "block_ok (b, header h' b)" if "b \<in> set (a # L)" for b
        using that heap_okD(3) [OF ok, of b] b e(5) by auto
      show "cover (u @ v) i + cover (live_blocks h' (a # L)) i = of_bool (i \<in> R)" for i
        unfolding lv' using cov [of i] e(5) by simp
      show "total_size h' = bytes_of (u @ v) + bytes_of (live_blocks h' (a # L))"
        unfolding lv' using heap_okD(5) [OF ok] e(3,5) by simp
    qed (use bok heap_okD(6) [OF ok] in auto)
    moreover have "sz + 8 \<le> header h' a" using e(5) n(2) fit by simp
    ultimately show ?thesis using that [OF e(1)] st(2) e(1) hdr by simp
  qed
qed

lemma try_allocate_ok:
  assumes ok: "heap_ok h bs L R" and k: "k \<le> 3" and sz: "sz \<le> 2 ^ 62"
  obtains (found) h' bs' a where "try_allocate sz (2 ^ k) h = Some (h', Some (a + 8))" "heap_ok h' bs' (a # L) R"
      "2 ^ k dvd a + 8" "sz + 8 \<le> header h' a" "\<And>b. b \<noteq> a \<Longrightarrow> header h' b = header h b"
  | (none) "try_allocate sz (2 ^ k) h = Some (h, None)"
      "\<And>a s. (a, s) \<in> set bs \<Longrightarrow> s < align_up (8 + max sz MIN_SIZE) 8"
proof -
  let ?m = "max sz MIN_SIZE"
  have m: "MIN_SIZE \<le> ?m" "?m \<le> 2 ^ 62" using sz by (simp_all add: MIN_SIZE_def)
  have f: "free_blocks h bs" by (rule heap_okD(1) [OF ok])
  have tr: "try_allocate sz (2 ^ k) h =
     (case List.extract (\<lambda>(a, s). total_needed a (2 ^ k) ?m \<le> s) bs of
        None \<Rightarrow> Some (h, None)
      | Some (u, (a, s), v) \<Rightarrow> Some (map_prod id Some (take_block (lastp u) a (2 ^ k) ?m h)))"
    using try_allocate_from_eq [OF f, of ?m "2 ^ k" "[]", unfolded append_Nil lastp_simps] by (simp add: try_allocate_def)
  show ?thesis
  proof (cases "List.extract (\<lambda>(a, s). total_needed a (2 ^ k) ?m \<le> s) bs")
    case None
    have "s < align_up (8 + ?m) 8" if "(a, s) \<in> set bs" for a s
    proof -
      have "block_ok (a, s)" "a + s \<le> 2 ^ 34"
        using heap_okD(2) [OF ok that] block_bound [OF ok] that by blast+
      then have "8 dvd a" "a \<le> 2 ^ 34" by (simp_all add: block_ok_def)
      with total_needed_8(4) [OF _ _ k m(2)] None that show ?thesis
        by (auto simp: extract_None_iff)
    qed
    with none tr None show ?thesis by simp
  next
    case (Some r)
    obtain u a s v where r: "r = (u, (a, s), v)" by (cases r) auto
    then have bs: "bs = u @ (a, s) # v" and fit: "total_needed a (2 ^ k) ?m \<le> s"
      using Some by (auto simp: extract_Some_iff)
    obtain h' p where t: "take_block (lastp u) a (2 ^ k) ?m h = (h', p)" by fastforce
    have e: "try_allocate sz (2 ^ k) h = Some (h', Some p)" using tr Some r t by simp
    obtain bs' where "p = a + 8" "heap_ok h' bs' (a # L) R" "2 ^ k dvd p" "?m + 8 \<le> header h' a"
      "\<And>b. b \<noteq> a \<Longrightarrow> header h' b = header h b"
      using take_block_ok [OF ok [unfolded bs] k m fit t] by metis
    with found e show ?thesis by simp
  qed
qed

lemma deallocate_ok:
  assumes ok: "heap_ok h bs L R" and a: "a \<in> set L"
  obtains h' bs' where "deallocate (a + 8) h = Some h'" "heap_ok h' bs' (remove1 a L) R" "header h' = header h"
proof -
  let ?s = "header h a"
  define h1 where "h1 = set_size a ?s h"
  have d: "distinct (map fst bs @ L)" by (rule heap_okD(7) [OF ok])
  then have na: "a \<notin> fst ` set bs" "a \<notin> set (remove1 a L)" using a by auto
  have f1: "free_blocks h1 bs" using heap_okD(1) [OF ok] na(1) by (simp add: h1_def)
  then obtain u v cur where uv: "bs = u @ v" "seek a None (free_list h1) h1 = Some (lastp u, cur)"
    "seg (blk h1) (free_list h1) u cur" "seg (blk h1) cur v None"
    by (rule seek_obtain)
  let ?h2 = "dealloc_insert a (lastp u) cur h1"
  have hd2: "header ?h2 = header h" "total_size ?h2 = total_size h"
    by (auto simp: dealloc_insert_def Let_def h1_def split: option.splits)
  have "distinct (map fst (u @ (a, ?s) # v))" using d na(1) uv(1) by auto
  then have f2: "free_blocks ?h2 (coal_prev u (coal (a, ?s) v))"
    using f1 uv by (intro seg_dealloc_insert) (simp_all add: h1_def)
  let ?h' = "?h2\<lparr>allocated_bytes := allocated_bytes ?h2 - ?s\<rparr>"
  have e: "deallocate (a + 8) h = Some ?h'"
    using uv(2) by (simp add: deallocate_def Let_def h1_def)
  have "mset L = mset (a # remove1 a L)" using a by simp
  then have "mset (live_blocks h L) = mset (live_blocks h (a # remove1 a L))"
    unfolding live_blocks_def by (metis mset_map)
  then have "mset (live_blocks h L) = mset ((a, ?s) # live_blocks h (remove1 a L))"
    by (simp add: live_blocks_def)
  then have lv: "cover (live_blocks h L) i = inside i (a, ?s) + cover (live_blocks h (remove1 a L)) i"
    "bytes_of (live_blocks h L) = ?s + bytes_of (live_blocks h (remove1 a L))" for i
    unfolding cover_def by (metis list.simps(9) mset_map snd_conv sum_list.Cons sum_mset_sum_list)+
  have bs: "\<forall>x\<in>set u. block_ok x" "block_ok (a, ?s)" "\<forall>x\<in>set v. block_ok x"
    using heap_okD(2,3) [OF ok] uv(1) a by auto
  have "heap_ok ?h' (coal_prev u (coal (a, ?s) v)) (remove1 a L) R"
  proof (rule heap_okI)
    show "free_blocks ?h' (coal_prev u (coal (a, ?s) v))" using f2 by simp
    show "block_ok x" if "x \<in> set (coal_prev u (coal (a, ?s) v))" for x
      using block_ok_coal_prev [OF bs(1) block_ok_coal [OF bs(2,3)]] that by blast
    show "block_ok (b, header ?h' b)" if "b \<in> set (remove1 a L)" for b
      using heap_okD(3) [OF ok, of b] that hd2 set_remove1_subset [of a L] by auto
    show "cover (coal_prev u (coal (a, ?s) v)) i + cover (live_blocks ?h' (remove1 a L)) i = of_bool (i \<in> R)" for i
      using heap_okD(4) [OF ok, of i] lv(1) [of i] uv(1) live_blocks_cong [of "remove1 a L" ?h' h] hd2
      by (simp del: coal_prev.simps)
    show "total_size ?h' = bytes_of (coal_prev u (coal (a, ?s) v)) + bytes_of (live_blocks ?h' (remove1 a L))"
      using heap_okD(5) [OF ok] lv(2) uv(1) live_blocks_cong [of "remove1 a L" ?h' h] hd2
      by (simp del: coal_prev.simps)
  qed (rule heap_okD(6) [OF ok])
  with that e hd2 show ?thesis by simp
qed

text \<open>The heap's region is made of frames that the frame allocator does not hold free.\<close>

definition off_heap :: "FrameAllocator \<Rightarrow> nat set \<Rightarrow> bool" where
  "off_heap fa R \<longleftrightarrow> (\<forall>i \<in> free_set fa. {i * 4096..<i * 4096 + 4096} \<inter> R = {})"

definition run_bytes :: "nat \<Rightarrow> nat \<Rightarrow> nat set" where
  "run_bytes k n = {k * 4096..<k * 4096 + n * 4096}"

lemma run_bytes_frame: "i \<in> run_bytes k n \<longleftrightarrow> i div 4096 \<in> {k..<k + n}"
  unfolding run_bytes_def by (auto simp: less_mult_imp_div_less div_less_iff_less_mult less_eq_div_iff_mult_less_eq algebra_simps)

lemma off_heap_run:
  assumes "off_heap fa R" "{k..<k + n} \<subseteq> free_set fa" and that: "free_set fa' = free_set fa - {k..<k + n}"
  shows "run_bytes k n \<inter> R = {}" "off_heap fa' (R \<union> run_bytes k n)"
proof -
  show "run_bytes k n \<inter> R = {}"
  proof (intro equals0I)
    fix i assume "i \<in> run_bytes k n \<inter> R"
    then have "i div 4096 \<in> free_set fa" "i \<in> R" using assms(2) by (auto simp: run_bytes_frame)
    moreover have "i \<in> {i div 4096 * 4096..<i div 4096 * 4096 + 4096}"
      using div_mult_mod_eq [of i 4096] mod_less_divisor [of 4096 i] unfolding atLeastLessThan_iff by linarith
    ultimately show False using assms(1) unfolding off_heap_def by blast
  qed
  show "off_heap fa' (R \<union> run_bytes k n)"
    unfolding off_heap_def that
  proof (intro ballI equals0I)
    fix i b assume i: "i \<in> free_set fa - {k..<k + n}" and b: "b \<in> {i * 4096..<i * 4096 + 4096} \<inter> (R \<union> run_bytes k n)"
    then have "b div 4096 = i" by (auto intro!: div_nat_eqI)
    with i b have "b \<in> R" by (auto simp: run_bytes_frame)
    with i b assms(1) show False unfolding off_heap_def by blast
  qed
qed

lemma coal_large: "\<exists>a s'. (a, s') \<in> set (coal (x, s) v) \<and> s \<le> s'"
  using coal_Cons [of x s v]
  by (cases "((x, s), v)" rule: coal.cases) (auto intro: le_add1)

lemma grow_blocks_large: "\<exists>a s'. (a, s') \<in> set (grow_blocks u (x, s) v) \<and> s \<le> s'"
  unfolding grow_blocks_def
  using coal_large [of "fst (last u)" "snd (last u) + s" v] coal_large [of x s v] by (auto; force)

lemma grow_insert_simps [simp]:
  "header (grow_insert x p c h) = header h" "total_size (grow_insert x p c h) = total_size h"
  by (auto simp: grow_insert_def Let_def split: option.splits)

lemma inside_run: "inside i (k * 4096, n * 4096) = of_bool (i \<in> run_bytes k n)"
  by (simp add: inside_def run_bytes_def)

definition grow_pages :: "nat \<Rightarrow> nat" where
  "grow_pages m = max ((m + 4096 - 1) div 4096) GROW_MIN_PAGES"

lemma grow_ok:
  assumes ok: "heap_ok h bs L R" and fa: "fa_inv fa" "off_heap fa R"
  obtains (grown) h' fa' bs' k where "grow m fa h = Some (h', fa', True)" "run_free fa (grow_pages m) k"
      "free_set fa' = free_set fa - {k..<k + grow_pages m}" "fa_inv fa'"
      "heap_ok h' bs' L (R \<union> run_bytes k (grow_pages m))" "off_heap fa' (R \<union> run_bytes k (grow_pages m))"
      "header h' = header h" "total_size h' = total_size h + grow_pages m * 4096"
      "\<exists>a s. (a, s) \<in> set bs' \<and> grow_pages m * 4096 \<le> s" "bs = [] \<Longrightarrow> bs' = [(k * 4096, grow_pages m * 4096)]"
  | (none) "grow m fa h = Some (h, fa, False)" "\<And>k. \<not> run_free fa (grow_pages m) k"
proof -
  let ?n = "grow_pages m"
  obtain fa' r where al: "allocate_contiguous_frames fa ?n = (fa', r)" by fastforce
  show ?thesis
  proof (cases r)
    case None
    with allocate_contiguous_None al have "fa' = fa" "\<And>k. \<not> run_free fa ?n k" by auto
    with none al None show ?thesis by (simp add: grow_def Let_def grow_pages_def)
  next
    case (Some phys)
    from al [unfolded Some] obtain k where k: "run_free fa ?n k" "phys = frame_addr k"
      "free_set fa' = free_set fa - {k..<k + ?n}" "fa_inv fa'"
      using allocate_contiguous_Some fa(1) by metis
    have tot: "total_frames fa \<le> MAX_FRAMES" using fa(1) by (simp add: fa_inv_def)
    have n0: "0 < ?n" by (simp add: grow_pages_def GROW_MIN_PAGES_def)
    have run: "k + ?n \<le> total_frames fa" "{k..<k + ?n} \<subseteq> free_set fa" using k(1) by (simp_all add: run_free_def)
    have "k < MAX_FRAMES" using run(1) tot n0 by linarith
    then have ph: "unat phys = k * 4096" using k(2) by (simp add: unat_frame_addr)
    note dj = off_heap_run [OF fa(2) run(2) k(3)]
    let ?b = "(k * 4096, ?n * 4096)"
    define h1 where "h1 = h\<lparr>blk := (blk h)(k * 4096 := \<lparr>fb_size = ?n * 4096, fb_next = None\<rparr>)\<rparr>"
    have cov: "cover bs i + inside i ?b + cover (live_blocks h L) i = of_bool (i \<in> R \<union> run_bytes k ?n)" for i
      using heap_okD(4) [OF ok, of i] dj(1) by (auto simp: inside_run)
    have bb: "block_ok ?b" using n0 by (simp add: block_ok_def MIN_SIZE_def dvd_mult)
    have ds: "distinct (map fst (?b # bs))"
    proof (rule cover_distinct)
      show "cover (?b # bs) i \<le> 1" for i using cov [of i] by (cases "i \<in> R \<union> run_bytes k ?n") auto
      show "0 < s" if "(a, s) \<in> set (?b # bs)" for a s
        using that heap_okD(2) [OF ok, of "(a, s)"] n0 by (auto simp: block_ok_def MIN_SIZE_def)
    qed
    have f1: "free_blocks h1 bs" using heap_okD(1) [OF ok] ds by (simp add: h1_def)
    then obtain u v cur where uv: "bs = u @ v" "seek (k * 4096) None (free_list h1) h1 = Some (lastp u, cur)"
      "seg (blk h1) (free_list h1) u cur" "seg (blk h1) cur v None"
      by (rule seek_obtain)
    let ?h2 = "grow_insert (k * 4096) (lastp u) cur h1"
    let ?h' = "?h2\<lparr>total_size := total_size ?h2 + ?n * 4096\<rparr>"
    have e: "grow m fa h = Some (?h', fa', True)"
      using al Some ph uv(2) by (simp add: grow_def Let_def grow_pages_def h1_def)
    have f2: "free_blocks ?h2 (grow_blocks u ?b v)"
      using f1 uv ds by (intro seg_grow_insert) (auto simp: h1_def)
    have hd2: "header ?h2 = header h" "total_size ?h2 = total_size h" by (simp_all add: h1_def)
    have lv: "live_blocks ?h' L = live_blocks h L" using hd2 by (intro live_blocks_cong) simp
    have "heap_ok ?h' (grow_blocks u ?b v) L (R \<union> run_bytes k ?n)"
    proof (rule heap_okI)
      show "free_blocks ?h' (grow_blocks u ?b v)" using f2 by simp
      show "block_ok x" if "x \<in> set (grow_blocks u ?b v)" for x
        using block_ok_grow_blocks [of u ?b v] bb heap_okD(2) [OF ok] uv(1) that by auto
      show "block_ok (a, header ?h' a)" if "a \<in> set L" for a
        using heap_okD(3) [OF ok that] hd2 by simp
      show "cover (grow_blocks u ?b v) i + cover (live_blocks ?h' L) i = of_bool (i \<in> R \<union> run_bytes k ?n)" for i
        unfolding lv using cov [of i] uv(1) by simp
      show "total_size ?h' = bytes_of (grow_blocks u ?b v) + bytes_of (live_blocks ?h' L)"
        unfolding lv using heap_okD(5) [OF ok] uv(1) hd2 by simp
      have "run_bytes k ?n \<subseteq> {..<2 ^ 34}"
      proof
        fix i assume "i \<in> run_bytes k ?n"
        then have "i < (k + ?n) * 4096" by (simp add: run_bytes_def algebra_simps)
        also have "\<dots> \<le> MAX_FRAMES * 4096" using run(1) tot by (intro mult_right_mono) linarith+
        finally show "i \<in> {..<2 ^ 34}" by (simp add: MAX_FRAMES_eq)
      qed
      with heap_okD(6) [OF ok] show "R \<union> run_bytes k ?n \<subseteq> {..<2 ^ 34}" by blast
    qed
    moreover have "bs = [] \<Longrightarrow> grow_blocks u ?b v = [?b]" using uv(1) by (simp add: grow_blocks_def)
    ultimately show ?thesis
      using grown [OF e k(1,3,4) _ dj(2)] hd2 grow_blocks_large by simp
  qed
qed

lemma heap_ok_client_writes:
  assumes "heap_ok h bs L R" "\<And>a. a \<in> fst ` set bs \<Longrightarrow> b a = blk h a" "\<And>a. a \<in> set L \<Longrightarrow> f a = header h a"
  shows "heap_ok (h\<lparr>blk := b, header := f\<rparr>) bs L R"
proof -
  have "seg b p bs None = seg (blk h) p bs None" for p
    using assms(2) by (induction bs arbitrary: p) auto
  moreover have "live_blocks (h\<lparr>blk := b, header := f\<rparr>) L = live_blocks h L"
    using assms(3) by (intro live_blocks_cong) simp
  ultimately show ?thesis using assms(1) by (simp add: heap_ok_def)
qed

lemma allocate_ok:
  assumes ok: "heap_ok h bs L R" and fa: "fa_inv fa" "off_heap fa R" and k: "k \<le> 3" and sz: "sz \<le> 2 ^ 62"
  obtains (got) h' fa' a bs' R' where "allocate sz (2 ^ k) fa h = Some (h', fa', Some (a + 8))"
      "heap_ok h' bs' (a # L) R'" "R \<subseteq> R'" "fa_inv fa'" "off_heap fa' R'" "2 ^ k dvd a + 8"
      "sz + 8 \<le> header h' a" "\<And>b. b \<in> set L \<Longrightarrow> header h' b = header h b" "free_set fa' \<subseteq> free_set fa"
  | (refused) h' fa' bs' R' where "allocate sz (2 ^ k) fa h = Some (h', fa', None)"
      "heap_ok h' bs' L R'" "R \<subseteq> R'" "fa_inv fa'" "off_heap fa' R'" "header h' = header h" "free_set fa' \<subseteq> free_set fa"
      "\<And>a s. (a, s) \<in> set bs' \<Longrightarrow> s < align_up (8 + max sz MIN_SIZE) 8"
      "(\<forall>j. \<not> run_free fa (grow_pages (align_up (max sz MIN_SIZE) GROW_INCREMENT)) j)
       \<or> grow_pages (align_up (max sz MIN_SIZE) GROW_INCREMENT) * 4096 < align_up (8 + max sz MIN_SIZE) 8"
proof -
  let ?m = "align_up (max sz MIN_SIZE) GROW_INCREMENT"
  show ?thesis
  proof (rule try_allocate_ok [OF ok k sz])
    fix h' bs' a
    assume "try_allocate sz (2 ^ k) h = Some (h', Some (a + 8))" and ok': "heap_ok h' bs' (a # L) R"
      and rest: "2 ^ k dvd a + 8" "sz + 8 \<le> header h' a" and hdr: "\<And>b. b \<noteq> a \<Longrightarrow> header h' b = header h b"
    then have e: "allocate sz (2 ^ k) fa h = Some (h', fa, Some (a + 8))" by (simp add: allocate_def)
    have "header h' b = header h b" if "b \<in> set L" for b
      using hdr [of b] heap_okD(7) [OF ok'] that by (cases "b = a") simp_all
    with got [OF e ok' order_refl fa rest] show ?thesis by simp
  next
    assume t: "try_allocate sz (2 ^ k) h = Some (h, None)"
      and small: "\<And>a s. (a, s) \<in> set bs \<Longrightarrow> s < align_up (8 + max sz MIN_SIZE) 8"
    from ok fa show ?thesis
    proof (cases rule: grow_ok [where m = ?m])
      case none
      then have "allocate sz (2 ^ k) fa h = Some (h, fa, None)" using t by (simp add: allocate_def)
      then show ?thesis
        by (rule refused [OF _ ok order_refl fa refl order_refl]) (use small none(2) in blast)+
    next
      case (grown h1 fa1 bs1 j)
      have sub: "R \<subseteq> R \<union> run_bytes j (grow_pages ?m)" "free_set fa1 \<subseteq> free_set fa" using grown(3) by auto
      show ?thesis
      proof (rule try_allocate_ok [OF grown(5) k sz])
        fix h' bs' a
        assume "try_allocate sz (2 ^ k) h1 = Some (h', Some (a + 8))"
          and ok': "heap_ok h' bs' (a # L) (R \<union> run_bytes j (grow_pages ?m))"
          and rest: "2 ^ k dvd a + 8" "sz + 8 \<le> header h' a" and hdr: "\<And>b. b \<noteq> a \<Longrightarrow> header h' b = header h1 b"
        then have e: "allocate sz (2 ^ k) fa h = Some (h', fa1, Some (a + 8))"
          using t grown(1) by (simp add: allocate_def)
        have "header h' b = header h b" if "b \<in> set L" for b
          using hdr [of b] heap_okD(7) [OF ok'] that grown(7) by (cases "b = a") simp_all
        from got [OF e ok' sub(1) grown(4,6) rest this sub(2)] show ?thesis .
      next
        assume "try_allocate sz (2 ^ k) h1 = Some (h1, None)"
          and small: "\<And>a s. (a, s) \<in> set bs1 \<Longrightarrow> s < align_up (8 + max sz MIN_SIZE) 8"
        then have e: "allocate sz (2 ^ k) fa h = Some (h1, fa1, None)" using t grown(1) by (simp add: allocate_def)
        have "grow_pages ?m * 4096 < align_up (8 + max sz MIN_SIZE) 8" using grown(9) small by fastforce
        then show ?thesis
          by (intro refused [OF e grown(5) sub(1) grown(4,6,7) sub(2)]) (use small in blast)+
      qed
    qed
  qed
qed

lemma heap_init_ok:
  assumes "heap_init fa (heap_empty b hds) = Some (fa', h)" "fa_inv fa"
  obtains k where "heap_ok h [(k * 4096, HEAP_SIZE)] [] (run_bytes k 256)" "fa_inv fa'"
    "off_heap fa' (run_bytes k 256)" "run_free fa 256 k" "total_size h = HEAP_SIZE" "allocated_bytes h = 0"
proof -
  obtain phys where al: "allocate_contiguous_frames fa 256 = (fa', Some phys)"
    and h: "h = init_heap (heap_empty b hds) (unat phys) HEAP_SIZE"
    using assms(1) by (auto simp: heap_init_def HEAP_SIZE_def split: prod.splits option.splits)
  from al obtain k where k: "run_free fa 256 k" "phys = frame_addr k"
    "free_set fa' = free_set fa - {k..<k + 256}" "fa_inv fa'"
    using allocate_contiguous_Some assms(2) by metis
  have run: "k + 256 \<le> MAX_FRAMES" "{k..<k + 256} \<subseteq> free_set fa"
    using k(1) assms(2) by (simp_all add: run_free_def fa_inv_def)
  have ph: "unat phys = k * 4096" using k(2) run(1) by (simp add: unat_frame_addr)
  have "off_heap fa {}" by (simp add: off_heap_def)
  from off_heap_run(2) [OF this run(2) k(3)] have off: "off_heap fa' (run_bytes k 256)" by simp
  have "heap_ok h [(k * 4096, HEAP_SIZE)] [] (run_bytes k 256)"
  proof (rule heap_okI)
    show "free_blocks h [(k * 4096, HEAP_SIZE)]" by (simp add: h ph init_heap_def)
    show "block_ok x" if "x \<in> set [(k * 4096, HEAP_SIZE)]" for x
      using that by (simp add: block_ok_def HEAP_SIZE_def MIN_SIZE_def dvd_mult)
    show "cover [(k * 4096, HEAP_SIZE)] i + cover (live_blocks h []) i = of_bool (i \<in> run_bytes k 256)" for i
      using inside_run [of i k 256] by (simp add: live_blocks_def HEAP_SIZE_def)
    show "run_bytes k 256 \<subseteq> {..<2 ^ 34}"
      using run(1) by (auto simp: run_bytes_def MAX_FRAMES_eq)
  qed (simp_all add: live_blocks_def h init_heap_def)
  with that k(4) off k(1) show ?thesis by (simp add: h init_heap_def)
qed

lemma stats_from_eq:
  assumes "seg (blk h) cur xs None"
  shows "stats_from cur h n l t = Some (n + length xs, foldl max l (map snd xs), t + bytes_of xs)"
  using assms
proof (induction xs arbitrary: cur n l t)
  case Nil
  then show ?case by (subst stats_from.simps) simp
next
  case (Cons x xs)
  obtain a s where x: "x = (a, s)" by (cases x)
  with Cons.prems have c: "cur = Some a" "fb_size (blk h a) = s" "seg (blk h) (fb_next (blk h a)) xs None" by auto
  have "(if l < s then s else l) = max l s" by (simp add: max_def)
  then show ?case using c x Cons.IH [OF c(3)] by (subst stats_from.simps) (simp add: algebra_simps)
qed

lemma foldl_max_Max: "foldl max l xs = Max (set (l # xs))" for xs :: "nat list"
  by (simp only: Max.set_eq_fold foldl_conv_fold max.commute)


subsection \<open>What the kernel's code relies on\<close>

text \<open>
  A client asks for memory and gives back what it holds: \<^verbatim>\<open>Alloc sz k\<close> is a request for
  \<^verbatim>\<open>sz\<close> bytes aligned to \<^verbatim>\<open>2^k\<close>, \<^verbatim>\<open>Free i\<close> returns the \<^verbatim>\<open>i\<close>-th of the allocations
  it holds. The allocations held are pairs of pointer and requested size, the most recent first.
\<close>

datatype request = Alloc nat nat | Free nat

fun serve :: "(nat \<Rightarrow> nat \<Rightarrow> 's \<Rightarrow> ('s \<times> nat option) option) \<Rightarrow> (nat \<Rightarrow> 's \<Rightarrow> 's option) \<Rightarrow>
    request list \<Rightarrow> 's \<Rightarrow> (nat \<times> nat) list \<Rightarrow> ('s \<times> (nat \<times> nat) list) option" where
  "serve al fr [] s L = Some (s, L)"
| "serve al fr (Alloc sz k # rs) s L =
     (case al sz k s of
        None \<Rightarrow> None
      | Some (s', None) \<Rightarrow> serve al fr rs s' L
      | Some (s', Some p) \<Rightarrow> serve al fr rs s' ((p, sz) # L))"
| "serve al fr (Free i # rs) s L =
     (if i < length L
      then case fr (fst (L ! i)) s of None \<Rightarrow> None | Some s' \<Rightarrow> serve al fr rs s' (remove1 (L ! i) L)
      else serve al fr rs s L)"

fun sane :: "request \<Rightarrow> bool" where
  "sane (Alloc sz k) \<longleftrightarrow> sz \<le> 2 ^ 62 \<and> k \<le> 3"
| "sane (Free i) \<longleftrightarrow> True"

definition apart :: "nat \<times> nat \<Rightarrow> nat \<times> nat \<Rightarrow> bool" where
  "apart = (\<lambda>(p, n) (q, m). p + n \<le> q \<or> q + m \<le> p)"

locale memory_provider =
  fixes al :: "nat \<Rightarrow> nat \<Rightarrow> 's \<Rightarrow> ('s \<times> nat option) option"
    and fr :: "nat \<Rightarrow> 's \<Rightarrow> 's option"
    and owned :: "'s \<Rightarrow> (nat \<times> nat) list \<Rightarrow> bool"
  assumes al_owned: "owned s L \<Longrightarrow> sz \<le> 2 ^ 62 \<Longrightarrow> k \<le> 3 \<Longrightarrow>
      \<exists>s' r. al sz k s = Some (s', r) \<and> (case r of None \<Rightarrow> owned s' L | Some p \<Rightarrow> owned s' ((p, sz) # L) \<and> 2 ^ k dvd p)"
    and fr_owned: "owned s L \<Longrightarrow> x \<in> set L \<Longrightarrow> \<exists>s'. fr (fst x) s = Some s' \<and> owned s' (remove1 x L)"
    and owned_apart: "owned s L \<Longrightarrow> sorted_wrt apart L"
begin

lemma serve_owned:
  assumes "owned s L" "list_all sane rs"
  shows "\<exists>s' L'. serve al fr rs s L = Some (s', L') \<and> owned s' L'"
  using assms
proof (induction rs arbitrary: s L)
  case (Cons r rs)
  show ?case
  proof (cases r)
    case (Alloc sz k)
    with Cons.prems obtain s' q where a: "al sz k s = Some (s', q)"
      "case q of None \<Rightarrow> owned s' L | Some p \<Rightarrow> owned s' ((p, sz) # L) \<and> 2 ^ k dvd p"
      using al_owned [of s L sz k] by auto
    then show ?thesis using Alloc Cons.IH Cons.prems(2) by (cases q) simp_all
  next
    case (Free i)
    show ?thesis
    proof (cases "i < length L")
      case True
      then obtain s' where "fr (fst (L ! i)) s = Some s'" "owned s' (remove1 (L ! i) L)"
        using fr_owned [OF Cons.prems(1), of "L ! i"] by auto
      then show ?thesis using Free True Cons.IH Cons.prems(2) by simp
    next
      case False
      then show ?thesis using Free Cons.IH Cons.prems by simp
    qed
  qed
qed simp

lemma serve_apart:
  assumes "owned s L" "list_all sane rs"
  shows "\<exists>s' L'. serve al fr rs s L = Some (s', L') \<and> owned s' L' \<and> sorted_wrt apart L'"
  using serve_owned [OF assms] owned_apart by blast

end

definition heap_al :: "nat \<Rightarrow> nat \<Rightarrow> Heap \<times> FrameAllocator \<Rightarrow> ((Heap \<times> FrameAllocator) \<times> nat option) option" where
  "heap_al sz k = (\<lambda>(h, fa). map_option (\<lambda>(h', fa', r). ((h', fa'), r)) (allocate sz (2 ^ k) fa h))"

definition heap_fr :: "nat \<Rightarrow> Heap \<times> FrameAllocator \<Rightarrow> (Heap \<times> FrameAllocator) option" where
  "heap_fr p = (\<lambda>(h, fa). map_option (\<lambda>h'. (h', fa)) (deallocate p h))"

definition heap_owned :: "Heap \<times> FrameAllocator \<Rightarrow> (nat \<times> nat) list \<Rightarrow> bool" where
  "heap_owned = (\<lambda>(h, fa) L. fa_inv fa \<and>
     (\<exists>bs R. heap_ok h bs (map (\<lambda>x. fst x - 8) L) R \<and> off_heap fa R) \<and>
     (\<forall>(p, sz) \<in> set L. 8 \<le> p \<and> sz + 8 \<le> header h (p - 8)))"

lemma map_remove1_inj: "distinct (map f xs) \<Longrightarrow> x \<in> set xs \<Longrightarrow> map f (remove1 x xs) = remove1 (f x) (map f xs)"
  by (induction xs) (auto simp: image_iff)

lemma apart_of_cover:
  assumes "\<And>i. cover (map (\<lambda>x. (fst x - 8, f (fst x - 8))) L) i \<le> 1"
    and "\<forall>(p, sz) \<in> set L. 8 \<le> p \<and> sz + 8 \<le> f (p - 8)"
  shows "sorted_wrt apart L"
  using assms
proof (induction L)
  case (Cons x L)
  obtain p sz where x: "x = (p, sz)" by (cases x)
  have "apart x y" if "y \<in> set L" for y
  proof -
    obtain q m where y: "y = (q, m)" by (cases y)
    have b: "8 \<le> p" "sz + 8 \<le> f (p - 8)" "8 \<le> q" "m + 8 \<le> f (q - 8)"
      using Cons.prems(2) that x y by auto
    have "inside i (p - 8, f (p - 8)) + inside i (q - 8, f (q - 8)) \<le> 1" for i
    proof -
      have "(q - 8, f (q - 8)) \<in> set (map (\<lambda>x. (fst x - 8, f (fst x - 8))) L)"
        using that y by (auto intro!: image_eqI [of _ _ y])
      from cover_mem [OF this, of i] Cons.prems(1) [of i] show ?thesis using x by simp
    qed
    from this [of "max p q - 8"] b show ?thesis unfolding x y apart_def inside_def
      by (auto simp: max_def split: if_splits)
  qed
  moreover have "sorted_wrt apart L"
  proof (rule Cons.IH)
    show "cover (map (\<lambda>x. (fst x - 8, f (fst x - 8))) L) i \<le> 1" for i using Cons.prems(1) [of i] by simp
  qed (use Cons.prems(2) in auto)
  ultimately show ?case by simp
qed simp

interpretation hp: memory_provider heap_al heap_fr heap_owned
proof
  fix s :: "Heap \<times> FrameAllocator" and L :: "(nat \<times> nat) list" and sz k :: nat
  assume o: "heap_owned s L" and sz: "sz \<le> 2 ^ 62" and k: "k \<le> 3"
  obtain h fa where s: "s = (h, fa)" by (cases s)
  let ?A = "map (\<lambda>x. fst x - 8) L"
  from o s obtain bs R where ok: "heap_ok h bs ?A R" and fa: "fa_inv fa" "off_heap fa R"
    and L: "\<forall>(p, sz) \<in> set L. 8 \<le> p \<and> sz + 8 \<le> header h (p - 8)" by (auto simp: heap_owned_def)
  show "\<exists>s' r. heap_al sz k s = Some (s', r) \<and>
      (case r of None \<Rightarrow> heap_owned s' L | Some p \<Rightarrow> heap_owned s' ((p, sz) # L) \<and> 2 ^ k dvd p)"
  proof (rule allocate_ok [OF ok fa k sz])
    fix h' fa' a bs' R'
    assume a: "allocate sz (2 ^ k) fa h = Some (h', fa', Some (a + 8))" "heap_ok h' bs' (a # ?A) R'"
      "fa_inv fa'" "off_heap fa' R'" "2 ^ k dvd a + 8" "sz + 8 \<le> header h' a"
      and hdr: "\<And>b. b \<in> set ?A \<Longrightarrow> header h' b = header h b"
    have "\<forall>(p, sz) \<in> set L. 8 \<le> p \<and> sz + 8 \<le> header h' (p - 8)"
      using L hdr by fastforce
    moreover have "heap_ok h' bs' (map (\<lambda>x. fst x - 8) ((a + 8, sz) # L)) R'" using a(2) by simp
    ultimately have "heap_owned (h', fa') ((a + 8, sz) # L)"
      unfolding heap_owned_def using a(3,4,6) by auto
    with a(1,5) show ?thesis by (simp add: heap_al_def s)
  next
    fix h' fa' bs' R'
    assume "allocate sz (2 ^ k) fa h = Some (h', fa', None)" "heap_ok h' bs' ?A R'"
      "fa_inv fa'" "off_heap fa' R'" "header h' = header h"
    then show ?thesis using L by (auto simp: heap_al_def heap_owned_def s)
  qed
next
  fix s :: "Heap \<times> FrameAllocator" and L :: "(nat \<times> nat) list" and x
  assume o: "heap_owned s L" and x: "x \<in> set L"
  obtain h fa where s: "s = (h, fa)" by (cases s)
  let ?A = "map (\<lambda>x. fst x - 8) L"
  from o s obtain bs R where ok: "heap_ok h bs ?A R" and fa: "fa_inv fa" "off_heap fa R"
    and L: "\<forall>(p, sz) \<in> set L. 8 \<le> p \<and> sz + 8 \<le> header h (p - 8)" by (auto simp: heap_owned_def)
  have "fst x - 8 \<in> set ?A" using x by simp
  then obtain h' bs' where d: "deallocate (fst x - 8 + 8) h = Some h'"
    "heap_ok h' bs' (remove1 (fst x - 8) ?A) R" "header h' = header h"
    using deallocate_ok [OF ok] by metis
  have "fst x - 8 + 8 = fst x" using L x by (cases x) auto
  moreover have "remove1 (fst x - 8) ?A = map (\<lambda>x. fst x - 8) (remove1 x L)"
    using map_remove1_inj [of "\<lambda>x. fst x - 8" L x] heap_okD(7) [OF ok] x by simp
  ultimately show "\<exists>s'. heap_fr (fst x) s = Some s' \<and> heap_owned s' (remove1 x L)"
    using d fa L set_remove1_subset [of x L] by (auto simp: heap_fr_def heap_owned_def s)
next
  fix s :: "Heap \<times> FrameAllocator" and L :: "(nat \<times> nat) list"
  assume o: "heap_owned s L"
  obtain h fa where s: "s = (h, fa)" by (cases s)
  let ?A = "map (\<lambda>x. fst x - 8) L"
  from o s obtain bs R where ok: "heap_ok h bs ?A R"
    and L: "\<forall>(p, sz) \<in> set L. 8 \<le> p \<and> sz + 8 \<le> header h (p - 8)" by (auto simp: heap_owned_def)
  show "sorted_wrt apart L"
  proof (rule apart_of_cover [OF _ L])
    show "cover (map (\<lambda>x. (fst x - 8, header h (fst x - 8))) L) i \<le> 1" for i
      using heap_okD(4) [OF ok, of i] by (cases "i \<in> R") (auto simp: live_blocks_def comp_def)
  qed
qed


subsection \<open>Properties\<close>

lemma round_up_mult:
  fixes x g :: nat
  assumes "0 < x mod g" "0 < g"
  shows "(x + g - 1) div g * g = x - x mod g + g"
proof -
  define q r where "q = x div g" and "r = x mod g"
  have x: "x = q * g + r" and r: "0 < r" "r < g" using assms by (simp_all add: q_def r_def)
  have "(x + g - 1) div g = Suc q"
    by (rule div_nat_eqI) (use x r in \<open>simp_all add: algebra_simps\<close>)
  then show ?thesis unfolding r_def [symmetric] using x by simp
qed

lemma align_grow: "x \<le> 2 ^ 63 \<Longrightarrow> align_up x GROW_INCREMENT = (x + GROW_INCREMENT - 1) div GROW_INCREMENT * GROW_INCREMENT"
  using align_up_pow2 [of 18 x] by (simp add: GROW_INCREMENT_def)

lemma grow_pages_enough: "m \<le> grow_pages m * 4096"
proof -
  have "m \<le> (m + 4096 - 1) div 4096 * 4096"
    using div_mult_mod_eq [of "m + 4096 - 1" 4096] mod_less_divisor [of 4096 "m + 4096 - 1"] by linarith
  also have "\<dots> \<le> grow_pages m * 4096" unfolding grow_pages_def by (intro mult_right_mono) simp_all
  finally show ?thesis .
qed

lemma grow_slack:
  assumes "sz \<le> 2 ^ 62" "0 < sz mod GROW_INCREMENT" "sz mod GROW_INCREMENT \<le> GROW_INCREMENT - 8"
  shows "align_up (8 + max sz MIN_SIZE) 8 \<le> grow_pages (align_up (max sz MIN_SIZE) GROW_INCREMENT) * 4096"
proof -
  let ?g = GROW_INCREMENT
  define m where "m = max sz MIN_SIZE"
  have g: "?g = 262144" by (simp add: GROW_INCREMENT_def)
  have r: "0 < m mod ?g" "m mod ?g \<le> ?g - 8" "m \<le> 2 ^ 62"
    using assms by (auto simp: m_def max_def MIN_SIZE_def g)
  have e: "align_up m ?g = m - m mod ?g + ?g"
    using align_grow [of m] round_up_mult [OF r(1)] r(3) by (simp add: g)
  have a: "8 + m \<le> align_up m ?g" unfolding e using r(2) mod_less_eq_dividend [of m ?g] g by linarith
  have "align_up m ?g = (m + ?g - 1) div ?g * ?g" using align_grow [of m] r(3) by simp
  moreover have "8 dvd ?g" by (simp add: g)
  ultimately have d: "8 dvd align_up m ?g" by (simp add: dvd_mult)
  have "align_up (8 + m) 8 \<le> align_up m ?g"
  proof (rule ccontr)
    assume n: "\<not> ?thesis"
    have b: "8 dvd align_up (8 + m) 8" "align_up (8 + m) 8 < 8 + m + 8" using align_up_8 [of "8 + m"] r(3) by simp_all
    have "8 dvd align_up (8 + m) 8 - align_up m ?g" using b(1) d by (rule dvd_diff_nat)
    moreover have "0 < align_up (8 + m) 8 - align_up m ?g" "align_up (8 + m) 8 - align_up m ?g < 8"
      using n a b(2) by linarith+
    ultimately show False using nat_dvd_not_less by blast
  qed
  also have "\<dots> \<le> grow_pages (align_up m ?g) * 4096" by (rule grow_pages_enough)
  finally show ?thesis unfolding m_def .
qed

text \<open>
  C20: The heap serves its clients safely. After \<^verbatim>\<open>heap::init\<close>, any sequence of allocations (aligned to
  at most 8 bytes, including those that make the heap grow) and deallocations of what is held runs to
  its end: no loop over the free list runs forever. The allocations then held do not overlap, are 8-byte
  aligned, and none touches a frame the frame allocator would hand out.
\<close>

theorem heap_serves_safely:
  assumes "fa_inv fa" "heap_init fa (heap_empty b hds) = Some (fa', h)" "list_all sane rs"
  shows "\<exists>h1 fa1 L. serve heap_al heap_fr rs (h, fa') [] = Some ((h1, fa1), L) \<and> sorted_wrt apart L \<and>
     (\<forall>(p, sz) \<in> set L. 8 dvd p \<and>
        (\<forall>i \<in> free_set fa1. {p..<p + sz} \<inter> {i * 4096..<i * 4096 + 4096} = {}))"
proof -
  obtain k where "heap_ok h [(k * 4096, HEAP_SIZE)] [] (run_bytes k 256)" "fa_inv fa'" "off_heap fa' (run_bytes k 256)"
    using heap_init_ok [OF assms(2,1)] by metis
  then have "heap_owned (h, fa') []" by (auto simp: heap_owned_def)
  then obtain s L where s: "serve heap_al heap_fr rs (h, fa') [] = Some (s, L)" "heap_owned s L" "sorted_wrt apart L"
    using hp.serve_apart [OF _ assms(3)] by blast
  obtain h1 fa1 where sp: "s = (h1, fa1)" by (cases s)
  with s(2) obtain bs R where ok: "heap_ok h1 bs (map (\<lambda>x. fst x - 8) L) R" and off: "off_heap fa1 R"
    and L: "\<forall>(p, sz) \<in> set L. 8 \<le> p \<and> sz + 8 \<le> header h1 (p - 8)" by (auto simp: heap_owned_def)
  have "8 dvd p \<and> (\<forall>i \<in> free_set fa1. {p..<p + sz} \<inter> {i * 4096..<i * 4096 + 4096} = {})"
    if m: "(p, sz) \<in> set L" for p sz
  proof (intro conjI ballI)
    have mem: "p - 8 \<in> set (map (\<lambda>x. fst x - 8) L)" using m by force
    have p: "8 \<le> p" "sz + 8 \<le> header h1 (p - 8)" using L m by auto
    have "8 dvd p - 8" using heap_okD(3) [OF ok mem] by (simp add: block_ok_def)
    then have "8 dvd p - 8 + 8" by (rule dvd_add) simp
    then show "8 dvd p" using p(1) by simp
    have "{p..<p + sz} \<subseteq> R"
      using block_in_region [OF ok, of "p - 8" "header h1 (p - 8)"] mem p by auto
    then show "{p..<p + sz} \<inter> {i * 4096..<i * 4096 + 4096} = {}" if "i \<in> free_set fa1" for i
      using off that unfolding off_heap_def by blast
  qed
  then show ?thesis using s sp by auto
qed

lemma fold_mark_free:
  "set xs \<subseteq> {..<MAX_FRAMES} \<Longrightarrow> distinct xs \<Longrightarrow> set xs \<inter> free_set fa = {} \<Longrightarrow>
     free_set (fold (\<lambda>i f. mark_free f i) xs fa) = free_set fa \<union> set xs
   \<and> total_frames (fold (\<lambda>i f. mark_free f i) xs fa) = total_frames fa
   \<and> next_free_hint (fold (\<lambda>i f. mark_free f i) xs fa) = next_free_hint fa
   \<and> free_frames (fold (\<lambda>i f. mark_free f i) xs fa) = free_frames fa + length xs"
proof (induction xs arbitrary: fa)
  case (Cons x xs)
  have "next_free_hint (mark_free fa x) = next_free_hint fa" by (simp add: mark_free_def Let_def)
  moreover have "free_set (mark_free fa x) = insert x (free_set fa)" "free_frames (mark_free fa x) = free_frames fa + 1"
    using Cons.prems by (simp_all add: free_set_mark_free free_frames_mark_free)
  ultimately show ?case using Cons.IH [of "mark_free fa x"] Cons.prems by simp
qed simp

definition fa_pool :: "nat \<Rightarrow> FrameAllocator" where
  "fa_pool n = fold (\<lambda>i f. mark_free f i) [0..<n] (fa_new\<lparr>total_frames := n\<rparr>)"

lemma fa_pool:
  assumes "n \<le> MAX_FRAMES"
  shows "free_set (fa_pool n) = {0..<n}" "total_frames (fa_pool n) = n" "fa_inv (fa_pool n)" "m \<le> n \<Longrightarrow> 0 < n \<Longrightarrow> run_free (fa_pool n) m 0"
proof -
  have e: "free_set (fa_new\<lparr>total_frames := n\<rparr>) = {}"
    using free_set_new unfolding free_set_def is_free_bit by simp
  have sub: "set [0..<n] \<subseteq> {..<MAX_FRAMES}" using assms by auto
  have nw: "next_free_hint (fa_new\<lparr>total_frames := n\<rparr>) = 0" "free_frames (fa_new\<lparr>total_frames := n\<rparr>) = 0"
    by (simp_all add: fa_new_def)
  have f: "free_set (fa_pool n) = {0..<n}" "total_frames (fa_pool n) = n"
     "next_free_hint (fa_pool n) = 0" "free_frames (fa_pool n) = n"
    unfolding fa_pool_def using fold_mark_free [OF sub, of "fa_new\<lparr>total_frames := n\<rparr>"] e nw
    by simp_all
  then show "free_set (fa_pool n) = {0..<n}" "total_frames (fa_pool n) = n" by simp_all
  show "fa_inv (fa_pool n)" using f assms by (auto simp: fa_inv_def)
  show "m \<le> n \<Longrightarrow> 0 < n \<Longrightarrow> run_free (fa_pool n) m 0" using f by (auto simp: run_free_def)
qed

lemma heap_init_pool: "\<exists>fa' h. heap_init (fa_pool 512) (heap_empty b hds) = Some (fa', h)"
proof -
  have "run_free (fa_pool 512) 256 0" by (rule fa_pool(4)) (simp_all add: MAX_FRAMES_eq)
  then have "snd (allocate_contiguous_frames (fa_pool 512) 256) \<noteq> None"
    using allocate_contiguous_None [of "fa_pool 512" 256] by (metis prod.collapse)
  then show ?thesis by (auto simp: heap_init_def HEAP_SIZE_def split: prod.splits)
qed

theorem heap_serves_safely_witness:
  "\<exists>h1 fa1 L. (case heap_init (fa_pool 512) (heap_empty (\<lambda>a. \<lparr>fb_size = 0, fb_next = None\<rparr>) (\<lambda>a. 0)) of
       None \<Rightarrow> None | Some (fa', h) \<Rightarrow> serve heap_al heap_fr [Alloc 100 3, Alloc 2000000 0, Free 1] (h, fa') [])
     = Some ((h1, fa1), L) \<and> sorted_wrt apart L"
proof -
  obtain fa' h where h: "heap_init (fa_pool 512) (heap_empty (\<lambda>a. \<lparr>fb_size = 0, fb_next = None\<rparr>) (\<lambda>a. 0)) = Some (fa', h)"
    using heap_init_pool by blast
  have "fa_inv (fa_pool 512)" by (rule fa_pool(3)) (simp add: MAX_FRAMES_eq)
  from heap_serves_safely [OF this h, of "[Alloc 100 3, Alloc 2000000 0, Free 1]"]
  obtain h1 fa1 L where "serve heap_al heap_fr [Alloc 100 3, Alloc 2000000 0, Free 1] (h, fa') [] = Some ((h1, fa1), L)"
    "sorted_wrt apart L" by auto
  with h show ?thesis by auto
qed

text \<open>
  C21: A request the free list cannot serve is served by growing. On a consistent heap, if the frame
  allocator has the contiguous run that \<^verbatim>\<open>allocate\<close> asks for, an allocation (aligned to at most 8
  bytes) succeeds, provided its size leaves room for the 8-byte header in the last 256 KiB step. The
  block granted is new, holds the request and its header, and every other header is untouched.
\<close>

theorem heap_grows_on_demand:
  assumes "heap_ok h bs L R" "fa_inv fa" "off_heap fa R" "k \<le> 3" "sz \<le> 2 ^ 62"
    and "0 < sz mod GROW_INCREMENT" "sz mod GROW_INCREMENT \<le> GROW_INCREMENT - 8"
    and "run_free fa (grow_pages (align_up (max sz MIN_SIZE) GROW_INCREMENT)) j"
  shows "\<exists>h' fa' p bs' R'. allocate sz (2 ^ k) fa h = Some (h', fa', Some p) \<and> 8 \<le> p \<and> 2 ^ k dvd p \<and>
     heap_ok h' bs' ((p - 8) # L) R' \<and> off_heap fa' R' \<and> p - 8 \<notin> set L \<and> sz + 8 \<le> header h' (p - 8) \<and>
     (\<forall>b \<in> set L. header h' b = header h b)"
  using assms(1-5)
proof (cases rule: allocate_ok)
  case (got h' fa' a bs' R')
  have "a \<notin> set L" using heap_okD(7) [OF got(2)] by simp
  with got show ?thesis by (intro exI [of _ h'] exI [of _ fa'] exI [of _ "a + 8"] exI [of _ bs'] exI [of _ R']) simp
next
  case (refused h' fa' bs' R')
  from refused(9) grow_slack [OF assms(5-7)] assms(8) show ?thesis by force
qed

lemma heap_ok_empty: "heap_ok (heap_empty b hds) [] [] {}"
  by (simp add: heap_ok_def heap_empty_def live_blocks_def)

theorem heap_grows_on_demand_witness:
  "\<exists>h' fa' p bs' R'. allocate 100 8 (fa_pool 512) (heap_empty (\<lambda>a. \<lparr>fb_size = 0, fb_next = None\<rparr>) (\<lambda>a. 0)) = Some (h', fa', Some p)
     \<and> heap_ok h' bs' [p - 8] R' \<and> 108 \<le> header h' (p - 8)"
proof -
  have n: "(512 :: nat) \<le> MAX_FRAMES" by (simp add: MAX_FRAMES_eq)
  have "align_up (max 100 MIN_SIZE) GROW_INCREMENT = 262144"
    by (simp add: align_grow MIN_SIZE_def) (simp add: GROW_INCREMENT_def)
  then have "run_free (fa_pool 512) (grow_pages (align_up (max 100 MIN_SIZE) GROW_INCREMENT)) 0"
    by (intro fa_pool(4) [OF n]) (simp_all add: grow_pages_def GROW_MIN_PAGES_def)
  from heap_grows_on_demand [OF heap_ok_empty fa_pool(3) [OF n] _ _ _ _ _ this, of 3 "\<lambda>a. \<lparr>fb_size = 0, fb_next = None\<rparr>" "\<lambda>a. 0"]
  show ?thesis by (auto simp: off_heap_def GROW_INCREMENT_def; blast)
qed

text \<open>
  A request of a whole number of 256 KiB steps is refused whatever memory is free. The growth
  computed by \<^verbatim>\<open>allocate\<close> leaves no room for the header: on a heap without free blocks the heap takes
  the frames it asked for, the retry fails on the block of exactly that size, and the caller gets nothing.
\<close>

theorem heap_whole_steps_refused:
  assumes "heap_ok h [] L R" "fa_inv fa" "off_heap fa R" "k \<le> 3" "0 < m" "m * GROW_INCREMENT \<le> 2 ^ 62"
    and "run_free fa (m * 64) j"
  shows "\<exists>h' fa'. allocate (m * GROW_INCREMENT) (2 ^ k) fa h = Some (h', fa', None) \<and>
     total_size h' = total_size h + m * GROW_INCREMENT \<and> card (free_set fa') + m * 64 = card (free_set fa)"
proof -
  let ?s = "m * GROW_INCREMENT"
  have g: "?s = m * 262144" by (simp add: GROW_INCREMENT_def)
  have mx: "max ?s MIN_SIZE = ?s" using assms(5) by (simp add: g MIN_SIZE_def)
  have "(m * 262144 + 262143) div 262144 = m" by (rule div_nat_eqI) simp_all
  then have al: "align_up ?s GROW_INCREMENT = ?s"
    using align_grow [of ?s] assms(6) by (simp add: GROW_INCREMENT_def)
  have "(m * 262144 + 4095) div 4096 = m * 64" by (rule div_nat_eqI) simp_all
  then have gp: "grow_pages ?s = m * 64" using assms(5) by (simp add: grow_pages_def g GROW_MIN_PAGES_def)
  have t: "try_allocate ?s (2 ^ k) h = Some (h, None)"
    using assms(1,4,6)
  proof (cases rule: try_allocate_ok)
    case (found h' bs' a)
    have "try_allocate ?s (2 ^ k) h = Some (h, None)"
      using heap_okD(1) [OF assms(1)] unfolding try_allocate_def by (subst try_allocate_from.simps) simp
    then show ?thesis .
  qed
  show ?thesis
    using assms(1-3)
  proof (cases rule: grow_ok [where m = ?s])
    case none
    with assms(7) gp show ?thesis by simp
  next
    case (grown h1 fa1 bs1 i)
    have bs1: "bs1 = [(i * 4096, ?s)]" using grown(10) gp by (simp add: g)
    have run: "{i..<i + m * 64} \<subseteq> free_set fa" using grown(2) gp by (simp add: run_free_def)
    have "try_allocate ?s (2 ^ k) h1 = Some (h1, None)"
      using grown(5) assms(4,6)
    proof (cases rule: try_allocate_ok)
      case (found h' bs' a)
      have b: "block_ok (i * 4096, ?s)" "i * 4096 + ?s \<le> 2 ^ 34"
        using heap_okD(2) [OF grown(5)] block_bound [OF grown(5)] bs1 by simp_all
      then have "?s < total_needed (i * 4096) (2 ^ k) ?s"
        using total_needed_8(2) [of "i * 4096" k ?s] assms(4,6) by (simp add: block_ok_def)
      then have "try_allocate ?s (2 ^ k) h1 = Some (h1, None)"
        unfolding try_allocate_def mx
        using try_allocate_from_eq [OF heap_okD(1) [OF grown(5)], of ?s "2 ^ k" "[]"] bs1
        by (simp add: extract_Cons_code extract_Nil_code)
      then show ?thesis .
    qed
    then have "allocate ?s (2 ^ k) fa h = Some (h1, fa1, None)"
      using t grown(1) by (simp add: allocate_def mx al)
    moreover have "card (free_set fa1) + m * 64 = card (free_set fa)"
    proof -
      have "card (free_set fa1) = card (free_set fa) - card {i..<i + m * 64}"
        using grown(3) gp run by (simp add: card_Diff_subset)
      moreover have "card {i..<i + m * 64} \<le> card (free_set fa)" using run by (intro card_mono) simp_all
      ultimately show ?thesis by simp
    qed
    ultimately show ?thesis using grown(8) gp by (simp add: g)
  qed
qed

theorem heap_whole_steps_refused_witness:
  "\<exists>h' fa'. allocate (1 * GROW_INCREMENT) (2 ^ 3) (fa_pool 512) (heap_empty (\<lambda>a. \<lparr>fb_size = 0, fb_next = None\<rparr>) (\<lambda>a. 0)) = Some (h', fa', None)
     \<and> card (free_set fa') + 64 = 512"
proof -
  have n: "(512 :: nat) \<le> MAX_FRAMES" by (simp add: MAX_FRAMES_eq)
  have "run_free (fa_pool 512) (1 * 64) 0" by (intro fa_pool(4) [OF n]) simp_all
  from heap_whole_steps_refused [OF heap_ok_empty fa_pool(3) [OF n] _ _ _ _ this, of 3 "\<lambda>a. \<lparr>fb_size = 0, fb_next = None\<rparr>" "\<lambda>a. 0"]
  show ?thesis using fa_pool(1) [OF n] by (auto simp: off_heap_def GROW_INCREMENT_def)
qed

text \<open>
  The statistics are exact. On a consistent heap \<^verbatim>\<open>heap_stats\<close> returns, counts the free blocks,
  reports their largest and total size, and free bytes plus the sizes in the headers of the live
  allocations make up the total size.
\<close>

theorem heap_stats_balance:
  assumes "heap_ok h bs L R"
  shows "\<exists>st. stats h = Some st \<and> hs_free_blocks st = length bs \<and> hs_free_bytes st = (\<Sum>(a, s) \<leftarrow> bs. s) \<and>
     hs_largest_free_block st = Max (set (0 # map snd bs)) \<and>
     hs_free_bytes st + (\<Sum>a \<leftarrow> L. header h a) = hs_total_size st"
proof -
  have "stats_from (free_list h) h 0 0 0 = Some (length bs, foldl max 0 (map snd bs), bytes_of bs)"
    using stats_from_eq [OF heap_okD(1) [OF assms], of 0 0 0] by simp
  moreover have "bytes_of (live_blocks h L) = (\<Sum>a \<leftarrow> L. header h a)" by (simp add: live_blocks_def comp_def)
  moreover have "(\<Sum>(a, s) \<leftarrow> bs. s) = bytes_of bs" by (simp add: case_prod_unfold)
  ultimately show ?thesis
    using heap_okD(5) [OF assms] by (simp add: stats_def foldl_max_Max)
qed

theorem heap_stats_balance_witness:
  "\<exists>st. stats (init_heap (heap_empty (\<lambda>a. \<lparr>fb_size = 0, fb_next = None\<rparr>) (\<lambda>a. 0)) 0x200000 4096) = Some st
     \<and> hs_free_bytes st = 4096 \<and> hs_free_blocks st = 1"
proof -
  have "heap_ok (init_heap (heap_empty (\<lambda>a. \<lparr>fb_size = 0, fb_next = None\<rparr>) (\<lambda>a. 0)) 0x200000 4096) [(0x200000, 4096)] [] {0x200000..<0x201000}"
    by (auto simp: heap_ok_def init_heap_def live_blocks_def block_ok_def MIN_SIZE_def inside_def heap_empty_def)
  from heap_stats_balance [OF this] show ?thesis by auto
qed


end
