(* ===== verification/Scheduler.thy ===== *)
theory Scheduler
  imports Frame_Allocator
begin

text \<open>
  The preemptive scheduler, \<^verbatim>\<open>kernel/src/core_kernel/scheduler.rs\<close>, and the timer interrupt that
  drives it (\<^verbatim>\<open>handle_timer_switch\<close> of \<^verbatim>\<open>kernel/src/hal/idt.rs\<close>). A \<^verbatim>\<open>System\<close> holds the
  statics the code locks: the scheduler, the deferred stack to free, the frame allocator; and what the
  code reaches by assembly or raw pointers: the FPU registers and the words of the task stacks.
  \<^verbatim>\<open>sched_locked\<close> says that the interrupted code holds the scheduler's lock, which makes
  \<^verbatim>\<open>try_lock\<close> fail; every other operation waits for the lock and is modelled from the moment it has it.
  What \<^verbatim>\<open>fninit\<close> makes of the FPU registers is the processor's business and a parameter of the tick.
\<close>


subsection \<open>Priorities, states and tasks\<close>

datatype TaskPriority = Idle | Low | Normal | High | Realtime

fun prio_val :: "TaskPriority \<Rightarrow> nat" where
  "prio_val Idle = 0"
| "prio_val Low = 1"
| "prio_val Normal = 2"
| "prio_val High = 3"
| "prio_val Realtime = 4"

lemma prio_val_inj: "prio_val p = prio_val q \<Longrightarrow> p = q"
  by (cases p; cases q) simp_all

instantiation TaskPriority :: linorder
begin

definition less_eq_TaskPriority :: "TaskPriority \<Rightarrow> TaskPriority \<Rightarrow> bool" where
  "p \<le> q \<longleftrightarrow> prio_val p \<le> prio_val q"

definition less_TaskPriority :: "TaskPriority \<Rightarrow> TaskPriority \<Rightarrow> bool" where
  "p < q \<longleftrightarrow> prio_val p < prio_val q"

instance
  by standard (auto simp: less_eq_TaskPriority_def less_TaskPriority_def intro: prio_val_inj)

end

fun quantum :: "TaskPriority \<Rightarrow> nat" where
  "quantum Idle = 2"
| "quantum Low = 5"
| "quantum Normal = 10"
| "quantum High = 20"
| "quantum Realtime = 50"

text \<open>Byte-wise comparison with a lower-case and an upper-case spelling of the same length.\<close>

definition matches_ci :: "string \<Rightarrow> string \<Rightarrow> string \<Rightarrow> bool" where
  "matches_ci lo up s = list_all2 (\<lambda>(l, u) c. c = l \<or> c = u) (zip lo up) s"

definition from_name :: "string \<Rightarrow> TaskPriority option" where
  "from_name s =
     (if matches_ci ''idle'' ''IDLE'' s then Some Idle
      else if matches_ci ''low'' ''LOW'' s then Some Low
      else if matches_ci ''normal'' ''NORMAL'' s then Some Normal
      else if matches_ci ''high'' ''HIGH'' s then Some High
      else if matches_ci ''realtime'' ''REALTIME'' s then Some Realtime
      else if matches_ci ''rt'' ''RT'' s then Some Realtime
      else None)"

fun prio_name :: "TaskPriority \<Rightarrow> string" where
  "prio_name Idle = ''Idle''"
| "prio_name Low = ''Low''"
| "prio_name Normal = ''Normal''"
| "prio_name High = ''High''"
| "prio_name Realtime = ''Realtime''"

datatype TaskState = Empty | Ready | Running | Blocked | Exited

definition MAX_TASKS :: nat where
  "MAX_TASKS = 64"

definition TASK_STACK_PAGES :: nat where
  "TASK_STACK_PAGES = 5"

definition TASK_STACK_SIZE :: nat where
  "TASK_STACK_SIZE = TASK_STACK_PAGES * 4096"

definition SAVED_REGS :: nat where
  "SAVED_REGS = 15"

definition CONTEXT_SLOTS :: nat where
  "CONTEXT_SLOTS = SAVED_REGS + 5"

type_synonym FxSaveArea = "u8 list"

definition fx_new :: FxSaveArea where
  "fx_new = replicate 512 0"

record Task =
  t_id :: u32
  t_state :: TaskState
  t_name :: "char list"
  t_name_len :: nat
  t_saved_rsp :: u64
  t_stack_base :: u64
  t_stack_size :: nat
  t_priority :: TaskPriority
  t_quantum :: nat
  t_switches :: u64
  t_cpu_ticks :: u64
  t_wake_tick :: u64
  t_fxsave :: FxSaveArea
  t_fpu_initialized :: bool

definition task_empty :: Task where
  "task_empty = \<lparr>t_id = 0, t_state = Empty, t_name = replicate 32 CHR 0x00, t_name_len = 0, t_saved_rsp = 0,
     t_stack_base = 0, t_stack_size = 0, t_priority = Normal, t_quantum = 0, t_switches = 0, t_cpu_ticks = 0,
     t_wake_tick = 0, t_fxsave = fx_new, t_fpu_initialized = False\<rparr>"

definition set_name :: "string \<Rightarrow> Task \<Rightarrow> Task" where
  "set_name n t = (let len = min (length n) 32
     in t\<lparr>t_name := take len n @ drop len (t_name t), t_name_len := len\<rparr>)"

definition name_str :: "Task \<Rightarrow> string" where
  "name_str t = take (t_name_len t) (t_name t)"


subsection \<open>The scheduler\<close>

record Scheduler =
  tasks :: "Task list"
  current :: nat
  next_id :: u32
  context_switches :: u64
  initialized :: bool

definition sched_new :: Scheduler where
  "sched_new = \<lparr>tasks = replicate MAX_TASKS task_empty, current = 0, next_id = 1, context_switches = 0, initialized = False\<rparr>"

definition upd_task :: "nat \<Rightarrow> (Task \<Rightarrow> Task) \<Rightarrow> Scheduler \<Rightarrow> Scheduler" where
  "upd_task i f sc = sc\<lparr>tasks := (tasks sc)[i := f (tasks sc ! i)]\<rparr>"

definition best_ready :: "Scheduler \<Rightarrow> TaskPriority \<times> bool" where
  "best_ready sc = fold (\<lambda>i (best, found).
     if t_state (tasks sc ! i) = Ready \<and> t_priority (tasks sc ! i) \<ge> best
     then (t_priority (tasks sc ! i), True) else (best, found)) [0..<MAX_TASKS] (Idle, False)"

definition pick_next :: "Scheduler \<Rightarrow> nat option" where
  "pick_next sc = (case best_ready sc of (best, found) \<Rightarrow>
     if \<not> found then None
     else List.find (\<lambda>idx. t_state (tasks sc ! idx) = Ready \<and> t_priority (tasks sc ! idx) = best)
            (map (\<lambda>offset. (current sc + offset) mod MAX_TASKS) [1..<MAX_TASKS + 1]))"

definition wake_task :: "u64 \<Rightarrow> Task \<Rightarrow> Task" where
  "wake_task current_tick t =
     (if t_state t = Blocked \<and> t_wake_tick t > 0 \<and> current_tick \<ge> t_wake_tick t
      then t\<lparr>t_state := Ready, t_wake_tick := 0, t_quantum := quantum (t_priority t)\<rparr> else t)"

definition wake_sleeping_tasks :: "u64 \<Rightarrow> Scheduler \<Rightarrow> Scheduler" where
  "wake_sleeping_tasks current_tick sc = fold (\<lambda>i. upd_task i (wake_task current_tick)) [0..<MAX_TASKS] sc"


subsection \<open>The system around it\<close>

record System =
  sched :: Scheduler
  sched_locked :: bool
  deferred_free :: "(u64 \<times> nat) option"
  tick_count :: u64
  irq_timer_count :: u64
  frames :: FrameAllocator
  stack_mem :: "u64 \<Rightarrow> u64"
  fpu_reg :: FxSaveArea

definition free_stack :: "u64 \<Rightarrow> nat \<Rightarrow> FrameAllocator \<Rightarrow> FrameAllocator" where
  "free_stack base pages fa = fold (\<lambda>p fa. free_frame fa (base + of_nat p * 4096)) [0..<pages] fa"

definition process_deferred_free :: "System \<Rightarrow> System" where
  "process_deferred_free s =
     (case deferred_free s of
        None \<Rightarrow> s
      | Some (base, pages) \<Rightarrow> s\<lparr>deferred_free := None, frames := free_stack base pages (frames s)\<rparr>)"

abbreviation upd_sched :: "(Scheduler \<Rightarrow> Scheduler) \<Rightarrow> System \<Rightarrow> System" where
  "upd_sched f s \<equiv> s\<lparr>sched := f (sched s)\<rparr>"

definition fxsave :: "nat \<Rightarrow> System \<Rightarrow> System" where
  "fxsave i s = upd_sched (upd_task i (\<lambda>t. t\<lparr>t_fxsave := fpu_reg s\<rparr>)) s"

definition fxrstor :: "nat \<Rightarrow> System \<Rightarrow> System" where
  "fxrstor i s = s\<lparr>fpu_reg := t_fxsave (tasks (sched s) ! i)\<rparr>"

definition sched_init :: "System \<Rightarrow> System" where
  "sched_init s =
     fxsave 0 (upd_sched (\<lambda>sc. (upd_task 0 (\<lambda>t. set_name ''kernel''
        (task_empty\<lparr>t_state := Running, t_quantum := quantum Normal, t_fpu_initialized := True\<rparr>)) sc)
          \<lparr>next_id := 1, initialized := True\<rparr>) s)"


subsection \<open>The timer tick\<close>

text \<open>Lines 449 to 464: the interrupted task's stack pointer and FPU state are saved, its tick is counted.\<close>

definition save_current :: "u64 \<Rightarrow> System \<Rightarrow> System" where
  "save_current current_rsp s =
     (let cur = current (sched s);
          s1 = upd_sched (upd_task cur (\<lambda>t. t\<lparr>t_saved_rsp := current_rsp\<rparr>)) s;
          st = t_state (tasks (sched s1) ! cur);
          s2 = (if st \<noteq> Exited \<and> st \<noteq> Empty
                then upd_sched (upd_task cur (\<lambda>t. t\<lparr>t_fpu_initialized := True\<rparr>)) (fxsave cur s1) else s1)
      in upd_sched (upd_task cur (\<lambda>t. t\<lparr>t_cpu_ticks := t_cpu_ticks t + 1, t_quantum := t_quantum t - 1\<rparr>)) s2)"

definition needs_switch :: "Scheduler \<Rightarrow> bool" where
  "needs_switch sc = (let t = tasks sc ! current sc
     in t_quantum t = 0 \<or> t_state t = Exited \<or> t_state t = Blocked)"

text \<open>Lines 472 to 479: what becomes of the task that is switched away from.\<close>

definition switch_out :: "Scheduler \<Rightarrow> Scheduler" where
  "switch_out sc = upd_task (current sc) (\<lambda>t.
     if t_state t = Exited then task_empty
     else if t_state t = Running then t\<lparr>t_state := Ready, t_quantum := quantum (t_priority t)\<rparr> else t) sc"

text \<open>Lines 483 to 497: the task that is switched to.\<close>

definition switch_in :: "(FxSaveArea \<Rightarrow> FxSaveArea) \<Rightarrow> nat \<Rightarrow> System \<Rightarrow> System \<times> u64" where
  "switch_in fninit nx s =
     (let s1 = upd_sched (\<lambda>sc. (upd_task nx (\<lambda>t. t\<lparr>t_state := Running, t_quantum := quantum (t_priority t),
                 t_switches := t_switches t + 1\<rparr>) sc)\<lparr>context_switches := context_switches sc + 1, current := nx\<rparr>) s;
          s2 = (if t_fpu_initialized (tasks (sched s1) ! nx) then fxrstor nx s1
                else upd_sched (upd_task nx (\<lambda>t. t\<lparr>t_fpu_initialized := True\<rparr>)) (s1\<lparr>fpu_reg := fninit (fpu_reg s1)\<rparr>))
      in (s2, t_saved_rsp (tasks (sched s2) ! nx)))"

text \<open>Lines 499 to 513, and the return of \<^verbatim>\<open>current_rsp\<close> at the end: no task is ready.\<close>

definition stay :: "u64 \<Rightarrow> System \<Rightarrow> System \<times> u64" where
  "stay current_rsp s =
     (let cur = current (sched s);
          st = t_state (tasks (sched s) ! cur);
          st0 = t_state (tasks (sched s) ! 0)
      in if st = Empty
         then if st0 = Ready \<or> st0 = Running
              then let s1 = upd_sched (\<lambda>sc. (upd_task 0 (\<lambda>t. t\<lparr>t_state := Running\<rparr>) sc)\<lparr>current := 0\<rparr>) s;
                       s2 = (if t_fpu_initialized (tasks (sched s1) ! 0) then fxrstor 0 s1 else s1)
                   in (s2, t_saved_rsp (tasks (sched s2) ! 0))
              else (s, current_rsp)
         else if st \<noteq> Blocked
              then (upd_sched (upd_task cur (\<lambda>t. t\<lparr>t_state := Running, t_quantum := quantum (t_priority t)\<rparr>)) s, current_rsp)
              else (s, current_rsp))"

definition timer_tick :: "(FxSaveArea \<Rightarrow> FxSaveArea) \<Rightarrow> u64 \<Rightarrow> System \<Rightarrow> System \<times> u64" where
  "timer_tick fninit current_rsp s =
     (let s0 = process_deferred_free s;
          current_tick = tick_count s0
      in if sched_locked s0 then (s0, current_rsp)
         else if \<not> initialized (sched s0) then (s0, current_rsp)
         else let s1 = save_current current_rsp (upd_sched (wake_sleeping_tasks current_tick) s0)
              in if needs_switch (sched s1)
                 then let s2 = upd_sched switch_out s1
                      in case pick_next (sched s2) of
                           Some nx \<Rightarrow> switch_in fninit nx s2
                         | None \<Rightarrow> stay current_rsp s2
                 else (s1, current_rsp))"

text \<open>\<^verbatim>\<open>handle_timer_switch\<close> and \<^verbatim>\<open>shell::timer_tick\<close>: the tick, then the counters.\<close>

definition handle_timer_switch :: "(FxSaveArea \<Rightarrow> FxSaveArea) \<Rightarrow> u64 \<Rightarrow> System \<Rightarrow> System \<times> u64" where
  "handle_timer_switch fninit saved_rsp s =
     (case timer_tick fninit saved_rsp s of
        (s', new_rsp) \<Rightarrow> (s'\<lparr>tick_count := tick_count s' + 1, irq_timer_count := irq_timer_count s' + 1\<rparr>, new_rsp))"


subsection \<open>Operations of the tasks\<close>

text \<open>The synthetic interrupt frame: zeroed registers, then RIP, CS, RFLAGS, RSP and SS.\<close>

definition write_frame :: "u64 \<Rightarrow> u64 \<Rightarrow> u64 \<Rightarrow> (u64 \<Rightarrow> u64) \<Rightarrow> u64 \<Rightarrow> u64" where
  "write_frame frame_base entry_point usable_stack_top mem =
     fold (\<lambda>(i, v) mm. mm(frame_base + of_nat i * 8 := v))
       (zip [0..<CONTEXT_SLOTS] (replicate SAVED_REGS 0 @ [entry_point, 0x08, 0x200, usable_stack_top, 0x10])) mem"

definition spawn_with_priority :: "string \<Rightarrow> u64 \<Rightarrow> TaskPriority \<Rightarrow> System \<Rightarrow> System \<times> u32 option" where
  "spawn_with_priority nm entry_point prio s =
     (case List.find (\<lambda>i. t_state (tasks (sched s) ! i) = Empty) [0..<MAX_TASKS] of
        None \<Rightarrow> (s, None)
      | Some slot \<Rightarrow>
          (case allocate_contiguous_frames (frames s) TASK_STACK_PAGES of
             (fa, None) \<Rightarrow> (s\<lparr>frames := fa\<rparr>, None)
           | (fa, Some stack_base) \<Rightarrow>
               let usable_stack_top = stack_base + of_nat TASK_STACK_SIZE;
                   frame_base = usable_stack_top - of_nat CONTEXT_SLOTS * 8;
                   task_id = next_id (sched s);
                   t = task_empty\<lparr>t_id := task_id, t_state := Ready, t_saved_rsp := frame_base, t_stack_base := stack_base,
                         t_stack_size := TASK_STACK_SIZE, t_priority := prio, t_quantum := quantum prio\<rparr>
               in (s\<lparr>frames := fa, stack_mem := write_frame frame_base entry_point usable_stack_top (stack_mem s),
                     sched := (upd_task slot (\<lambda>_. set_name nm t) (sched s))\<lparr>next_id := task_id + 1\<rparr>\<rparr>, Some task_id)))"

definition spawn :: "string \<Rightarrow> u64 \<Rightarrow> System \<Rightarrow> System \<times> u32 option" where
  "spawn nm entry_point s = spawn_with_priority nm entry_point Normal s"

text \<open>\<^verbatim>\<open>exit_current_task\<close> up to its idle loop.\<close>

definition exit_current_task :: "System \<Rightarrow> System" where
  "exit_current_task s =
     (let cur = current (sched s);
          s1 = upd_sched (upd_task cur (\<lambda>t. t\<lparr>t_state := Exited\<rparr>)) s;
          t = tasks (sched s1) ! cur
      in if t_stack_base t \<noteq> 0 then s1\<lparr>deferred_free := Some (t_stack_base t, t_stack_size t div 4096)\<rparr> else s1)"

definition find_active :: "u32 \<Rightarrow> Scheduler \<Rightarrow> nat option" where
  "find_active task_id sc = List.find (\<lambda>i. t_id (tasks sc ! i) = task_id
     \<and> t_state (tasks sc ! i) \<noteq> Empty \<and> t_state (tasks sc ! i) \<noteq> Exited) [0..<MAX_TASKS]"

definition kill :: "u32 \<Rightarrow> System \<Rightarrow> System \<times> bool" where
  "kill task_id s =
     (if task_id = 0 then (s, False)
      else case find_active task_id (sched s) of
             None \<Rightarrow> (s, False)
           | Some i \<Rightarrow>
               let t = tasks (sched s) ! i;
                   fa = (if t_stack_base t \<noteq> 0 then free_stack (t_stack_base t) (t_stack_size t div 4096) (frames s) else frames s)
               in (s\<lparr>frames := fa, sched := upd_task i (\<lambda>_. task_empty) (sched s)\<rparr>, True))"

text \<open>\<^verbatim>\<open>sleep_ms\<close> up to its wait loop, and the condition on which the loop ends.\<close>

definition sleep_ms :: "u64 \<Rightarrow> System \<Rightarrow> System" where
  "sleep_ms ms s =
     (let wake_at = tick_count s + ms
      in upd_sched (upd_task (current (sched s)) (\<lambda>t. t\<lparr>t_state := Blocked, t_wake_tick := wake_at, t_quantum := 0\<rparr>)) s)"

definition sleep_over :: "System \<Rightarrow> bool" where
  "sleep_over s \<longleftrightarrow> \<not> sched_locked s \<and> t_state (tasks (sched s) ! current (sched s)) = Running"

definition set_priority :: "u32 \<Rightarrow> TaskPriority \<Rightarrow> System \<Rightarrow> System \<times> bool" where
  "set_priority task_id prio s =
     (case find_active task_id (sched s) of
        None \<Rightarrow> (s, False)
      | Some i \<Rightarrow> (upd_sched (upd_task i (\<lambda>t. t\<lparr>t_priority := prio, t_quantum := quantum prio\<rparr>)) s, True))"

definition yield_now :: "System \<Rightarrow> System" where
  "yield_now s = (if sched_locked s then s
     else upd_sched (upd_task (current (sched s)) (\<lambda>t. t\<lparr>t_quantum := 0\<rparr>)) s)"

definition current_task_id :: "System \<Rightarrow> u32" where
  "current_task_id s = (if sched_locked s then 0 else t_id (tasks (sched s) ! current (sched s)))"

definition task_list :: "System \<Rightarrow> (u32 \<times> TaskState \<times> string \<times> u64 \<times> TaskPriority \<times> u64) list" where
  "task_list s = map (\<lambda>t. (t_id t, t_state t, name_str t, t_switches t, t_priority t, t_cpu_ticks t))
     (filter (\<lambda>t. t_state t \<noteq> Empty \<and> t_state t \<noteq> Exited) (tasks (sched s)))"

definition context_switch_count :: "System \<Rightarrow> u64" where
  "context_switch_count s = (if sched_locked s then 0 else context_switches (sched s))"

definition active_task_count :: "System \<Rightarrow> nat" where
  "active_task_count s = (if sched_locked s then 0
     else length (filter (\<lambda>t. t_state t \<noteq> Empty \<and> t_state t \<noteq> Exited) (tasks (sched s))))"


subsection \<open>Basic facts\<close>

lemma upd_task_simps [simp]:
  "current (upd_task i f sc) = current sc" "next_id (upd_task i f sc) = next_id sc"
  "initialized (upd_task i f sc) = initialized sc" "context_switches (upd_task i f sc) = context_switches sc"
  "length (tasks (upd_task i f sc)) = length (tasks sc)"
  "tasks (upd_task i f sc) = (tasks sc)[i := f (tasks sc ! i)]"
  by (simp_all add: upd_task_def)

lemma fxsave_simps [simp]:
  "sched (fxsave i s) = upd_task i (\<lambda>t. t\<lparr>t_fxsave := fpu_reg s\<rparr>) (sched s)" "frames (fxsave i s) = frames s"
  "deferred_free (fxsave i s) = deferred_free s" "sched_locked (fxsave i s) = sched_locked s"
  "tick_count (fxsave i s) = tick_count s" "fpu_reg (fxsave i s) = fpu_reg s"
  by (simp_all add: fxsave_def)

lemma fxrstor_simps [simp]:
  "sched (fxrstor i s) = sched s" "frames (fxrstor i s) = frames s" "deferred_free (fxrstor i s) = deferred_free s"
  "sched_locked (fxrstor i s) = sched_locked s" "tick_count (fxrstor i s) = tick_count s"
  by (simp_all add: fxrstor_def)

lemma process_deferred_free_simps [simp]:
  "sched (process_deferred_free s) = sched s" "sched_locked (process_deferred_free s) = sched_locked s"
  "tick_count (process_deferred_free s) = tick_count s" "deferred_free (process_deferred_free s) = None"
  by (simp_all add: process_deferred_free_def split: option.splits)

lemma quantum_bounds: "2 \<le> quantum p" "quantum p \<le> 50"
  by (cases p; simp)+

lemma quantum_pos [simp]: "quantum p \<noteq> 0" "0 < quantum p"
  using quantum_bounds(1) [of p] by auto

lemma Idle_least [simp]: "Idle \<le> p"
  by (simp add: less_eq_TaskPriority_def)

lemma fold_upd_task:
  "n \<le> length (tasks sc) \<Longrightarrow>
     tasks (fold (\<lambda>i. upd_task i f) [0..<n] sc) = map f (take n (tasks sc)) @ drop n (tasks sc)
   \<and> current (fold (\<lambda>i. upd_task i f) [0..<n] sc) = current sc
   \<and> initialized (fold (\<lambda>i. upd_task i f) [0..<n] sc) = initialized sc
   \<and> next_id (fold (\<lambda>i. upd_task i f) [0..<n] sc) = next_id sc"
proof (induction n)
  case (Suc n)
  let ?sc = "fold (\<lambda>i. upd_task i f) [0..<n] sc"
  have IH: "tasks ?sc = map f (take n (tasks sc)) @ drop n (tasks sc)" and n: "n < length (tasks sc)"
    using Suc by simp_all
  then have "tasks ?sc ! n = tasks sc ! n" by (simp add: nth_append)
  then have "tasks (upd_task n f ?sc) = map f (take (Suc n) (tasks sc)) @ drop (Suc n) (tasks sc)"
    using IH n by (simp add: list_update_append take_Suc_conv_app_nth Cons_nth_drop_Suc [symmetric])
  then show ?case using Suc by simp
qed simp

lemma wake_sleeping_tasks_simps [simp]:
  assumes "length (tasks sc) = MAX_TASKS"
  shows "tasks (wake_sleeping_tasks tk sc) = map (wake_task tk) (tasks sc)"
    "current (wake_sleeping_tasks tk sc) = current sc" "initialized (wake_sleeping_tasks tk sc) = initialized sc"
    "next_id (wake_sleeping_tasks tk sc) = next_id sc"
  using fold_upd_task [of MAX_TASKS sc "wake_task tk"] assms by (simp_all add: wake_sleeping_tasks_def)


subsection \<open>Choosing the next task\<close>

abbreviation ready :: "Scheduler \<Rightarrow> nat \<Rightarrow> bool" where
  "ready sc i \<equiv> t_state (tasks sc ! i) = Ready"

abbreviation prio :: "Scheduler \<Rightarrow> nat \<Rightarrow> TaskPriority" where
  "prio sc i \<equiv> t_priority (tasks sc ! i)"

text \<open>How far slot \<^verbatim>\<open>i\<close> is behind slot \<^verbatim>\<open>c\<close> in the round: 0 for the next slot, 63 for \<^verbatim>\<open>c\<close> itself.\<close>

definition cyc :: "nat \<Rightarrow> nat \<Rightarrow> nat" where
  "cyc c i = (i + 63 - c) mod 64"

lemma best_ready_spec:
  fixes sc :: Scheduler
  defines "step \<equiv> (\<lambda>i (best, found).
     if ready sc i \<and> prio sc i \<ge> best then (prio sc i, True) else (best, found))"
  shows "fold step [0..<n] (Idle, False) = (b, f) \<Longrightarrow>
     (f \<longleftrightarrow> (\<exists>i<n. ready sc i)) \<and> (\<forall>i<n. ready sc i \<longrightarrow> prio sc i \<le> b) \<and>
     (f \<longrightarrow> (\<exists>i<n. ready sc i \<and> prio sc i = b))"
proof (induction n arbitrary: b f)
  case (Suc n)
  obtain b' f' where r: "fold step [0..<n] (Idle, False) = (b', f')" by fastforce
  note IH = Suc.IH [OF r]
  have "step n (b', f') = (b, f)" using Suc.prems r by simp
  then have "ready sc n \<and> prio sc n \<ge> b' \<and> b = prio sc n \<and> f \<or> \<not> (ready sc n \<and> prio sc n \<ge> b') \<and> b = b' \<and> f = f'"
    by (auto simp: step_def split: if_splits)
  then show ?case
  proof (elim disjE conjE)
    assume a: "ready sc n" "prio sc n \<ge> b'" "b = prio sc n" f
    with IH show ?thesis by (auto simp: less_Suc_eq intro: order_trans)
  next
    assume a: "\<not> (ready sc n \<and> prio sc n \<ge> b')" "b = b'" "f = f'"
    show ?thesis
    proof (cases "ready sc n")
      case True
      then have lt: "prio sc n < b'" using a(1) by (simp add: not_le)
      have f' proof (rule ccontr)
        assume "\<not> f'"
        with r have "b' = Idle"
        proof (induction n arbitrary: b' f')
          case (Suc m)
          obtain b1 f1 where r1: "fold step [0..<m] (Idle, False) = (b1, f1)" by fastforce
          then show ?case using Suc by (auto simp: step_def split: if_splits)
        qed simp
        with lt show False using Idle_least [of "prio sc n"] by (simp add: not_le [symmetric])
      qed
      then show ?thesis using IH a lt True by (auto simp: less_Suc_eq)
    next
      case False
      then show ?thesis using IH a by (auto simp: less_Suc_eq)
    qed
  qed
qed simp

lemma best_readyD:
  assumes "best_ready sc = (b, f)"
  shows "f \<longleftrightarrow> (\<exists>i<MAX_TASKS. ready sc i)" "\<And>i. i < MAX_TASKS \<Longrightarrow> ready sc i \<Longrightarrow> prio sc i \<le> b"
    "f \<Longrightarrow> \<exists>i<MAX_TASKS. ready sc i \<and> prio sc i = b"
  using best_ready_spec [where n = MAX_TASKS and sc = sc, OF assms [unfolded best_ready_def]] by blast+

lemma cyc_offset: "c < 64 \<Longrightarrow> k < 64 \<Longrightarrow> cyc c ((c + Suc k) mod 64) = k"
  unfolding cyc_def by (cases "c + Suc k < 64") (auto simp: mod_if)

lemma cyc_inverse: "c < 64 \<Longrightarrow> i < 64 \<Longrightarrow> (c + Suc (cyc c i)) mod 64 = i"
  unfolding cyc_def by (cases "i + 63 - c < 64") (auto simp: mod_if)

lemma cyc_less: "cyc c i < 64"
  by (simp add: cyc_def)

lemma pick_next_None: "pick_next sc = None \<longleftrightarrow> (\<forall>i<MAX_TASKS. \<not> ready sc i)" if "current sc < MAX_TASKS"
proof -
  obtain b f where bf: "best_ready sc = (b, f)" by fastforce
  note sp = best_readyD [OF bf]
  show ?thesis
  proof (cases f)
    case False
    then show ?thesis using sp bf by (simp add: pick_next_def)
  next
    case True
    then obtain i where i: "i < 64" "ready sc i" "prio sc i = b" using sp by (auto simp: MAX_TASKS_def)
    have "i \<in> set (map (\<lambda>offset. (current sc + offset) mod MAX_TASKS) [1..<MAX_TASKS + 1])"
      using cyc_inverse [of "current sc" i] cyc_less [of "current sc" i] that i(1)
      by (auto simp: MAX_TASKS_def image_iff intro!: bexI [of _ "Suc (cyc (current sc) i)"])
    then show ?thesis
      using bf True i sp by (auto simp: pick_next_def find_None_iff MAX_TASKS_def)
  qed
qed

lemma pick_next_Some:
  assumes "pick_next sc = Some j" "current sc < MAX_TASKS"
  shows "j < MAX_TASKS" "ready sc j" "\<And>i. i < MAX_TASKS \<Longrightarrow> ready sc i \<Longrightarrow> prio sc i \<le> prio sc j"
    "\<And>i. i < MAX_TASKS \<Longrightarrow> ready sc i \<Longrightarrow> prio sc i = prio sc j \<Longrightarrow> cyc (current sc) j \<le> cyc (current sc) i"
proof -
  define xs where "xs = map (\<lambda>offset. (current sc + offset) mod MAX_TASKS) [1..<MAX_TASKS + 1]"
  obtain b f where bf: "best_ready sc = (b, f)" by fastforce
  note sp = best_readyD [OF bf]
  have "List.find (\<lambda>idx. ready sc idx \<and> prio sc idx = b) xs = Some j"
    using assms(1) bf by (auto simp: pick_next_def xs_def split: if_splits)
  moreover have len: "length xs = 64" by (simp add: xs_def MAX_TASKS_def)
  ultimately obtain k where k: "k < 64" "j = xs ! k" "ready sc j" "prio sc j = b"
    "\<forall>l<k. \<not> (ready sc (xs ! l) \<and> prio sc (xs ! l) = b)"
    by (auto simp: find_Some_iff)
  have nth: "xs ! l = (current sc + Suc l) mod 64" if "l < 64" for l
    using that unfolding xs_def MAX_TASKS_def by (simp add: nth_upt del: upt_Suc upt_rec_numeral)
  show "j < MAX_TASKS" using k(1,2) nth by (simp add: MAX_TASKS_def)
  show "ready sc j" by (rule k(3))
  show "prio sc i \<le> prio sc j" if "i < MAX_TASKS" "ready sc i" for i using sp(2) [OF that] k(4) by simp
  show "cyc (current sc) j \<le> cyc (current sc) i" if "i < MAX_TASKS" "ready sc i" "prio sc i = prio sc j" for i
  proof (rule ccontr)
    have c: "current sc < 64" "i < 64" using assms(2) that(1) by (simp_all add: MAX_TASKS_def)
    have "cyc (current sc) j = k" using cyc_offset [OF c(1) k(1)] k(1,2) nth by simp
    moreover assume "\<not> ?thesis"
    ultimately have "cyc (current sc) i < k" by simp
    moreover from this k(1) have "xs ! cyc (current sc) i = i" using nth cyc_inverse [OF c] by simp
    ultimately show False using k(4,5) that by metis
  qed
qed


subsection \<open>The invariant of the task table\<close>

definition sched_wf :: "Scheduler \<Rightarrow> bool" where
  "sched_wf sc \<longleftrightarrow> length (tasks sc) = MAX_TASKS \<and> current sc < MAX_TASKS \<and>
     (\<forall>i<MAX_TASKS. t_state (tasks sc ! i) = Running \<longrightarrow> i = current sc) \<and>
     (\<forall>i<MAX_TASKS. t_quantum (tasks sc ! i) \<le> 50)"

lemma sched_wfD:
  assumes "sched_wf sc"
  shows "length (tasks sc) = MAX_TASKS" "current sc < MAX_TASKS"
    "i < MAX_TASKS \<Longrightarrow> t_state (tasks sc ! i) = Running \<Longrightarrow> i = current sc"
    "i < MAX_TASKS \<Longrightarrow> t_quantum (tasks sc ! i) \<le> 50"
  using assms by (auto simp: sched_wf_def)

lemma sched_wf_upd:
  assumes "sched_wf sc" "t_quantum t \<le> 50" "t_state t = Running \<Longrightarrow> i = current sc"
  shows "sched_wf (sc\<lparr>tasks := (tasks sc)[i := t]\<rparr>)"
  using assms by (cases "i < MAX_TASKS") (auto simp: sched_wf_def nth_list_update list_update_beyond split: if_splits)

lemma upd_task_eq: "upd_task i f sc = sc\<lparr>tasks := (tasks sc)[i := f (tasks sc ! i)]\<rparr>"
  by (simp add: upd_task_def)

lemma sched_wf_upd_task [inv_intros]:
  assumes "sched_wf sc" "t_quantum (f (tasks sc ! i)) \<le> 50" "t_state (f (tasks sc ! i)) = Running \<Longrightarrow> i = current sc"
  shows "sched_wf (upd_task i f sc)"
  unfolding upd_task_eq using assms by (rule sched_wf_upd)

lemma wake_task_simps [simp]:
  "t_priority (wake_task tk t) = t_priority t" "t_stack_base (wake_task tk t) = t_stack_base t"
  "t_stack_size (wake_task tk t) = t_stack_size t" "t_id (wake_task tk t) = t_id t"
  "t_saved_rsp (wake_task tk t) = t_saved_rsp t"
  "t_state (wake_task tk t) = Running \<longleftrightarrow> t_state t = Running"
  "t_state (wake_task tk t) = Exited \<longleftrightarrow> t_state t = Exited"
  "t_state (wake_task tk t) = Empty \<longleftrightarrow> t_state t = Empty"
  by (simp_all add: wake_task_def)

lemma wake_task_quantum: "t_quantum t \<le> 50 \<Longrightarrow> t_quantum (wake_task tk t) \<le> 50"
  using quantum_bounds(2) by (simp add: wake_task_def)

lemma sched_wf_wake [inv_intros]: "sched_wf sc \<Longrightarrow> sched_wf (wake_sleeping_tasks tk sc)"
  by (auto simp: sched_wf_def wake_task_quantum)

text \<open>What the tick saves of the interrupted task.\<close>

definition saved_task :: "u64 \<Rightarrow> FxSaveArea \<Rightarrow> Task \<Rightarrow> Task" where
  "saved_task r fpu t =
     (let t1 = (if t_state t \<noteq> Exited \<and> t_state t \<noteq> Empty
                then t\<lparr>t_saved_rsp := r, t_fxsave := fpu, t_fpu_initialized := True\<rparr> else t\<lparr>t_saved_rsp := r\<rparr>)
      in t1\<lparr>t_cpu_ticks := t_cpu_ticks t + 1, t_quantum := t_quantum t - 1\<rparr>)"

lemma saved_task_simps [simp]:
  "t_state (saved_task r fpu t) = t_state t" "t_priority (saved_task r fpu t) = t_priority t"
  "t_quantum (saved_task r fpu t) = t_quantum t - 1" "t_stack_base (saved_task r fpu t) = t_stack_base t"
  "t_stack_size (saved_task r fpu t) = t_stack_size t" "t_id (saved_task r fpu t) = t_id t"
  "t_saved_rsp (saved_task r fpu t) = r"
  by (simp_all add: saved_task_def Let_def)

lemma save_current_simps [simp]:
  assumes "current (sched s) < length (tasks (sched s))"
  shows "sched (save_current r s) = upd_task (current (sched s)) (saved_task r (fpu_reg s)) (sched s)"
    "frames (save_current r s) = frames s" "deferred_free (save_current r s) = deferred_free s"
    "tick_count (save_current r s) = tick_count s" "sched_locked (save_current r s) = sched_locked s"
  using assms by (simp_all add: save_current_def saved_task_def Let_def upd_task_def)

lemma switch_out_simps [simp]:
  "current (switch_out sc) = current sc" "initialized (switch_out sc) = initialized sc"
  "length (tasks (switch_out sc)) = length (tasks sc)" "i \<noteq> current sc \<Longrightarrow> tasks (switch_out sc) ! i = tasks sc ! i"
  by (simp_all add: switch_out_def)

lemma switch_out_none_running:
  assumes "sched_wf sc" "i < MAX_TASKS"
  shows "t_state (tasks (switch_out sc) ! i) \<noteq> Running" "t_quantum (tasks (switch_out sc) ! i) \<le> 50"
proof -
  have "t_state (tasks (switch_out sc) ! i) \<noteq> Running \<and> t_quantum (tasks (switch_out sc) ! i) \<le> 50"
  proof (cases "i = current sc")
    case True
    then show ?thesis
      using sched_wfD(1,2) [OF assms(1)] sched_wfD(4) [OF assms(1,2)] quantum_bounds(2) by (simp add: switch_out_def task_empty_def)
  next
    case False
    then show ?thesis using sched_wfD(3,4) [OF assms(1) assms(2)] by auto
  qed
  then show "t_state (tasks (switch_out sc) ! i) \<noteq> Running" "t_quantum (tasks (switch_out sc) ! i) \<le> 50" by simp_all
qed

lemma sched_wf_switch_out [inv_intros]: "sched_wf sc \<Longrightarrow> sched_wf (switch_out sc)"
  using switch_out_none_running [of sc] by (auto simp: sched_wf_def)

lemma switch_in_simps:
  assumes "nx < length (tasks (sched s))"
  shows "current (sched (fst (switch_in fi nx s))) = nx" "length (tasks (sched (fst (switch_in fi nx s)))) = length (tasks (sched s))"
    "i \<noteq> nx \<Longrightarrow> tasks (sched (fst (switch_in fi nx s))) ! i = tasks (sched s) ! i"
    "t_state (tasks (sched (fst (switch_in fi nx s))) ! nx) = Running"
    "t_quantum (tasks (sched (fst (switch_in fi nx s))) ! nx) = quantum (t_priority (tasks (sched s) ! nx))"
    "t_priority (tasks (sched (fst (switch_in fi nx s))) ! nx) = t_priority (tasks (sched s) ! nx)"
    "t_stack_base (tasks (sched (fst (switch_in fi nx s))) ! nx) = t_stack_base (tasks (sched s) ! nx)"
    "t_stack_size (tasks (sched (fst (switch_in fi nx s))) ! nx) = t_stack_size (tasks (sched s) ! nx)"
    "snd (switch_in fi nx s) = t_saved_rsp (tasks (sched s) ! nx)"
    "frames (fst (switch_in fi nx s)) = frames s" "deferred_free (fst (switch_in fi nx s)) = deferred_free s"
    "sched_locked (fst (switch_in fi nx s)) = sched_locked s" "initialized (sched (fst (switch_in fi nx s))) = initialized (sched s)"
    "tick_count (fst (switch_in fi nx s)) = tick_count s"
  using assms by (simp_all add: switch_in_def Let_def)

lemma sched_wf_switch_in:
  assumes "sched_wf sc" "\<And>i. i < MAX_TASKS \<Longrightarrow> t_state (tasks sc ! i) \<noteq> Running" "sc = sched s" "nx < MAX_TASKS"
  shows "sched_wf (sched (fst (switch_in fi nx s)))"
proof -
  have l: "nx < length (tasks (sched s))" using sched_wfD(1) [OF assms(1)] assms(3,4) by simp
  note si = switch_in_simps [OF l, where fi = fi]
  show ?thesis
    unfolding sched_wf_def
  proof (intro conjI allI impI)
    fix i assume i: "i < MAX_TASKS"
    show "i = current (sched (fst (switch_in fi nx s)))" if "t_state (tasks (sched (fst (switch_in fi nx s))) ! i) = Running"
      using that si(1,3) assms(2) [OF i] assms(3) by metis
    show "t_quantum (tasks (sched (fst (switch_in fi nx s))) ! i) \<le> 50"
      using si(3,5) sched_wfD(4) [OF assms(1) i] assms(3) quantum_bounds(2) by (cases "i = nx") simp_all
  qed (use si(1,2) sched_wfD(1) [OF assms(1)] assms(3,4) in simp_all)
qed

lemma sched_wf_current_0:
  assumes "sched_wf sc" "\<And>i. i < MAX_TASKS \<Longrightarrow> t_state (tasks sc ! i) \<noteq> Running" "t_quantum (f (tasks sc ! 0)) \<le> 50"
  shows "sched_wf ((upd_task 0 f sc)\<lparr>current := 0\<rparr>)"
  using assms by (auto simp: sched_wf_def nth_list_update MAX_TASKS_def)

lemma sched_wf_stay:
  assumes "sched_wf (sched s)" "\<And>i. i < MAX_TASKS \<Longrightarrow> t_state (tasks (sched s) ! i) \<noteq> Running"
  shows "sched_wf (sched (fst (stay r s)))"
proof -
  have q0: "t_quantum (tasks (sched s) ! 0) \<le> 50" by (rule sched_wfD(4) [OF assms(1)]) (simp add: MAX_TASKS_def)
  have a: "sched_wf ((upd_task 0 (\<lambda>t. t\<lparr>t_state := Running\<rparr>) (sched s))\<lparr>current := 0\<rparr>)"
    by (rule sched_wf_current_0 [OF assms]) (use q0 in simp_all)
  have b: "sched_wf (upd_task (current (sched s)) (\<lambda>t. t\<lparr>t_state := Running, t_quantum := quantum (t_priority t)\<rparr>) (sched s))"
    by (rule sched_wf_upd_task [OF assms(1)]) (simp_all add: quantum_bounds(2))
  show ?thesis using a b assms(1) by (simp add: stay_def Let_def)
qed

lemma timer_tick_wf [inv_intros]:
  assumes "sched_wf (sched s)"
  shows "sched_wf (sched (fst (timer_tick fi r s)))"
proof -
  define s0 where "s0 = process_deferred_free s"
  define s1 where "s1 = save_current r (upd_sched (wake_sleeping_tasks (tick_count s0)) s0)"
  have 0: "sched s0 = sched s" by (simp add: s0_def)
  let ?w = "wake_sleeping_tasks (tick_count s0) (sched s)"
  have w: "sched_wf ?w" using assms by (rule sched_wf_wake)
  have l: "current ?w < length (tasks ?w)" using sched_wfD(1,2) [OF w] by simp
  have q: "t_quantum (tasks ?w ! current ?w) \<le> 50" using sched_wfD(2,4) [OF w] by simp
  have 1: "sched s1 = upd_task (current ?w) (saved_task r (fpu_reg s0)) ?w"
    using l by (simp add: s1_def 0)
  have wf1: "sched_wf (sched s1)"
    unfolding 1 by (rule sched_wf_upd_task [OF w]) (use q in simp_all)
  note wf2 = sched_wf_switch_out [OF wf1] and nr = switch_out_none_running(1) [OF wf1]
  show ?thesis
  proof (cases "pick_next (switch_out (sched s1))")
    case None
    have "sched_wf (sched (fst (stay r (upd_sched switch_out s1))))"
      by (rule sched_wf_stay) (use wf2 nr in simp_all)
    then show ?thesis using None assms wf1
      unfolding timer_tick_def Let_def s0_def [symmetric] s1_def [symmetric] by (simp add: 0)
  next
    case (Some nx)
    have "sched_wf (sched (fst (switch_in fi nx (upd_sched switch_out s1))))"
      by (rule sched_wf_switch_in [OF wf2 nr]) (use pick_next_Some(1) [OF Some] sched_wfD(2) [OF wf2] in simp_all)
    then show ?thesis using Some assms wf1
      unfolding timer_tick_def Let_def s0_def [symmetric] s1_def [symmetric] by (simp add: 0)
  qed
qed


subsection \<open>The tick, stage by stage\<close>

lemma timer_tick_stages:
  assumes wf: "sched_wf (sched s)" and u: "\<not> sched_locked s" and ini: "initialized (sched s)"
  obtains s1 where "sched s1 = upd_task (current (sched s)) (saved_task r (fpu_reg s)) (wake_sleeping_tasks (tick_count s) (sched s))"
    "sched_wf (sched s1)" "frames s1 = frames (process_deferred_free s)" "deferred_free s1 = None" "\<not> sched_locked s1" "tick_count s1 = tick_count s"
    "timer_tick fi r s = (if needs_switch (sched s1)
       then case pick_next (switch_out (sched s1)) of
              Some nx \<Rightarrow> switch_in fi nx (upd_sched switch_out s1)
            | None \<Rightarrow> stay r (upd_sched switch_out s1)
       else (s1, r))"
proof -
  define s0 where "s0 = process_deferred_free s"
  define s1 where "s1 = save_current r (upd_sched (wake_sleeping_tasks (tick_count s0)) s0)"
  have 0: "sched s0 = sched s" "tick_count s0 = tick_count s" "fpu_reg s0 = fpu_reg s" "sched_locked s0 = sched_locked s" "deferred_free s0 = None"
    by (simp_all add: s0_def) (simp add: process_deferred_free_def split: option.splits)
  have w: "sched_wf (wake_sleeping_tasks (tick_count s) (sched s))" using wf by (rule sched_wf_wake)
  have len: "length (tasks (sched s)) = MAX_TASKS" "current (sched s) < MAX_TASKS" using sched_wfD(1,2) [OF wf] by simp_all
  have 1: "sched s1 = upd_task (current (sched s)) (saved_task r (fpu_reg s)) (wake_sleeping_tasks (tick_count s) (sched s))"
    using len by (simp add: s1_def 0)
  have q: "t_quantum (tasks (wake_sleeping_tasks (tick_count s) (sched s)) ! current (sched s)) \<le> 50"
    using sched_wfD(4) [OF w len(2)] .
  have wf1: "sched_wf (sched s1)"
    unfolding 1 by (rule sched_wf_upd_task [OF w]) (use q len in simp_all)
  have "timer_tick fi r s = (if needs_switch (sched s1)
       then case pick_next (switch_out (sched s1)) of
              Some nx \<Rightarrow> switch_in fi nx (upd_sched switch_out s1)
            | None \<Rightarrow> stay r (upd_sched switch_out s1)
       else (s1, r))"
    unfolding timer_tick_def Let_def s0_def [symmetric] s1_def [symmetric] using u ini by (simp add: 0)
  moreover have "frames s1 = frames s0" "deferred_free s1 = None" "\<not> sched_locked s1" "tick_count s1 = tick_count s"
    using len u by (simp_all add: s1_def 0)
  ultimately show ?thesis using that [OF 1 wf1] by (simp add: s0_def)
qed

text \<open>No stage makes a task out of an empty slot, and none changes a priority of a task that stays.\<close>

lemma switch_out_task:
  assumes "current sc < length (tasks sc)" "t_state (tasks (switch_out sc) ! j) \<noteq> Empty"
  shows "t_state (tasks sc ! j) \<noteq> Empty \<and> t_priority (tasks (switch_out sc) ! j) = t_priority (tasks sc ! j)"
  using assms by (cases "j = current sc") (auto simp: switch_out_def task_empty_def split: if_splits)

definition waiting :: "nat \<Rightarrow> System \<Rightarrow> bool" where
  "waiting i s \<longleftrightarrow> sched_wf (sched s) \<and> \<not> sched_locked s \<and> initialized (sched s) \<and> i < MAX_TASKS \<and> ready (sched s) i \<and>
     (\<forall>j<MAX_TASKS. t_state (tasks (sched s) ! j) \<noteq> Empty \<longrightarrow> prio (sched s) j \<le> prio (sched s) i)"

definition rank :: "nat \<Rightarrow> Scheduler \<Rightarrow> nat" where
  "rank i sc = cyc (current sc) i * 52
     + (if t_state (tasks sc ! current sc) = Blocked then 51 else t_quantum (tasks sc ! current sc))"

lemma cyc_step: "c < 64 \<Longrightarrow> j < 64 \<Longrightarrow> i < 64 \<Longrightarrow> cyc c j < cyc c i \<Longrightarrow> cyc j i < cyc c i"
  unfolding cyc_def by (auto simp: mod_if split: if_splits)

lemma cyc_inj: "c < 64 \<Longrightarrow> j < 64 \<Longrightarrow> i < 64 \<Longrightarrow> cyc c j = cyc c i \<Longrightarrow> j = i"
  by (metis cyc_inverse)

lemma wake_ready [simp]: "t_state t \<noteq> Blocked \<Longrightarrow> wake_task tk t = t"
  by (simp add: wake_task_def)

lemma tick_progress:
  assumes "waiting i s"
  shows "let s' = fst (timer_tick fi r s)
         in current (sched s') = i \<and> t_state (tasks (sched s') ! i) = Running
            \<or> waiting i s' \<and> rank i (sched s') < rank i (sched s)"
proof -
  let ?sc = "sched s" and ?c = "current (sched s)" and ?s' = "fst (timer_tick fi r s)"
  have wf: "sched_wf ?sc" and u: "\<not> sched_locked s" and ini: "initialized ?sc" and i: "i < MAX_TASKS" and ri: "ready ?sc i"
    and mx: "\<And>j. j < MAX_TASKS \<Longrightarrow> t_state (tasks ?sc ! j) \<noteq> Empty \<Longrightarrow> prio ?sc j \<le> prio ?sc i"
    using assms by (auto simp: waiting_def)
  have len: "length (tasks ?sc) = MAX_TASKS" "?c < MAX_TASKS" using sched_wfD(1,2) [OF wf] by simp_all
  obtain s1 where 1: "sched s1 = upd_task ?c (saved_task r (fpu_reg s)) (wake_sleeping_tasks (tick_count s) ?sc)"
    and wf1: "sched_wf (sched s1)" and u1: "\<not> sched_locked s1"
    and tk: "timer_tick fi r s = (if needs_switch (sched s1)
       then case pick_next (switch_out (sched s1)) of
              Some nx \<Rightarrow> switch_in fi nx (upd_sched switch_out s1)
            | None \<Rightarrow> stay r (upd_sched switch_out s1)
       else (s1, r))"
    using timer_tick_stages [OF wf u ini] by metis
  let ?W = "wake_task (tick_count s)"
  have t1: "tasks (sched s1) ! j = (if j = ?c then saved_task r (fpu_reg s) (?W (tasks ?sc ! j)) else ?W (tasks ?sc ! j))"
    if "j < MAX_TASKS" for j
    using that len by (simp add: 1 nth_list_update)
  have c1: "current (sched s1) = ?c" "initialized (sched s1)" "length (tasks (sched s1)) = MAX_TASKS"
    using ini len by (simp_all add: 1)
  have "?W (tasks ?sc ! i) = tasks ?sc ! i" using ri by simp
  then have r1: "ready (sched s1) i" using t1 [OF i] ri by (cases "i = ?c") simp_all
  have p1: "prio (sched s1) j = prio ?sc j" "t_state (tasks (sched s1) ! j) = Empty \<longleftrightarrow> t_state (tasks ?sc ! j) = Empty"
    if "j < MAX_TASKS" for j using t1 [OF that] by simp_all
  show ?thesis
  proof (cases "needs_switch (sched s1)")
    case False
    then have s': "?s' = s1" using tk by simp
    have "waiting i s1" using wf1 u1 c1 i r1 p1 mx by (simp add: waiting_def)
    moreover have "rank i (sched s1) < rank i ?sc"
    proof -
      let ?t = "tasks ?sc ! ?c"
      have ns: "t_quantum (?W ?t) - 1 \<noteq> 0" "t_state (?W ?t) \<noteq> Blocked"
        using False t1 [OF len(2)] c1(1) by (simp_all add: needs_switch_def Let_def)
      have "t_quantum (?W ?t) \<le> 50" using sched_wfD(4) [OF sched_wf_wake [OF wf] len(2)] len by simp
      then have "t_quantum (?W ?t) - 1 < (if t_state ?t = Blocked then 51 else t_quantum ?t)" using ns(1) by auto
      then show ?thesis using t1 [OF len(2)] c1(1) ns(2) by (simp add: rank_def)
    qed
    ultimately show ?thesis using s' by (simp add: Let_def)
  next
    case True
    let ?sc2 = "switch_out (sched s1)"
    have c2: "current ?sc2 = ?c" "length (tasks ?sc2) = MAX_TASKS" using c1 by simp_all
    have r2: "ready ?sc2 i" and p2: "prio ?sc2 i = prio ?sc i"
      using r1 p1(1) [OF i] c1 len(2) by (cases "i = ?c"; simp add: switch_out_def)+
    have ne: "t_state (tasks ?sc ! j) \<noteq> Empty \<and> prio ?sc2 j = prio ?sc j" if "j < MAX_TASKS" "t_state (tasks ?sc2 ! j) \<noteq> Empty" for j
      using switch_out_task [of "sched s1" j] that p1 [OF that(1)] c1 len(2) by simp
    obtain nx where nx: "pick_next ?sc2 = Some nx"
      using pick_next_None [of ?sc2] r2 i c2 len(2) by fastforce
    note pn = pick_next_Some [OF nx]
    have l: "nx < length (tasks (sched (upd_sched switch_out s1)))" using pn(1) c2 len(2) by simp
    note si = switch_in_simps [OF l, where fi = fi]
    have s': "?s' = fst (switch_in fi nx (upd_sched switch_out s1))" using tk True nx by simp
    show ?thesis
    proof (cases "nx = i")
      case True
      then show ?thesis using si(1,4) s' by (simp add: Let_def)
    next
      case False
      have nx64: "nx < MAX_TASKS" "ready ?sc2 nx" using pn(1,2) c2 len(2) by simp_all
      have "prio ?sc2 i \<le> prio ?sc2 nx" using pn(3) [OF _ i r2] c2 len(2) by simp
      moreover have "prio ?sc2 nx \<le> prio ?sc i" using ne [OF nx64(1)] mx [OF nx64(1)] nx64(2) by simp
      ultimately have eq: "prio ?sc2 i = prio ?sc2 nx" using p2 by (simp add: order_antisym)
      have "cyc ?c nx \<le> cyc ?c i" using pn(4) [OF _ i r2 eq] c2 len(2) by simp
      moreover have "cyc ?c nx \<noteq> cyc ?c i" using cyc_inj [of ?c nx i] False nx64 i len(2) by (auto simp: MAX_TASKS_def)
      ultimately have dec: "cyc nx i < cyc ?c i" using cyc_step [of ?c nx i] nx64 i len(2) by (simp add: MAX_TASKS_def)
      have wf': "sched_wf (sched ?s')" by (rule timer_tick_wf [OF wf])
      have t': "tasks (sched ?s') ! i = tasks ?sc2 ! i" using si(3) [of i] False s' by simp
      have "waiting i ?s'"
        unfolding waiting_def
      proof (intro conjI allI impI)
        fix j assume j: "j < MAX_TASKS" and nE: "t_state (tasks (sched ?s') ! j) \<noteq> Empty"
        have "t_state (tasks ?sc2 ! j) \<noteq> Empty \<and> prio (sched ?s') j = prio ?sc2 j"
          using si(3) [of j] si(6) s' nE nx64(2) by (cases "j = nx") simp_all
        then show "prio (sched ?s') j \<le> prio (sched ?s') i"
          using ne [OF j] mx [OF j] p2 t' by simp
      qed (use wf' u1 si(12,13) c1 i r2 t' s' in simp_all)
      moreover have "rank i (sched ?s') < rank i ?sc"
      proof -
        have "rank i (sched ?s') \<le> cyc nx i * 52 + 50"
          using si(1,4,5) s' quantum_bounds(2) by (simp add: rank_def)
        also have "\<dots> < (cyc nx i + 1) * 52" by simp
        also have "\<dots> \<le> cyc ?c i * 52" using dec by (intro mult_right_mono) simp_all
        finally show ?thesis by (simp add: rank_def)
      qed
      ultimately show ?thesis by (simp add: Let_def)
    qed
  qed
qed

text \<open>A run of the timer interrupt; the stack pointers are those of the code it interrupts.\<close>

fun run_ticks :: "(FxSaveArea \<Rightarrow> FxSaveArea) \<Rightarrow> u64 list \<Rightarrow> System \<Rightarrow> System" where
  "run_ticks fi [] s = s"
| "run_ticks fi (r # rs) s = run_ticks fi rs (fst (handle_timer_switch fi r s))"

lemma handle_timer_switch_simps [simp]:
  "sched (fst (handle_timer_switch fi r s)) = sched (fst (timer_tick fi r s))"
  "sched_locked (fst (handle_timer_switch fi r s)) = sched_locked (fst (timer_tick fi r s))"
  "frames (fst (handle_timer_switch fi r s)) = frames (fst (timer_tick fi r s))"
  "deferred_free (fst (handle_timer_switch fi r s)) = deferred_free (fst (timer_tick fi r s))"
  "tick_count (fst (handle_timer_switch fi r s)) = tick_count (fst (timer_tick fi r s)) + 1"
  "snd (handle_timer_switch fi r s) = snd (timer_tick fi r s)"
  by (simp_all add: handle_timer_switch_def split: prod.splits)

lemma waiting_runs:
  assumes "waiting i s" "rank i (sched s) < length rs"
  shows "\<exists>k \<le> length rs. let s' = run_ticks fi (take k rs) s in current (sched s') = i \<and> t_state (tasks (sched s') ! i) = Running"
  using assms
proof (induction rs arbitrary: s)
  case (Cons r rs)
  let ?s' = "fst (handle_timer_switch fi r s)"
  have "current (sched ?s') = i \<and> t_state (tasks (sched ?s') ! i) = Running
      \<or> waiting i (fst (timer_tick fi r s)) \<and> rank i (sched ?s') < rank i (sched s)"
    using tick_progress [OF Cons.prems(1), of fi r] by (simp add: Let_def)
  then show ?case
  proof (elim disjE conjE)
    assume "current (sched ?s') = i" "t_state (tasks (sched ?s') ! i) = Running"
    then show ?thesis by (intro exI [of _ 1]) (simp add: Let_def)
  next
    assume w: "waiting i (fst (timer_tick fi r s))" and "rank i (sched ?s') < rank i (sched s)"
    then have "waiting i ?s'" "rank i (sched ?s') < length rs" using Cons.prems(2) by (simp_all add: waiting_def)
    then obtain k where "k \<le> length rs" "let s' = run_ticks fi (take k rs) ?s' in current (sched s') = i \<and> t_state (tasks (sched s') ! i) = Running"
      using Cons.IH by blast
    then show ?thesis by (intro exI [of _ "Suc k"]) simp
  qed
qed simp




subsection \<open>Stacks\<close>

abbreviation live :: "Task \<Rightarrow> bool" where
  "live t \<equiv> t_state t \<noteq> Empty \<and> t_state t \<noteq> Exited"

definition run_frames :: "u64 \<Rightarrow> nat \<Rightarrow> nat set" where
  "run_frames base pages = {frame_of base..<frame_of base + pages}"

text \<open>The frames of a task's stack; the boot stack, base 0, is not managed.\<close>

definition stack_frames :: "Task \<Rightarrow> nat set" where
  "stack_frames t = (if t_stack_base t = 0 then {} else run_frames (t_stack_base t) (t_stack_size t div 4096))"

definition run_held :: "FrameAllocator \<Rightarrow> u64 \<Rightarrow> nat \<Rightarrow> bool" where
  "run_held fa base pages \<longleftrightarrow> frame_addr (frame_of base) = base \<and> frame_of base + pages \<le> total_frames fa
     \<and> run_frames base pages \<inter> free_set fa = {}"

text \<open>
  The stacks of the tasks that are not finished lie in frames the allocator does not hold free, no two
  of them share a frame, and a stack whose release is deferred is apart from all of them.
\<close>

definition stacks_ok :: "System \<Rightarrow> bool" where
  "stacks_ok s \<longleftrightarrow> fa_inv (frames s) \<and>
     (\<forall>i<MAX_TASKS. live (tasks (sched s) ! i) \<longrightarrow> t_stack_base (tasks (sched s) ! i) \<noteq> 0 \<longrightarrow>
        run_held (frames s) (t_stack_base (tasks (sched s) ! i)) (t_stack_size (tasks (sched s) ! i) div 4096)) \<and>
     (\<forall>i<MAX_TASKS. \<forall>j<MAX_TASKS. i \<noteq> j \<longrightarrow> live (tasks (sched s) ! i) \<longrightarrow> live (tasks (sched s) ! j) \<longrightarrow>
        stack_frames (tasks (sched s) ! i) \<inter> stack_frames (tasks (sched s) ! j) = {}) \<and>
     (\<forall>base pages. deferred_free s = Some (base, pages) \<longrightarrow> run_held (frames s) base pages \<and>
        (\<forall>i<MAX_TASKS. live (tasks (sched s) ! i) \<longrightarrow> run_frames base pages \<inter> stack_frames (tasks (sched s) ! i) = {}))"

lemma stacks_okD:
  assumes "stacks_ok s"
  shows "fa_inv (frames s)"
    "i < MAX_TASKS \<Longrightarrow> live (tasks (sched s) ! i) \<Longrightarrow> t_stack_base (tasks (sched s) ! i) \<noteq> 0 \<Longrightarrow>
        run_held (frames s) (t_stack_base (tasks (sched s) ! i)) (t_stack_size (tasks (sched s) ! i) div 4096)"
    "i < MAX_TASKS \<Longrightarrow> j < MAX_TASKS \<Longrightarrow> i \<noteq> j \<Longrightarrow> live (tasks (sched s) ! i) \<Longrightarrow> live (tasks (sched s) ! j) \<Longrightarrow>
        stack_frames (tasks (sched s) ! i) \<inter> stack_frames (tasks (sched s) ! j) = {}"
    "deferred_free s = Some (base, pages) \<Longrightarrow> run_held (frames s) base pages"
    "deferred_free s = Some (base, pages) \<Longrightarrow> i < MAX_TASKS \<Longrightarrow> live (tasks (sched s) ! i) \<Longrightarrow>
        run_frames base pages \<inter> stack_frames (tasks (sched s) ! i) = {}"
  using assms unfolding stacks_ok_def by blast+

lemma stacks_okI:
  assumes "fa_inv (frames s)"
    "\<And>i. i < MAX_TASKS \<Longrightarrow> live (tasks (sched s) ! i) \<Longrightarrow> t_stack_base (tasks (sched s) ! i) \<noteq> 0 \<Longrightarrow>
        run_held (frames s) (t_stack_base (tasks (sched s) ! i)) (t_stack_size (tasks (sched s) ! i) div 4096)"
    "\<And>i j. i < MAX_TASKS \<Longrightarrow> j < MAX_TASKS \<Longrightarrow> i \<noteq> j \<Longrightarrow> live (tasks (sched s) ! i) \<Longrightarrow> live (tasks (sched s) ! j) \<Longrightarrow>
        stack_frames (tasks (sched s) ! i) \<inter> stack_frames (tasks (sched s) ! j) = {}"
    "\<And>base pages. deferred_free s = Some (base, pages) \<Longrightarrow> run_held (frames s) base pages"
    "\<And>base pages i. deferred_free s = Some (base, pages) \<Longrightarrow> i < MAX_TASKS \<Longrightarrow> live (tasks (sched s) ! i) \<Longrightarrow>
        run_frames base pages \<inter> stack_frames (tasks (sched s) ! i) = {}"
  shows "stacks_ok s"
  using assms unfolding stacks_ok_def by blast

text \<open>A change of the task table that revives no task and moves no stack keeps the invariant.\<close>

definition keeps_stacks :: "Scheduler \<Rightarrow> Scheduler \<Rightarrow> bool" where
  "keeps_stacks sc sc' \<longleftrightarrow> (\<forall>i<MAX_TASKS. live (tasks sc' ! i) \<longrightarrow> live (tasks sc ! i)
     \<and> t_stack_base (tasks sc' ! i) = t_stack_base (tasks sc ! i) \<and> t_stack_size (tasks sc' ! i) = t_stack_size (tasks sc ! i))"

lemma keeps_stacks_refl [simp]: "keeps_stacks sc sc"
  by (simp add: keeps_stacks_def)

lemma keeps_stacks_trans: "keeps_stacks a b \<Longrightarrow> keeps_stacks b c \<Longrightarrow> keeps_stacks a c"
  unfolding keeps_stacks_def by metis

lemma stacks_ok_keeps:
  assumes "stacks_ok s" "keeps_stacks (sched s) (sched s')" "frames s' = frames s" "deferred_free s' = deferred_free s \<or> deferred_free s' = None"
  shows "stacks_ok s'"
proof -
  have k: "live (tasks (sched s) ! i)" "t_stack_base (tasks (sched s') ! i) = t_stack_base (tasks (sched s) ! i)"
    "t_stack_size (tasks (sched s') ! i) = t_stack_size (tasks (sched s) ! i)" "stack_frames (tasks (sched s') ! i) = stack_frames (tasks (sched s) ! i)"
    if "i < MAX_TASKS" "live (tasks (sched s') ! i)" for i
    using assms(2) that unfolding keeps_stacks_def stack_frames_def by auto
  have d: "deferred_free s = Some (base, pages)" if "deferred_free s' = Some (base, pages)" for base pages
    using assms(4) that by auto
  show ?thesis
    by (rule stacks_okI) (use k d stacks_okD [OF assms(1)] assms(3) in simp_all)
qed

lemma free_stack_spec:
  assumes "fa_inv fa" "frame_addr (frame_of base) = base" "frame_of base + pages \<le> total_frames fa"
  shows "free_set (free_stack base pages fa) = free_set fa \<union> run_frames base pages \<and>
     fa_inv (free_stack base pages fa) \<and> total_frames (free_stack base pages fa) = total_frames fa"
  using assms(3)
proof (induction pages)
  case 0
  then show ?case using assms(1) by (simp add: free_stack_def run_frames_def)
next
  case (Suc p)
  let ?k = "frame_of base" and ?fa = "free_stack base p fa"
  have IH: "free_set ?fa = free_set fa \<union> run_frames base p" "fa_inv ?fa" "total_frames ?fa = total_frames fa"
    using Suc by simp_all
  have e: "free_stack base (Suc p) fa = free_frame ?fa (base + of_nat p * 4096)" by (simp add: free_stack_def)
  have "base + of_nat p * 4096 = frame_addr (?k + p)"
    using arg_cong [OF assms(2), of "\<lambda>b. b + of_nat p * 4096"] by (simp add: frame_addr_def PAGE_SIZE_def algebra_simps)
  moreover have m: "?k + p < MAX_FRAMES" using Suc.prems assms(1) by (simp add: fa_inv_def)
  ultimately have f: "frame_of (base + of_nat p * 4096) = ?k + p" by simp
  have "fa_inv (free_stack base (Suc p) fa)"
    unfolding e by (rule fa_inv_free_frame [OF IH(2)]) (use f IH(3) Suc.prems in simp)
  then show ?case
    using IH f m by (auto simp: e free_set_free_frame run_frames_def)
qed

lemma stacks_ok_deferred:
  assumes "stacks_ok s"
  shows "stacks_ok (process_deferred_free s)"
proof (cases "deferred_free s")
  case None
  then show ?thesis using assms by (simp add: process_deferred_free_def)
next
  case (Some bp)
  obtain base pages where bp: "bp = (base, pages)" by (cases bp)
  let ?s = "process_deferred_free s"
  note D = stacks_okD [OF assms]
  have h: "run_held (frames s) base pages" using D(4) Some bp by simp
  have fr: "frames ?s = free_stack base pages (frames s)" using Some bp by (simp add: process_deferred_free_def)
  note fs = free_stack_spec [OF D(1), of base pages]
  have fs: "free_set (frames ?s) = free_set (frames s) \<union> run_frames base pages" "fa_inv (frames ?s)" "total_frames (frames ?s) = total_frames (frames s)"
    using fs h fr by (simp_all add: run_held_def)
  show ?thesis
  proof (rule stacks_okI)
    fix i assume i: "i < MAX_TASKS" "live (tasks (sched ?s) ! i)" "t_stack_base (tasks (sched ?s) ! i) \<noteq> 0"
    let ?t = "tasks (sched s) ! i"
    have "run_held (frames s) (t_stack_base ?t) (t_stack_size ?t div 4096)" "run_frames base pages \<inter> stack_frames ?t = {}"
      using D(2,5) i Some bp by simp_all
    then show "run_held (frames ?s) (t_stack_base (tasks (sched ?s) ! i)) (t_stack_size (tasks (sched ?s) ! i) div 4096)"
      using fs i(3) by (auto simp: run_held_def stack_frames_def)
  qed (use fs D(3) in simp_all)
qed

lemma keeps_upd:
  assumes "i < length (tasks sc)" "live (f (tasks sc ! i)) \<Longrightarrow> live (tasks sc ! i)"
    "live (f (tasks sc ! i)) \<Longrightarrow> t_stack_base (f (tasks sc ! i)) = t_stack_base (tasks sc ! i)"
    "live (f (tasks sc ! i)) \<Longrightarrow> t_stack_size (f (tasks sc ! i)) = t_stack_size (tasks sc ! i)"
  shows "keeps_stacks sc (upd_task i f sc)"
  using assms unfolding keeps_stacks_def by (auto simp: nth_list_update)

lemma timer_tick_keeps:
  assumes wf: "sched_wf (sched s)"
  shows "keeps_stacks (sched s) (sched (fst (timer_tick fi r s)))"
    "frames (fst (timer_tick fi r s)) = frames (process_deferred_free s)"
    "deferred_free (fst (timer_tick fi r s)) = None"
proof -
  have "keeps_stacks (sched s) (sched (fst (timer_tick fi r s))) \<and>
    frames (fst (timer_tick fi r s)) = frames (process_deferred_free s) \<and> deferred_free (fst (timer_tick fi r s)) = None"
  proof (cases "\<not> sched_locked s \<and> initialized (sched s)")
    case False
    then show ?thesis by (auto simp: timer_tick_def Let_def)
  next
    case True
    have len: "length (tasks (sched s)) = MAX_TASKS" "current (sched s) < MAX_TASKS" using sched_wfD(1,2) [OF wf] by simp_all
    obtain s1 where 1: "sched s1 = upd_task (current (sched s)) (saved_task r (fpu_reg s)) (wake_sleeping_tasks (tick_count s) (sched s))"
      and wf1: "sched_wf (sched s1)" and fr: "frames s1 = frames (process_deferred_free s)" "deferred_free s1 = None"
      and tk: "timer_tick fi r s = (if needs_switch (sched s1)
         then case pick_next (switch_out (sched s1)) of
                Some nx \<Rightarrow> switch_in fi nx (upd_sched switch_out s1)
              | None \<Rightarrow> stay r (upd_sched switch_out s1)
         else (s1, r))"
      using timer_tick_stages [OF wf] True by metis
    have k1: "keeps_stacks (sched s) (sched s1)"
      unfolding 1 keeps_stacks_def using len by (auto simp: nth_list_update)
    have k2: "keeps_stacks (sched s1) (switch_out (sched s1))"
      unfolding switch_out_def using sched_wfD(1,2) [OF wf1] by (intro keeps_upd) (auto simp: task_empty_def split: if_splits)
    have len2: "length (tasks (switch_out (sched s1))) = MAX_TASKS" using sched_wfD(1) [OF wf1] by simp
    have k3: "keeps_stacks (switch_out (sched s1)) (sched (fst (switch_in fi nx (upd_sched switch_out s1))))"
      if nx: "pick_next (switch_out (sched s1)) = Some nx" for nx
    proof -
      have n: "nx < length (tasks (sched (upd_sched switch_out s1)))" "ready (switch_out (sched s1)) nx"
        using pick_next_Some(1,2) [OF nx] sched_wfD(2) [OF wf1] len2 by simp_all
      note si = switch_in_simps(3,4,7,8) [OF n(1), where fi = fi]
      show ?thesis
        unfolding keeps_stacks_def
      proof (intro allI impI)
        fix i
        assume "live (tasks (sched (fst (switch_in fi nx (upd_sched switch_out s1)))) ! i)"
        then show "live (tasks (switch_out (sched s1)) ! i) \<and>
            t_stack_base (tasks (sched (fst (switch_in fi nx (upd_sched switch_out s1)))) ! i) = t_stack_base (tasks (switch_out (sched s1)) ! i) \<and>
            t_stack_size (tasks (sched (fst (switch_in fi nx (upd_sched switch_out s1)))) ! i) = t_stack_size (tasks (switch_out (sched s1)) ! i)"
          using si n(2) by (cases "i = nx") simp_all
      qed
    qed
    have ex: "t_state (tasks (switch_out (sched s1)) ! current (sched s1)) \<noteq> Exited"
      using sched_wfD(1,2) [OF wf1] by (simp add: switch_out_def task_empty_def)
    have k4: "keeps_stacks (switch_out (sched s1)) (sched (fst (stay r (upd_sched switch_out s1))))"
      using len2 sched_wfD(2) [OF wf1] ex
      by (auto simp: stay_def Let_def keeps_stacks_def nth_list_update MAX_TASKS_def)
    have f4: "frames (fst (stay r (upd_sched switch_out s1))) = frames s1" "deferred_free (fst (stay r (upd_sched switch_out s1))) = deferred_free s1"
      by (simp_all add: stay_def Let_def)
    have f3: "frames (fst (switch_in fi nx (upd_sched switch_out s1))) = frames s1" "deferred_free (fst (switch_in fi nx (upd_sched switch_out s1))) = deferred_free s1" for nx
      by (simp_all add: switch_in_def Let_def)
    have k12: "keeps_stacks (sched s) (switch_out (sched s1))" using k1 k2 by (rule keeps_stacks_trans)
    show ?thesis
    proof (cases "pick_next (switch_out (sched s1))")
      case None
      then show ?thesis using tk k1 keeps_stacks_trans [OF k12 k4] f4 fr by simp
    next
      case (Some nx)
      then show ?thesis using tk k1 keeps_stacks_trans [OF k12 k3 [OF Some]] f3 fr by simp
    qed
  qed
  then show "keeps_stacks (sched s) (sched (fst (timer_tick fi r s)))"
    "frames (fst (timer_tick fi r s)) = frames (process_deferred_free s)"
    "deferred_free (fst (timer_tick fi r s)) = None" by simp_all
qed


subsection \<open>Steps of the system\<close>

text \<open>
  A step is a timer interrupt, an operation called by the running task, or the running task's own
  code, which may take or release the scheduler's lock and change the FPU registers and stack words.
  The operations wait for the lock, so they run when nobody holds it.
\<close>

abbreviation executing :: "System \<Rightarrow> bool" where
  "executing s \<equiv> t_state (tasks (sched s) ! current (sched s)) = Running \<and> \<not> sched_locked s"

inductive sys_step :: "(FxSaveArea \<Rightarrow> FxSaveArea) \<Rightarrow> System \<Rightarrow> System \<Rightarrow> bool" for fi where
  tick: "sys_step fi s (fst (handle_timer_switch fi r s))"
| spawn: "executing s \<Longrightarrow> sys_step fi s (fst (spawn_with_priority nm entry_point p s))"
| exit: "executing s \<Longrightarrow> sys_step fi s (exit_current_task s)"
| kill: "executing s \<Longrightarrow> sys_step fi s (fst (kill tid s))"
| sleep: "executing s \<Longrightarrow> sys_step fi s (sleep_ms ms s)"
| set_priority: "executing s \<Longrightarrow> sys_step fi s (fst (set_priority tid p s))"
| yield: "executing s \<Longrightarrow> sys_step fi s (yield_now s)"
| run: "sys_step fi s (s\<lparr>sched_locked := b, fpu_reg := f, stack_mem := m\<rparr>)"

inductive_cases sys_stepE: "sys_step fi s s'"

definition sys_ok :: "System \<Rightarrow> bool" where
  "sys_ok s \<longleftrightarrow> sched_wf (sched s) \<and> stacks_ok s"

lemma find_slot:
  assumes "List.find P [0..<MAX_TASKS] = Some i"
  shows "i < MAX_TASKS" "P i"
  using assms by (auto simp: find_upt_Some_iff)

lemma find_activeD:
  assumes "find_active tid sc = Some i"
  shows "i < MAX_TASKS" "live (tasks sc ! i)" "t_id (tasks sc ! i) = tid"
  using find_slot [OF assms [unfolded find_active_def]] by simp_all

lemma sys_ok_tick:
  assumes "sys_ok s"
  shows "sys_ok (fst (timer_tick fi r s))"
proof -
  have wf: "sched_wf (sched s)" and st: "stacks_ok s" using assms by (simp_all add: sys_ok_def)
  note k = timer_tick_keeps [OF wf, of fi r]
  have "stacks_ok (fst (timer_tick fi r s))"
    by (rule stacks_ok_keeps [OF stacks_ok_deferred [OF st]]) (use k in simp_all)
  then show ?thesis using timer_tick_wf [OF wf] by (simp add: sys_ok_def)
qed

lemma sys_ok_cong:
  "sched s' = sched s \<Longrightarrow> frames s' = frames s \<Longrightarrow> deferred_free s' = deferred_free s \<Longrightarrow> sys_ok s' = sys_ok s"
  by (simp add: sys_ok_def stacks_ok_def)

lemma sys_ok_upd:
  assumes "sys_ok s" "i < MAX_TASKS" "t_quantum (f (tasks (sched s) ! i)) \<le> 50"
    "t_state (f (tasks (sched s) ! i)) = Running \<Longrightarrow> i = current (sched s)"
    "live (f (tasks (sched s) ! i)) \<Longrightarrow> live (tasks (sched s) ! i)"
    "live (f (tasks (sched s) ! i)) \<Longrightarrow> t_stack_base (f (tasks (sched s) ! i)) = t_stack_base (tasks (sched s) ! i)"
    "live (f (tasks (sched s) ! i)) \<Longrightarrow> t_stack_size (f (tasks (sched s) ! i)) = t_stack_size (tasks (sched s) ! i)"
  shows "sys_ok (upd_sched (upd_task i f) s)"
proof -
  have wf: "sched_wf (sched s)" and st: "stacks_ok s" using assms(1) by (simp_all add: sys_ok_def)
  have "sched_wf (upd_task i f (sched s))" by (rule sched_wf_upd_task [OF wf]) (use assms(3,4) in simp_all)
  moreover have "keeps_stacks (sched s) (upd_task i f (sched s))"
    by (rule keeps_upd) (use assms sched_wfD(1) [OF wf] in simp_all)
  then have "stacks_ok (upd_sched (upd_task i f) s)" by (intro stacks_ok_keeps [OF st]) simp_all
  ultimately show ?thesis by (simp add: sys_ok_def)
qed

lemma sys_ok_kill:
  assumes "sys_ok s"
  shows "sys_ok (fst (kill tid s))"
proof (cases "tid = 0 \<or> find_active tid (sched s) = None")
  case True
  then show ?thesis using assms by (auto simp: kill_def)
next
  case False
  then obtain i where f: "find_active tid (sched s) = Some i" and t0: "tid \<noteq> 0" by auto
  note fa = find_activeD [OF f]
  have wf: "sched_wf (sched s)" and st: "stacks_ok s" using assms by (simp_all add: sys_ok_def)
  note D = stacks_okD [OF st]
  let ?t = "tasks (sched s) ! i"
  define fr where "fr = (if t_stack_base ?t \<noteq> 0 then free_stack (t_stack_base ?t) (t_stack_size ?t div 4096) (frames s) else frames s)"
  define s' where "s' = s\<lparr>frames := fr, sched := upd_task i (\<lambda>_. task_empty) (sched s)\<rparr>"
  have e: "fst (kill tid s) = s'" using f t0 by (simp add: kill_def s'_def fr_def Let_def)
  have len: "length (tasks (sched s)) = MAX_TASKS" using sched_wfD(1) [OF wf] .
  have fr: "free_set fr = free_set (frames s) \<union> stack_frames ?t" "fa_inv fr" "total_frames fr = total_frames (frames s)"
    using free_stack_spec [OF D(1), of "t_stack_base ?t" "t_stack_size ?t div 4096"] D(2) [OF fa(1,2)] D(1)
    by (auto simp: fr_def run_held_def stack_frames_def)
  have tk: "tasks (sched s') ! j = (if j = i then task_empty else tasks (sched s) ! j)" if "j < MAX_TASKS" for j
    using that len fa(1) by (simp add: s'_def nth_list_update)
  have nl: "j \<noteq> i \<and> tasks (sched s') ! j = tasks (sched s) ! j \<and> live (tasks (sched s) ! j)"
    if "j < MAX_TASKS" "live (tasks (sched s') ! j)" for j
    using tk [OF that(1)] that(2) by (cases "j = i") (simp_all add: task_empty_def)
  have "stacks_ok s'"
  proof (rule stacks_okI)
    show "fa_inv (frames s')" using fr(2) by (simp add: s'_def)
  next
    fix j assume j: "j < MAX_TASKS" "live (tasks (sched s') ! j)" "t_stack_base (tasks (sched s') ! j) \<noteq> 0"
    note n = nl [OF j(1,2)]
    have "stack_frames ?t \<inter> stack_frames (tasks (sched s) ! j) = {}"
      using D(3) [OF fa(1) j(1) _ fa(2)] n by auto
    then show "run_held (frames s') (t_stack_base (tasks (sched s') ! j)) (t_stack_size (tasks (sched s') ! j) div 4096)"
      using D(2) [OF j(1)] n j(3) fr by (auto simp: s'_def run_held_def stack_frames_def)
  next
    fix j k assume "j < MAX_TASKS" "k < MAX_TASKS" "j \<noteq> k" "live (tasks (sched s') ! j)" "live (tasks (sched s') ! k)"
    then show "stack_frames (tasks (sched s') ! j) \<inter> stack_frames (tasks (sched s') ! k) = {}"
      using nl D(3) by metis
  next
    fix base pages assume "deferred_free s' = Some (base, pages)"
    then have d: "deferred_free s = Some (base, pages)" by (simp add: s'_def)
    then show "run_held (frames s') base pages"
      using D(4) D(5) [OF d fa(1,2)] fr by (auto simp: s'_def run_held_def)
    fix j assume "j < MAX_TASKS" "live (tasks (sched s') ! j)"
    then show "run_frames base pages \<inter> stack_frames (tasks (sched s') ! j) = {}" using nl D(5) [OF d] by metis
  qed
  moreover have "sched_wf (sched s')"
    unfolding s'_def by (simp, rule sched_wf_upd_task [OF wf]) (simp_all add: task_empty_def)
  ultimately show ?thesis by (simp add: sys_ok_def e)
qed

lemma frame_addr_div: "frame_of (frame_addr k) = k \<Longrightarrow> frame_addr (frame_of (frame_addr k)) = frame_addr k"
  by simp

lemma set_name_simps [simp]:
  "t_state (set_name n t) = t_state t" "t_quantum (set_name n t) = t_quantum t" "t_stack_base (set_name n t) = t_stack_base t"
  "t_stack_size (set_name n t) = t_stack_size t" "t_priority (set_name n t) = t_priority t" "t_id (set_name n t) = t_id t"
  "t_saved_rsp (set_name n t) = t_saved_rsp t" "t_fpu_initialized (set_name n t) = t_fpu_initialized t"
  by (simp_all add: set_name_def Let_def)

lemma sys_ok_spawn:
  assumes "sys_ok s"
  shows "sys_ok (fst (spawn_with_priority nm ep p s))"
proof -
  have wf: "sched_wf (sched s)" and st: "stacks_ok s" using assms by (simp_all add: sys_ok_def)
  note D = stacks_okD [OF st]
  show ?thesis
  proof (cases "List.find (\<lambda>i. t_state (tasks (sched s) ! i) = Empty) [0..<MAX_TASKS]")
    case None
    then show ?thesis using assms by (simp add: spawn_with_priority_def)
  next
    case (Some slot)
    have sl: "slot < MAX_TASKS" "t_state (tasks (sched s) ! slot) = Empty" using find_slot [OF Some] by simp_all
    obtain fa r where al: "allocate_contiguous_frames (frames s) TASK_STACK_PAGES = (fa, r)" by fastforce
    show ?thesis
    proof (cases r)
      case None
      then have "fa = frames s" using allocate_contiguous_None al by auto
      then show ?thesis using assms None Some al by (simp add: spawn_with_priority_def)
    next
      case (Some base)
      from al [unfolded Some] obtain k where k: "run_free (frames s) TASK_STACK_PAGES k" "base = frame_addr k"
        "free_set fa = free_set (frames s) - {k..<k + TASK_STACK_PAGES}" "total_frames fa = total_frames (frames s)" "fa_inv fa"
        using allocate_contiguous_Some D(1) by metis
      have run: "k + 5 \<le> total_frames (frames s)" "{k..<k + 5} \<subseteq> free_set (frames s)"
        using k(1) by (simp_all add: run_free_def TASK_STACK_PAGES_def)
      have kf: "frame_of base = k" using k(2) run(1) D(1) by (simp add: fa_inv_def)
      define s' where "s' = fst (spawn_with_priority nm ep p s)"
      define t where "t = set_name nm (task_empty\<lparr>t_id := next_id (sched s), t_state := Ready,
         t_saved_rsp := base + of_nat TASK_STACK_SIZE - of_nat CONTEXT_SLOTS * 8, t_stack_base := base,
         t_stack_size := TASK_STACK_SIZE, t_priority := p, t_quantum := quantum p\<rparr>)"
      have t: "t_stack_base t = base" "t_stack_size t = TASK_STACK_SIZE" "t_state t = Ready" "t_quantum t \<le> 50"
        using quantum_bounds(2) by (simp_all add: t_def)
      have s': "sched s' = (upd_task slot (\<lambda>_. t) (sched s))\<lparr>next_id := next_id (sched s) + 1\<rparr>" "frames s' = fa" "deferred_free s' = deferred_free s"
        using al Some \<open>List.find _ _ = Some slot\<close> by (simp_all add: spawn_with_priority_def Let_def s'_def t_def)
      have sf: "stack_frames t \<subseteq> {k..<k + 5}" "t_stack_size t div 4096 = 5" "run_frames base 5 = {k..<k + 5}"
        using t kf by (simp_all add: stack_frames_def run_frames_def TASK_STACK_SIZE_def TASK_STACK_PAGES_def)
      have tk: "tasks (sched s') ! j = (if j = slot then t else tasks (sched s) ! j)" if "j < MAX_TASKS" for j
        using that sl(1) sched_wfD(1) [OF wf] by (simp add: s' nth_list_update)
      have old: "run_held fa b n" "run_frames b n \<inter> {k..<k + 5} = {}" if "run_held (frames s) b n" for b n
        using that k(3,4) run(2) by (auto simp: run_held_def TASK_STACK_PAGES_def)
      have oldt: "stack_frames (tasks (sched s) ! j) \<inter> {k..<k + 5} = {}" if "j < MAX_TASKS" "live (tasks (sched s) ! j)" for j
        using old(2) D(2) [OF that] by (auto simp: stack_frames_def)
      have "stacks_ok s'"
      proof (rule stacks_okI)
        show "fa_inv (frames s')" using k(5) s' by simp
      next
        fix j assume j: "j < MAX_TASKS" "live (tasks (sched s') ! j)" "t_stack_base (tasks (sched s') ! j) \<noteq> 0"
        show "run_held (frames s') (t_stack_base (tasks (sched s') ! j)) (t_stack_size (tasks (sched s') ! j) div 4096)"
        proof (cases "j = slot")
          case True
          then show ?thesis using tk [OF j(1)] t sf k run kf s' by (auto simp: run_held_def TASK_STACK_PAGES_def)
        next
          case False
          then show ?thesis using tk [OF j(1)] D(2) [OF j(1)] j old(1) s' by simp
        qed
      next
        fix i j assume ij: "i < MAX_TASKS" "j < MAX_TASKS" "i \<noteq> j" "live (tasks (sched s') ! i)" "live (tasks (sched s') ! j)"
        show "stack_frames (tasks (sched s') ! i) \<inter> stack_frames (tasks (sched s') ! j) = {}"
          using tk [OF ij(1)] tk [OF ij(2)] ij D(3) [OF ij(1-3)] oldt [OF ij(1)] oldt [OF ij(2)] sf(1)
          by (cases "i = slot"; cases "j = slot") auto
      next
        fix b n assume "deferred_free s' = Some (b, n)"
        then have d: "deferred_free s = Some (b, n)" by (simp add: s')
        show "run_held (frames s') b n" using old(1) D(4) [OF d] s' by simp
        fix j assume j: "j < MAX_TASKS" "live (tasks (sched s') ! j)"
        show "run_frames b n \<inter> stack_frames (tasks (sched s') ! j) = {}"
          using tk [OF j(1)] j D(5) [OF d j(1)] old(2) [OF D(4) [OF d]] sf(1) by (cases "j = slot") auto
      qed
      moreover have "sched_wf (sched s')"
      proof -
        have "sched_wf (upd_task slot (\<lambda>_. t) (sched s))"
          by (rule sched_wf_upd_task [OF wf]) (use t in simp_all)
        then show ?thesis unfolding s' by (simp add: sched_wf_def)
      qed
      ultimately show ?thesis by (simp add: sys_ok_def s'_def)
    qed
  qed
qed

lemma sys_ok_exit:
  assumes "sys_ok s" "t_state (tasks (sched s) ! current (sched s)) = Running"
  shows "sys_ok (exit_current_task s)"
proof -
  have wf: "sched_wf (sched s)" and st: "stacks_ok s" using assms by (simp_all add: sys_ok_def)
  note D = stacks_okD [OF st]
  let ?c = "current (sched s)" and ?s1 = "upd_sched (upd_task (current (sched s)) (\<lambda>t. t\<lparr>t_state := Exited\<rparr>)) s"
  have c: "?c < MAX_TASKS" "length (tasks (sched s)) = MAX_TASKS" using sched_wfD(1,2) [OF wf] by simp_all
  let ?t = "tasks (sched s) ! ?c"
  have s1: "sys_ok ?s1"
    by (rule sys_ok_upd [OF assms(1) c(1)]) (use sched_wfD(4) [OF wf c(1)] in simp_all)
  note D1 = stacks_okD [OF s1 [unfolded sys_ok_def, THEN conjunct2]]
  show ?thesis
  proof (cases "t_stack_base ?t = 0")
    case True
    then show ?thesis using s1 c by (simp add: exit_current_task_def Let_def)
  next
    case False
    let ?s' = "?s1\<lparr>deferred_free := Some (t_stack_base ?t, t_stack_size ?t div 4096)\<rparr>"
    have e: "exit_current_task s = ?s'" using False c by (simp add: exit_current_task_def Let_def)
    have "stacks_ok ?s'"
    proof (rule stacks_okI)
      fix base pages assume "deferred_free ?s' = Some (base, pages)"
      then have bp: "base = t_stack_base ?t" "pages = t_stack_size ?t div 4096" by simp_all
      show "run_held (frames ?s') base pages" using D(2) [OF c(1)] assms(2) False bp by simp
      fix j assume j: "j < MAX_TASKS" "live (tasks (sched ?s') ! j)"
      then have "j \<noteq> ?c" using c by auto
      with j have "stack_frames ?t \<inter> stack_frames (tasks (sched s) ! j) = {}" using D(3) [OF c(1) j(1)] assms(2) by auto
      then show "run_frames base pages \<inter> stack_frames (tasks (sched ?s') ! j) = {}"
        using False bp \<open>j \<noteq> ?c\<close> by (simp add: stack_frames_def)
    qed (use D1 in simp_all)
    then show ?thesis using s1 by (simp add: e sys_ok_def)
  qed
qed

lemma sys_step_ok:
  assumes "sys_step fi s s'" "sys_ok s"
  shows "sys_ok s'"
  using assms
proof (cases rule: sys_step.cases)
  case (tick r)
  then show ?thesis using sys_ok_tick [OF assms(2), of fi r] sys_ok_cong [of "fst (handle_timer_switch fi r s)" "fst (timer_tick fi r s)"] by simp
next
  case (spawn nm entry_point p)
  then show ?thesis using sys_ok_spawn assms(2) by simp
next
  case exit
  then show ?thesis using sys_ok_exit assms(2) by simp
next
  case (kill tid)
  then show ?thesis using sys_ok_kill assms(2) by simp
next
  case (sleep ms)
  have c: "current (sched s) < MAX_TASKS" using assms(2) sched_wfD(2) by (simp add: sys_ok_def)
  show ?thesis unfolding sleep(1) sleep_ms_def Let_def
    by (rule sys_ok_upd [OF assms(2) c]) (use sleep(2) in simp_all)
next
  case (set_priority tid p)
  show ?thesis
  proof (cases "find_active tid (sched s)")
    case None
    then show ?thesis using set_priority(1) assms(2) by (simp add: set_priority_def)
  next
    case (Some i)
    have "sched_wf (sched s)" using assms(2) by (simp add: sys_ok_def)
    then have "sys_ok (upd_sched (upd_task i (\<lambda>t. t\<lparr>t_priority := p, t_quantum := quantum p\<rparr>)) s)"
      by (intro sys_ok_upd [OF assms(2)]) (use find_activeD [OF Some] sched_wfD(3) quantum_bounds(2) in simp_all)
    then show ?thesis using set_priority(1) Some by (simp add: set_priority_def)
  qed
next
  case yield
  have c: "current (sched s) < MAX_TASKS" using assms(2) sched_wfD(2) by (simp add: sys_ok_def)
  have "sys_ok (upd_sched (upd_task (current (sched s)) (\<lambda>t. t\<lparr>t_quantum := 0\<rparr>)) s)"
    by (rule sys_ok_upd [OF assms(2) c]) simp_all
  then show ?thesis using yield assms(2) by (simp add: yield_now_def)
next
  case (run b f m)
  then show ?thesis using sys_ok_cong [of s' s] assms(2) by simp
qed

lemma sys_steps_ok: "(sys_step fi)\<^sup>*\<^sup>* s s' \<Longrightarrow> sys_ok s \<Longrightarrow> sys_ok s'"
  by (induction rule: rtranclp_induct) (auto intro: sys_step_ok)

lemma sys_ok_init:
  assumes "sched s = sched_new" "fa_inv (frames s)" "deferred_free s = None"
  shows "sys_ok (sched_init s)"
proof -
  let ?t = "set_name ''kernel'' (task_empty\<lparr>t_state := Running, t_quantum := quantum Normal, t_fpu_initialized := True, t_fxsave := fpu_reg s\<rparr>)"
  have tk: "tasks (sched (sched_init s)) ! i = (if i = 0 then ?t else task_empty)" if "i < MAX_TASKS" for i
    using that assms(1) by (simp add: sched_init_def sched_new_def nth_list_update MAX_TASKS_def set_name_def Let_def task_empty_def)
  have o: "length (tasks (sched (sched_init s))) = MAX_TASKS" "current (sched (sched_init s)) = 0"
    "frames (sched_init s) = frames s" "deferred_free (sched_init s) = None"
    using assms by (simp_all add: sched_init_def sched_new_def)
  have e: "t_state task_empty = Empty" "t_quantum task_empty = 0" "t_stack_base task_empty = 0" by (simp_all add: task_empty_def)
  have "sched_wf (sched (sched_init s))"
    using tk o e by (auto simp: sched_wf_def MAX_TASKS_def)
  moreover have "stacks_ok (sched_init s)"
    by (rule stacks_okI) (use tk o e assms(2) in \<open>auto split: if_splits\<close>)
  ultimately show ?thesis by (simp add: sys_ok_def)
qed


subsection \<open>Properties\<close>

lemma rank_bound: "sched_wf sc \<Longrightarrow> rank i sc < 64 * 52"
proof -
  assume wf: "sched_wf sc"
  have "cyc (current sc) i * 52 \<le> 63 * 52" using cyc_less [of "current sc" i] by (intro mult_right_mono) simp_all
  moreover have "t_quantum (tasks sc ! current sc) \<le> 50" using sched_wfD(2,4) [OF wf] by simp
  ultimately show ?thesis by (simp add: rank_def)
qed


text \<open>A system after start-up with two more tasks, for the witnesses.\<close>

definition task_example :: "TaskState \<Rightarrow> nat \<Rightarrow> Task" where
  "task_example st k = task_empty\<lparr>t_state := st, t_quantum := 10, t_stack_base := frame_addr k, t_stack_size := TASK_STACK_SIZE\<rparr>"

definition sys_empty :: System where
  "sys_empty = \<lparr>sched = sched_new, sched_locked = False, deferred_free = None, tick_count = 0, irq_timer_count = 0,
     frames = fa_new\<lparr>total_frames := 100\<rparr>, stack_mem = (\<lambda>_. 0), fpu_reg = fx_new\<rparr>"

definition sys_example :: System where
  "sys_example = upd_sched (upd_task 5 (\<lambda>_. task_example Ready 20)) (sched_init sys_empty)"

lemma sys_example_tasks:
  "i < MAX_TASKS \<Longrightarrow> t_state (tasks (sched sys_example) ! i) = (if i = 0 then Running else if i = 5 then Ready else Empty)"
  "i < MAX_TASKS \<Longrightarrow> t_priority (tasks (sched sys_example) ! i) = Normal"
  "i < MAX_TASKS \<Longrightarrow> t_quantum (tasks (sched sys_example) ! i) \<le> 50"
  "length (tasks (sched sys_example)) = MAX_TASKS" "current (sched sys_example) = 0" "initialized (sched sys_example)" "\<not> sched_locked sys_example"
  by (auto simp: sys_example_def sched_init_def sys_empty_def sched_new_def nth_list_update MAX_TASKS_def task_example_def
      task_empty_def set_name_def Let_def)

lemma sys_example_wf: "sched_wf (sched sys_example)"
  using sys_example_tasks by (auto simp: sched_wf_def MAX_TASKS_def split: if_splits)


text \<open>
  C24: The scheduler's invariant. In every state reachable from start-up by timer interrupts and the
  operations of the running task (spawn, exit, kill, sleep, priority changes, yield), at most the
  current slot is running, time slices are at most 50 ticks, the stacks of two unfinished tasks share no frame, and
  no frame of such a stack is free in the frame allocator.
\<close>

theorem sched_invariant:
  assumes "sched s0 = sched_new" "fa_inv (frames s0)" "deferred_free s0 = None" "(sys_step fninit)\<^sup>*\<^sup>* (sched_init s0) s"
  shows "length (tasks (sched s)) = MAX_TASKS \<and> current (sched s) < MAX_TASKS \<and>
     (\<forall>i<MAX_TASKS. t_state (tasks (sched s) ! i) = Running \<longrightarrow> i = current (sched s)) \<and>
     (\<forall>i<MAX_TASKS. t_quantum (tasks (sched s) ! i) \<le> 50) \<and>
     (\<forall>i<MAX_TASKS. \<forall>j<MAX_TASKS. i \<noteq> j \<longrightarrow> live (tasks (sched s) ! i) \<longrightarrow> live (tasks (sched s) ! j) \<longrightarrow>
        stack_frames (tasks (sched s) ! i) \<inter> stack_frames (tasks (sched s) ! j) = {}) \<and>
     (\<forall>i<MAX_TASKS. live (tasks (sched s) ! i) \<longrightarrow> stack_frames (tasks (sched s) ! i) \<inter> free_set (frames s) = {})"
proof -
  have "sys_ok s" using sys_steps_ok [OF assms(4) sys_ok_init [OF assms(1-3)]] .
  then have wf: "sched_wf (sched s)" and st: "stacks_ok s" by (simp_all add: sys_ok_def)
  have "stack_frames (tasks (sched s) ! i) \<inter> free_set (frames s) = {}" if "i < MAX_TASKS" "live (tasks (sched s) ! i)" for i
    using stacks_okD(2) [OF st that] by (simp add: stack_frames_def run_held_def)
  then show ?thesis using sched_wfD [OF wf] stacks_okD(3) [OF st] by blast
qed

lemma sys_empty_simps: "sched sys_empty = sched_new" "fa_inv (frames sys_empty)" "deferred_free sys_empty = None"
  "free_set (frames sys_empty) = {}" "total_frames (frames sys_empty) = 100"
proof -
  have "free_set (fa_new\<lparr>total_frames := 100\<rparr>) = {}"
    using free_set_new unfolding free_set_def is_free_bit by simp
  then show "fa_inv (frames sys_empty)" "free_set (frames sys_empty) = {}"
    by (simp_all add: sys_empty_def fa_inv_def fa_new_def MAX_FRAMES_eq)
qed (simp_all add: sys_empty_def)

theorem sched_invariant_witness:
  "{i. i < MAX_TASKS \<and> t_state (tasks (sched (fst (handle_timer_switch id 7 (yield_now (sched_init sys_empty))))) ! i) = Running}
     \<subseteq> {current (sched (fst (handle_timer_switch id 7 (yield_now (sched_init sys_empty)))))}"
proof -
  have "executing (sched_init sys_empty)"
    by (simp add: sched_init_def sys_empty_def sched_new_def MAX_TASKS_def set_name_def Let_def)
  then have st: "(sys_step id)\<^sup>*\<^sup>* (sched_init sys_empty) (fst (handle_timer_switch id 7 (yield_now (sched_init sys_empty))))"
    by (meson converse_rtranclp_into_rtranclp rtranclp.rtrancl_refl sys_step.yield sys_step.tick)
  from sched_invariant [OF sys_empty_simps(1-3) st] show ?thesis by blast
qed

text \<open>
  C25: The choice of the next task. \<^verbatim>\<open>pick_next\<close> finds a task exactly when one is ready, and the one it
  finds is ready, has the highest priority among the ready ones and is, among those of that priority,
  the first after the current slot in cyclic order.
\<close>

theorem pick_next_highest_first:
  assumes "current sc < MAX_TASKS"
  shows "case pick_next sc of
       None \<Rightarrow> \<forall>i<MAX_TASKS. t_state (tasks sc ! i) \<noteq> Ready
     | Some j \<Rightarrow> j < MAX_TASKS \<and> t_state (tasks sc ! j) = Ready \<and>
         (\<forall>i<MAX_TASKS. t_state (tasks sc ! i) = Ready \<longrightarrow> t_priority (tasks sc ! i) < t_priority (tasks sc ! j) \<or>
            t_priority (tasks sc ! i) = t_priority (tasks sc ! j) \<and>
            (j + 63 - current sc) mod 64 \<le> (i + 63 - current sc) mod 64)"
proof (cases "pick_next sc")
  case None
  then show ?thesis using pick_next_None [OF assms] by simp
next
  case (Some j)
  note p = pick_next_Some [OF Some assms]
  have "t_priority (tasks sc ! i) < t_priority (tasks sc ! j) \<or>
      t_priority (tasks sc ! i) = t_priority (tasks sc ! j) \<and> (j + 63 - current sc) mod 64 \<le> (i + 63 - current sc) mod 64"
    if "i < MAX_TASKS" "t_state (tasks sc ! i) = Ready" for i
    using p(3,4) [OF that] by (auto simp: cyc_def le_less)
  then show ?thesis using p(1,2) Some by simp
qed

theorem pick_next_highest_first_witness:
  "case pick_next (sched sys_example) of None \<Rightarrow> False | Some j \<Rightarrow> t_state (tasks (sched sys_example) ! j) = Ready"
proof -
  have c: "current (sched sys_example) < MAX_TASKS" using sys_example_tasks(5) by (simp add: MAX_TASKS_def)
  have "5 < MAX_TASKS" by (simp add: MAX_TASKS_def)
  with sys_example_tasks(1) [of 5] pick_next_highest_first [OF c] show ?thesis
    by (cases "pick_next (sched sys_example)") auto
qed

text \<open>
  The stack of an exiting task is released while the CPU still runs on it. When a task exits and no
  other task is ready or due to wake, the tick that follows releases its stack frames, empties its slot
  and returns to the same stack pointer: the halted CPU keeps taking interrupts on a stack whose frames the
  allocator may hand out.
\<close>

theorem sched_exit_on_freed_stack:
  fixes s :: System
  defines "c \<equiv> current (sched s)"
  assumes "sys_ok s" "\<not> sched_locked s" "initialized (sched s)" "t_state (tasks (sched s) ! c) = Running" "c \<noteq> 0"
    and "t_stack_base (tasks (sched s) ! c) \<noteq> 0"
    and "\<forall>i<MAX_TASKS. i \<noteq> c \<longrightarrow> t_state (wake_task (tick_count s) (tasks (sched s) ! i)) \<noteq> Ready"
  shows "case timer_tick fninit rsp (exit_current_task s) of (s', rsp') \<Rightarrow>
     rsp' = rsp \<and> current (sched s') = c \<and> t_state (tasks (sched s') ! c) = Empty \<and>
     stack_frames (tasks (sched s) ! c) \<subseteq> free_set (frames s')"
proof -
  let ?e = "exit_current_task s" and ?t = "tasks (sched s) ! c"
  have wf: "sched_wf (sched s)" using assms(2) by (simp add: sys_ok_def)
  have len: "length (tasks (sched s)) = MAX_TASKS" "c < MAX_TASKS" using sched_wfD(1,2) [OF wf] by (simp_all add: c_def)
  have e: "sched ?e = upd_task c (\<lambda>t. t\<lparr>t_state := Exited\<rparr>) (sched s)" "frames ?e = frames s" "sched_locked ?e = sched_locked s"
    "tick_count ?e = tick_count s" "deferred_free ?e = Some (t_stack_base ?t, t_stack_size ?t div 4096)"
    using assms(7) len by (simp_all add: exit_current_task_def Let_def c_def)
  have ok: "sys_ok ?e" using sys_ok_exit [OF assms(2)] assms(5) by (simp add: c_def)
  then have wfe: "sched_wf (sched ?e)" by (simp add: sys_ok_def)
  have st: "\<not> sched_locked ?e" "initialized (sched ?e)" using assms(3,4) e by simp_all
  have ce: "current (sched ?e) = c" by (simp add: e(1) c_def)
  obtain s1 where 1: "sched s1 = upd_task c (saved_task rsp (fpu_reg ?e)) (wake_sleeping_tasks (tick_count s) (sched ?e))"
    and wf1: "sched_wf (sched s1)" and fr: "frames s1 = frames (process_deferred_free ?e)"
    and tk: "timer_tick fninit rsp ?e = (if needs_switch (sched s1)
       then case pick_next (switch_out (sched s1)) of
              Some nx \<Rightarrow> switch_in fninit nx (upd_sched switch_out s1)
            | None \<Rightarrow> stay rsp (upd_sched switch_out s1)
       else (s1, rsp))"
    using timer_tick_stages [OF wfe st] ce e(4) by metis
  have te: "tasks (sched ?e) ! i = (if i = c then ?t\<lparr>t_state := Exited\<rparr> else tasks (sched s) ! i)" if "i < MAX_TASKS" for i
    using that len by (simp add: e(1) nth_list_update)
  have lene: "length (tasks (sched ?e)) = MAX_TASKS" using len by (simp add: e(1))
  have t1: "tasks (sched s1) ! i = (if i = c then saved_task rsp (fpu_reg ?e) (?t\<lparr>t_state := Exited\<rparr>) else wake_task (tick_count s) (tasks (sched s) ! i))"
    if "i < MAX_TASKS" for i
    using that len lene te [OF that] te [OF len(2)] by (cases "i = c") (simp_all add: 1 nth_list_update)
  have c1: "current (sched s1) = c" "length (tasks (sched s1)) = MAX_TASKS" using lene by (simp_all add: 1 ce)
  have ns: "needs_switch (sched s1)" using t1 [OF len(2)] c1 by (simp add: needs_switch_def Let_def)
  have t2: "tasks (switch_out (sched s1)) ! i = (if i = c then task_empty else wake_task (tick_count s) (tasks (sched s) ! i))"
    if "i < MAX_TASKS" for i
    using that t1 [OF that] c1 len(2) by (cases "i = c") (simp_all add: switch_out_def nth_list_update)
  have nr: "t_state (tasks (switch_out (sched s1)) ! i) \<noteq> Ready" if "i < MAX_TASKS" for i
    using t2 [OF that] assms(8) that by (simp add: task_empty_def)
  have "pick_next (switch_out (sched s1)) = None"
    using pick_next_None [of "switch_out (sched s1)"] nr c1 len(2) by simp
  then have tk': "timer_tick fninit rsp ?e = stay rsp (upd_sched switch_out s1)" using tk ns by simp
  have n0: "t_state (tasks (switch_out (sched s1)) ! 0) \<noteq> Running"
    using switch_out_none_running(1) [OF wf1, of 0] by (simp add: MAX_TASKS_def)
  have r0: "t_state (tasks (switch_out (sched s1)) ! 0) \<noteq> Ready" by (rule nr) (simp add: MAX_TASKS_def)
  have ec: "t_state (tasks (switch_out (sched s1)) ! c) = Empty" using t2 [OF len(2)] by (simp add: task_empty_def)
  have res: "timer_tick fninit rsp ?e = (upd_sched switch_out s1, rsp)"
    using tk' n0 r0 ec c1 by (simp add: stay_def Let_def)
  have h: "run_held (frames s) (t_stack_base ?t) (t_stack_size ?t div 4096)"
    using stacks_okD(2) [of s c] assms(2,5,7) len(2) by (simp add: sys_ok_def)
  have "frames s1 = free_stack (t_stack_base ?t) (t_stack_size ?t div 4096) (frames s)"
    using fr e by (simp add: process_deferred_free_def)
  then have "stack_frames ?t \<subseteq> free_set (frames s1)"
    using free_stack_spec [of "frames s" "t_stack_base ?t" "t_stack_size ?t div 4096"] h assms(2,7) stacks_okD(1) [of s]
    by (auto simp: sys_ok_def run_held_def stack_frames_def)
  then show ?thesis using res ec c1 by simp
qed

definition sys_exit :: System where
  "sys_exit = sys_empty\<lparr>sched := sched_new\<lparr>tasks := (replicate MAX_TASKS task_empty)[0 := task_example Blocked 0, 1 := task_example Running 20],
     current := 1, initialized := True\<rparr>\<rparr>"

lemma sys_exit_tasks:
  "i < MAX_TASKS \<Longrightarrow> tasks (sched sys_exit) ! i = (if i = 0 then task_example Blocked 0 else if i = 1 then task_example Running 20 else task_empty)"
  "length (tasks (sched sys_exit)) = MAX_TASKS" "current (sched sys_exit) = 1" "initialized (sched sys_exit)" "\<not> sched_locked sys_exit"
  "frames sys_exit = frames sys_empty" "deferred_free sys_exit = None"
  by (simp_all add: sys_exit_def sched_new_def nth_list_update MAX_TASKS_def sys_empty_def)

lemma sys_exit_ok: "sys_ok sys_exit"
proof -
  have t: "t_state (task_example st k) = st" "t_quantum (task_example st k) = 10" "t_stack_base (task_example st k) = frame_addr k"
    "t_stack_size (task_example st k) div 4096 = 5" for st k
    by (simp_all add: task_example_def TASK_STACK_SIZE_def TASK_STACK_PAGES_def)
  have e: "t_state task_empty = Empty" "t_quantum task_empty = 0" by (simp_all add: task_empty_def)
  have f: "frame_addr 0 = 0" "frame_of (frame_addr 20) = 20" by (simp add: frame_addr_def) (simp add: MAX_FRAMES_eq)
  have "sched_wf (sched sys_exit)"
    using sys_exit_tasks t e by (auto simp: sched_wf_def MAX_TASKS_def)
  moreover have "stacks_ok sys_exit"
    by (rule stacks_okI)
      (use sys_exit_tasks sys_empty_simps t e f in \<open>auto simp: run_held_def run_frames_def stack_frames_def split: if_splits\<close>)
  ultimately show ?thesis by (simp add: sys_ok_def)
qed

theorem sched_exit_on_freed_stack_witness:
  "case timer_tick id 0x18F00 (exit_current_task sys_exit) of (s', rsp') \<Rightarrow> rsp' = 0x18F00 \<and> {20, 21, 22, 23, 24} \<subseteq> free_set (frames s')"
proof -
  have t1: "tasks (sched sys_exit) ! 1 = task_example Running 20" using sys_exit_tasks(1) [of 1] by (simp add: MAX_TASKS_def)
  have sf: "stack_frames (task_example Running 20) = {20, 21, 22, 23, 24}" and b: "t_stack_base (task_example Running 20) \<noteq> 0"
    by (auto simp: stack_frames_def run_frames_def task_example_def frame_addr_def frame_of_def PAGE_SIZE_def TASK_STACK_SIZE_def TASK_STACK_PAGES_def)
  have n: "\<forall>i<MAX_TASKS. i \<noteq> 1 \<longrightarrow> t_state (wake_task (tick_count sys_exit) (tasks (sched sys_exit) ! i)) \<noteq> Ready"
    using sys_exit_tasks(1) by (simp add: wake_task_def task_example_def task_empty_def)
  have r: "t_state (task_example Running 20) = Running" by (simp add: task_example_def)
  from sched_exit_on_freed_stack [where s = sys_exit and fninit = id and rsp = "0x18F00"] sys_exit_ok sys_exit_tasks(3-5) t1 sf b n r
  show ?thesis by (auto split: prod.splits)
qed

lemma ready_current_runs_on:
  assumes "sched_wf (sched s)" "\<not> sched_locked s" "initialized (sched s)"
    and "t_state (wake_task (tick_count s) (tasks (sched s) ! current (sched s))) = Ready"
    and "length rs < t_quantum (wake_task (tick_count s) (tasks (sched s) ! current (sched s)))" "rs \<noteq> []"
  shows "current (sched (run_ticks fi rs s)) = current (sched s) \<and>
     t_state (tasks (sched (run_ticks fi rs s)) ! current (sched s)) = Ready"
  using assms
proof (induction rs arbitrary: s)
  case (Cons r rs)
  let ?c = "current (sched s)" and ?s' = "fst (timer_tick fi r s)" and ?h = "fst (handle_timer_switch fi r s)"
  let ?w = "wake_task (tick_count s) (tasks (sched s) ! ?c)"
  have len: "length (tasks (sched s)) = MAX_TASKS" "?c < MAX_TASKS" using sched_wfD(1,2) [OF Cons.prems(1)] by simp_all
  obtain s1 where 1: "sched s1 = upd_task ?c (saved_task r (fpu_reg s)) (wake_sleeping_tasks (tick_count s) (sched s))"
    and wf1: "sched_wf (sched s1)" and u: "\<not> sched_locked s1"
    and tk: "timer_tick fi r s = (if needs_switch (sched s1)
       then case pick_next (switch_out (sched s1)) of
              Some nx \<Rightarrow> switch_in fi nx (upd_sched switch_out s1)
            | None \<Rightarrow> stay r (upd_sched switch_out s1)
       else (s1, r))"
    using timer_tick_stages [OF Cons.prems(1-3)] by metis
  have c1: "current (sched s1) = ?c" "tasks (sched s1) ! ?c = saved_task r (fpu_reg s) ?w" "initialized (sched s1)"
    using len Cons.prems(3) by (simp_all add: 1)
  have "\<not> needs_switch (sched s1)" using c1 Cons.prems(4,5) by (simp add: needs_switch_def Let_def)
  then have s': "?s' = s1" using tk by simp
  have h: "sched ?h = sched s1" "\<not> sched_locked ?h" using s' u by simp_all
  show ?case
  proof (cases "rs = []")
    case True
    then show ?thesis using h c1 Cons.prems(4) by simp
  next
    case False
    have "t_state (tasks (sched ?h) ! ?c) = Ready" using h c1 Cons.prems(4) by simp
    then have w: "wake_task (tick_count ?h) (tasks (sched ?h) ! current (sched ?h)) = tasks (sched s1) ! ?c"
      using h c1 by simp
    have "current (sched (run_ticks fi rs ?h)) = current (sched ?h) \<and>
        t_state (tasks (sched (run_ticks fi rs ?h)) ! current (sched ?h)) = Ready"
      by (rule Cons.IH) (use h wf1 c1 w False Cons.prems(4,5) in simp_all)
    then show ?thesis using h c1 by simp
  qed
qed simp

text \<open>
  A sleep lasts longer than asked. When the deadline of the sleeping current task has passed, the tick makes it
  ready with a full time slice but does not run it: through all the ticks of that slice but the last the
  condition \<^verbatim>\<open>sleep_ms\<close> waits for does not hold.
\<close>

theorem sched_sleep_overshoots:
  assumes "sched_wf (sched s)" "\<not> sched_locked s" "initialized (sched s)"
    and "t_state (tasks (sched s) ! current (sched s)) = Blocked"
    and "0 < t_wake_tick (tasks (sched s) ! current (sched s))" "t_wake_tick (tasks (sched s) ! current (sched s)) \<le> tick_count s"
    and "0 < length rs" "length rs < quantum (t_priority (tasks (sched s) ! current (sched s)))"
  shows "current (sched (run_ticks fninit rs s)) = current (sched s) \<and> \<not> sleep_over (run_ticks fninit rs s)"
  using ready_current_runs_on [of s rs fninit] assms by (simp add: wake_task_def sleep_over_def)

theorem sched_sleep_overshoots_witness:
  "\<not> sleep_over (run_ticks id (replicate 9 0x1000) ((sleep_ms 1 sys_exit)\<lparr>tick_count := 1\<rparr>))"
proof -
  let ?s = "(sleep_ms 1 sys_exit)\<lparr>tick_count := 1\<rparr>"
  have "sys_ok (sleep_ms 1 sys_exit)"
  proof (rule sys_step_ok [OF sys_step.sleep sys_exit_ok])
    show "executing sys_exit" using sys_exit_tasks(1) [of 1] sys_exit_tasks(3,5) by (simp add: MAX_TASKS_def task_example_def)
  qed
  then have wf: "sched_wf (sched ?s)" by (simp add: sys_ok_def)
  have t1: "tasks (sched ?s) ! current (sched ?s) = (task_example Running 20)\<lparr>t_state := Blocked, t_wake_tick := 1, t_quantum := 0\<rparr>" "current (sched ?s) = 1" "initialized (sched ?s)" "\<not> sched_locked ?s"
    using sys_exit_tasks(1) [of 1] sys_exit_tasks(2-5) by (simp_all add: sleep_ms_def MAX_TASKS_def) (simp add: sys_exit_def sys_empty_def)
  have "t_priority (task_example Running 20) = Normal" by (simp add: task_example_def task_empty_def)
  with sched_sleep_overshoots [OF wf, of "replicate 9 0x1000" id] t1 show ?thesis by simp
qed

end
