(* ===== verification/Block.thy ===== *)
theory Block
  imports Prelude
begin

text \<open>
  The block layer: \<^verbatim>\<open>kernel/src/storage/block.rs\<close> over \<^verbatim>\<open>read_sectors\<close> and \<^verbatim>\<open>write_sectors\<close> of
  \<^verbatim>\<open>kernel/src/hal/virtio_blk.rs\<close>. The device behind the descriptor ring is its medium, a content
  for every sector, and the set of sectors on which a request ends with an error status. The ring
  itself is not part of this model: a request is its outcome.
\<close>

type_synonym sector = "u8 list"

record BlkDev =
  blk_available :: bool
  capacity :: u64
  media :: "u64 \<Rightarrow> sector"
  bad :: "u64 \<Rightarrow> bool"

definition SECTOR_SIZE :: nat where
  "SECTOR_SIZE = 512"

definition splice :: "nat \<Rightarrow> 'a list \<Rightarrow> 'a list \<Rightarrow> 'a list" where
  "splice off bs xs = take off xs @ bs @ drop (off + length bs) xs"

fun read_loop :: "BlkDev \<Rightarrow> u64 \<Rightarrow> nat list \<Rightarrow> u8 list \<Rightarrow> bool \<times> u8 list" where
  "read_loop d lba [] buf = (True, buf)"
| "read_loop d lba (i # is) buf =
     (if bad d (lba + of_nat i) then (False, buf)
      else read_loop d lba is (splice (i * SECTOR_SIZE) (media d (lba + of_nat i)) buf))"

definition read_sectors :: "BlkDev \<Rightarrow> u64 \<Rightarrow> nat \<Rightarrow> u8 list \<Rightarrow> bool \<times> u8 list" where
  "read_sectors d lba n buf =
     (if \<not> blk_available d then (False, buf)
      else if length buf < n * SECTOR_SIZE then (False, buf)
      else if lba + of_nat n > capacity d then (False, buf)
      else read_loop d lba [0..<n] buf)"

fun write_loop :: "u64 \<Rightarrow> u8 list \<Rightarrow> nat list \<Rightarrow> BlkDev \<Rightarrow> BlkDev \<times> bool" where
  "write_loop lba buf [] d = (d, True)"
| "write_loop lba buf (i # is) d =
     (if bad d (lba + of_nat i) then (d, False)
      else write_loop lba buf is
             (d\<lparr>media := (media d)(lba + of_nat i := take SECTOR_SIZE (drop (i * SECTOR_SIZE) buf))\<rparr>))"

definition write_sectors :: "u64 \<Rightarrow> nat \<Rightarrow> u8 list \<Rightarrow> BlkDev \<Rightarrow> BlkDev \<times> bool" where
  "write_sectors lba n buf d =
     (if \<not> blk_available d then (d, False)
      else if length buf < n * SECTOR_SIZE then (d, False)
      else if lba + of_nat n > capacity d then (d, False)
      else write_loop lba buf [0..<n] d)"

text \<open>\<^verbatim>\<open>read_block\<close> into a fresh buffer of zeros, as every caller has it; \<^const>\<open>None\<close> is the result \<^verbatim>\<open>false\<close>.\<close>

definition read_block :: "BlkDev \<Rightarrow> u64 \<Rightarrow> sector option" where
  "read_block d lba = (case read_sectors d lba 1 (replicate 512 0) of (True, buf) \<Rightarrow> Some buf | (False, buf) \<Rightarrow> None)"

definition write_block :: "u64 \<Rightarrow> sector \<Rightarrow> BlkDev \<Rightarrow> BlkDev \<times> bool" where
  "write_block lba buf d = write_sectors lba 1 buf d"


subsection \<open>The contract of a block device\<close>

text \<open>The sectors the device serves.\<close>

definition served :: "BlkDev \<Rightarrow> u64 \<Rightarrow> bool" where
  "served d lba \<longleftrightarrow> blk_available d \<and> lba + 1 \<le> capacity d \<and> \<not> bad d lba"

definition dev_ok :: "BlkDev \<Rightarrow> bool" where
  "dev_ok d \<longleftrightarrow> (\<forall>lba. length (media d lba) = 512)"

lemma length_splice [simp]: "off + length bs \<le> length xs \<Longrightarrow> length (splice off bs xs) = length xs"
  by (simp add: splice_def)

lemma nth_splice:
  "off + length bs \<le> length xs \<Longrightarrow> i < length xs \<Longrightarrow>
     splice off bs xs ! i = (if off \<le> i \<and> i < off + length bs then bs ! (i - off) else xs ! i)"
  by (auto simp: splice_def nth_append)

lemma splice_all: "length bs = length xs \<Longrightarrow> splice 0 bs xs = bs"
  by (simp add: splice_def)

lemma read_block_eq: "dev_ok d \<Longrightarrow> read_block d lba = (if served d lba then Some (media d lba) else None)"
  by (auto simp: read_block_def read_sectors_def served_def dev_ok_def SECTOR_SIZE_def splice_all not_le split: if_splits)

lemma write_block_eq:
  "length buf = 512 \<Longrightarrow> write_block lba buf d =
     (if served d lba then (d\<lparr>media := (media d)(lba := buf)\<rparr>, True) else (d, False))"
  by (auto simp: write_block_def write_sectors_def served_def SECTOR_SIZE_def not_le)

lemma served_media [simp]: "served (d\<lparr>media := mm\<rparr>) = served d"
  by (simp add: served_def fun_eq_iff)

text \<open>
  What the filesystem relies on: a read returns the sector last written, a write changes no other
  sector, and no write changes what the device serves.
\<close>

locale block_device =
  fixes rd :: "'d \<Rightarrow> u64 \<Rightarrow> sector option"
    and wr :: "u64 \<Rightarrow> sector \<Rightarrow> 'd \<Rightarrow> 'd \<times> bool"
    and ok :: "'d \<Rightarrow> bool"
  assumes rd_length: "ok d \<Longrightarrow> rd d lba = Some sec \<Longrightarrow> length sec = 512"
    and wr_ok: "ok d \<Longrightarrow> length sec = 512 \<Longrightarrow> ok (fst (wr lba sec d))"
    and wr_refused: "ok d \<Longrightarrow> length sec = 512 \<Longrightarrow> rd d lba = None \<Longrightarrow> wr lba sec d = (d, False)"
    and wr_done: "ok d \<Longrightarrow> length sec = 512 \<Longrightarrow> rd d lba = Some old \<Longrightarrow>
      snd (wr lba sec d) \<and> rd (fst (wr lba sec d)) lba = Some sec"
    and wr_other: "ok d \<Longrightarrow> length sec = 512 \<Longrightarrow> lba' \<noteq> lba \<Longrightarrow> rd (fst (wr lba sec d)) lba' = rd d lba'"
begin

lemma wr_read:
  assumes "ok d" "length sec = 512"
  shows "rd (fst (wr lba sec d)) l = (if l = lba \<and> rd d lba \<noteq> None then Some sec else rd d l)"
  using wr_done [OF assms] wr_refused [OF assms, of lba] wr_other [OF assms] by (cases "rd d lba") auto

lemma wr_result: "ok d \<Longrightarrow> length sec = 512 \<Longrightarrow> snd (wr lba sec d) \<longleftrightarrow> rd d lba \<noteq> None"
  using wr_done wr_refused by (cases "rd d lba") auto

text \<open>A sequence of writes to distinct readable sectors is a sequence of independent stores.\<close>

lemma wr_seq_read:
  assumes "ok d" "\<forall>(l, sec) \<in> set ws. length sec = 512 \<and> rd d l \<noteq> None" "distinct (map fst ws)"
  shows "ok (fold (\<lambda>(l, sec) d. fst (wr l sec d)) ws d) \<and>
    rd (fold (\<lambda>(l, sec) d. fst (wr l sec d)) ws d) lba = (case map_of ws lba of Some sec \<Rightarrow> Some sec | None \<Rightarrow> rd d lba)"
  using assms
proof (induction ws arbitrary: d)
  case (Cons w ws)
  obtain l sec where w: "w = (l, sec)" by (cases w)
  let ?d = "fst (wr l sec d)"
  have ls: "length sec = 512" "rd d l \<noteq> None" using Cons.prems(2) w by auto
  have o: "ok ?d" using wr_ok Cons.prems(1) ls(1) by blast
  have r: "rd ?d l' = (if l' = l then Some sec else rd d l')" for l'
    using wr_read [OF Cons.prems(1) ls(1), of l l'] ls(2) by auto
  have "\<forall>(l', sec') \<in> set ws. length sec' = 512 \<and> rd ?d l' \<noteq> None" using Cons.prems(2) r by auto
  note IH = Cons.IH [OF o this]
  show ?case
  proof (cases "lba = l")
    case True
    then have "map_of ws lba = None" using Cons.prems(3) w by (simp add: map_of_eq_None_iff)
    then show ?thesis using IH Cons.prems(3) True r w by simp
  next
    case False
    then show ?thesis using IH Cons.prems(3) r w by (simp split: option.split)
  qed
qed simp

end

interpretation bdev: block_device read_block write_block dev_ok
proof
  fix d lba sec old lba'
  show "dev_ok d \<Longrightarrow> read_block d lba = Some sec \<Longrightarrow> length sec = 512"
    by (auto simp: read_block_eq dev_ok_def split: if_splits)
  show "dev_ok d \<Longrightarrow> length sec = 512 \<Longrightarrow> dev_ok (fst (write_block lba sec d))"
    by (auto simp: write_block_eq dev_ok_def)
  show "dev_ok d \<Longrightarrow> length sec = 512 \<Longrightarrow> read_block d lba = None \<Longrightarrow> write_block lba sec d = (d, False)"
    by (auto simp: write_block_eq read_block_eq split: if_splits)
  assume *: "dev_ok d" "length sec = 512"
  then have o: "dev_ok (fst (write_block lba sec d))" by (auto simp: write_block_eq dev_ok_def)
  show "snd (write_block lba sec d) \<and> read_block (fst (write_block lba sec d)) lba = Some sec" if "read_block d lba = Some old"
    using that * o by (auto simp: write_block_eq read_block_eq split: if_splits)
  show "read_block (fst (write_block lba sec d)) lba' = read_block d lba'" if "lba' \<noteq> lba"
    using that * o by (auto simp: write_block_eq read_block_eq split: if_splits)
qed

end
