(* ===== verification/Rust_Str.thy ===== *)
theory Rust_Str
  imports Prelude
begin

unbundle bit_operations_syntax

text \<open>
  Strings of the Rust standard library, as far as the kernel uses them. A \<^verbatim>\<open>str\<close> is its UTF-8 bytes;
  \<^verbatim>\<open>from_utf8\<close> checks them as the standard library does, while \<^verbatim>\<open>to_lowercase\<close>, \<^verbatim>\<open>to_uppercase\<close> and \<^verbatim>\<open>trim\<close> act on
  ASCII letters and ASCII white space and leave every other byte alone. The operations at a byte
  index panic where the index is not a character boundary; they return nothing there.
\<close>

type_synonym str = "u8 list"

definition in_range :: "u8 \<Rightarrow> u8 \<Rightarrow> u8 \<Rightarrow> bool" where
  "in_range lo hi b \<longleftrightarrow> lo \<le> b \<and> b \<le> hi"

abbreviation cont :: "u8 \<Rightarrow> bool" where
  "cont b \<equiv> in_range 0x80 0xBF b"

fun utf8_ok :: "u8 list \<Rightarrow> bool" where
  "utf8_ok [] = True"
| "utf8_ok (a # bs) =
     (if a < 0x80 then utf8_ok bs
      else case bs of
        [] \<Rightarrow> False
      | b # cs \<Rightarrow>
          if in_range 0xC2 0xDF a then cont b \<and> utf8_ok cs
          else case cs of
            [] \<Rightarrow> False
          | c # ds \<Rightarrow>
              if a = 0xE0 then in_range 0xA0 0xBF b \<and> cont c \<and> utf8_ok ds
              else if in_range 0xE1 0xEC a \<or> in_range 0xEE 0xEF a then cont b \<and> cont c \<and> utf8_ok ds
              else if a = 0xED then in_range 0x80 0x9F b \<and> cont c \<and> utf8_ok ds
              else case ds of
                [] \<Rightarrow> False
              | e # es \<Rightarrow>
                  if a = 0xF0 then in_range 0x90 0xBF b \<and> cont c \<and> cont e \<and> utf8_ok es
                  else if in_range 0xF1 0xF3 a then cont b \<and> cont c \<and> cont e \<and> utf8_ok es
                  else a = 0xF4 \<and> in_range 0x80 0x8F b \<and> cont c \<and> cont e \<and> utf8_ok es)"

definition from_utf8_or :: "str \<Rightarrow> u8 list \<Rightarrow> str" where
  "from_utf8_or dflt bs = (if utf8_ok bs then bs else dflt)"

definition lower :: "u8 \<Rightarrow> u8" where
  "lower b = (if in_range 0x41 0x5A b then b + 32 else b)"

definition upper :: "u8 \<Rightarrow> u8" where
  "upper b = (if in_range 0x61 0x7A b then b - 32 else b)"

abbreviation to_lowercase :: "str \<Rightarrow> str" where
  "to_lowercase \<equiv> map lower"

abbreviation to_uppercase :: "str \<Rightarrow> str" where
  "to_uppercase \<equiv> map upper"

definition is_white :: "u8 \<Rightarrow> bool" where
  "is_white b \<longleftrightarrow> in_range 9 13 b \<or> b = 32"

definition trim :: "str \<Rightarrow> str" where
  "trim s = rev (dropWhile is_white (rev (dropWhile is_white s)))"



subsection \<open>Byte indices\<close>

definition is_char_boundary :: "nat \<Rightarrow> str \<Rightarrow> bool" where
  "is_char_boundary i s \<longleftrightarrow> i = length s \<or> i < length s \<and> s ! i AND 0xC0 \<noteq> 0x80"

text \<open>The length of the character that a byte starts.\<close>

definition char_len :: "u8 \<Rightarrow> nat" where
  "char_len b = (if b < 0x80 then 1 else if b < 0xE0 then 2 else if b < 0xF0 then 3 else 4)"

definition str_remove :: "nat \<Rightarrow> str \<Rightarrow> str option" where
  "str_remove i s =
     (if i < length s \<and> is_char_boundary i s then Some (take i s @ drop (i + char_len (s ! i)) s) else None)"

definition str_insert :: "nat \<Rightarrow> u8 \<Rightarrow> str \<Rightarrow> str option" where
  "str_insert i b s = (if is_char_boundary i s then Some (take i s @ [b] @ drop i s) else None)"

definition str_split_at :: "nat \<Rightarrow> str \<Rightarrow> (str \<times> str) option" where
  "str_split_at i s = (if is_char_boundary i s then Some (take i s, drop i s) else None)"

text \<open>\<^verbatim>\<open>str::lines\<close>: pieces ended by a newline, without it and without a carriage return before it; a last piece without newline counts unless it is empty.\<close>

definition strip_cr :: "str \<Rightarrow> str" where
  "strip_cr s = (if s \<noteq> [] \<and> last s = 0x0D then butlast s else s)"

fun lines_from :: "str \<Rightarrow> str \<Rightarrow> str list" where
  "lines_from acc [] = (if acc = [] then [] else [acc])"
| "lines_from acc (b # bs) = (if b = 0x0A then strip_cr acc # lines_from [] bs else lines_from (acc @ [b]) bs)"

definition str_lines :: "str \<Rightarrow> str list" where
  "str_lines s = lines_from [] s"

text \<open>Literals.\<close>

definition lit :: "string \<Rightarrow> str" where
  "lit s = map (\<lambda>c. of_nat (of_char c)) s"


subsection \<open>ASCII strings\<close>

definition is_ascii :: "str \<Rightarrow> bool" where
  "is_ascii s \<longleftrightarrow> list_all (\<lambda>b. b < 0x80) s"

lemma ascii_not_cont: "b < 0x80 \<Longrightarrow> b AND 0xC0 \<noteq> (0x80 :: u8)"
proof
  assume a: "b < 0x80" "b AND 0xC0 = (0x80 :: u8)"
  have "bit (0x80 :: u8) 7" by simp
  then have "bit (b AND 0xC0) 7" using a(2) by simp
  then have "bit b 7" by (simp add: bit_and_iff)
  then have "bit (unat b) 7" by (simp add: bit_unsigned_iff)
  then have "odd (unat b div 2 ^ 7)" by (simp add: bit_iff_odd)
  moreover have "unat b < 128" using a(1) by (simp add: word_less_nat_alt)
  ultimately show False by simp
qed

lemma ascii_boundary: "is_ascii s \<Longrightarrow> is_char_boundary i s \<longleftrightarrow> i \<le> length s"
  using ascii_not_cont by (auto simp: is_ascii_def is_char_boundary_def list_all_length)

lemma ascii_ops:
  assumes "is_ascii s"
  shows "i < length s \<Longrightarrow> str_remove i s = Some (take i s @ drop (Suc i) s)"
    "i \<le> length s \<Longrightarrow> str_insert i b s = Some (take i s @ [b] @ drop i s)"
    "i \<le> length s \<Longrightarrow> str_split_at i s = Some (take i s, drop i s)"
  using assms ascii_boundary [OF assms]
  by (simp_all add: str_remove_def str_insert_def str_split_at_def char_len_def is_ascii_def list_all_length)

lemma lines_from_plain: "0x0A \<notin> set s \<Longrightarrow> lines_from acc (s @ bs) = lines_from (acc @ s) bs"
  by (induction s arbitrary: acc) auto

end
