(* ===== verification/Fat32.thy ===== *)
theory Fat32
  imports Block Rust_Str
begin

text \<open>
  The FAT32 driver, \<^verbatim>\<open>kernel/src/storage/fat32.rs\<close>, over the block layer. Cluster numbers and FAT
  entries are 32-bit words, sector numbers 64-bit words, with the wrap-around of the release profile.
  Strings are those of \<^verbatim>\<open>Rust_Str\<close>. An \<^verbatim>\<open>Fs\<close> is the mounted state and the device.
\<close>


subsection \<open>State\<close>

definition FAT_FREE :: u32 where "FAT_FREE = 0"
definition FAT_EOC :: u32 where "FAT_EOC = 0x0FFFFFF8"
definition FAT_BAD :: u32 where "FAT_BAD = 0x0FFFFFF7"
definition FAT_MASK :: u32 where "FAT_MASK = 0x0FFFFFFF"

definition ATTR_VOLUME_ID :: u8 where "ATTR_VOLUME_ID = 0x08"
definition ATTR_DIRECTORY :: u8 where "ATTR_DIRECTORY = 0x10"
definition ATTR_ARCHIVE :: u8 where "ATTR_ARCHIVE = 0x20"
definition ATTR_LFN :: u8 where "ATTR_LFN = 0x0F"

record DirEntry =
  de_name :: str
  de_is_dir :: bool
  de_size :: u32
  de_cluster :: u32
  de_sector :: u64
  de_offset :: nat

record Fat32State =
  sectors_per_cluster :: u8
  reserved_sectors :: u16
  num_fats :: u8
  sectors_per_fat :: u32
  root_clus :: u32
  data_start_sector :: u64
  total_clusters :: u32
  bytes_per_sector :: u16
  vol_label :: str

record Fs =
  fat32 :: "Fat32State option"
  dev :: BlkDev

datatype fat_error = ReadFailed | BadSignature | DivisionByZero

text \<open>The bytes \<^verbatim>\<open>i\<close> and following of a sector, little endian.\<close>

definition le16_at :: "u8 list \<Rightarrow> nat \<Rightarrow> u16" where
  "le16_at s i = le16 (s ! i) (s ! (i + 1))"

definition le32_at :: "u8 list \<Rightarrow> nat \<Rightarrow> u32" where
  "le32_at s i = le32 (s ! i) (s ! (i + 1)) (s ! (i + 2)) (s ! (i + 3))"

definition parse_bpb :: "sector \<Rightarrow> fat_error + Fat32State" where
  "parse_bpb s =
     (let spc = s ! 13;
          reserved = le16_at s 14;
          nfats = s ! 16;
          total16 = le16_at s 19;
          spf16 = le16_at s 22;
          spf = (if spf16 \<noteq> 0 then ucast spf16 else le32_at s 36);
          total = (if total16 \<noteq> 0 then ucast total16 else ucast (le32_at s 32)) :: u64;
          data_start = ucast reserved + (ucast nfats * ucast spf) :: u64;
          data_sectors = total - data_start
      in if spc = 0 then Inl DivisionByZero
         else Inr \<lparr>sectors_per_cluster = spc, reserved_sectors = reserved, num_fats = nfats, sectors_per_fat = spf,
                root_clus = le32_at s 44, data_start_sector = data_start,
                total_clusters = ucast (data_sectors div ucast spc), bytes_per_sector = le16_at s 11,
                vol_label = trim (from_utf8_or [0x4E, 0x4F, 0x20, 0x4E, 0x41, 0x4D, 0x45] (take 11 (drop 71 s)))\<rparr>)"

text \<open>\<^verbatim>\<open>init\<close>; \<^const>\<open>DivisionByZero\<close> is the panic on a boot sector with no sectors per cluster.\<close>

definition fat_init :: "Fs \<Rightarrow> Fs \<times> (fat_error + unit)" where
  "fat_init fs =
     (case read_block (dev fs) 0 of
        None \<Rightarrow> (fs, Inl ReadFailed)
      | Some s \<Rightarrow>
          if s ! 510 \<noteq> 0x55 \<or> s ! 511 \<noteq> 0xAA then (fs, Inl BadSignature)
          else case parse_bpb s of
                 Inl e \<Rightarrow> (fs, Inl e)
               | Inr st \<Rightarrow> (fs\<lparr>fat32 := Some st\<rparr>, Inr ()))"


subsection \<open>The file allocation table\<close>

definition cluster_to_sector :: "Fat32State \<Rightarrow> u32 \<Rightarrow> u64" where
  "cluster_to_sector st c = data_start_sector st + ucast (c - 2) * ucast (sectors_per_cluster st)"

definition fat_sector :: "Fat32State \<Rightarrow> u32 \<Rightarrow> nat \<Rightarrow> u64" where
  "fat_sector st c fat_idx = ucast (reserved_sectors st) + of_nat fat_idx * ucast (sectors_per_fat st) + ucast (c * 4) div 512"

definition fat_offset :: "u32 \<Rightarrow> nat" where
  "fat_offset c = unat ((c * 4) mod 512)"

definition fat_read :: "Fat32State \<Rightarrow> u32 \<Rightarrow> BlkDev \<Rightarrow> u32" where
  "fat_read st c d =
     (case read_block d (fat_sector st c 0) of
        None \<Rightarrow> FAT_BAD
      | Some s \<Rightarrow> le32_at s (fat_offset c) AND FAT_MASK)"

fun fat_write_copies :: "Fat32State \<Rightarrow> u32 \<Rightarrow> u32 \<Rightarrow> nat list \<Rightarrow> BlkDev \<Rightarrow> BlkDev \<times> bool" where
  "fat_write_copies st c v [] d = (d, True)"
| "fat_write_copies st c v (k # ks) d =
     (case read_block d (fat_sector st c k) of
        None \<Rightarrow> (d, False)
      | Some s \<Rightarrow>
          let new_value = (le32_at s (fat_offset c) AND 0xF0000000) OR (v AND FAT_MASK);
              s' = splice (fat_offset c) (le32_bytes new_value) s
          in case write_block (fat_sector st c k) s' d of
               (d', False) \<Rightarrow> (d', False)
             | (d', True) \<Rightarrow> fat_write_copies st c v ks d')"

definition fat_write :: "Fat32State \<Rightarrow> u32 \<Rightarrow> u32 \<Rightarrow> BlkDev \<Rightarrow> BlkDev \<times> bool" where
  "fat_write st c v d = fat_write_copies st c v [0..<unat (num_fats st)] d"

text \<open>The clusters of \<^verbatim>\<open>2..state.total_clusters + 2\<close>.\<close>

definition cluster_range :: "Fat32State \<Rightarrow> u32 list" where
  "cluster_range st = map of_nat [2..<unat (total_clusters st + 2)]"

fun fat_alloc_from :: "Fat32State \<Rightarrow> u32 list \<Rightarrow> BlkDev \<Rightarrow> BlkDev \<times> u32 option" where
  "fat_alloc_from st [] d = (d, None)"
| "fat_alloc_from st (c # cs) d =
     (if fat_read st c d = FAT_FREE
      then case fat_write st c 0x0FFFFFFF d of
             (d', True) \<Rightarrow> (d', Some c)
           | (d', False) \<Rightarrow> fat_alloc_from st cs d'
      else fat_alloc_from st cs d)"

definition fat_alloc :: "Fat32State \<Rightarrow> BlkDev \<Rightarrow> BlkDev \<times> u32 option" where
  "fat_alloc st d = fat_alloc_from st (cluster_range st) d"

text \<open>\<^verbatim>\<open>fat_free_chain\<close>; \<^const>\<open>None\<close> when the loop never ends.\<close>

partial_function (option) fat_free_chain :: "Fat32State \<Rightarrow> u32 \<Rightarrow> BlkDev \<Rightarrow> BlkDev option" where
  "fat_free_chain st c d =
     (let nx = fat_read st c d;
          d' = fst (fat_write st c FAT_FREE d)
      in if nx \<ge> FAT_EOC \<or> nx = FAT_FREE \<or> nx = FAT_BAD then Some d' else fat_free_chain st nx d')"

text \<open>\<^verbatim>\<open>cluster_chain\<close>: the loop stops once it holds more clusters than the volume has.\<close>

fun chain_from :: "Fat32State \<Rightarrow> BlkDev \<Rightarrow> nat \<Rightarrow> u32 \<Rightarrow> u32 list" where
  "chain_from st d 0 c = []"
| "chain_from st d (Suc n) c = (if c < 2 \<or> c \<ge> FAT_EOC then [] else c # chain_from st d n (fat_read st c d))"

definition cluster_chain :: "Fat32State \<Rightarrow> BlkDev \<Rightarrow> u32 \<Rightarrow> u32 list" where
  "cluster_chain st d start = chain_from st d (unat (total_clusters st) + 1) start"


subsection \<open>Directories\<close>

text \<open>One range of UCS-2 characters of a long-name entry, from byte \<^verbatim>\<open>pos\<close> to \<^verbatim>\<open>end\<close>.\<close>

function lfn_chars :: "u8 list \<Rightarrow> nat \<Rightarrow> nat \<Rightarrow> str" where
  "lfn_chars raw pos en =
     (if pos + 1 \<le> en
      then let ch = le16_at raw pos
           in if ch = 0 \<or> ch = 0xFFFF then []
              else (if ch < 0x80 then ucast ch else 0x3F) # lfn_chars raw (pos + 2) en
      else [])"
  by pat_completeness auto

termination
  by (relation "measure (\<lambda>(raw, pos, en). en - pos)") auto

definition lfn_part :: "u8 list \<Rightarrow> u8 \<times> str" where
  "lfn_part raw = (raw ! 0 AND 0x3F, lfn_chars raw 1 10 @ lfn_chars raw 14 25 @ lfn_chars raw 28 31)"

definition decode_83_name :: "u8 list \<Rightarrow> str" where
  "decode_83_name raw =
     (let base = trim (from_utf8_or [] (take 8 raw));
          ext = trim (from_utf8_or [] (take 3 (drop 8 raw)))
      in if ext = [] then to_lowercase base else to_lowercase base @ [0x2E] @ to_lowercase ext)"

definition split_dot :: "str \<Rightarrow> str \<times> str option" where
  "split_dot s = (takeWhile (\<lambda>b. b \<noteq> 0x2E) s,
     case dropWhile (\<lambda>b. b \<noteq> 0x2E) s of [] \<Rightarrow> None | b # rest \<Rightarrow> Some rest)"

definition encode_83_name :: "str \<Rightarrow> u8 list option" where
  "encode_83_name nm =
     (case split_dot (to_uppercase nm) of (base, ext) \<Rightarrow>
        if base = [] \<or> length base > 8 then None
        else let r = splice 0 base (replicate 11 0x20)
             in case ext of
                  None \<Rightarrow> Some r
                | Some e \<Rightarrow> if length e > 3 then None else Some (splice 8 e r))"

text \<open>
  The scan of a directory: the entries found, the parts of a pending long name, and whether the
  end-of-directory mark was met.
\<close>

type_synonym scan = "DirEntry list \<times> (u8 \<times> str) list \<times> bool"

definition entry_cluster :: "u8 list \<Rightarrow> u32" where
  "entry_cluster raw = push_bit 16 (ucast (le16_at raw 20)) OR ucast (le16_at raw 26)"

definition scan_entry :: "u64 \<Rightarrow> sector \<Rightarrow> nat \<Rightarrow> scan \<Rightarrow> scan" where
  "scan_entry lba s i = (\<lambda>(es, lfn, fin).
     let raw = take 32 (drop (i * 32) s); attr = raw ! 11
     in if fin then (es, lfn, fin)
        else if raw ! 0 = 0x00 then (es, lfn, True)
        else if raw ! 0 = 0xE5 then (es, [], False)
        else if attr = ATTR_LFN then (es, lfn @ [lfn_part raw], False)
        else if attr AND ATTR_VOLUME_ID \<noteq> 0 then (es, [], False)
        else let nm = (if lfn \<noteq> [] then concat (map snd (sort_key fst lfn)) else decode_83_name (take 11 raw))
             in if nm = [0x2E] \<or> nm = [0x2E, 0x2E] then (es, [], False)
                else (es @ [\<lparr>de_name = nm, de_is_dir = (attr AND ATTR_DIRECTORY \<noteq> 0), de_size = le32_at raw 28,
                       de_cluster = entry_cluster raw, de_sector = lba, de_offset = i * 32\<rparr>], [], False))"

definition scan_sector :: "BlkDev \<Rightarrow> u64 \<Rightarrow> scan \<Rightarrow> scan" where
  "scan_sector d lba sc = (case read_block d lba of None \<Rightarrow> sc | Some s \<Rightarrow> fold (scan_entry lba s) [0..<16] sc)"

text \<open>The sectors of a chain of clusters, in the order the loops visit them.\<close>

definition chain_sectors :: "Fat32State \<Rightarrow> u32 list \<Rightarrow> u64 list" where
  "chain_sectors st cs = concat (map (\<lambda>c. map (\<lambda>k. cluster_to_sector st c + of_nat k) [0..<unat (sectors_per_cluster st)]) cs)"

definition read_dir_internal :: "Fat32State \<Rightarrow> BlkDev \<Rightarrow> u32 \<Rightarrow> DirEntry list" where
  "read_dir_internal st d dir_cluster =
     fst (fold (scan_sector d) (chain_sectors st (cluster_chain st d dir_cluster)) ([], [], False))"

definition read_dir :: "Fs \<Rightarrow> u32 \<Rightarrow> DirEntry list" where
  "read_dir fs dir_cluster = (case fat32 fs of None \<Rightarrow> [] | Some st \<Rightarrow> read_dir_internal st (dev fs) dir_cluster)"

definition find_named :: "str \<Rightarrow> DirEntry list \<Rightarrow> DirEntry option" where
  "find_named nm es = List.find (\<lambda>e. to_lowercase (de_name e) = to_lowercase nm) es"

definition find_entry :: "Fs \<Rightarrow> u32 \<Rightarrow> str \<Rightarrow> DirEntry option" where
  "find_entry fs dir_cluster nm = find_named nm (read_dir fs dir_cluster)"


subsection \<open>Files\<close>

fun read_sectors_data :: "BlkDev \<Rightarrow> u64 list \<Rightarrow> nat \<Rightarrow> u8 list" where
  "read_sectors_data d [] remaining = []"
| "read_sectors_data d (l # ls) remaining =
     (if remaining = 0 then []
      else case read_block d l of
             None \<Rightarrow> []
           | Some s \<Rightarrow> take (min remaining 512) s @ read_sectors_data d ls (remaining - min remaining 512))"

definition read_file :: "Fs \<Rightarrow> DirEntry \<Rightarrow> u8 list" where
  "read_file fs e =
     (case fat32 fs of
        None \<Rightarrow> []
      | Some st \<Rightarrow>
          if de_cluster e < 2 then []
          else read_sectors_data (dev fs) (chain_sectors st (cluster_chain st (dev fs) (de_cluster e))) (unat (de_size e)))"

text \<open>The allocation loop of \<^verbatim>\<open>write_data_clusters\<close>; when the disk is full, what was allocated is marked free again.\<close>

fun alloc_clusters :: "Fat32State \<Rightarrow> nat \<Rightarrow> u32 list \<Rightarrow> BlkDev \<Rightarrow> BlkDev \<times> u32 list option" where
  "alloc_clusters st 0 cs d = (d, Some cs)"
| "alloc_clusters st (Suc n) cs d =
     (case fat_alloc st d of
        (d', Some c) \<Rightarrow> alloc_clusters st n (cs @ [c]) d'
      | (d', None) \<Rightarrow> (fold (\<lambda>c d. fst (fat_write st c FAT_FREE d)) cs d', None))"

definition link_clusters :: "Fat32State \<Rightarrow> u32 list \<Rightarrow> BlkDev \<Rightarrow> BlkDev" where
  "link_clusters st cs d = fold (\<lambda>i d. fst (fat_write st (cs ! i) (cs ! (i + 1)) d)) [0..<length cs - 1] d"

text \<open>The data loop: a sector of data, zero padded, as long as there is data, zero sectors after it.\<close>

fun write_data :: "u64 list \<Rightarrow> u8 list \<Rightarrow> BlkDev \<Rightarrow> BlkDev \<times> bool" where
  "write_data [] rest d = (d, True)"
| "write_data (l # ls) rest d =
     (if rest = [] then write_data ls rest (fst (write_block l (replicate 512 0) d))
      else let chunk = min (length rest) 512
           in case write_block l (splice 0 (take chunk rest) (replicate 512 0)) d of
                (d', False) \<Rightarrow> (d', False)
              | (d', True) \<Rightarrow> write_data ls (drop chunk rest) d')"

definition write_data_clusters :: "Fat32State \<Rightarrow> u8 list \<Rightarrow> BlkDev \<Rightarrow> BlkDev \<times> u32 option" where
  "write_data_clusters st data d =
     (if data = [] then (d, Some 0)
      else let cluster_size = unat (sectors_per_cluster st) * 512;
               num_clusters = (length data + cluster_size - 1) div cluster_size
           in case alloc_clusters st num_clusters [] d of
                (d1, None) \<Rightarrow> (d1, None)
              | (d1, Some cs) \<Rightarrow>
                  (case write_data (chain_sectors st cs) data (link_clusters st cs d1) of
                     (d2, True) \<Rightarrow> (d2, Some (cs ! 0))
                   | (d2, False) \<Rightarrow> (d2, None)))"

text \<open>The cluster and size fields of a raw entry.\<close>

definition put_cluster_size :: "nat \<Rightarrow> u32 \<Rightarrow> u32 \<Rightarrow> u8 list \<Rightarrow> u8 list" where
  "put_cluster_size off c sz s =
     splice (off + 28) (le32_bytes sz)
       (s[off + 20 := ucast (drop_bit 16 c), off + 21 := ucast (drop_bit 24 c), off + 26 := ucast c, off + 27 := ucast (drop_bit 8 c)])"

definition update_dir_entry_cluster_size :: "u64 \<Rightarrow> nat \<Rightarrow> u32 \<Rightarrow> u32 \<Rightarrow> BlkDev \<Rightarrow> BlkDev \<times> bool" where
  "update_dir_entry_cluster_size entry_sector entry_offset c sz d =
     (case read_block d entry_sector of
        None \<Rightarrow> (d, False)
      | Some s \<Rightarrow> write_block entry_sector (put_cluster_size entry_offset c sz s) d)"

definition raw_entry :: "u8 list \<Rightarrow> u8 \<Rightarrow> u32 \<Rightarrow> u32 \<Rightarrow> u8 list" where
  "raw_entry short_name attr c sz = put_cluster_size 0 c sz ((splice 0 short_name (replicate 32 0))[11 := attr])"

definition find_slot_in :: "sector \<Rightarrow> nat option" where
  "find_slot_in s = List.find (\<lambda>i. s ! (i * 32) = 0x00 \<or> s ! (i * 32) = 0xE5) [0..<16]"

text \<open>The search for a free slot, over the sectors of the directory.\<close>

fun find_dir_slot :: "BlkDev \<Rightarrow> u64 list \<Rightarrow> (u64 \<times> sector \<times> nat) option" where
  "find_dir_slot d [] = None"
| "find_dir_slot d (l # ls) =
     (case read_block d l of
        None \<Rightarrow> find_dir_slot d ls
      | Some s \<Rightarrow> (case find_slot_in s of None \<Rightarrow> find_dir_slot d ls | Some i \<Rightarrow> Some (l, s, i)))"

definition zero_cluster :: "Fat32State \<Rightarrow> u32 \<Rightarrow> BlkDev \<Rightarrow> BlkDev" where
  "zero_cluster st c d = fold (\<lambda>l d. fst (write_block l (replicate 512 0) d)) (chain_sectors st [c]) d"

definition create_dir_entry :: "Fat32State \<Rightarrow> u32 \<Rightarrow> str \<Rightarrow> bool \<Rightarrow> u32 \<Rightarrow> u32 \<Rightarrow> BlkDev \<Rightarrow> BlkDev \<times> bool" where
  "create_dir_entry st dir_cluster nm is_dir c sz d =
     (case encode_83_name nm of
        None \<Rightarrow> (d, False)
      | Some short_name \<Rightarrow>
          let attr = (if is_dir then ATTR_DIRECTORY OR ATTR_ARCHIVE else ATTR_ARCHIVE);
              entry = raw_entry short_name attr c sz;
              chain = cluster_chain st d dir_cluster
          in case find_dir_slot d (chain_sectors st chain) of
               Some (l, s, i) \<Rightarrow> write_block l (splice (i * 32) entry s) d
             | None \<Rightarrow>
                 (case fat_alloc st d of
                    (d1, None) \<Rightarrow> (d1, False)
                  | (d1, Some new_cluster) \<Rightarrow>
                      let last_cluster = (if chain = [] then dir_cluster else last chain);
                          d2 = zero_cluster st new_cluster (fst (fat_write st last_cluster new_cluster d1))
                      in write_block (cluster_to_sector st new_cluster) (splice 0 entry (replicate 512 0)) d2))"

text \<open>\<^verbatim>\<open>write_file\<close>; the outer \<^const>\<open>None\<close> is a chain of the old file that never ends.\<close>

definition write_file :: "u32 \<Rightarrow> str \<Rightarrow> u8 list \<Rightarrow> Fs \<Rightarrow> (Fs \<times> bool) option" where
  "write_file dir_cluster nm data fs =
     (case fat32 fs of
        None \<Rightarrow> Some (fs, False)
      | Some st \<Rightarrow>
          (case find_named nm (read_dir_internal st (dev fs) dir_cluster) of
             Some e \<Rightarrow>
               (case (if de_cluster e \<ge> 2 then fat_free_chain st (de_cluster e) (dev fs) else Some (dev fs)) of
                  None \<Rightarrow> None
                | Some d1 \<Rightarrow>
                    (case write_data_clusters st data d1 of (d2, new_cluster) \<Rightarrow>
                       Some (fs\<lparr>dev := fst (update_dir_entry_cluster_size (de_sector e) (de_offset e)
                               (case new_cluster of Some c \<Rightarrow> c | None \<Rightarrow> 0) (of_nat (length data)) d2)\<rparr>, True)))
           | None \<Rightarrow>
               (case (if data \<noteq> [] then write_data_clusters st data (dev fs) else (dev fs, Some 0)) of (d1, new_cluster) \<Rightarrow>
                  (case create_dir_entry st dir_cluster nm False (case new_cluster of Some c \<Rightarrow> c | None \<Rightarrow> 0)
                          (of_nat (length data)) d1 of
                     (d2, r) \<Rightarrow> Some (fs\<lparr>dev := d2\<rparr>, r)))))"

definition dot_entry :: "u8 list \<Rightarrow> u32 \<Rightarrow> u8 list" where
  "dot_entry dots c =
     ((splice 0 (dots @ replicate (11 - length dots) 0x20) (replicate 32 0))
        [11 := ATTR_DIRECTORY, 20 := ucast (drop_bit 16 c), 21 := ucast (drop_bit 24 c), 26 := ucast c, 27 := ucast (drop_bit 8 c)])"

definition mkdir :: "u32 \<Rightarrow> str \<Rightarrow> Fs \<Rightarrow> Fs \<times> bool" where
  "mkdir parent_cluster nm fs =
     (case fat32 fs of
        None \<Rightarrow> (fs, False)
      | Some st \<Rightarrow>
          if find_named nm (read_dir_internal st (dev fs) parent_cluster) \<noteq> None then (fs, False)
          else case fat_alloc st (dev fs) of
                 (d1, None) \<Rightarrow> (fs\<lparr>dev := d1\<rparr>, False)
               | (d1, Some dir_cluster) \<Rightarrow>
                   let d2 = zero_cluster st dir_cluster d1;
                       s = splice 32 (dot_entry [0x2E, 0x2E] parent_cluster)
                             (splice 0 (dot_entry [0x2E] dir_cluster) (replicate 512 0))
                   in case write_block (cluster_to_sector st dir_cluster) s d2 of
                        (d3, False) \<Rightarrow> (fs\<lparr>dev := d3\<rparr>, False)
                      | (d3, True) \<Rightarrow>
                          (case create_dir_entry st parent_cluster nm True dir_cluster 0 d3 of
                             (d4, r) \<Rightarrow> (fs\<lparr>dev := d4\<rparr>, r)))"

definition delete :: "u32 \<Rightarrow> str \<Rightarrow> Fs \<Rightarrow> (Fs \<times> bool) option" where
  "delete dir_cluster nm fs =
     (case fat32 fs of
        None \<Rightarrow> Some (fs, False)
      | Some st \<Rightarrow>
          (case find_named nm (read_dir_internal st (dev fs) dir_cluster) of
             None \<Rightarrow> Some (fs, False)
           | Some e \<Rightarrow>
               if de_is_dir e \<and> read_dir_internal st (dev fs) (de_cluster e) \<noteq> [] then Some (fs, False)
               else case (if de_cluster e \<ge> 2 then fat_free_chain st (de_cluster e) (dev fs) else Some (dev fs)) of
                      None \<Rightarrow> None
                    | Some d1 \<Rightarrow>
                        (case read_block d1 (de_sector e) of
                           None \<Rightarrow> Some (fs\<lparr>dev := d1\<rparr>, False)
                         | Some s \<Rightarrow>
                             (case write_block (de_sector e) (s[de_offset e := 0xE5]) d1 of
                                (d2, r) \<Rightarrow> Some (fs\<lparr>dev := d2\<rparr>, r)))))"

definition root_cluster :: "Fs \<Rightarrow> u32" where
  "root_cluster fs = (case fat32 fs of None \<Rightarrow> 0 | Some st \<Rightarrow> root_clus st)"

definition volume_label :: "Fs \<Rightarrow> str" where
  "volume_label fs = (case fat32 fs of None \<Rightarrow> [0x28, 0x6E, 0x6F, 0x6E, 0x65, 0x29] | Some st \<Rightarrow> vol_label st)"

definition is_mounted :: "Fs \<Rightarrow> bool" where
  "is_mounted fs = (fat32 fs \<noteq> None)"

definition fat_stats :: "Fs \<Rightarrow> u32 \<times> u32 \<times> u32" where
  "fat_stats fs =
     (case fat32 fs of
        None \<Rightarrow> (0, 0, 0)
      | Some st \<Rightarrow> (total_clusters st,
          of_nat (length (filter (\<lambda>c. fat_read st c (dev fs) = FAT_FREE) (cluster_range st))),
          ucast (sectors_per_cluster st) * ucast (bytes_per_sector st)))"


unbundle bit_operations_syntax


subsection \<open>Layout\<close>

text \<open>
  What a volume must satisfy: at least one FAT with an entry for every cluster, cluster numbers below the
  reserved values, and a device that serves the FATs and the data area.
\<close>

definition layout :: "Fat32State \<Rightarrow> BlkDev \<Rightarrow> bool" where
  "layout st d \<longleftrightarrow> dev_ok d \<and> 1 \<le> unat (num_fats st) \<and> 1 \<le> unat (sectors_per_cluster st) \<and>
     unat (data_start_sector st) = unat (reserved_sectors st) + unat (num_fats st) * unat (sectors_per_fat st) \<and>
     unat (total_clusters st) + 2 \<le> 128 * unat (sectors_per_fat st) \<and>
     unat (total_clusters st) + 2 \<le> 0x0FFFFFF7 \<and>
     (\<forall>l. unat (reserved_sectors st) \<le> unat l \<and>
        unat l < unat (data_start_sector st) + unat (total_clusters st) * unat (sectors_per_cluster st) \<longrightarrow> served d l)"

definition valid :: "Fat32State \<Rightarrow> u32 \<Rightarrow> bool" where
  "valid st c \<longleftrightarrow> 2 \<le> unat c \<and> unat c < unat (total_clusters st) + 2"

lemma layoutD:
  assumes "layout st d"
  shows "dev_ok d" "1 \<le> unat (num_fats st)" "1 \<le> unat (sectors_per_cluster st)"
    "unat (data_start_sector st) = unat (reserved_sectors st) + unat (num_fats st) * unat (sectors_per_fat st)"
    "unat (total_clusters st) + 2 \<le> 128 * unat (sectors_per_fat st)"
    "unat (total_clusters st) + 2 \<le> 0x0FFFFFF7"
    "unat (reserved_sectors st) \<le> unat l \<Longrightarrow>
       unat l < unat (data_start_sector st) + unat (total_clusters st) * unat (sectors_per_cluster st) \<Longrightarrow> served d l"
  using assms unfolding layout_def by blast+

lemma layout_media: "layout st d \<Longrightarrow> dev_ok (d\<lparr>media := mm\<rparr>) \<Longrightarrow> layout st (d\<lparr>media := mm\<rparr>)"
  by (simp add: layout_def)

lemma unat_u8: "unat (x :: u8) < 256" and unat_u16: "unat (y :: u16) < 65536" and unat_u32: "unat (z :: u32) < 4294967296"
  using unat_lt2p [of x] unat_lt2p [of y] unat_lt2p [of z] by simp_all

lemma unat_times4: "unat (c :: u32) < 0x40000000 \<Longrightarrow> unat (c * 4) = unat c * 4"
  by (simp add: unat_word_ariths)

lemma unat_fat_offset: "unat c < 0x40000000 \<Longrightarrow> fat_offset c = 4 * (unat c mod 128)"
proof -
  assume "unat c < 0x40000000"
  then have "unat (c * 4 mod 512) = (unat c * 4) mod 512" by (simp add: unat_mod unat_times4)
  also have "\<dots> = 4 * (unat c mod 128)" using mult_mod_right [of 4 "unat c" 128] by (simp add: mult.commute)
  finally show ?thesis by (simp add: fat_offset_def)
qed

lemma unat_fat_sector:
  assumes "unat c < 0x40000000" "k < 256"
  shows "unat (fat_sector st c k) = unat (reserved_sectors st) + k * unat (sectors_per_fat st) + unat c div 128"
proof -
  let ?r = "ucast (reserved_sectors st) :: u64" and ?f = "ucast (sectors_per_fat st) :: u64" and ?q = "ucast (c * 4) div 512 :: u64"
  have r: "unat ?r = unat (reserved_sectors st)" and f: "unat ?f = unat (sectors_per_fat st)"
    by (simp_all add: unat_ucast_le)
  have q: "unat ?q = unat c div 128"
    using assms(1) by (simp add: unat_div unat_ucast_le unat_times4)
  have kf: "k * unat (sectors_per_fat st) \<le> 255 * 4294967296"
    using assms(2) unat_u32 [of "sectors_per_fat st"] by (intro mult_mono) simp_all
  have m: "unat (of_nat k * ?f) = k * unat (sectors_per_fat st)"
    using kf assms(2) by (subst unat_mult_no_overflow) (simp_all add: unat_of_nat_small f)
  have "unat ?q \<le> 0x800000" unfolding q using assms(1) by simp
  then have s1: "unat (?r + of_nat k * ?f) = unat (reserved_sectors st) + k * unat (sectors_per_fat st)"
    using kf unat_u16 [of "reserved_sectors st"] by (subst unat_add_no_overflow) (simp_all add: r m)
  then show ?thesis unfolding fat_sector_def
    using kf unat_u16 [of "reserved_sectors st"] q assms(1) by (subst unat_add_no_overflow) simp_all
qed

lemma unat_cluster_to_sector:
  assumes "layout st d" "valid st c"
  shows "unat (cluster_to_sector st c) = unat (data_start_sector st) + (unat c - 2) * unat (sectors_per_cluster st)"
proof -
  note L = layoutD [OF assms(1)]
  have c2: "unat (c - 2) = unat c - 2" using assms(2) by (simp add: valid_def unat_sub word_le_nat_alt)
  have b: "(unat c - 2) * unat (sectors_per_cluster st) \<le> 4294967296 * 256"
    using unat_u32 [of c] unat_u8 [of "sectors_per_cluster st"] by (intro mult_mono) simp_all
  have m: "unat (ucast (c - 2) * ucast (sectors_per_cluster st) :: u64) = (unat c - 2) * unat (sectors_per_cluster st)"
    using b by (subst unat_mult_no_overflow) (simp_all add: unat_ucast_le c2)
  have "unat (num_fats st) * unat (sectors_per_fat st) \<le> 256 * 4294967296"
    using unat_u8 [of "num_fats st"] unat_u32 [of "sectors_per_fat st"] by (intro mult_mono) simp_all
  then have "unat (data_start_sector st) \<le> 65536 + 256 * 4294967296" using L(4) unat_u16 [of "reserved_sectors st"] by simp
  then show ?thesis unfolding cluster_to_sector_def using b m by (subst unat_add_no_overflow) simp_all
qed

lemma valid_small: "layout st d \<Longrightarrow> valid st c \<Longrightarrow> unat c < 0x0FFFFFF7"
  using layoutD(6) [of st d] by (simp add: valid_def)

lemma fat_sector_bounds:
  assumes "layout st d" "valid st c" "k < unat (num_fats st)"
  shows "unat (reserved_sectors st) \<le> unat (fat_sector st c k)" "unat (fat_sector st c k) < unat (data_start_sector st)"
    "served d (fat_sector st c k)"
proof -
  note L = layoutD [OF assms(1)]
  have c: "unat c < 0x40000000" using valid_small [OF assms(1,2)] by simp
  have k: "k < 256" using assms(3) unat_u8 [of "num_fats st"] by simp
  note e = unat_fat_sector [OF c k, of st]
  show 1: "unat (reserved_sectors st) \<le> unat (fat_sector st c k)" using e by simp
  have "unat c div 128 < unat (sectors_per_fat st)"
    using L(5) assms(2) by (simp add: valid_def div_less_iff_less_mult)
  then have "k * unat (sectors_per_fat st) + unat c div 128 < Suc k * unat (sectors_per_fat st)" by simp
  also have "\<dots> \<le> unat (num_fats st) * unat (sectors_per_fat st)" using assms(3) by (intro mult_right_mono) simp_all
  finally show 2: "unat (fat_sector st c k) < unat (data_start_sector st)" using e L(4) by simp
  show "served d (fat_sector st c k)" using L(7) 1 2 by simp
qed

text \<open>Sector and offset determine the cluster.\<close>

lemma fat_sector_eq_0:
  assumes "layout st d" "valid st c" "valid st c'" "k < unat (num_fats st)" "fat_sector st c k = fat_sector st c' 0"
  shows "k = 0" "unat c div 128 = unat c' div 128"
proof -
  note L = layoutD [OF assms(1)]
  let ?F = "unat (sectors_per_fat st)"
  have c: "unat c < 0x40000000" "unat c' < 0x40000000" using valid_small [OF assms(1)] assms(2,3) by fastforce+
  have k: "k < 256" using assms(4) unat_u8 [of "num_fats st"] by simp
  have e: "k * ?F + unat c div 128 = unat c' div 128"
    using unat_fat_sector [OF c(1) k, of st] unat_fat_sector [OF c(2), of 0 st] assms(5) by simp
  have "unat c' div 128 < ?F" using L(5) assms(3) by (simp add: valid_def div_less_iff_less_mult)
  then have "k * ?F < ?F" using e by linarith
  then show "k = 0" by (cases k) simp_all
  then show "unat c div 128 = unat c' div 128" using e by simp
qed

lemma div_mod_128: "(x :: nat) div 128 = y div 128 \<Longrightarrow> x mod 128 = y mod 128 \<Longrightarrow> x = y"
  by (metis div_mult_mod_eq)


subsection \<open>Reading and writing FAT entries\<close>

lemma le32_bytes_nth:
  "le32_bytes v ! 0 = ucast v" "le32_bytes v ! Suc 0 = ucast (drop_bit 8 v)" "le32_bytes v ! 2 = ucast (drop_bit 16 v)"
  "le32_bytes v ! 3 = ucast (drop_bit 24 v)"
  by (simp_all add: le32_bytes_def numeral_2_eq_2 numeral_3_eq_3)

lemma le32_at_splice_same:
  assumes "off + 4 \<le> length s"
  shows "le32_at (splice off (le32_bytes v) s) off = v"
  using assms by (simp add: le32_at_def nth_splice le32_bytes_nth)

lemma le32_at_splice_other:
  assumes "off + length bs \<le> length s" "i + 4 \<le> length s" "i + 4 \<le> off \<or> off + length bs \<le> i"
  shows "le32_at (splice off bs s) i = le32_at s i"
  using assms by (auto simp: le32_at_def nth_splice)

lemma fat_masks: "FAT_MASK = mask 28" "(0xF0000000 :: u32) = NOT (mask 28)"
  by (simp_all add: FAT_MASK_def mask_eq_exp_minus_1)

lemma mask_merge: "((e AND NOT (mask n)) OR (v AND mask n)) AND mask n = v AND mask n" for e v :: u32
  by (rule bit_word_eqI) (auto simp: bit_simps)

definition put_fat :: "u32 \<Rightarrow> u32 \<Rightarrow> sector \<Rightarrow> sector" where
  "put_fat c v s = splice (fat_offset c) (le32_bytes ((le32_at s (fat_offset c) AND 0xF0000000) OR (v AND FAT_MASK))) s"

lemma fat_offset_bound: "fat_offset c + 4 \<le> 512"
proof -
  have "unat (c * 4 mod 512) = unat (c * 4) mod 512" by (simp add: unat_mod)
  moreover have "4 dvd unat (c * 4)"
    by (simp add: unat_word_ariths dvd_mod_iff)
  then have "4 dvd unat (c * 4) mod 512" by (simp add: dvd_mod_iff)
  then obtain q where q: "unat (c * 4) mod 512 = 4 * q" by (rule dvdE)
  moreover have "unat (c * 4) mod 512 < 512" by simp
  ultimately show ?thesis unfolding fat_offset_def by simp
qed

lemma length_put_fat [simp]: "length s = 512 \<Longrightarrow> length (put_fat c v s) = 512"
  using fat_offset_bound [of c] by (simp add: put_fat_def)

lemma fat_write_copies_eq:
  assumes "dev_ok d" "\<forall>k \<in> set ks. served d (fat_sector st c k)" "distinct (map (fat_sector st c) ks)"
  shows "fat_write_copies st c v ks d =
     (d\<lparr>media := (\<lambda>l. if l \<in> fat_sector st c ` set ks then put_fat c v (media d l) else media d l)\<rparr>, True)"
  using assms
proof (induction ks arbitrary: d)
  case (Cons k ks)
  let ?l = "fat_sector st c k"
  let ?d = "d\<lparr>media := (media d)(?l := put_fat c v (media d ?l))\<rparr>"
  have len: "length (media d ?l) = 512" using Cons.prems(1) by (simp add: dev_ok_def)
  have sv: "served d ?l" using Cons.prems(2) by simp
  have ok: "dev_ok ?d" using Cons.prems(1) len by (simp add: dev_ok_def)
  have w: "write_block ?l (put_fat c v (media d ?l)) d = (?d, True)"
    using sv len by (simp add: write_block_eq)
  have step: "fat_write_copies st c v (k # ks) d = fat_write_copies st c v ks ?d"
    using w sv Cons.prems(1) by (simp add: read_block_eq put_fat_def Let_def)
  have IH: "fat_write_copies st c v ks ?d =
     (?d\<lparr>media := (\<lambda>l. if l \<in> fat_sector st c ` set ks then put_fat c v (media ?d l) else media ?d l)\<rparr>, True)"
    by (rule Cons.IH [OF ok]) (use Cons.prems(2,3) in auto)
  have "?l \<notin> fat_sector st c ` set ks" using Cons.prems(3) by auto
  then have "(\<lambda>l. if l \<in> fat_sector st c ` set ks then put_fat c v (media ?d l) else media ?d l)
      = (\<lambda>l. if l \<in> fat_sector st c ` set (k # ks) then put_fat c v (media d l) else media d l)"
    by (auto simp: fun_eq_iff)
  then show ?case using step IH by simp
qed simp

lemma fat_sector_inj:
  assumes "layout st d" "valid st c" "k < unat (num_fats st)" "k' < unat (num_fats st)" "fat_sector st c k = fat_sector st c k'"
  shows "k = k'"
proof -
  note L = layoutD [OF assms(1)]
  have c: "unat c < 0x40000000" using valid_small [OF assms(1,2)] by simp
  have k: "k < 256" "k' < 256" using assms(3,4) unat_u8 [of "num_fats st"] by simp_all
  have "k * unat (sectors_per_fat st) = k' * unat (sectors_per_fat st)"
    using unat_fat_sector [OF c k(1), of st] unat_fat_sector [OF c k(2), of st] unfolding assms(5) by linarith
  moreover have "0 < unat (sectors_per_fat st)" using L(5) by linarith
  ultimately show ?thesis by simp
qed

text \<open>A FAT write succeeds, sets exactly that entry and touches nothing outside the FATs.\<close>

lemma fat_write_spec:
  assumes "layout st d" "valid st c"
  obtains mm where "fat_write st c v d = (d\<lparr>media := mm\<rparr>, True)" "layout st (d\<lparr>media := mm\<rparr>)"
    "\<And>c'. valid st c' \<Longrightarrow> fat_read st c' (d\<lparr>media := mm\<rparr>) = (if c' = c then v AND FAT_MASK else fat_read st c' d)"
    "\<And>l. unat (data_start_sector st) \<le> unat l \<Longrightarrow> mm l = media d l"
proof -
  note L = layoutD [OF assms(1)]
  let ?ks = "[0..<unat (num_fats st)]"
  define mm where "mm = (\<lambda>l. if l \<in> fat_sector st c ` set ?ks then put_fat c v (media d l) else media d l)"
  have sv: "\<forall>k \<in> set ?ks. served d (fat_sector st c k)" using fat_sector_bounds(3) [OF assms] by simp
  have dj: "distinct (map (fat_sector st c) ?ks)"
    using fat_sector_inj [OF assms] by (simp add: distinct_map inj_on_def)
  have w: "fat_write st c v d = (d\<lparr>media := mm\<rparr>, True)"
    unfolding fat_write_def mm_def by (rule fat_write_copies_eq [OF L(1) sv dj])
  have ok: "dev_ok (d\<lparr>media := mm\<rparr>)" using L(1) by (simp add: dev_ok_def mm_def)
  have lay: "layout st (d\<lparr>media := mm\<rparr>)" using layout_media [OF assms(1) ok] .
  have rd: "fat_read st c' (d\<lparr>media := mm\<rparr>) = (if c' = c then v AND FAT_MASK else fat_read st c' d)" if v': "valid st c'" for c'
  proof -
    let ?l = "fat_sector st c' 0"
    have sv': "served d ?l" using fat_sector_bounds(3) [OF assms(1) v', of 0] L(2) by simp
    have len: "length (media d ?l) = 512" using L(1) by (simp add: dev_ok_def)
    have r1: "fat_read st c' (d\<lparr>media := mm\<rparr>) = le32_at (mm ?l) (fat_offset c') AND FAT_MASK"
      using sv' ok by (simp add: fat_read_def read_block_eq)
    have r0: "fat_read st c' d = le32_at (media d ?l) (fat_offset c') AND FAT_MASK"
      using sv' L(1) by (simp add: fat_read_def read_block_eq)
    have cs: "unat c < 0x40000000" "unat c' < 0x40000000" using valid_small [OF assms(1)] assms(2) v' by fastforce+
    show ?thesis
    proof (cases "c' = c")
      case True
      have "?l \<in> fat_sector st c ` set ?ks" using True L(2) by auto
      then have "le32_at (mm ?l) (fat_offset c') AND FAT_MASK = v AND FAT_MASK"
        using True len fat_offset_bound [of c]
        by (simp add: mm_def put_fat_def le32_at_splice_same fat_masks mask_merge)
      then show ?thesis using r1 True by simp
    next
      case False
      have "le32_at (mm ?l) (fat_offset c') = le32_at (media d ?l) (fat_offset c')"
      proof (cases "?l \<in> fat_sector st c ` set ?ks")
        case True
        then obtain k where k: "k < unat (num_fats st)" "fat_sector st c k = ?l" by auto
        then have "unat c div 128 = unat c' div 128" using fat_sector_eq_0(2) [OF assms v'] by blast
        then have "unat c mod 128 \<noteq> unat c' mod 128"
          using False div_mod_128 by (metis word_unat_eq_iff)
        then have "fat_offset c' + 4 \<le> fat_offset c \<or> fat_offset c + 4 \<le> fat_offset c'"
          using cs by (simp add: unat_fat_offset) linarith
        then show ?thesis
          using True len fat_offset_bound [of c] fat_offset_bound [of c']
          by (simp add: mm_def put_fat_def le32_at_splice_other)
      qed (simp add: mm_def)
      then show ?thesis using r1 r0 False by simp
    qed
  qed
  have out: "mm l = media d l" if "unat (data_start_sector st) \<le> unat l" for l
  proof -
    have "l \<noteq> fat_sector st c k" if "k < unat (num_fats st)" for k
      using fat_sector_bounds(2) [OF assms that] \<open>unat (data_start_sector st) \<le> unat l\<close> by auto
    then have "l \<notin> fat_sector st c ` set ?ks" by (metis (no_types) atLeastLessThan_iff imageE set_upt)
    then show ?thesis unfolding mm_def by (rule if_not_P)
  qed
  from that [OF w lay rd out] show ?thesis .
qed


subsection \<open>Changes of the table\<close>

text \<open>\<^verbatim>\<open>fat_step st d d' m\<close>: from \<^verbatim>\<open>d\<close> to \<^verbatim>\<open>d'\<close> the table changed as \<^verbatim>\<open>m\<close> says and the data area did not.\<close>

definition fat_step :: "Fat32State \<Rightarrow> BlkDev \<Rightarrow> BlkDev \<Rightarrow> (u32 \<Rightarrow> u32 option) \<Rightarrow> bool" where
  "fat_step st d d' m \<longleftrightarrow> layout st d' \<and> (\<exists>mm. d' = d\<lparr>media := mm\<rparr>) \<and>
     (\<forall>c. valid st c \<longrightarrow> fat_read st c d' = (case m c of Some v \<Rightarrow> v | None \<Rightarrow> fat_read st c d)) \<and>
     (\<forall>l. unat (data_start_sector st) \<le> unat l \<longrightarrow> media d' l = media d l)"

lemma fat_stepD:
  assumes "fat_step st d d' m"
  shows "layout st d'" "valid st c \<Longrightarrow> fat_read st c d' = (case m c of Some v \<Rightarrow> v | None \<Rightarrow> fat_read st c d)"
    "unat (data_start_sector st) \<le> unat l \<Longrightarrow> media d' l = media d l" "served d' = served d"
  using assms by (auto simp: fat_step_def)

lemma fat_step_refl: "layout st d \<Longrightarrow> fat_step st d d Map.empty"
  by (auto simp: fat_step_def intro!: exI [of _ "media d"])

lemma fat_step_trans:
  assumes "fat_step st d d1 m" "fat_step st d1 d2 m'"
  shows "fat_step st d d2 (m ++ m')"
proof -
  obtain mm mm' where "d1 = d\<lparr>media := mm\<rparr>" "d2 = d1\<lparr>media := mm'\<rparr>" using assms by (auto simp: fat_step_def)
  then have "d2 = d\<lparr>media := mm'\<rparr>" by simp
  then show ?thesis using assms by (auto simp: fat_step_def map_add_def split: option.splits)
qed

lemma fat_step_cong:
  assumes "fat_step st d d' m" "\<And>c. valid st c \<Longrightarrow>
     (case m c of Some v \<Rightarrow> v | None \<Rightarrow> fat_read st c d) = (case m' c of Some v \<Rightarrow> v | None \<Rightarrow> fat_read st c d)"
  shows "fat_step st d d' m'"
  using assms by (simp add: fat_step_def)

lemma fat_write_step:
  assumes "layout st d" "valid st c"
  shows "fat_step st d (fst (fat_write st c v d)) [c \<mapsto> v AND FAT_MASK]" "snd (fat_write st c v d)"
proof -
  obtain mm where "fat_write st c v d = (d\<lparr>media := mm\<rparr>, True)" "layout st (d\<lparr>media := mm\<rparr>)"
    "\<And>c'. valid st c' \<Longrightarrow> fat_read st c' (d\<lparr>media := mm\<rparr>) = (if c' = c then v AND FAT_MASK else fat_read st c' d)"
    "\<And>l. unat (data_start_sector st) \<le> unat l \<Longrightarrow> mm l = media d l"
    using fat_write_spec [OF assms] by metis
  then show "fat_step st d (fst (fat_write st c v d)) [c \<mapsto> v AND FAT_MASK]" "snd (fat_write st c v d)"
    by (auto simp: fat_step_def)
qed

lemma mask_valid: "layout st d \<Longrightarrow> valid st c \<Longrightarrow> c AND FAT_MASK = c"
proof -
  assume "layout st d" "valid st c"
  then have "unat c < 2 ^ 28" using valid_small [of st d c] by simp
  then have "take_bit 28 (unat c) = unat c" by (simp add: take_bit_nat_eq_self)
  then have "unat (take_bit 28 c) = unat c" by (simp add: unsigned_take_bit_eq)
  then have "take_bit 28 c = c" by (simp only: word_unat_eq_iff)
  then show ?thesis by (simp add: fat_masks take_bit_eq_mask)
qed

lemma fat_consts: "(0x0FFFFFFF :: u32) AND FAT_MASK = 0x0FFFFFFF" "FAT_FREE AND FAT_MASK = FAT_FREE"
  by (simp_all add: FAT_MASK_def FAT_FREE_def)


subsection \<open>Allocation\<close>

lemma unat_total_plus_2: "layout st d \<Longrightarrow> unat (total_clusters st + 2) = unat (total_clusters st) + 2"
  using layoutD(6) [of st d] by (simp add: unat_word_ariths)

lemma cluster_range_valid:
  assumes "layout st d"
  shows "set (cluster_range st) = {c. valid st c}" "distinct (cluster_range st)"
proof -
  note T = unat_total_plus_2 [OF assms] layoutD(6) [OF assms]
  have inj: "inj_on (of_nat :: nat \<Rightarrow> u32) {2..<unat (total_clusters st + 2)}"
  proof (rule inj_onI)
    fix i j assume ij: "i \<in> {2..<unat (total_clusters st + 2)}" "j \<in> {2..<unat (total_clusters st + 2)}" "(of_nat i :: u32) = of_nat j"
    have "unat (of_nat i :: u32) = i" by (rule unat_of_nat_small) (use ij(1) T in simp)
    moreover have "unat (of_nat j :: u32) = j" by (rule unat_of_nat_small) (use ij(2) T in simp)
    ultimately show "i = j" using ij(3) by metis
  qed
  show "distinct (cluster_range st)" using inj by (simp add: cluster_range_def distinct_map)
  show "set (cluster_range st) = {c. valid st c}"
  proof (intro set_eqI iffI)
    fix c assume "c \<in> set (cluster_range st)"
    then obtain n where "c = of_nat n" "n \<in> {2..<unat (total_clusters st + 2)}"
      unfolding cluster_range_def set_map set_upt by blast
    then have n: "c = of_nat n" "2 \<le> n" "n < unat (total_clusters st) + 2" unfolding T(1) by simp_all
    then have "unat c = n" using T by (simp add: unat_of_nat_small)
    then show "c \<in> {c. valid st c}" using n by (simp add: valid_def)
  next
    fix c assume "c \<in> {c. valid st c}"
    then have "unat c \<in> set [2..<unat (total_clusters st + 2)]" unfolding T(1) set_upt by (simp add: valid_def)
    then show "c \<in> set (cluster_range st)" unfolding cluster_range_def
set_map by (intro image_eqI [of c of_nat "unat c"]) simp_all
  qed
qed

definition free_cls :: "Fat32State \<Rightarrow> BlkDev \<Rightarrow> u32 list" where
  "free_cls st d = filter (\<lambda>c. fat_read st c d = FAT_FREE) (cluster_range st)"

lemma free_cls_valid: "layout st d \<Longrightarrow> c \<in> set (free_cls st d) \<Longrightarrow> valid st c \<and> fat_read st c d = FAT_FREE"
  using cluster_range_valid(1) by (auto simp: free_cls_def)

lemma fat_alloc_from_eq:
  assumes "layout st d" "\<forall>c \<in> set cs. valid st c"
  shows "fat_alloc_from st cs d = (case List.find (\<lambda>c. fat_read st c d = FAT_FREE) cs of
     None \<Rightarrow> (d, None) | Some c \<Rightarrow> (fst (fat_write st c 0x0FFFFFFF d), Some c))"
  using assms(2)
proof (induction cs)
  case (Cons c cs)
  have "snd (fat_write st c 0x0FFFFFFF d)" using fat_write_step(2) [OF assms(1)] Cons.prems by simp
  then have "fat_write st c 0x0FFFFFFF d = (fst (fat_write st c 0x0FFFFFFF d), True)" by (simp add: prod_eq_iff)
  then show ?case using Cons by (cases "fat_read st c d = FAT_FREE") (auto split: prod.splits)
qed simp

lemma find_filter: "List.find P xs = (case filter P xs of [] \<Rightarrow> None | x # _ \<Rightarrow> Some x)"
  by (induction xs) auto

lemma fat_alloc_spec:
  assumes "layout st d"
  shows "free_cls st d = [] \<Longrightarrow> fat_alloc st d = (d, None)"
    "free_cls st d = c # cs \<Longrightarrow> \<exists>d'. fat_alloc st d = (d', Some c) \<and> fat_step st d d' [c \<mapsto> 0x0FFFFFFF] \<and> free_cls st d' = cs"
proof -
  have e: "fat_alloc st d = (case free_cls st d of [] \<Rightarrow> (d, None) | c # _ \<Rightarrow> (fst (fat_write st c 0x0FFFFFFF d), Some c))"
    unfolding fat_alloc_def using fat_alloc_from_eq [OF assms, of "cluster_range st"] cluster_range_valid(1) [OF assms]
    by (simp add: free_cls_def find_filter split: list.splits)
  show "free_cls st d = [] \<Longrightarrow> fat_alloc st d = (d, None)" using e by simp
  assume f: "free_cls st d = c # cs"
  let ?d = "fst (fat_write st c 0x0FFFFFFF d)"
  have c: "valid st c" "fat_read st c d = FAT_FREE" using free_cls_valid [OF assms, of c] f by simp_all
  have s: "fat_step st d ?d [c \<mapsto> 0x0FFFFFFF]" using fat_write_step(1) [OF assms c(1), of "0x0FFFFFFF"] by (simp add: fat_consts)
  have rd: "fat_read st x ?d = FAT_FREE \<longleftrightarrow> fat_read st x d = FAT_FREE \<and> x \<noteq> c" if "x \<in> set (cluster_range st)" for x
    using fat_stepD(2) [OF s, of x] that cluster_range_valid(1) [OF assms] by (auto simp: FAT_FREE_def)
  have "free_cls st ?d = filter (\<lambda>x. fat_read st x d = FAT_FREE \<and> x \<noteq> c) (cluster_range st)"
    unfolding free_cls_def by (rule filter_cong) (use rd in simp_all)
  also have "\<dots> = filter (\<lambda>x. x \<noteq> c) (free_cls st d)" by (simp add: free_cls_def)
  also have "\<dots> = cs"
  proof -
    have "distinct (c # cs)" using cluster_range_valid(2) [OF assms] f by (metis free_cls_def distinct_filter)
    then show ?thesis using f by (auto simp: filter_id_conv)
  qed
  finally show "\<exists>d'. fat_alloc st d = (d', Some c) \<and> fat_step st d d' [c \<mapsto> 0x0FFFFFFF] \<and> free_cls st d' = cs"
    using e f s by simp
qed

lemma alloc_clusters_some:
  assumes "layout st d" "n \<le> length (free_cls st d)"
  shows "\<exists>d'. alloc_clusters st n cs d = (d', Some (cs @ take n (free_cls st d))) \<and>
     fat_step st d d' (\<lambda>c. if c \<in> set (take n (free_cls st d)) then Some 0x0FFFFFFF else None)"
  using assms
proof (induction n arbitrary: cs d)
  case 0
  then show ?case using fat_step_refl by simp
next
  case (Suc n)
  obtain c fs where f: "free_cls st d = c # fs" using Suc.prems(2) by (cases "free_cls st d") auto
  obtain d1 where d1: "fat_alloc st d = (d1, Some c)" "fat_step st d d1 [c \<mapsto> 0x0FFFFFFF]" "free_cls st d1 = fs"
    using fat_alloc_spec(2) [OF Suc.prems(1) f] by blast
  have "n \<le> length (free_cls st d1)" using Suc.prems(2) f d1(3) by simp
  from Suc.IH [OF fat_stepD(1) [OF d1(2)] this, of "cs @ [c]"] obtain d' where
    d': "alloc_clusters st n (cs @ [c]) d1 = (d', Some ((cs @ [c]) @ take n fs))"
    "fat_step st d1 d' (\<lambda>c. if c \<in> set (take n fs) then Some 0x0FFFFFFF else None)" using d1(3) by auto
  have "fat_step st d d' (\<lambda>x. if x \<in> set (take (Suc n) (free_cls st d)) then Some 0x0FFFFFFF else None)"
    by (rule fat_step_cong [OF fat_step_trans [OF d1(2) d'(2)]]) (auto simp: f map_add_def)
  then show ?case using d1(1) d'(1) f by simp
qed

lemma free_all:
  assumes "layout st d" "\<forall>c \<in> set cs. valid st c"
  shows "fat_step st d (fold (\<lambda>c d. fst (fat_write st c FAT_FREE d)) cs d) (\<lambda>c. if c \<in> set cs then Some FAT_FREE else None)"
  using assms
proof (induction cs arbitrary: d)
  case Nil
  then show ?case using fat_step_refl by simp
next
  case (Cons c cs)
  have s: "fat_step st d (fst (fat_write st c FAT_FREE d)) [c \<mapsto> FAT_FREE]"
    using fat_write_step(1) [OF Cons.prems(1), of c FAT_FREE] Cons.prems(2) by (simp add: fat_consts)
  show ?case
    by (simp, rule fat_step_cong [OF fat_step_trans [OF s Cons.IH [OF fat_stepD(1) [OF s]]]])
      (use Cons.prems(2) in \<open>auto simp: map_add_def\<close>)
qed

text \<open>When the disk is full, everything allocated is free again.\<close>

lemma alloc_clusters_none:
  assumes "layout st d" "length (free_cls st d) < n" "\<forall>c \<in> set cs. valid st c"
  shows "\<exists>d'. alloc_clusters st n cs d = (d', None) \<and>
     fat_step st d d' (\<lambda>c. if c \<in> set cs then Some FAT_FREE else None)"
  using assms
proof (induction n arbitrary: cs d)
  case (Suc n)
  show ?case
  proof (cases "free_cls st d")
    case Nil
    then show ?thesis using fat_alloc_spec(1) [OF Suc.prems(1)] free_all [OF Suc.prems(1,3)] by simp
  next
    case (Cons c fs)
    obtain d1 where d1: "fat_alloc st d = (d1, Some c)" "fat_step st d d1 [c \<mapsto> 0x0FFFFFFF]" "free_cls st d1 = fs"
      using fat_alloc_spec(2) [OF Suc.prems(1) Cons] by blast
    have c: "valid st c" "fat_read st c d = FAT_FREE" using free_cls_valid [OF Suc.prems(1), of c] Cons by simp_all
    obtain d' where d': "alloc_clusters st n (cs @ [c]) d1 = (d', None)"
      "fat_step st d1 d' (\<lambda>x. if x \<in> set (cs @ [c]) then Some FAT_FREE else None)"
      using Suc.IH [OF fat_stepD(1) [OF d1(2)], of "cs @ [c]"] Suc.prems(2,3) c d1(3) Cons by auto
    have "fat_step st d d' (\<lambda>x. if x \<in> set cs then Some FAT_FREE else None)"
      by (rule fat_step_cong [OF fat_step_trans [OF d1(2) d'(2)]]) (use c in \<open>auto simp: map_add_def\<close>)
    then show ?thesis using d1(1) d'(1) by simp
  qed
qed simp




subsection \<open>Chains\<close>

fun linked :: "Fat32State \<Rightarrow> BlkDev \<Rightarrow> u32 list \<Rightarrow> bool" where
  "linked st d [] = False"
| "linked st d [c] = (valid st c \<and> fat_read st c d \<ge> FAT_EOC)"
| "linked st d (c # c' # cs) = (valid st c \<and> fat_read st c d = c' \<and> linked st d (c' # cs))"

lemma linked_valid: "linked st d cs \<Longrightarrow> \<forall>c \<in> set cs. valid st c"
  by (induction cs rule: linked.induct [where ?a0.0 = st and ?a1.0 = d, simplified]) auto

lemma linked_cong:
  "(\<And>c. c \<in> set cs \<Longrightarrow> fat_read st c d' = fat_read st c d) \<Longrightarrow> linked st d' cs = linked st d cs"
  by (induction st d cs rule: linked.induct) auto

lemma valid_range: "layout st d \<Longrightarrow> valid st c \<Longrightarrow> \<not> c < 2 \<and> \<not> c \<ge> FAT_EOC \<and> c \<noteq> FAT_FREE \<and> c \<noteq> FAT_BAD"
  using valid_small [of st d c]
  by (auto simp: valid_def word_less_nat_alt word_le_nat_alt FAT_EOC_def FAT_FREE_def FAT_BAD_def word_unat_eq_iff)

lemma chain_from_linked:
  assumes "layout st d" "linked st d cs" "length cs \<le> n"
  shows "chain_from st d n (hd cs) = cs"
  using assms(2,3)
proof (induction cs arbitrary: n)
  case (Cons c cs)
  obtain k where n: "n = Suc k" using Cons.prems(2) by (cases n) auto
  have v: "valid st c" using linked_valid [OF Cons.prems(1)] by simp
  show ?case
  proof (cases cs)
    case Nil
    then have "fat_read st c d \<ge> FAT_EOC" using Cons.prems(1) by simp
    then have "chain_from st d k (fat_read st c d) = []" by (cases k) simp_all
    then show ?thesis using n valid_range [OF assms(1) v] Nil by simp
  next
    case (Cons c' cs')
    then have "fat_read st c d = hd cs" "linked st d cs" using Cons.prems(1) by simp_all
    then show ?thesis using n valid_range [OF assms(1) v] Cons.IH [of k] Cons.prems(2) by simp
  qed
qed simp

lemma distinct_valid_length:
  assumes "layout st d" "distinct cs" "\<forall>c \<in> set cs. valid st c"
  shows "length cs \<le> unat (total_clusters st)"
proof -
  have "length cs = card (set cs)" using assms(2) by (simp add: distinct_card)
  also have "\<dots> \<le> card (set (cluster_range st))"
    using assms(3) cluster_range_valid(1) [OF assms(1)] by (intro card_mono) auto
  also have "\<dots> \<le> length (cluster_range st)" by (rule card_length)
  also have "\<dots> = unat (total_clusters st)" unfolding cluster_range_def unat_total_plus_2 [OF assms(1)] length_map length_upt by simp
  finally show ?thesis .
qed

lemma cluster_chain_linked:
  assumes "layout st d" "linked st d cs" "distinct cs"
  shows "cluster_chain st d (hd cs) = cs"
  unfolding cluster_chain_def
  using distinct_valid_length [OF assms(1,3) linked_valid [OF assms(2)]]
  by (intro chain_from_linked [OF assms(1,2)]) simp

text \<open>A chain that ends is freed cluster by cluster, and the loop ends.\<close>

lemma fat_free_chain_linked:
  assumes "layout st d" "linked st d cs" "distinct cs"
  shows "\<exists>d'. fat_free_chain st (hd cs) d = Some d' \<and> fat_step st d d' (\<lambda>c. if c \<in> set cs then Some FAT_FREE else None)"
  using assms
proof (induction cs arbitrary: d)
  case (Cons c cs)
  have v: "valid st c" using linked_valid [OF Cons.prems(2)] by simp
  let ?d = "fst (fat_write st c FAT_FREE d)"
  have s: "fat_step st d ?d [c \<mapsto> FAT_FREE]"
    using fat_write_step(1) [OF Cons.prems(1) v, of FAT_FREE] by (simp add: fat_consts)
  show ?case
  proof (cases cs)
    case Nil
    then have "fat_read st c d \<ge> FAT_EOC" using Cons.prems(2) by simp
    then have "fat_free_chain st c d = Some ?d" by (subst fat_free_chain.simps) (simp add: Let_def)
    moreover have "fat_step st d ?d (\<lambda>x. if x \<in> set [c] then Some FAT_FREE else None)"
      by (rule fat_step_cong [OF s]) simp
    ultimately show ?thesis using Nil by simp
  next
    case (Cons c' cs')
    then have nx: "fat_read st c d = hd cs" and l: "linked st d cs" "valid st (hd cs)"
      using Cons.prems(2) linked_valid [OF Cons.prems(2)] by simp_all
    have "c \<notin> set cs" using Cons.prems(3) by simp
    then have same: "fat_read st x ?d = fat_read st x d" if "x \<in> set cs" for x
      using fat_stepD(2) [OF s, of x] linked_valid [OF l(1)] that by auto
    have "linked st ?d cs" using linked_cong [of cs st ?d d] same l(1) by simp
    then obtain d' where d': "fat_free_chain st (hd cs) ?d = Some d'"
      "fat_step st ?d d' (\<lambda>c. if c \<in> set cs then Some FAT_FREE else None)"
      using Cons.IH [OF fat_stepD(1) [OF s]] Cons.prems(3) by auto
    have "fat_free_chain st c d = Some d'"
      using d'(1) nx valid_range [OF Cons.prems(1) l(2)] by (subst fat_free_chain.simps) (simp add: Let_def)
    moreover have "fat_step st d d' (\<lambda>x. if x \<in> set (c # cs) then Some FAT_FREE else None)"
      by (rule fat_step_cong [OF fat_step_trans [OF s d'(2)]]) (auto simp: map_add_def)
    ultimately show ?thesis by simp
  qed
qed simp

text \<open>Linking fresh clusters, all of them marked end of chain, makes them one chain.\<close>

lemma link_clusters_step:
  assumes "layout st d" "distinct cs" "\<forall>c \<in> set cs. valid st c" "n < length cs"
  shows "fat_step st d (fold (\<lambda>i d. fst (fat_write st (cs ! i) (cs ! (i + 1)) d)) [0..<n] d)
     (\<lambda>c. if \<exists>i<n. c = cs ! i then Some (cs ! (Suc (THE i. i < n \<and> c = cs ! i))) else None)"
  using assms(4)
proof (induction n)
  case 0
  then show ?case using fat_step_refl [OF assms(1)] by simp
next
  case (Suc n)
  let ?d = "fold (\<lambda>i d. fst (fat_write st (cs ! i) (cs ! (i + 1)) d)) [0..<n] d"
  let ?m = "\<lambda>n c. if \<exists>i<n. c = cs ! i then Some (cs ! (Suc (THE i. i < n \<and> c = cs ! i))) else None"
  have IH: "fat_step st d ?d (?m n)" using Suc by simp
  have v: "valid st (cs ! n)" "valid st (cs ! Suc n)" using assms(3) Suc.prems by simp_all
  have s: "fat_step st ?d (fst (fat_write st (cs ! n) (cs ! Suc n) ?d)) [cs ! n \<mapsto> cs ! Suc n]"
    using fat_write_step(1) [OF fat_stepD(1) [OF IH] v(1), of "cs ! Suc n"] mask_valid [OF assms(1) v(2)] by simp
  have u: "(THE i. i < k \<and> cs ! j = cs ! i) = j" if "j < k" "k \<le> Suc n" for j k
    using that Suc.prems nth_eq_iff_index_eq [OF assms(2)] by (intro the_equality) auto
  have "?m (Suc n) c = (?m n ++ [cs ! n \<mapsto> cs ! Suc n]) c" for c
  proof (cases "c = cs ! n")
    case True
    then show ?thesis using u [of n "Suc n"] by auto
  next
    case False
    show ?thesis
    proof (cases "\<exists>i<n. c = cs ! i")
      case True
      then obtain j where "j < n" "c = cs ! j" by blast
      then show ?thesis using False u [of j n] u [of j "Suc n"] by (auto simp: map_add_def)
    next
      case F: False
      then show ?thesis using False by (auto simp: map_add_def less_Suc_eq)
    qed
  qed
  then have "?m (Suc n) = ?m n ++ [cs ! n \<mapsto> cs ! Suc n]" by blast
  then show ?case using fat_step_trans [OF IH s] by simp
qed

lemma linked_nth:
  assumes "cs \<noteq> []" "\<forall>c \<in> set cs. valid st c" "\<And>i. Suc i < length cs \<Longrightarrow> fat_read st (cs ! i) d = cs ! Suc i"
    "fat_read st (last cs) d \<ge> FAT_EOC"
  shows "linked st d cs"
  using assms
proof (induction cs)
  case (Cons c cs)
  show ?case
  proof (cases cs)
    case Nil
    then show ?thesis using Cons.prems by simp
  next
    case C: (Cons c' cs')
    have "linked st d cs"
    proof (rule Cons.IH)
      show "fat_read st (cs ! i) d = cs ! Suc i" if "Suc i < length cs" for i using Cons.prems(3) [of "Suc i"] that by simp
    qed (use Cons.prems C in auto)
    moreover have "fat_read st c d = c'" using Cons.prems(3) [of 0] C by simp
    ultimately show ?thesis using Cons.prems(2) C by simp
  qed
qed simp

lemma link_clusters_linked:
  assumes "layout st d" "distinct cs" "\<forall>c \<in> set cs. valid st c" "cs \<noteq> []" "\<forall>c \<in> set cs. fat_read st c d = 0x0FFFFFFF"
  shows "layout st (link_clusters st cs d)" "linked st (link_clusters st cs d) cs"
    "\<And>c. valid st c \<Longrightarrow> c \<notin> set cs \<Longrightarrow> fat_read st c (link_clusters st cs d) = fat_read st c d"
    "\<And>l. unat (data_start_sector st) \<le> unat l \<Longrightarrow> media (link_clusters st cs d) l = media d l"
    "\<exists>mm. link_clusters st cs d = d\<lparr>media := mm\<rparr>"
proof -
  let ?n = "length cs - 1" and ?d = "link_clusters st cs d"
  define m where "m = (\<lambda>c. if \<exists>i<?n. c = cs ! i then Some (cs ! (Suc (THE i. i < ?n \<and> c = cs ! i))) else None)"
  have s: "fat_step st d ?d m"
    unfolding link_clusters_def m_def by (rule link_clusters_step [OF assms(1-3)]) (use assms(4) in simp)
  show "layout st ?d" by (rule fat_stepD(1) [OF s])
  show "\<And>l. unat (data_start_sector st) \<le> unat l \<Longrightarrow> media ?d l = media d l" by (rule fat_stepD(3) [OF s])
  show "\<exists>mm. ?d = d\<lparr>media := mm\<rparr>" using s by (auto simp: fat_step_def)
  show "fat_read st c ?d = fat_read st c d" if "valid st c" "c \<notin> set cs" for c
  proof -
    have "cs ! i \<in> set cs" if "i < ?n" for i using that by simp
    then have "\<not> (\<exists>i<?n. c = cs ! i)" using that(2) by blast
    then have "m c = None" unfolding m_def by (rule if_not_P)
    then show ?thesis using fat_stepD(2) [OF s that(1)] by simp
  qed
  show "linked st ?d cs"
  proof (rule linked_nth [OF assms(4,3)])
    fix i assume i: "Suc i < length cs"
    have the: "(THE j. j < ?n \<and> cs ! i = cs ! j) = i"
      using i nth_eq_iff_index_eq [OF assms(2)] by (intro the_equality) auto
    have "i < ?n" using i by simp
    then have ex: "\<exists>j<?n. cs ! i = cs ! j" by blast
    have "m (cs ! i) = Some (cs ! Suc i)" unfolding m_def if_P [OF ex] the ..
    then show "fat_read st (cs ! i) ?d = cs ! Suc i" using fat_stepD(2) [OF s, of "cs ! i"] assms(3) i by simp
  next
    have "last cs = cs ! ?n" using assms(4) by (simp add: last_conv_nth)
    then have "\<not> (\<exists>i<?n. last cs = cs ! i)" using nth_eq_iff_index_eq [OF assms(2)] assms(4) by auto
    then have "m (last cs) = None" unfolding m_def by (rule if_not_P)
    then have "fat_read st (last cs) ?d = 0x0FFFFFFF"
      using fat_stepD(2) [OF s, of "last cs"] assms(3,4,5) by simp
    then show "FAT_EOC \<le> fat_read st (last cs) ?d" by (simp add: FAT_EOC_def)
  qed
qed


subsection \<open>Data\<close>

lemma chain_sectors_Nil [simp]: "chain_sectors st [] = []"
  and chain_sectors_Cons: "chain_sectors st (c # cs) =
    map (\<lambda>k. cluster_to_sector st c + of_nat k) [0..<unat (sectors_per_cluster st)] @ chain_sectors st cs"
  by (simp_all add: chain_sectors_def)

lemma length_chain_sectors: "length (chain_sectors st cs) = length cs * unat (sectors_per_cluster st)"
  by (induction cs) (simp_all add: chain_sectors_Cons)

lemma set_chain_sectors:
  "l \<in> set (chain_sectors st cs) \<longleftrightarrow> (\<exists>c \<in> set cs. \<exists>k < unat (sectors_per_cluster st). l = cluster_to_sector st c + of_nat k)"
proof -
  have "l \<in> set (chain_sectors st cs) \<longleftrightarrow> (\<exists>c \<in> set cs. l \<in> (\<lambda>k. cluster_to_sector st c + of_nat k) ` {0..<unat (sectors_per_cluster st)})"
    by (simp add: chain_sectors_def)
  then show ?thesis by (simp only: image_iff Bex_def atLeastLessThan_iff) (simp only: le0 simp_thms)
qed

lemma unat_data_sector:
  assumes "layout st d" "valid st c" "k < unat (sectors_per_cluster st)"
  shows "unat (cluster_to_sector st c + of_nat k) = unat (data_start_sector st) + (unat c - 2) * unat (sectors_per_cluster st) + k"
    "unat (data_start_sector st) \<le> unat (cluster_to_sector st c + of_nat k)"
    "served d (cluster_to_sector st c + of_nat k)"
proof -
  note L = layoutD [OF assms(1)]
  let ?S = "unat (sectors_per_cluster st)"
  have "(unat c - 2) * ?S + k < Suc (unat c - 2) * ?S" using assms(3) by simp
  also have "\<dots> \<le> unat (total_clusters st) * ?S"
  proof (rule mult_right_mono)
    show "Suc (unat c - 2) \<le> unat (total_clusters st)" using assms(2) unfolding valid_def by linarith
  qed simp
  finally have lt: "(unat c - 2) * ?S + k < unat (total_clusters st) * ?S" .
  have "unat (total_clusters st) * ?S \<le> 4294967296 * 256"
    using unat_u32 [of "total_clusters st"] unat_u8 [of "sectors_per_cluster st"] by (intro mult_mono) simp_all
  moreover have "unat (num_fats st) * unat (sectors_per_fat st) \<le> 256 * 4294967296"
    using unat_u8 [of "num_fats st"] unat_u32 [of "sectors_per_fat st"] by (intro mult_mono) simp_all
  then have "unat (data_start_sector st) \<le> 65536 + 256 * 4294967296" using L(4) unat_u16 [of "reserved_sectors st"] by simp
  moreover have "unat (of_nat k :: u64) = k" using assms(3) unat_u8 [of "sectors_per_cluster st"] by (intro unat_of_nat_small) simp
  ultimately show e: "unat (cluster_to_sector st c + of_nat k) = unat (data_start_sector st) + (unat c - 2) * ?S + k"
    using unat_cluster_to_sector [OF assms(1,2)] lt by (subst unat_add_no_overflow) simp_all
  then show "unat (data_start_sector st) \<le> unat (cluster_to_sector st c + of_nat k)" by simp
  show "served d (cluster_to_sector st c + of_nat k)" using L(4,7) e lt by simp
qed

lemma data_sector_inj:
  assumes "layout st d" "valid st c" "valid st c'" "k < unat (sectors_per_cluster st)" "k' < unat (sectors_per_cluster st)"
    "cluster_to_sector st c + of_nat k = cluster_to_sector st c' + of_nat k'"
  shows "c = c' \<and> k = k'"
proof -
  let ?S = "unat (sectors_per_cluster st)"
  have e: "(unat c - 2) * ?S + k = (unat c' - 2) * ?S + k'"
    using unat_data_sector(1) [OF assms(1,2,4)] unat_data_sector(1) [OF assms(1,3,5)] assms(6) by simp
  then have "((unat c - 2) * ?S + k) div ?S = ((unat c' - 2) * ?S + k') div ?S"
    and "((unat c - 2) * ?S + k) mod ?S = ((unat c' - 2) * ?S + k') mod ?S" by simp_all
  then have "unat c - 2 = unat c' - 2" "k = k'" using assms(4,5) by simp_all
  moreover from this(1) have "unat c = unat c'" using assms(2,3) unfolding valid_def by linarith
  ultimately show ?thesis by (simp add: word_unat_eq_iff)
qed

lemma distinct_chain_sectors:
  assumes "layout st d" "\<forall>c \<in> set cs. valid st c" "distinct cs"
  shows "distinct (chain_sectors st cs)"
  using assms(2,3)
proof (induction cs)
  case (Cons c cs)
  have "inj_on (\<lambda>k. cluster_to_sector st c + of_nat k) (set [0..<unat (sectors_per_cluster st)])"
    using data_sector_inj [OF assms(1), of c c] Cons.prems(1) by (auto simp: inj_on_def)
  moreover have "set (map (\<lambda>k. cluster_to_sector st c + of_nat k) [0..<unat (sectors_per_cluster st)]) \<inter> set (chain_sectors st cs) = {}"
    using data_sector_inj [OF assms(1), of c] Cons.prems by (fastforce simp: set_chain_sectors)
  ultimately show ?case using Cons by (simp add: chain_sectors_Cons distinct_map del: set_map)
qed simp

lemma sectors_disjoint:
  assumes "layout st d" "valid st c" "\<forall>c \<in> set cs. valid st c" "c \<notin> set cs" "k < unat (sectors_per_cluster st)"
  shows "cluster_to_sector st c + of_nat k \<notin> set (chain_sectors st cs)"
  using data_sector_inj [OF assms(1,2) _ assms(5)] assms(3,4) by (auto simp: set_chain_sectors)

text \<open>The \<^verbatim>\<open>j\<close>-th sector of some data, padded with zeros.\<close>

definition data_sector :: "u8 list \<Rightarrow> nat \<Rightarrow> sector" where
  "data_sector data j = take 512 (drop (512 * j) data) @ replicate (512 - length (take 512 (drop (512 * j) data))) 0"

lemma length_data_sector [simp]: "length (data_sector data j) = 512"
  by (simp add: data_sector_def)

lemma data_sector_0: "data_sector data 0 = splice 0 (take (min (length data) 512) data) (replicate 512 0)"
  by (simp add: data_sector_def splice_def min_def)

lemma data_sector_Suc: "data_sector data (Suc j) = data_sector (drop (min (length data) 512) data) j"
  by (cases "length data \<le> 512") (simp_all add: data_sector_def min_def add.commute)

lemma data_sector_Nil: "data_sector [] j = replicate 512 0"
  by (simp add: data_sector_def)

lemma write_data_spec:
  assumes "dev_ok d" "\<forall>l \<in> set ls. served d l" "distinct ls"
  shows "\<exists>mm. write_data ls data d = (d\<lparr>media := mm\<rparr>, True) \<and> dev_ok (d\<lparr>media := mm\<rparr>) \<and>
     (\<forall>j<length ls. mm (ls ! j) = data_sector data j) \<and> (\<forall>l. l \<notin> set ls \<longrightarrow> mm l = media d l)"
  using assms
proof (induction ls arbitrary: data d)
  case Nil
  then show ?case by (auto intro!: exI [of _ "media d"])
next
  case (Cons l ls)
  let ?d = "d\<lparr>media := (media d)(l := data_sector data 0)\<rparr>" and ?r = "drop (min (length data) 512) data"
  have w: "write_block l (data_sector data 0) d = (?d, True)" using Cons.prems(2) by (simp add: write_block_eq)
  have ok: "dev_ok ?d" using Cons.prems(1) by (simp add: dev_ok_def)
  have e: "write_data (l # ls) data d = write_data ls ?r ?d"
  proof (cases "data = []")
    case True
    then show ?thesis using w by (simp add: data_sector_Nil)
  next
    case False
    then show ?thesis using w data_sector_0 [of data] by (simp add: Let_def)
  qed
  obtain mm where mm: "write_data ls ?r ?d = (?d\<lparr>media := mm\<rparr>, True)" "dev_ok (?d\<lparr>media := mm\<rparr>)"
    "\<forall>j<length ls. mm (ls ! j) = data_sector ?r j" "\<forall>x. x \<notin> set ls \<longrightarrow> mm x = media ?d x"
    using Cons.IH [OF ok, of ?r] Cons.prems(2,3) by auto
  have "mm ((l # ls) ! j) = data_sector data j" if "j < length (l # ls)" for j
    using that mm(3,4) Cons.prems(3) data_sector_Suc [of data] by (cases j) simp_all
  then show ?case using e mm by (intro exI [of _ mm]) auto
qed

lemma read_sectors_data_eq:
  assumes "dev_ok d" "\<forall>l \<in> set ls. served d l" "\<forall>j<length ls. media d (ls ! j) = data_sector data j"
    "length data \<le> 512 * length ls"
  shows "read_sectors_data d ls (length data) = data"
  using assms(2-4)
proof (induction ls arbitrary: data)
  case (Cons l ls)
  show ?case
  proof (cases "data = []")
    case False
    let ?k = "min (length data) 512"
    have m: "media d l = data_sector data 0" using Cons.prems(2) by force
    have "media d (ls ! j) = data_sector (drop ?k data) j" if "j < length ls" for j
      using Cons.prems(2) that data_sector_Suc [of data j] by force
    then have IH: "read_sectors_data d ls (length (drop ?k data)) = drop ?k data"
      using Cons.IH [of "drop ?k data"] Cons.prems(1,3) by auto
    have "take ?k (media d l) = take ?k data" unfolding m data_sector_0 splice_def by (simp add: min_def)
    then show ?thesis
      using False Cons.prems(1) assms(1) IH by (simp add: read_block_eq)
  qed simp
qed simp




subsection \<open>Writing a file's data\<close>

lemma fat_read_cong:
  assumes "layout st d" "layout st d'" "valid st c" "\<And>l. unat l < unat (data_start_sector st) \<Longrightarrow> media d' l = media d l"
  shows "fat_read st c d' = fat_read st c d"
proof -
  have n: "0 < unat (num_fats st)" using layoutD(2) [OF assms(1)] by simp
  note b = fat_sector_bounds [OF assms(1,3) n] and b' = fat_sector_bounds [OF assms(2,3) n]
  have "media d' (fat_sector st c 0) = media d (fat_sector st c 0)" by (rule assms(4)) (rule b(2))
  then show ?thesis
    using b(3) b'(3) layoutD(1) [OF assms(1)] layoutD(1) [OF assms(2)] by (simp add: fat_read_def read_block_eq)
qed

definition clusters_needed :: "Fat32State \<Rightarrow> nat \<Rightarrow> nat" where
  "clusters_needed st len = (len + unat (sectors_per_cluster st) * 512 - 1) div (unat (sectors_per_cluster st) * 512)"

lemma clusters_needed_enough:
  assumes "1 \<le> unat (sectors_per_cluster st)" "0 < len"
  shows "0 < clusters_needed st len" "len \<le> clusters_needed st len * (unat (sectors_per_cluster st) * 512)"
proof -
  let ?z = "unat (sectors_per_cluster st) * 512"
  have z: "0 < ?z" using assms(1) by simp
  have "?z * 1 \<le> len + ?z - 1" using assms(2) by simp
  then have "1 \<le> (len + ?z - 1) div ?z" using z by (simp add: less_eq_div_iff_mult_less_eq)
  then show "0 < clusters_needed st len" by (simp add: clusters_needed_def)
  have "(len + ?z - 1) div ?z * ?z + (len + ?z - 1) mod ?z = len + ?z - 1" by (rule div_mult_mod_eq)
  moreover have "(len + ?z - 1) mod ?z < ?z" using z by simp
  ultimately show "len \<le> clusters_needed st len * ?z" unfolding clusters_needed_def by linarith
qed

text \<open>Contents of the data area outside a set of clusters, and the table entries of other clusters, are kept.\<close>

definition keeps_others :: "Fat32State \<Rightarrow> BlkDev \<Rightarrow> BlkDev \<Rightarrow> u32 list \<Rightarrow> bool" where
  "keeps_others st d d' cs \<longleftrightarrow> layout st d' \<and> served d' = served d \<and>
     (\<forall>c. valid st c \<longrightarrow> c \<notin> set cs \<longrightarrow> fat_read st c d' = fat_read st c d) \<and>
     (\<forall>l. unat (data_start_sector st) \<le> unat l \<longrightarrow> l \<notin> set (chain_sectors st cs) \<longrightarrow> media d' l = media d l)"

lemma write_data_clusters_some:
  assumes lay: "layout st d" and ne: "data \<noteq> []" and free: "clusters_needed st (length data) \<le> length (free_cls st d)"
  obtains d' cs where "write_data_clusters st data d = (d', Some (hd cs))" "cs = take (clusters_needed st (length data)) (free_cls st d)"
    "keeps_others st d d' cs" "linked st d' cs" "distinct cs" "\<forall>j<length (chain_sectors st cs). media d' (chain_sectors st cs ! j) = data_sector data j"
    "length data \<le> 512 * length (chain_sectors st cs)"
proof -
  note L = layoutD [OF lay]
  let ?n = "clusters_needed st (length data)"
  define cs where "cs = take ?n (free_cls st d)"
  have n: "0 < ?n" "length data \<le> ?n * (unat (sectors_per_cluster st) * 512)"
    using clusters_needed_enough [OF L(3)] ne by simp_all
  have len: "length cs = ?n" using free by (simp add: cs_def)
  have cs: "cs \<noteq> []" "distinct cs" using len n(1) cluster_range_valid(2) [OF lay] by (auto simp: cs_def free_cls_def)
  have v: "\<forall>c \<in> set cs. valid st c" using free_cls_valid [OF lay] by (auto simp: cs_def dest: in_set_takeD)
  obtain d1 where d1: "alloc_clusters st ?n [] d = (d1, Some cs)" "fat_step st d d1 (\<lambda>c. if c \<in> set cs then Some 0x0FFFFFFF else None)"
    using alloc_clusters_some [OF lay free, of "[]"] by (auto simp: cs_def)
  note s1 = fat_stepD [OF d1(2)]
  let ?d2 = "link_clusters st cs d1"
  have eoc: "\<forall>c \<in> set cs. fat_read st c d1 = 0x0FFFFFFF" using s1(2) v by simp
  note lk = link_clusters_linked [OF s1(1) cs(2) v cs(1) eoc]
  obtain m2 where m2: "?d2 = d1\<lparr>media := m2\<rparr>" using lk(5) by blast
  have sv2: "served ?d2 = served d" using m2 s1(4) by simp
  have secs: "\<forall>l \<in> set (chain_sectors st cs). served ?d2 l \<and> unat (data_start_sector st) \<le> unat l"
    using unat_data_sector(2,3) [OF lay] v by (auto simp: set_chain_sectors sv2)
  obtain mm where w: "write_data (chain_sectors st cs) data ?d2 = (?d2\<lparr>media := mm\<rparr>, True)" and ok: "dev_ok (?d2\<lparr>media := mm\<rparr>)"
    and dat: "\<forall>j<length (chain_sectors st cs). mm (chain_sectors st cs ! j) = data_sector data j"
    and oth: "\<forall>l. l \<notin> set (chain_sectors st cs) \<longrightarrow> mm l = media ?d2 l"
    using write_data_spec [OF layoutD(1) [OF lk(1)], of "chain_sectors st cs" data] secs distinct_chain_sectors [OF lay v cs(2)] by blast
  let ?d' = "?d2\<lparr>media := mm\<rparr>"
  have lay': "layout st ?d'" using layout_media [OF lk(1) ok] .
  have low: "media ?d' l = media ?d2 l" if "unat l < unat (data_start_sector st)" for l
    using oth secs that by (auto simp: not_le [symmetric])
  have rd: "fat_read st c ?d' = fat_read st c ?d2" if "valid st c" for c
    using fat_read_cong [OF lk(1) lay' that low] .
  have e: "write_data_clusters st data d = (?d', Some (hd cs))"
    unfolding write_data_clusters_def Let_def clusters_needed_def [symmetric] using ne d1(1) w cs(1) by (simp add: hd_conv_nth)
  have "linked st ?d' cs" using linked_cong [of cs st ?d' ?d2] rd v lk(2) by simp
  moreover have "keeps_others st d ?d' cs"
    unfolding keeps_others_def using lay' sv2 rd lk(3,4) s1(2,3) oth by simp
  moreover have "length data \<le> 512 * length (chain_sectors st cs)"
    using n(2) len by (simp add: length_chain_sectors mult.commute mult.left_commute)
  ultimately show ?thesis using that [OF e] cs(2) dat cs_def by simp
qed

lemma write_data_clusters_none:
  assumes "layout st d" "data \<noteq> []" "length (free_cls st d) < clusters_needed st (length data)"
  shows "\<exists>d'. write_data_clusters st data d = (d', None) \<and> fat_step st d d' Map.empty"
proof -
  obtain d' where d': "alloc_clusters st (clusters_needed st (length data)) [] d = (d', None)"
    "fat_step st d d' (\<lambda>c. if c \<in> set [] then Some FAT_FREE else None)"
    using alloc_clusters_none [OF assms(1,3), of "[]"] by auto
  then show ?thesis using assms(2)
    unfolding write_data_clusters_def Let_def clusters_needed_def [symmetric] by simp
qed

lemma read_back:
  assumes "layout st d" "linked st d cs" "distinct cs" "\<forall>j<length (chain_sectors st cs). media d (chain_sectors st cs ! j) = data_sector data j"
    "length data \<le> 512 * length (chain_sectors st cs)" "fat32 fs = Some st" "dev fs = d" "de_cluster e = hd cs" "unat (de_size e) = length data"
  shows "read_file fs e = data"
proof -
  have v: "\<forall>c \<in> set cs. valid st c" by (rule linked_valid [OF assms(2)])
  have cs: "cs \<noteq> []" using assms(2) by auto
  have "\<not> hd cs < 2" using valid_range [OF assms(1)] v cs by simp
  moreover have "\<forall>l \<in> set (chain_sectors st cs). served d l"
    using unat_data_sector(3) [OF assms(1)] v by (auto simp: set_chain_sectors)
  then have "read_sectors_data d (chain_sectors st cs) (length data) = data"
    using read_sectors_data_eq [OF layoutD(1) [OF assms(1)]] assms(4,5) by blast
  ultimately show ?thesis
    using cluster_chain_linked [OF assms(1-3)] assms(6-9) by (simp add: read_file_def)
qed


subsection \<open>Short names\<close>

definition plain :: "u8 \<Rightarrow> bool" where
  "plain b \<longleftrightarrow> in_range 0x21 0x7E b \<and> b \<noteq> 0x2E"

text \<open>A name the 8.3 format can hold: up to eight visible characters, and possibly an extension of one to three.\<close>

definition short_name_ok :: "str \<Rightarrow> bool" where
  "short_name_ok nm \<longleftrightarrow> (case split_dot nm of (base, ext) \<Rightarrow>
     list_all plain base \<and> 1 \<le> length base \<and> length base \<le> 8 \<and>
     (case ext of None \<Rightarrow> True | Some e \<Rightarrow> list_all plain e \<and> 1 \<le> length e \<and> length e \<le> 3))"

lemma in_range_unat: "in_range a b x \<longleftrightarrow> unat a \<le> unat x \<and> unat x \<le> unat b"
  by (simp add: in_range_def word_le_nat_alt)

lemma unat_upper: "unat (upper b) = (if 97 \<le> unat b \<and> unat b \<le> 122 then unat b - 32 else unat b)"
  by (auto simp: upper_def in_range_unat unat_sub word_le_nat_alt)

lemma unat_lower: "unat (lower b) = (if 65 \<le> unat b \<and> unat b \<le> 90 then unat b + 32 else unat b)"
  by (auto simp: lower_def in_range_unat unat_word_ariths)

lemma lower_upper [simp]: "lower (upper b) = lower b"
  unfolding word_unat_eq_iff unat_lower unat_upper by auto

lemma plain_unat: "plain b \<longleftrightarrow> 33 \<le> unat b \<and> unat b \<le> 126 \<and> unat b \<noteq> 46"
  by (auto simp: plain_def in_range_unat word_unat_eq_iff)

lemma plain_upper: "plain b \<Longrightarrow> plain (upper b)"
  by (auto simp: plain_unat unat_upper)

lemma upper_dot: "upper b = 0x2E \<longleftrightarrow> b = 0x2E"
  by (auto simp: word_unat_eq_iff unat_upper)

lemma split_dot_upper: "split_dot (to_uppercase s) = map_prod to_uppercase (map_option to_uppercase) (split_dot s)"
  unfolding split_dot_def takeWhile_map dropWhile_map comp_def upper_dot
  by (simp split: list.split del: dropWhile_eq_Nil_conv)

lemma plain_not_white: "plain b \<Longrightarrow> \<not> is_white b"
  by (auto simp: plain_unat is_white_def in_range_unat)

lemma space_white: "is_white 0x20"
  by (simp add: is_white_def)

lemma trim_padded:
  assumes "list_all (\<lambda>b. \<not> is_white b) s"
  shows "trim (s @ replicate n 0x20) = s"
proof (cases "s = []")
  case True
  then show ?thesis by (simp add: trim_def space_white dropWhile_eq_Nil_conv [THEN iffD2])
next
  case False
  have h: "\<not> is_white (hd s)" "\<not> is_white (last s)" using assms False by (auto simp: list_all_iff)
  have "dropWhile is_white (s @ replicate n 0x20) = s @ replicate n 0x20"
    using h(1) False by (cases s) simp_all
  moreover have "dropWhile is_white (replicate n 0x20 @ rev s) = rev s"
  proof -
    have "dropWhile is_white (replicate n 0x20 @ rev s) = dropWhile is_white (rev s)"
      by (rule dropWhile_append2) (simp add: space_white)
    also have "\<dots> = rev s" using h(2) False by (cases "rev s") (auto simp: last_rev [symmetric])
    finally show ?thesis .
  qed
  ultimately show ?thesis by (simp add: trim_def)
qed

lemma utf8_ascii: "\<forall>b \<in> set bs. b < 0x80 \<Longrightarrow> utf8_ok bs"
  by (induction bs) simp_all

lemma plain_ascii: "plain b \<Longrightarrow> b < 0x80"
  by (simp add: plain_unat word_less_nat_alt)

lemma decode_padded:
  assumes "list_all plain base" "length base \<le> 8" "list_all plain ext" "length ext \<le> 3"
  shows "decode_83_name (base @ replicate (8 - length base) 0x20 @ ext @ replicate (3 - length ext) 0x20) =
     (if ext = [] then to_lowercase base else to_lowercase base @ [0x2E] @ to_lowercase ext)"
proof -
  let ?raw = "base @ replicate (8 - length base) 0x20 @ ext @ replicate (3 - length ext) 0x20"
  have b: "take 8 ?raw = base @ replicate (8 - length base) 0x20" and e: "take 3 (drop 8 ?raw) = ext @ replicate (3 - length ext) 0x20"
    using assms(2,4) by simp_all
  have u: "utf8_ok (x @ replicate n 0x20)" if "list_all plain x" for x n
    by (rule utf8_ascii) (use that plain_ascii in \<open>auto simp: list_all_iff\<close>)
  have t: "trim (x @ replicate n 0x20) = x" if "list_all plain x" for x n
    by (rule trim_padded) (use that plain_not_white in \<open>auto simp: list_all_iff\<close>)
  show ?thesis unfolding decode_83_name_def b e from_utf8_or_def using u t assms by (simp add: Let_def)
qed

lemma short_name_roundtrip:
  assumes "short_name_ok nm"
  obtains sn where "encode_83_name nm = Some sn" "length sn = 11" "decode_83_name sn = to_lowercase nm"
    "sn ! 0 \<noteq> 0x00" "sn ! 0 \<noteq> 0xE5" "decode_83_name sn \<noteq> [0x2E]" "decode_83_name sn \<noteq> [0x2E, 0x2E]"
proof -
  obtain base ext where sp: "split_dot nm = (base, ext)" by fastforce
  have b: "list_all plain base" "1 \<le> length base" "length base \<le> 8" and e: "\<And>x. ext = Some x \<Longrightarrow> list_all plain x \<and> 1 \<le> length x \<and> length x \<le> 3"
    using assms sp by (auto simp: short_name_ok_def)
  let ?B = "to_uppercase base" and ?E = "case ext of None \<Rightarrow> [] | Some x \<Rightarrow> to_uppercase x"
  have pB: "list_all plain ?B" using b(1) plain_upper by (auto simp: list_all_iff)
  have pE: "list_all plain ?E" "length ?E \<le> 3" using e plain_upper by (auto simp: list_all_iff split: option.splits)
  define sn where "sn = ?B @ replicate (8 - length ?B) 0x20 @ ?E @ replicate (3 - length ?E) 0x20"
  have pad: "replicate (11 - length base) (0x20 :: u8) = replicate (8 - length base) 0x20 @ replicate 3 0x20"
    using b(3) by (simp flip: replicate_add)
  have enc: "encode_83_name nm = Some sn"
    using pad b(2,3) e by (cases ext) (auto simp: encode_83_name_def split_dot_upper sp Let_def splice_def sn_def)
  have nm: "nm = base @ (case ext of None \<Rightarrow> [] | Some x \<Rightarrow> 0x2E # x)"
  proof -
    have "nm = takeWhile (\<lambda>b. b \<noteq> 0x2E) nm @ dropWhile (\<lambda>b. b \<noteq> 0x2E) nm" by simp
    moreover have "dropWhile (\<lambda>b. b \<noteq> 0x2E) nm = (case ext of None \<Rightarrow> [] | Some x \<Rightarrow> 0x2E # x)"
      using sp by (auto simp: split_dot_def dest: dropWhile_eq_Cons_conv [THEN iffD1] split: list.splits)
    ultimately show ?thesis using sp by (simp add: split_dot_def)
  qed
  have ld: "lower 0x2E = 0x2E" by (simp add: lower_def in_range_def)
  have dec: "decode_83_name sn = to_lowercase nm"
    unfolding sn_def using decode_padded [OF pB _ pE] b(3) e nm ld by (cases ext) (auto simp: comp_def)
  have h: "plain (sn ! 0)" using pB b(2) by (cases base) (simp_all add: sn_def)
  then have "sn ! 0 \<noteq> 0x00" "sn ! 0 \<noteq> 0xE5" by (auto simp: plain_unat)
  moreover have "plain (hd nm)" "nm \<noteq> []" using b(1,2) nm by (cases base; simp)+
  then have "lower (hd nm) \<noteq> 0x2E" by (auto simp: plain_unat word_unat_eq_iff unat_lower)
  then have "to_lowercase nm \<noteq> [0x2E]" "to_lowercase nm \<noteq> [0x2E, 0x2E]" using \<open>nm \<noteq> []\<close> by (cases nm; auto)+
  moreover have "length sn = 11" using b(3) pE(2) by (simp add: sn_def)
  ultimately show ?thesis using that [OF enc] dec by simp
qed


subsection \<open>Raw entries\<close>

lemma entry_cluster_bytes:
  "push_bit 16 (ucast (le16 (ucast (drop_bit 16 c)) (ucast (drop_bit 24 c)))) OR ucast (le16 (ucast c) (ucast (drop_bit 8 c))) = (c :: u32)"
proof (rule bit_word_eqI)
  fix n assume n: "n < LENGTH(32)"
  consider "n < 8" | "8 \<le> n" "n < 16" | "16 \<le> n" "n < 24" | "24 \<le> n" by linarith
  then show "bit (push_bit 16 (ucast (le16 (ucast (drop_bit 16 c)) (ucast (drop_bit 24 c)))) OR ucast (le16 (ucast c) (ucast (drop_bit 8 c))) :: u32) n = bit c n"
    using n unfolding le16_def by cases (auto simp: bit_simps)
qed

lemma raw_entry_simps:
  assumes "length sn = 11"
  shows "length (raw_entry sn a c sz) = 32" "take 11 (raw_entry sn a c sz) = sn" "raw_entry sn a c sz ! 0 = sn ! 0"
    "raw_entry sn a c sz ! 11 = a" "le32_at (raw_entry sn a c sz) 28 = sz" "entry_cluster (raw_entry sn a c sz) = c"
proof -
  let ?r = "(splice 0 sn (replicate 32 0))[11 := a]"
  let ?s = "?r[20 := ucast (drop_bit 16 c), 21 := ucast (drop_bit 24 c), 26 := ucast c, 27 := ucast (drop_bit 8 c)]"
  have r: "raw_entry sn a c sz = splice 28 (le32_bytes sz) ?s" by (simp add: raw_entry_def put_cluster_size_def)
  have l: "length (splice 0 sn (replicate 32 0)) = 32" using assms by simp
  show 1: "length (raw_entry sn a c sz) = 32" unfolding r using l by simp
  have n: "raw_entry sn a c sz ! i = ?s ! i" if "i < 28" for i unfolding r using that l by (simp add: nth_splice)
  show "raw_entry sn a c sz ! 11 = a" using n [of 11] l by simp
  have sn: "raw_entry sn a c sz ! i = sn ! i" if "i < 11" for i
    using n [of i] that l assms by (simp add: nth_splice)
  then show "raw_entry sn a c sz ! 0 = sn ! 0" by simp
  show "take 11 (raw_entry sn a c sz) = sn"
    by (rule nth_equalityI) (use 1 assms sn in simp_all)
  show "le32_at (raw_entry sn a c sz) 28 = sz" unfolding r using l by (intro le32_at_splice_same) simp
  have "raw_entry sn a c sz ! 20 = ucast (drop_bit 16 c)" "raw_entry sn a c sz ! 21 = ucast (drop_bit 24 c)"
    "raw_entry sn a c sz ! 26 = ucast c" "raw_entry sn a c sz ! 27 = ucast (drop_bit 8 c)"
    using n [of 20] n [of 21] n [of 26] n [of 27] l by simp_all
  then show "entry_cluster (raw_entry sn a c sz) = c" using entry_cluster_bytes [of c] by (simp add: entry_cluster_def le16_at_def)
qed


subsection \<open>Scanning a directory\<close>

definition slots :: "BlkDev \<Rightarrow> u64 list \<Rightarrow> (u64 \<times> sector \<times> nat) list" where
  "slots d ls = concat (map (\<lambda>l. map (\<lambda>i. (l, media d l, i)) [0..<16]) ls)"

abbreviation scan_slot :: "u64 \<times> sector \<times> nat \<Rightarrow> scan \<Rightarrow> scan" where
  "scan_slot \<equiv> (\<lambda>(l, s, i). scan_entry l s i)"

definition slot_free :: "u64 \<times> sector \<times> nat \<Rightarrow> bool" where
  "slot_free = (\<lambda>(l, s, i). s ! (i * 32) = 0x00 \<or> s ! (i * 32) = 0xE5)"

definition slot_lfn :: "u64 \<times> sector \<times> nat \<Rightarrow> bool" where
  "slot_lfn = (\<lambda>(l, s, i). s ! (i * 32 + 11) = ATTR_LFN)"

lemma fold_scan_sectors:
  assumes "dev_ok d" "\<forall>l \<in> set ls. served d l"
  shows "fold (scan_sector d) ls sc = fold scan_slot (slots d ls) sc"
  using assms(2)
proof (induction ls arbitrary: sc)
  case (Cons l ls)
  have "scan_sector d l sc = fold scan_slot (map (\<lambda>i. (l, media d l, i)) [0..<16]) sc"
    using Cons.prems assms(1) by (simp add: scan_sector_def read_block_eq fold_map comp_def del: upt_rec_numeral)
  then show ?case using Cons by (simp add: slots_def del: upt_rec_numeral)
qed (simp add: slots_def)

lemma in_slots: "(l, s, i) \<in> set (slots d ls) \<longleftrightarrow> l \<in> set ls \<and> s = media d l \<and> i < 16"
  by (force simp: slots_def simp del: upt_rec_numeral)

lemma slots_media: "slots d' ls = map (\<lambda>(l, s, i). (l, media d' l, i)) (slots d ls)"
  by (simp add: slots_def map_concat comp_def del: upt_rec_numeral)

lemma scan_entry_cong: "take 32 (drop (i * 32) s') = take 32 (drop (i * 32) s) \<Longrightarrow> scan_entry l s' i = scan_entry l s i"
  by (simp add: scan_entry_def)

lemma raw_splice_other:
  assumes "length entry = 32" "length s = 512" "i < 16" "j < 16" "j \<noteq> i"
  shows "take 32 (drop (j * 32) (splice (i * 32) entry s)) = take 32 (drop (j * 32) s)"
proof (rule nth_equalityI)
  show "length (take 32 (drop (j * 32) (splice (i * 32) entry s))) = length (take 32 (drop (j * 32) s))"
    using assms by simp
  fix k assume "k < length (take 32 (drop (j * 32) (splice (i * 32) entry s)))"
  then have k: "k < 32" "j * 32 + k < 512" using assms by auto
  have "\<not> (i * 32 \<le> j * 32 + k \<and> j * 32 + k < i * 32 + 32)"
  proof
    assume "i * 32 \<le> j * 32 + k \<and> j * 32 + k < i * 32 + 32"
    then have "i < j + 1" "j < i + 1" using k(1) by linarith+
    with assms(5) show False by simp
  qed
  then have "splice (i * 32) entry s ! (j * 32 + k) = s ! (j * 32 + k)"
    using nth_splice [of "i * 32" entry s "j * 32 + k"] assms(1-3) k(2) by (auto simp del: not_less)
  then show "take 32 (drop (j * 32) (splice (i * 32) entry s)) ! k = take 32 (drop (j * 32) s) ! k"
    using assms k by simp
qed

lemma raw_splice_same:
  assumes "length entry = 32" "length s = 512" "i < 16"
  shows "take 32 (drop (i * 32) (splice (i * 32) entry s)) = entry"
  using assms by (simp add: splice_def)

lemma raw_nth: "length s = 512 \<Longrightarrow> i < 16 \<Longrightarrow> k < 32 \<Longrightarrow> take 32 (drop (i * 32) s) ! k = s ! (i * 32 + k)"
  by simp

text \<open>A scan only appends; before the first free slot of a directory without long names nothing is pending.\<close>

lemma scan_entry_appends: "\<exists>r. fst (scan_entry l s i (es, p)) = es @ r"
  by (cases p) (auto simp: scan_entry_def Let_def)

lemma scan_appends: "\<exists>r. fst (fold scan_slot xs (es, p)) = es @ r"
proof (induction xs arbitrary: es p)
  case (Cons x xs)
  obtain l s i where x: "x = (l, s, i)" by (cases x)
  obtain r p' where r: "scan_entry l s i (es, p) = (es @ r, p')"
    using scan_entry_appends [of l s i es p] by (metis prod.collapse)
  show ?case using Cons.IH [of "es @ r" p'] r x by auto
qed simp

lemma scan_quiet:
  assumes "\<forall>x \<in> set xs. \<not> slot_free x \<and> \<not> slot_lfn x" "\<forall>(l, s, i) \<in> set xs. length s = 512 \<and> i < 16"
  shows "\<exists>r. fold scan_slot xs (es, [], False) = (es @ r, [], False)"
  using assms
proof (induction xs arbitrary: es)
  case (Cons x xs)
  obtain l s i where x: "x = (l, s, i)" by (cases x)
  have b: "length s = 512" "i < 16" using Cons.prems(2) x by auto
  have f: "s ! (i * 32) \<noteq> 0x00" "s ! (i * 32) \<noteq> 0xE5" "s ! (i * 32 + 11) \<noteq> ATTR_LFN"
    using Cons.prems(1) x by (auto simp: slot_free_def slot_lfn_def)
  have "\<exists>r. scan_entry l s i (es, [], False) = (es @ r, [], False)"
    using f raw_nth [OF b, of 0] raw_nth [OF b, of 11] by (auto simp: scan_entry_def Let_def)
  then obtain r where "scan_entry l s i (es, [], False) = (es @ r, [], False)" by blast
  then show ?case using Cons.IH [of "es @ r"] Cons.prems x by auto
qed simp

lemma find_slot_in_Some:
  assumes "find_slot_in s = Some i"
  shows "i < 16" "slot_free (l, s, i)" "\<forall>j<i. \<not> slot_free (l, s, j)"
  using assms unfolding find_slot_in_def by (auto simp: find_upt_Some_iff slot_free_def simp del: upt_rec_numeral)

lemma find_slot_in_None: "find_slot_in s = None \<Longrightarrow> \<forall>j<16. \<not> slot_free (l, s, j)"
  unfolding find_slot_in_def by (auto simp: find_upt_None_iff slot_free_def simp del: upt_rec_numeral)

lemma find_dir_slot_Some:
  assumes "dev_ok d" "\<forall>l \<in> set ls. served d l" "find_dir_slot d ls = Some (l, s, i)"
  obtains pre post where "slots d ls = pre @ (l, s, i) # post" "\<forall>x \<in> set pre. \<not> slot_free x" "slot_free (l, s, i)"
    "l \<in> set ls" "s = media d l" "i < 16"
  using assms(2,3)
proof (induction ls arbitrary: thesis)
  case (Cons l' ls)
  let ?b = "map (\<lambda>i. (l', media d l', i)) [0..<16]"
  have rd: "read_block d l' = Some (media d l')" using Cons.prems(2) assms(1) by (simp add: read_block_eq)
  have sl: "slots d (l' # ls) = ?b @ slots d ls" by (simp add: slots_def del: upt_rec_numeral)
  show ?case
  proof (cases "find_slot_in (media d l')")
    case None
    then have "find_dir_slot d ls = Some (l, s, i)" using Cons.prems(3) rd by simp
    then obtain pre post where p: "slots d ls = pre @ (l, s, i) # post" "\<forall>x \<in> set pre. \<not> slot_free x" "slot_free (l, s, i)"
      "l \<in> set ls" "s = media d l" "i < 16" using Cons.IH Cons.prems(2) by (metis list.set_intros(2))
    have "\<forall>x \<in> set ?b. \<not> slot_free x" using find_slot_in_None [OF None] by auto
    then show ?thesis using Cons.prems(1) [of "?b @ pre" post] sl p by (auto simp del: upt_rec_numeral)
  next
    case (Some j)
    then have e: "l = l'" "s = media d l'" "i = j" using Cons.prems(3) rd by auto
    note f = find_slot_in_Some(1) [OF Some] find_slot_in_Some(2,3) [OF Some, of l']
    have "[0..<16] = [0..<j] @ j # [Suc j..<16]" using f(1) by (metis upt_add_eq_append upt_conv_Cons le_add_diff_inverse less_imp_le_nat le0)
    then have "?b = map (\<lambda>i. (l', media d l', i)) [0..<j] @ (l', media d l', j) # map (\<lambda>i. (l', media d l', i)) [Suc j..<16]"
      by (metis (no_types, lifting) list.simps(9) map_append)
    then show ?thesis
      using Cons.prems(1) [of "map (\<lambda>i. (l', media d l', i)) [0..<j]" "map (\<lambda>i. (l', media d l', i)) [Suc j..<16] @ slots d ls"]
        sl f e by (auto simp del: upt_rec_numeral)
  qed
qed simp



lemma find_append: "List.find P (xs @ ys) = (case List.find P xs of None \<Rightarrow> List.find P ys | Some x \<Rightarrow> Some x)"
  by (induction xs) auto

lemma new_entry_found:
  assumes ok: "dev_ok d" and sv: "\<forall>l \<in> set ls. served d l"
    and none: "find_named nm (fst (fold (scan_sector d) ls ([], [], False))) = None"
    and nolfn: "\<forall>l \<in> set ls. \<forall>i<16. media d l ! (i * 32 + 11) \<noteq> ATTR_LFN"
    and slot: "find_dir_slot d ls = Some (l, s, i)"
    and sn: "length sn = 11" "decode_83_name sn = to_lowercase nm" "sn ! 0 \<noteq> 0x00" "sn ! 0 \<noteq> 0xE5"
      "decode_83_name sn \<noteq> [0x2E]" "decode_83_name sn \<noteq> [0x2E, 0x2E]"
  shows "find_named nm (fst (fold (scan_sector (d\<lparr>media := (media d)(l := splice (i * 32) (raw_entry sn ATTR_ARCHIVE c sz) s)\<rparr>)) ls ([], [], False)))
     = Some \<lparr>de_name = to_lowercase nm, de_is_dir = False, de_size = sz, de_cluster = c, de_sector = l, de_offset = i * 32\<rparr>"
proof -
  let ?e = "raw_entry sn ATTR_ARCHIVE c sz"
  let ?s' = "splice (i * 32) ?e s"
  define d' where "d' = d\<lparr>media := (media d)(l := ?s')\<rparr>"
  note re = raw_entry_simps [OF sn(1), of ATTR_ARCHIVE c sz]
  obtain pre post where p: "slots d ls = pre @ (l, s, i) # post" "\<forall>x \<in> set pre. \<not> slot_free x" "slot_free (l, s, i)"
    "l \<in> set ls" "s = media d l" "i < 16" by (rule find_dir_slot_Some [OF ok sv slot])
  have len: "length s = 512" using ok p(5) by (simp add: dev_ok_def)
  have ok': "dev_ok d'" using ok len re(1) p(6) by (simp add: d'_def dev_ok_def)
  have sv': "\<forall>l \<in> set ls. served d' l" using sv by (simp add: d'_def)
  let ?g = "\<lambda>(l', s0, i'). (l', media d' l', i')"
  have new: "slots d' ls = map ?g pre @ (l, ?s', i) # map ?g post"
    using slots_media [of d' ls d] p(1) by (simp add: d'_def)
  have in_pre: "l' \<in> set ls \<and> s0 = media d l' \<and> i' < 16" if "(l', s0, i') \<in> set pre" for l' s0 i'
  proof -
    have "(l', s0, i') \<in> set (slots d ls)" using that p(1) by simp
    then show ?thesis by (simp add: in_slots)
  qed
  have same: "scan_slot (?g x) = scan_slot x" if "x \<in> set pre" for x
  proof -
    obtain l' s0 i' where x: "x = (l', s0, i')" by (cases x)
    note ip = in_pre [of l' s0 i'] that x
    show ?thesis
    proof (cases "l' = l")
      case False
      then show ?thesis using in_pre [of l' s0 i'] that x by (simp add: d'_def)
    next
      case True
      have "s0 = s" "i' < 16" using in_pre [of l' s0 i'] that x True p(5) by auto
      moreover have "i' \<noteq> i" using p(2,3) that x True \<open>s0 = s\<close> by auto
      ultimately show ?thesis
        using scan_entry_cong [OF raw_splice_other [OF re(1) len p(6), of i'], of l] x True by (simp add: d'_def)
    qed
  qed
  have fold_pre: "fold scan_slot (map ?g pre) sc = fold scan_slot pre sc" for sc
    unfolding fold_map using same by (intro fold_cong) auto
  have "\<forall>x \<in> set pre. \<not> slot_free x \<and> \<not> slot_lfn x"
  proof
    fix x assume x: "x \<in> set pre"
    obtain l' s0 i' where xe: "x = (l', s0, i')" by (cases x)
    then have "l' \<in> set ls" "s0 = media d l'" "i' < 16" using in_pre x by auto
    then show "\<not> slot_free x \<and> \<not> slot_lfn x" using p(2) x xe nolfn by (auto simp: slot_lfn_def)
  qed
  moreover have "\<forall>(l, s, i) \<in> set pre. length s = 512 \<and> i < 16" using in_pre ok by (auto simp: dev_ok_def)
  ultimately obtain es where es: "fold scan_slot pre ([], [], False) = (es, [], False)"
    using scan_quiet [of pre "[]"] by auto
  obtain r where r: "fst (fold (scan_sector d) ls ([], [], False)) = es @ r"
  proof -
    have "fst (fold (scan_sector d) ls ([], [], False)) = fst (fold scan_slot ((l, s, i) # post) (es, [], False))"
      using fold_scan_sectors [OF ok sv] p(1) es by simp
    then show ?thesis using scan_appends [of "(l, s, i) # post" es "([], False)"] that by auto
  qed
  have nes: "List.find (\<lambda>e. to_lowercase (de_name e) = to_lowercase nm) es = None"
    using none r by (simp add: find_named_def find_append split: option.splits)
  have raw: "take 32 (drop (i * 32) ?s') = ?e" by (rule raw_splice_same [OF re(1) len p(6)])
  let ?E = "\<lparr>de_name = to_lowercase nm, de_is_dir = False, de_size = sz, de_cluster = c, de_sector = l, de_offset = i * 32\<rparr>"
  have step: "scan_entry l ?s' i (es, [], False) = (es @ [?E], [], False)"
    unfolding scan_entry_def Let_def raw
    using re sn by (simp add: ATTR_ARCHIVE_def ATTR_LFN_def ATTR_VOLUME_ID_def ATTR_DIRECTORY_def)
  obtain r' where r': "fst (fold (scan_sector d') ls ([], [], False)) = es @ [?E] @ r'"
  proof -
    have "fst (fold (scan_sector d') ls ([], [], False)) = fst (fold scan_slot (map ?g post) (es @ [?E], [], False))"
      using fold_scan_sectors [OF ok' sv'] new fold_pre es step by simp
    then show ?thesis using scan_appends [of "map ?g post" "es @ [?E]" "([], False)"] that by auto
  qed
  have ll: "to_lowercase (to_lowercase nm) = to_lowercase nm"
    by (simp add: word_unat_eq_iff unat_lower)
  have "find_named nm (es @ [?E] @ r') = Some ?E"
    using nes ll by (simp add: find_named_def find_append)
  then show ?thesis using r' by (simp add: d'_def)
qed

lemma read_block_cong:
  "dev_ok d \<Longrightarrow> dev_ok d' \<Longrightarrow> served d' = served d \<Longrightarrow> media d' l = media d l \<Longrightarrow> read_block d' l = read_block d l"
  by (simp add: read_block_eq)

lemma scan_sectors_cong:
  assumes "dev_ok d" "dev_ok d'" "served d' = served d" "\<forall>l \<in> set ls. media d' l = media d l"
  shows "fold (scan_sector d') ls sc = fold (scan_sector d) ls sc"
proof (rule fold_cong)
  fix l assume "l \<in> set ls"
  then have "read_block d' l = read_block d l" using read_block_cong [OF assms(1-3)] assms(4) by blast
  then show "scan_sector d' l = scan_sector d l" by (intro ext) (simp only: scan_sector_def)
qed simp_all

lemma find_dir_slot_cong:
  assumes "dev_ok d" "dev_ok d'" "served d' = served d" "\<forall>l \<in> set ls. media d' l = media d l"
  shows "find_dir_slot d' ls = find_dir_slot d ls"
  using assms(4)
proof (induction ls)
  case (Cons l ls)
  then have "read_block d' l = read_block d l" using read_block_cong [OF assms(1-3)] by simp
  moreover have "find_dir_slot d' ls = find_dir_slot d ls" using Cons by simp
  ultimately show ?case by (simp only: find_dir_slot.simps)
qed simp

text \<open>A directory: a chain without long-name entries that has a free slot and no entry of the name.\<close>

definition dir_open :: "Fat32State \<Rightarrow> BlkDev \<Rightarrow> u32 list \<Rightarrow> str \<Rightarrow> bool" where
  "dir_open st d dcs nm \<longleftrightarrow> linked st d dcs \<and> distinct dcs \<and>
     find_named nm (read_dir_internal st d (hd dcs)) = None \<and>
     (\<forall>l \<in> set (chain_sectors st dcs). \<forall>i<16. media d l ! (i * 32 + 11) \<noteq> ATTR_LFN) \<and>
     find_dir_slot d (chain_sectors st dcs) \<noteq> None"

lemma in_chain_sectorsE:
  assumes "l \<in> set (chain_sectors st cs)"
  obtains c k where "c \<in> set cs" "k < unat (sectors_per_cluster st)" "l = cluster_to_sector st c + of_nat k"
  using assms unfolding set_chain_sectors by (elim bexE exE conjE)

lemma dir_open_keeps:
  assumes "layout st d" "dir_open st d dcs nm" "keeps_others st d d' cs" "set dcs \<inter> set cs = {}" "\<forall>c \<in> set cs. valid st c"
  shows "dir_open st d' dcs nm"
proof -
  have k: "layout st d'" "served d' = served d" using assms(3) unfolding keeps_others_def by blast+
  have l: "linked st d dcs" "distinct dcs" using assms(2) unfolding dir_open_def by blast+
  have v: "\<forall>c \<in> set dcs. valid st c" by (rule linked_valid [OF l(1)])
  have fr: "fat_read st c d' = fat_read st c d" if "c \<in> set dcs" for c
    using assms(3,4) v that unfolding keeps_others_def by blast
  have l': "linked st d' dcs" using linked_cong [of dcs st d' d, OF fr] l(1) by simp
  have m: "media d' s = media d s" if "s \<in> set (chain_sectors st dcs)" for s
  proof -
    from that obtain c k where c: "c \<in> set dcs" "k < unat (sectors_per_cluster st)" "s = cluster_to_sector st c + of_nat k"
      by (rule in_chain_sectorsE)
    have vc: "valid st c" "c \<notin> set cs" using v c(1) assms(4) by blast+
    have "s \<notin> set (chain_sectors st cs)" unfolding c(3) by (rule sectors_disjoint [OF assms(1) vc(1) assms(5) vc(2) c(2)])
    moreover have "unat (data_start_sector st) \<le> unat s" unfolding c(3) by (rule unat_data_sector(2) [OF assms(1) vc(1) c(2)])
    ultimately show ?thesis using assms(3) unfolding keeps_others_def by blast
  qed
  note ok = layoutD(1) [OF assms(1)] layoutD(1) [OF k(1)]
  have m': "\<forall>l \<in> set (chain_sectors st dcs). media d' l = media d l" using m by blast
  have rd: "read_dir_internal st d' (hd dcs) = read_dir_internal st d (hd dcs)"
    unfolding read_dir_internal_def cluster_chain_linked [OF k(1) l' l(2)] cluster_chain_linked [OF assms(1) l]
      scan_sectors_cong [OF ok k(2) m'] ..
  have sl: "find_dir_slot d' (chain_sectors st dcs) = find_dir_slot d (chain_sectors st dcs)"
    by (rule find_dir_slot_cong [OF ok k(2) m'])
  have nl: "\<forall>l \<in> set (chain_sectors st dcs). \<forall>i<16. media d' l ! (i * 32 + 11) \<noteq> ATTR_LFN"
    using assms(2) m' unfolding dir_open_def by metis
  show ?thesis using assms(2) unfolding dir_open_def rd sl using l' l(2) nl by blast
qed

lemma create_entry_found:
  assumes lay: "layout st d" and dir: "dir_open st d dcs nm" and nm: "short_name_ok nm"
  obtains d' e l where "create_dir_entry st (hd dcs) nm False c sz d = (d', True)" "layout st d'" "d' = d\<lparr>media := (media d)(l := media d' l)\<rparr>"
    "l \<in> set (chain_sectors st dcs)" "find_named nm (read_dir_internal st d' (hd dcs)) = Some e"
    "de_is_dir e = False" "de_size e = sz" "de_cluster e = c"
proof -
  have D: "linked st d dcs" "distinct dcs" "find_named nm (read_dir_internal st d (hd dcs)) = None"
    "\<forall>l \<in> set (chain_sectors st dcs). \<forall>i<16. media d l ! (i * 32 + 11) \<noteq> ATTR_LFN"
    "find_dir_slot d (chain_sectors st dcs) \<noteq> None" using dir by (simp_all add: dir_open_def)
  have ok: "dev_ok d" by (rule layoutD(1) [OF lay])
  let ?ls = "chain_sectors st dcs"
  have v: "\<forall>c \<in> set dcs. valid st c" by (rule linked_valid [OF D(1)])
  have sv: "\<forall>l \<in> set ?ls. served d l \<and> unat (data_start_sector st) \<le> unat l"
    using unat_data_sector(2,3) [OF lay] v by (auto simp: set_chain_sectors)
  have ch: "cluster_chain st d (hd dcs) = dcs" by (rule cluster_chain_linked [OF lay D(1,2)])
  obtain l s i where slot: "find_dir_slot d ?ls = Some (l, s, i)" using D(5) by auto
  obtain pre post where p: "l \<in> set ?ls" "s = media d l" "i < 16"
    using find_dir_slot_Some [OF ok _ slot] sv by blast
  obtain sn where sn: "encode_83_name nm = Some sn" "length sn = 11" "decode_83_name sn = to_lowercase nm"
    "sn ! 0 \<noteq> 0x00" "sn ! 0 \<noteq> 0xE5" "decode_83_name sn \<noteq> [0x2E]" "decode_83_name sn \<noteq> [0x2E, 0x2E]"
    by (rule short_name_roundtrip [OF nm])
  let ?s' = "splice (i * 32) (raw_entry sn ATTR_ARCHIVE c sz) s"
  let ?d' = "d\<lparr>media := (media d)(l := ?s')\<rparr>"
  have len: "length ?s' = 512" using ok p(2,3) raw_entry_simps(1) [OF sn(2)] by (simp add: dev_ok_def)
  have ok': "dev_ok ?d'" using ok len by (simp add: dev_ok_def)
  have lay': "layout st ?d'" by (rule layout_media [OF lay ok'])
  have e: "create_dir_entry st (hd dcs) nm False c sz d = (?d', True)"
    using sn(1) ch slot sv p(1) len by (simp add: create_dir_entry_def Let_def write_block_eq)
  have low: "media ?d' x = media d x" if "unat x < unat (data_start_sector st)" for x using that sv p(1) by auto
  have "linked st ?d' dcs"
    using linked_cong [of dcs st ?d' d] fat_read_cong [OF lay lay' _ low] v D(1) by simp
  then have ch': "cluster_chain st ?d' (hd dcs) = dcs" using cluster_chain_linked [OF lay' _ D(2)] by simp
  have none: "find_named nm (fst (fold (scan_sector d) ?ls ([], [], False))) = None" using D(3) ch by (simp add: read_dir_internal_def)
  have "\<forall>l \<in> set ?ls. served d l" using sv by simp
  from new_entry_found [OF ok this none D(4) slot sn(2-7), of c sz]
  have "find_named nm (read_dir_internal st ?d' (hd dcs))
      = Some \<lparr>de_name = to_lowercase nm, de_is_dir = False, de_size = sz, de_cluster = c, de_sector = l, de_offset = i * 32\<rparr>"
    unfolding read_dir_internal_def ch' .
  from that [OF e lay' _ p(1) this] show ?thesis by simp
qed


subsection \<open>Properties\<close>

lemma used_not_free:
  assumes "layout st d" "linked st d dcs" "distinct dcs"
  shows "set dcs \<inter> set (free_cls st d) = {}"
proof -
  have "fat_read st c d \<noteq> FAT_FREE" if "linked st d cs" "c \<in> set cs" for c cs
    using that
  proof (induction cs rule: induct_list012)
    case (3 a b bs)
    have "valid st b" using linked_valid [OF "3.prems"(1)] by simp
    then have "b \<noteq> FAT_FREE" by (auto simp: valid_def FAT_FREE_def)
    then show ?case using "3.IH"(2) "3.prems" by auto
  qed (auto simp: FAT_FREE_def FAT_EOC_def)
  then show ?thesis using assms(2) by (auto simp: free_cls_def)
qed

lemma fat_step_keeps:
  assumes "layout st d" "fat_step st d d' Map.empty"
  shows "keeps_others st d d' []"
  using fat_stepD [OF assms(2)] by (simp add: keeps_others_def)

text \<open>A new file: the volume after the data and the entry are written.\<close>

lemma write_file_new:
  assumes fs: "fat32 fs = Some st" and lay: "layout st (dev fs)" and dir: "dir_open st (dev fs) dcs nm" and nm: "short_name_ok nm"
    and wr: "write_data_clusters st data (dev fs) = (d1, r)" "data \<noteq> []" and keep: "keeps_others st (dev fs) d1 cs"
    and cs: "set dcs \<inter> set cs = {}" "\<forall>c \<in> set cs. valid st c"
  obtains fs' e where "write_file (hd dcs) nm data fs = Some (fs', True)" "find_entry fs' (hd dcs) nm = Some e"
    "fat32 fs' = Some st" "layout st (dev fs')" "served (dev fs') = served d1" "\<forall>c. valid st c \<longrightarrow> fat_read st c (dev fs') = fat_read st c d1"
    "\<forall>l. l \<notin> set (chain_sectors st dcs) \<longrightarrow> media (dev fs') l = media d1 l"
    "de_is_dir e = False" "de_size e = of_nat (length data)" "de_cluster e = (case r of Some c \<Rightarrow> c | None \<Rightarrow> 0)"
proof -
  have lay1: "layout st d1" using keep by (simp add: keeps_others_def)
  have dir1: "dir_open st d1 dcs nm" by (rule dir_open_keeps [OF lay dir keep cs])
  let ?c = "case r of Some c \<Rightarrow> c | None \<Rightarrow> 0"
  obtain d' e l where c: "create_dir_entry st (hd dcs) nm False ?c (of_nat (length data)) d1 = (d', True)" "layout st d'"
      "d' = d1\<lparr>media := (media d1)(l := media d' l)\<rparr>" "l \<in> set (chain_sectors st dcs)"
      "find_named nm (read_dir_internal st d' (hd dcs)) = Some e" "de_is_dir e = False" "de_size e = of_nat (length data)" "de_cluster e = ?c"
    by (rule create_entry_found [OF lay1 dir1 nm])
  have none: "find_named nm (read_dir_internal st (dev fs) (hd dcs)) = None" using dir by (simp add: dir_open_def)
  have w: "write_file (hd dcs) nm data fs = Some (fs\<lparr>dev := d'\<rparr>, True)"
    using fs none wr c(1) by (simp add: write_file_def)
  have v: "\<forall>c \<in> set dcs. valid st c" using dir linked_valid unfolding dir_open_def by blast
  obtain a k where a: "a \<in> set dcs" "k < unat (sectors_per_cluster st)" "l = cluster_to_sector st a + of_nat k"
    using c(4) by (rule in_chain_sectorsE)
  have "unat (data_start_sector st) \<le> unat l" unfolding a(3) using unat_data_sector(2) [OF lay _ a(2)] v a(1) by blast
  then have low: "media d' x = media d1 x" if "unat x < unat (data_start_sector st)" for x
    using that by (subst c(3)) auto
  have sv: "served d' = served d1" by (subst c(3)) simp
  have oth: "media d' x = media d1 x" if "x \<notin> set (chain_sectors st dcs)" for x
    using that c(4) by (subst c(3)) auto
  have fr: "fat_read st c d' = fat_read st c d1" if "valid st c" for c by (rule fat_read_cong [OF lay1 c(2) that low])
  have fe: "find_entry (fs\<lparr>dev := d'\<rparr>) (hd dcs) nm = Some e" using fs c(5) by (simp add: find_entry_def read_dir_def)
  show ?thesis
    by (rule that [OF w fe]) (use fs c(2,6-8) sv fr oth in simp_all)
qed

text \<open>A new file on a volume with room for it: what \<^verbatim>\<open>write_file\<close> leaves behind.\<close>

lemma write_new_file:
  assumes fs: "fat32 fs = Some st" and lay: "layout st (dev fs)" and dir: "dir_open st (dev fs) dcs nm" and nm: "short_name_ok nm"
    and data: "data \<noteq> []" "length data < 2 ^ 32" and room: "clusters_needed st (length data) \<le> length (free_cls st (dev fs))"
  shows "\<exists>fs' e. write_file (hd dcs) nm data fs = Some (fs', True) \<and> find_entry fs' (hd dcs) nm = Some e \<and>
    fat32 fs' = Some st \<and> layout st (dev fs') \<and> served (dev fs') = served (dev fs) \<and> \<not> de_is_dir e \<and>
    read_file fs' e = data \<and> de_size e = of_nat (length data) \<and>
    (\<forall>c. valid st c \<longrightarrow> fat_read st c (dev fs) \<noteq> FAT_FREE \<longrightarrow> fat_read st c (dev fs') = fat_read st c (dev fs) \<and>
       (c \<notin> set dcs \<longrightarrow> (\<forall>l \<in> set (chain_sectors st [c]). media (dev fs') l = media (dev fs) l)))"
proof -
  obtain d1 cs where w: "write_data_clusters st data (dev fs) = (d1, Some (hd cs))"
      and cs: "cs = take (clusters_needed st (length data)) (free_cls st (dev fs))" and keep: "keeps_others st (dev fs) d1 cs"
      and lk: "linked st d1 cs" "distinct cs"
      and dat: "\<forall>j<length (chain_sectors st cs). media d1 (chain_sectors st cs ! j) = data_sector data j"
        "length data \<le> 512 * length (chain_sectors st cs)"
    by (rule write_data_clusters_some [OF lay data(1) room])
  have dl: "linked st (dev fs) dcs" "distinct dcs" using dir by (simp_all add: dir_open_def)
  have vd: "\<forall>c \<in> set dcs. valid st c" by (rule linked_valid [OF dl(1)])
  have vc: "\<forall>c \<in> set cs. valid st c" by (rule linked_valid [OF lk(1)])
  have sub: "set cs \<subseteq> set (free_cls st (dev fs))" unfolding cs by (rule set_take_subset)
  then have dis: "set dcs \<inter> set cs = {}" using used_not_free [OF lay dl] by blast
  obtain fs' e where f: "write_file (hd dcs) nm data fs = Some (fs', True)" "find_entry fs' (hd dcs) nm = Some e"
    "fat32 fs' = Some st" "layout st (dev fs')" "served (dev fs') = served d1" "\<forall>c. valid st c \<longrightarrow> fat_read st c (dev fs') = fat_read st c d1"
    "\<forall>l. l \<notin> set (chain_sectors st dcs) \<longrightarrow> media (dev fs') l = media d1 l"
    "de_is_dir e = False" "de_size e = of_nat (length data)" "de_cluster e = (case Some (hd cs) of Some c \<Rightarrow> c | None \<Rightarrow> 0)"
    by (rule write_file_new [OF fs lay dir nm w data(1) keep dis vc])
  have sep: "l \<notin> set (chain_sectors st as)" if "l \<in> set (chain_sectors st bs)" "set as \<inter> set bs = {}"
    "\<forall>c \<in> set as. valid st c" "\<forall>c \<in> set bs. valid st c" for l as bs
  proof -
    from that(1) obtain c k where c: "c \<in> set bs" "k < unat (sectors_per_cluster st)" "l = cluster_to_sector st c + of_nat k"
      by (rule in_chain_sectorsE)
    show ?thesis unfolding c(3) by (rule sectors_disjoint [OF lay _ that(3) _ c(2)]) (use c(1) that in auto)
  qed
  have lk': "linked st (dev fs') cs" using linked_cong [of cs st "dev fs'" d1] f(6) vc lk(1) by simp
  have "media (dev fs') (chain_sectors st cs ! j) = data_sector data j" if "j < length (chain_sectors st cs)" for j
    using f(7) sep [OF nth_mem [OF that] dis vd vc] dat(1) that by simp
  then have rb: "read_file fs' e = data"
    using read_back [OF f(4) lk' lk(2) _ dat(2) f(3) refl] f(9,10) data(2) by (simp add: unat_of_nat)
  have "fat_read st c (dev fs') = fat_read st c (dev fs)
      \<and> (c \<notin> set dcs \<longrightarrow> (\<forall>l \<in> set (chain_sectors st [c]). media (dev fs') l = media (dev fs) l))"
    if c: "valid st c" "fat_read st c (dev fs) \<noteq> FAT_FREE" for c
  proof -
    have nc: "c \<notin> set cs" using c(2) sub by (auto simp: free_cls_def)
    have "media (dev fs') l = media (dev fs) l" if "c \<notin> set dcs" "l \<in> set (chain_sectors st [c])" for l
    proof -
      have "l \<notin> set (chain_sectors st dcs)" "l \<notin> set (chain_sectors st cs)"
        using sep [OF that(2), of dcs] sep [OF that(2), of cs] that(1) nc vd vc c(1) by simp_all
      moreover from that(2) obtain k where k: "k < unat (sectors_per_cluster st)" "l = cluster_to_sector st c + of_nat k"
        by (rule in_chain_sectorsE) simp
      have "unat (data_start_sector st) \<le> unat l" unfolding k(2) by (rule unat_data_sector(2) [OF lay c(1) k(1)])
      ultimately show ?thesis using f(7) keep by (simp add: keeps_others_def)
    qed
    then show ?thesis using f(6) keep c(1) nc by (simp add: keeps_others_def)
  qed
  moreover have "served (dev fs') = served (dev fs)" using f(5) keep by (simp add: keeps_others_def)
  ultimately show ?thesis using f(1-4,8,9) rb by blast
qed


text \<open>
  on a volume without room for the data, \<^verbatim>\<open>write_file\<close> of a new file still reports success: the directory gains
  an entry of the full size whose \<^verbatim>\<open>read_file\<close> is empty, and the table is as before.
\<close>

theorem write_file_disk_full:
  assumes fs: "fat32 fs = Some st" and lay: "layout st (dev fs)" and dir: "dir_open st (dev fs) dcs nm" and nm: "short_name_ok nm"
    and full: "length (free_cls st (dev fs)) < clusters_needed st (length data)" and data: "data \<noteq> []"
  shows "\<exists>fs' e. write_file (hd dcs) nm data fs = Some (fs', True) \<and> find_entry fs' (hd dcs) nm = Some e \<and>
    de_size e = of_nat (length data) \<and> read_file fs' e = [] \<and> free_cls st (dev fs') = free_cls st (dev fs)"
proof -
  obtain d1 where w: "write_data_clusters st data (dev fs) = (d1, None)" and s: "fat_step st (dev fs) d1 Map.empty"
    using write_data_clusters_none [OF lay data full] by blast
  obtain fs' e where f: "write_file (hd dcs) nm data fs = Some (fs', True)" "find_entry fs' (hd dcs) nm = Some e"
    "fat32 fs' = Some st" "layout st (dev fs')" "served (dev fs') = served d1" "\<forall>c. valid st c \<longrightarrow> fat_read st c (dev fs') = fat_read st c d1"
    "\<forall>l. l \<notin> set (chain_sectors st dcs) \<longrightarrow> media (dev fs') l = media d1 l"
    "de_is_dir e = False" "de_size e = of_nat (length data)" "de_cluster e = (case None of Some c \<Rightarrow> c | None \<Rightarrow> 0)"
    by (rule write_file_new [OF fs lay dir nm w data fat_step_keeps [OF lay s]]) simp_all
  have "fat_read st c (dev fs') = fat_read st c (dev fs)" if "c \<in> set (cluster_range st)" for c
    using fat_stepD(2) [OF s] f(6) cluster_range_valid(1) [OF lay] that by simp
  then have "free_cls st (dev fs') = free_cls st (dev fs)" unfolding free_cls_def by (intro filter_cong refl) simp
  moreover have "read_file fs' e = []" using f(3,10) by (simp add: read_file_def)
  ultimately show ?thesis using f(1,2,9) by blast
qed

text \<open>A small volume: one reserved sector, one table of one sector, \<^verbatim>\<open>n\<close> clusters of one sector; cluster 2 is the root directory.\<close>

definition small_st :: "u32 \<Rightarrow> Fat32State" where
  "small_st n = \<lparr>sectors_per_cluster = 1, reserved_sectors = 1, num_fats = 1, sectors_per_fat = 1, root_clus = 2,
     data_start_sector = 2, total_clusters = n, bytes_per_sector = 512, vol_label = []\<rparr>"

definition small_dev :: BlkDev where
  "small_dev = \<lparr>blk_available = True, capacity = 100,
     media = (\<lambda>l. if l = 1 then replicate 8 0xFF @ [0xFF, 0xFF, 0xFF, 0x0F] @ replicate 500 0 else replicate 512 0), bad = (\<lambda>_. False)\<rparr>"

definition small_fs :: "u32 \<Rightarrow> Fs" where
  "small_fs n = \<lparr>fat32 = Some (small_st n), dev = small_dev\<rparr>"

lemma small_dev_ok: "dev_ok small_dev"
  by (simp add: dev_ok_def small_dev_def)

lemma small_sel: "total_clusters (small_st n) = n" "sectors_per_cluster (small_st n) = 1" "data_start_sector (small_st n) = 2"
  by (simp_all add: small_st_def)

lemma small_layout: "n = 1 \<or> n = 3 \<Longrightarrow> layout (small_st n) small_dev"
  using small_dev_ok by (auto simp: layout_def small_st_def small_dev_def served_def unat_arith_simps)

lemma small_read:
  "fat_read (small_st n) 2 small_dev = 0x0FFFFFFF" "fat_read (small_st n) 3 small_dev = 0" "fat_read (small_st n) 4 small_dev = 0"
  using small_dev_ok
  by (simp_all add: fat_read_def read_block_eq fat_sector_def fat_offset_def small_st_def small_dev_def served_def
      le32_at_def nth_append FAT_MASK_def le32_def)

lemma small_free: "free_cls (small_st 1) small_dev = []" "free_cls (small_st 3) small_dev = [3, 4]"
proof -
  have "cluster_range (small_st 1) = [2]" "cluster_range (small_st 3) = [2, 3, 4]"
    by (simp_all add: cluster_range_def small_st_def upt_rec)
  then show "free_cls (small_st 1) small_dev = []" "free_cls (small_st 3) small_dev = [3, 4]"
    by (simp_all add: free_cls_def small_read FAT_FREE_def)
qed

lemma small_dir:
  assumes "n = 1 \<or> n = 3"
  shows "dir_open (small_st n) small_dev [2] nm"
proof -
  have l: "linked (small_st n) small_dev [2]" using assms by (auto simp: valid_def small_sel small_read FAT_EOC_def)
  have c: "chain_sectors (small_st n) [2] = [2]" by (simp add: chain_sectors_def small_st_def cluster_to_sector_def)
  have m: "media small_dev 2 = replicate 512 0" "served small_dev 2" by (simp_all add: small_dev_def served_def)
  have b: "read_block small_dev 2 = Some (replicate 512 0)" using small_dev_ok m by (simp add: read_block_eq)
  have quiet: "fold (scan_entry 2 (replicate 512 0)) is ([], [], True) = ([], [], True)" for "is"
    by (induction "is") (simp_all add: scan_entry_def)
  have "fold (scan_entry 2 (replicate 512 0)) [0..<16] ([], [], False) = ([], [], True)"
    by (subst upt_conv_Cons) (simp_all add: scan_entry_def quiet del: upt_rec_numeral)
  then have "read_dir_internal (small_st n) small_dev 2 = []"
    using cluster_chain_linked [OF small_layout [OF assms] l] by (simp add: read_dir_internal_def c scan_sector_def b del: upt_rec_numeral)
  moreover have "find_slot_in (replicate 512 0) = Some 0"
    unfolding find_slot_in_def by (subst upt_conv_Cons) (simp_all del: upt_rec_numeral)
  ultimately show ?thesis using l c b m by (auto simp: dir_open_def find_named_def ATTR_LFN_def)
qed

lemma small_name: "short_name_ok [0x61]"
  by (simp add: short_name_ok_def plain_def split_dot_def in_range_def)


theorem write_file_disk_full_witness:
  "\<exists>fs' e. write_file 2 [0x61] [7] (small_fs 1) = Some (fs', True) \<and> find_entry fs' 2 [0x61] = Some e \<and>
    de_size e = 1 \<and> read_file fs' e = []"
  using write_file_disk_full [of "small_fs 1" "small_st 1" "[2]" "[0x61]" "[7]"]
    small_layout [of 1] small_dir [of 1] small_name small_free(1)
  by (simp add: small_fs_def clusters_needed_def small_sel) blast



subsection \<open>Freeing ends on every table\<close>

lemma fat_offset_dvd: "4 dvd fat_offset c"
  unfolding fat_offset_def by (simp add: unat_mod unat_word_ariths dvd_mod_iff)

text \<open>From \<^verbatim>\<open>d\<close> to \<^verbatim>\<open>d'\<close> table entries, of whatever cluster number, were at most zeroed.\<close>

definition zeroed :: "Fat32State \<Rightarrow> BlkDev \<Rightarrow> BlkDev \<Rightarrow> bool" where
  "zeroed st d d' \<longleftrightarrow> dev_ok d' \<and> served d' = served d \<and> (\<forall>x. fat_read st x d' = fat_read st x d \<or> fat_read st x d' = FAT_FREE)"

lemma zeroed_trans: "zeroed st d d1 \<Longrightarrow> zeroed st d1 d2 \<Longrightarrow> zeroed st d d2"
  unfolding zeroed_def by metis

lemma fat_free_sector:
  fixes st d l c
  assumes "dev_ok d" "served d l"
  defines "d' \<equiv> d\<lparr>media := (media d)(l := put_fat c FAT_FREE (media d l))\<rparr>"
  shows "zeroed st d d'" "fat_sector st c 0 = l \<Longrightarrow> fat_read st c d' = FAT_FREE"
proof -
  have len: "length (media d x) = 512" for x using assms(1) by (simp add: dev_ok_def)
  have ok: "dev_ok d'" using len by (simp add: dev_ok_def d'_def)
  have same: "fat_read st x d' = FAT_FREE" if "fat_sector st x 0 = l" "fat_offset x = fat_offset c" for x
  proof -
    have "fat_read st x d' = le32_at (put_fat c FAT_FREE (media d l)) (fat_offset c) AND FAT_MASK"
      using that ok assms(2) by (simp add: fat_read_def read_block_eq d'_def)
    also have "\<dots> = FAT_FREE AND FAT_MASK"
      using len fat_offset_bound [of c] by (simp add: put_fat_def le32_at_splice_same fat_masks mask_merge)
    finally show ?thesis by (simp add: FAT_FREE_def)
  qed
  then show "fat_sector st c 0 = l \<Longrightarrow> fat_read st c d' = FAT_FREE" by blast
  have "fat_read st x d' = fat_read st x d \<or> fat_read st x d' = FAT_FREE" for x
  proof (cases "fat_sector st x 0 = l")
    case True
    show ?thesis
    proof (cases "fat_offset x = fat_offset c")
      case False
      obtain p q where "fat_offset x = 4 * p" "fat_offset c = 4 * q" using fat_offset_dvd by (metis dvdE)
      then have "fat_offset x + 4 \<le> fat_offset c \<or> fat_offset c + 4 \<le> fat_offset x" using False by presburger
      then have "le32_at (put_fat c FAT_FREE (media d l)) (fat_offset x) = le32_at (media d l) (fat_offset x)"
        using len fat_offset_bound [of c] fat_offset_bound [of x] by (simp add: put_fat_def le32_at_splice_other)
      then show ?thesis using True ok assms(1,2) by (simp add: fat_read_def read_block_eq d'_def)
    qed (use same True in blast)
  next
    case False
    then show ?thesis using ok assms(1) by (simp add: fat_read_def read_block_eq d'_def)
  qed
  then show "zeroed st d d'" using ok by (simp add: zeroed_def d'_def)
qed

lemma fat_free_copies:
  assumes "dev_ok d"
  shows "zeroed st d (fst (fat_write_copies st c FAT_FREE ks d))"
  using assms
proof (induction ks arbitrary: d)
  case (Cons k ks)
  let ?l = "fat_sector st c k"
  let ?d = "d\<lparr>media := (media d)(?l := put_fat c FAT_FREE (media d ?l))\<rparr>"
  have len: "length (media d ?l) = 512" using Cons.prems(1) by (simp add: dev_ok_def)
  show ?case
  proof (cases "served d ?l")
    case True
    note z = fat_free_sector(1) [OF Cons.prems True, where st = st and c = c]
    have "fat_write_copies st c FAT_FREE (k # ks) d = fat_write_copies st c FAT_FREE ks ?d"
      using True len Cons.prems(1) by (simp add: read_block_eq Let_def put_fat_def [symmetric] write_block_eq)
    moreover have "dev_ok ?d" using z by (simp add: zeroed_def)
    ultimately show ?thesis using zeroed_trans [OF z] Cons.IH by simp
  next
    case False
    then show ?thesis using Cons.prems by (simp add: read_block_eq zeroed_def)
  qed
qed (simp add: zeroed_def)

lemma fat_free_one:
  assumes "dev_ok d" "1 \<le> unat (num_fats st)" "served d (fat_sector st c 0)"
  shows "fat_read st c (fst (fat_write st c FAT_FREE d)) = FAT_FREE"
proof -
  let ?l = "fat_sector st c 0"
  let ?d = "d\<lparr>media := (media d)(?l := put_fat c FAT_FREE (media d ?l))\<rparr>"
  have len: "length (media d ?l) = 512" using assms(1) by (simp add: dev_ok_def)
  note z = fat_free_sector [OF assms(1,3), where st = st and c = c]
  have "[0..<unat (num_fats st)] = 0 # [1..<unat (num_fats st)]" using assms(2) by (simp add: upt_conv_Cons)
  then have "fat_write st c FAT_FREE d = fat_write_copies st c FAT_FREE [1..<unat (num_fats st)] ?d"
    using assms(1,3) len by (simp add: fat_write_def read_block_eq Let_def put_fat_def [symmetric] write_block_eq)
  moreover have "dev_ok ?d" using z by (simp add: zeroed_def)
  ultimately have "zeroed st ?d (fst (fat_write st c FAT_FREE d))" using fat_free_copies by simp
  then show ?thesis using z(2) [OF refl] unfolding zeroed_def by metis
qed

lemma fat_free_chain_ends:
  assumes "dev_ok d" "1 \<le> unat (num_fats st)"
  shows "\<exists>d'. fat_free_chain st c d = Some d'"
  using assms(1)
proof (induction "card {x. fat_read st x d \<noteq> FAT_FREE}" arbitrary: c d rule: less_induct)
  case less
  let ?d = "fst (fat_write st c FAT_FREE d)"
  have z: "zeroed st d ?d" unfolding fat_write_def by (rule fat_free_copies [OF less.prems])
  have unf: "fat_free_chain st c d = (let nx = fat_read st c d in
      if nx \<ge> FAT_EOC \<or> nx = FAT_FREE \<or> nx = FAT_BAD then Some ?d else fat_free_chain st nx ?d)"
    by (subst fat_free_chain.simps) (simp add: Let_def)
  show ?case
  proof (cases "fat_read st c d \<ge> FAT_EOC \<or> fat_read st c d = FAT_FREE \<or> fat_read st c d = FAT_BAD")
    case False
    have "served d (fat_sector st c 0)"
      using False less.prems by (cases "served d (fat_sector st c 0)") (simp_all add: fat_read_def read_block_eq)
    then have "fat_read st c ?d = FAT_FREE" by (rule fat_free_one [OF less.prems assms(2)])
    then have "{x. fat_read st x ?d \<noteq> FAT_FREE} \<subset> {x. fat_read st x d \<noteq> FAT_FREE}"
      using z False unfolding zeroed_def by (intro psubsetI subsetI) (auto, metis)
    then have "card {x. fat_read st x ?d \<noteq> FAT_FREE} < card {x. fat_read st x d \<noteq> FAT_FREE}"
      by (intro psubset_card_mono) simp_all
    then have "\<exists>d'. fat_free_chain st (fat_read st c d) ?d = Some d'" using less.hyps z by (simp add: zeroed_def)
    then show ?thesis unfolding unf Let_def using False by simp
  qed (simp add: unf Let_def)
qed


text \<open>A table in which cluster 3 is its own successor.\<close>

definition cyclic_fs :: Fs where
  "cyclic_fs = \<lparr>fat32 = Some (small_st 3), dev = small_dev\<lparr>media := (\<lambda>l. if l = 1 then replicate 12 0xFF @ [3, 0, 0, 0] @ replicate 496 0 else replicate 512 0)\<rparr>\<rparr>"




subsection \<open>Deleting\<close>

lemma scan_entry_shift: "scan_entry l s i (es, p) = (es @ fst (scan_entry l s i ([], p)), snd (scan_entry l s i ([], p)))"
  by (cases p) (simp add: scan_entry_def Let_def)

lemma scan_shift: "fold scan_slot xs (es, p) = (es @ fst (fold scan_slot xs ([], p)), snd (fold scan_slot xs ([], p)))"
proof (induction xs arbitrary: es p)
  case (Cons x xs)
  obtain l s i where x: "x = (l, s, i)" by (cases x)
  obtain es1 p1 where e: "scan_entry l s i ([], p) = (es1, p1)" by (cases "scan_entry l s i ([], p)")
  have "fold scan_slot (x # xs) (es, p) = fold scan_slot xs (es @ es1, p1)" using scan_entry_shift [of l s i es p] e x by simp
  moreover have "fold scan_slot (x # xs) ([], p) = fold scan_slot xs (es1, p1)" using e x by simp
  ultimately show ?case using Cons.IH [of "es @ es1" p1] Cons.IH [of es1 p1] by simp
qed simp

lemma scan_entry_found:
  assumes "scan_entry l s i (es, lfn, fin) = (es', p)" "e \<in> set es'" "e \<notin> set es"
  shows "\<not> fin" "es' = es @ [e]" "p = ([], False)" "de_sector e = l" "de_offset e = i * 32"
  using assms by (auto simp: scan_entry_def Let_def split: if_splits)

lemma scan_found:
  assumes "e \<in> set (fst (fold scan_slot xs ([], [], False)))"
  obtains pre l s i post es lfn where "xs = pre @ (l, s, i) # post" "de_sector e = l" "de_offset e = i * 32"
    "fold scan_slot pre ([], [], False) = (es, lfn, False)" "scan_entry l s i (es, lfn, False) = (es @ [e], [], False)"
  using assms
proof (induction xs arbitrary: thesis rule: rev_induct)
  case (snoc x xs)
  obtain l s i where x: "x = (l, s, i)" by (cases x)
  obtain es lfn fin where f: "fold scan_slot xs ([], [], False) = (es, lfn, fin)" by (metis prod_cases3)
  obtain es' p where s: "scan_entry l s i (es, lfn, fin) = (es', p)" by (cases "scan_entry l s i (es, lfn, fin)")
  show ?case
  proof (cases "e \<in> set es")
    case True
    show ?thesis
    proof (rule snoc.IH)
      show "e \<in> set (fst (fold scan_slot xs ([], [], False)))" using True f by simp
    next
      fix pre l' s' i' post es2 lfn2
      assume "xs = pre @ (l', s', i') # post" "de_sector e = l'" "de_offset e = i' * 32"
        "fold scan_slot pre ([], [], False) = (es2, lfn2, False)" "scan_entry l' s' i' (es2, lfn2, False) = (es2 @ [e], [], False)"
      then show thesis using snoc.prems(1) [of pre l' s' i' "post @ [x]" es2 lfn2] by simp
    qed
  next
    case False
    have "e \<in> set es'" using snoc.prems(2) f s x by simp
    note F = scan_entry_found [OF s this False]
    show ?thesis using snoc.prems(1) [of xs l s i "[]" es lfn] F f s x by simp
  qed
qed simp

lemma raw_update_other:
  assumes "j \<noteq> i"
  shows "take 32 (drop (j * 32) (s[i * 32 := v])) = take 32 (drop (j * 32) s)"
proof (cases "j < i")
  case True
  then have "32 \<le> i * 32 - j * 32" by (simp add: diff_mult_distrib [symmetric])
  then show ?thesis using True by (simp add: drop_update_swap)
next
  case False
  then show ?thesis using assms by simp
qed

lemma scan_deleted:
  assumes "length s = 512" "i < 16"
  shows "scan_entry l (s[i * 32 := 0xE5]) i (es, lfn, False) = (es, [], False)"
  using assms by (simp add: scan_entry_def Let_def)

lemma distinct_slots: "distinct ls \<Longrightarrow> distinct (map (\<lambda>(l, s, i). (l, i)) (slots d ls))"
proof (induction ls)
  case (Cons l ls)
  have "set (map (\<lambda>(l, s, i). (l, i)) (slots d ls)) \<subseteq> set ls \<times> UNIV" by (auto simp: in_slots)
  moreover have "slots d (l # ls) = map (\<lambda>i. (l, media d l, i)) [0..<16] @ slots d ls" by (simp add: slots_def del: upt_rec_numeral)
  ultimately show ?case using Cons by (auto simp: distinct_map inj_on_def simp del: upt_rec_numeral)
qed (simp add: slots_def)

lemma entry_removed:
  assumes ok: "dev_ok d" and sv: "\<forall>l \<in> set ls. served d l" and dist: "distinct ls"
    and e: "e \<in> set (fst (fold (scan_sector d) ls ([], [], False)))"
  defines "d' \<equiv> d\<lparr>media := (media d)(de_sector e := (media d (de_sector e))[de_offset e := 0xE5])\<rparr>"
  shows "de_sector e \<in> set ls" "\<exists>pre post. fst (fold (scan_sector d) ls ([], [], False)) = pre @ e # post \<and>
     fst (fold (scan_sector d') ls ([], [], False)) = pre @ post"
proof -
  have sc: "fold (scan_sector d) ls ([], [], False) = fold scan_slot (slots d ls) ([], [], False)"
    by (rule fold_scan_sectors [OF ok sv])
  from e obtain pre l s i post es lfn where p: "slots d ls = pre @ (l, s, i) # post" "de_sector e = l" "de_offset e = i * 32"
    "fold scan_slot pre ([], [], False) = (es, lfn, False)" "scan_entry l s i (es, lfn, False) = (es @ [e], [], False)"
    unfolding sc by (rule scan_found)
  have "(l, s, i) \<in> set (slots d ls)" using p(1) by simp
  then have m: "l \<in> set ls" "s = media d l" "i < 16" by (simp_all add: in_slots)
  show "de_sector e \<in> set ls" using m p(2) by simp
  have len: "length s = 512" using ok m(2) by (simp add: dev_ok_def)
  have ok': "dev_ok d'" using ok by (simp add: d'_def dev_ok_def)
  have sv': "\<forall>l \<in> set ls. served d' l" using sv by (simp add: d'_def)
  let ?s' = "s[i * 32 := 0xE5]"
  let ?g = "\<lambda>(l', s0, i'). (l', media d' l', i')"
  have ml: "media d' l = ?s'" using m(2) p(2,3) by (simp add: d'_def)
  have new: "slots d' ls = map ?g pre @ (l, ?s', i) # map ?g post"
    using slots_media [of d' ls d] p(1) ml by simp
  have di: "(l, i) \<notin> (\<lambda>(l, s, i). (l, i)) ` set (pre @ post)"
    using distinct_slots [OF dist, of d] p(1) by (simp add: image_Un)
  have same: "scan_slot (?g x) = scan_slot x" if "x \<in> set (pre @ post)" for x
  proof -
    obtain l' s0 i' where x: "x = (l', s0, i')" by (cases x)
    have "(l', s0, i') \<in> set (slots d ls)" using that x p(1) by auto
    then have ip: "l' \<in> set ls" "s0 = media d l'" "i' < 16" by (simp_all add: in_slots)
    show ?thesis
    proof (cases "l' = l")
      case True
      then have "i' \<noteq> i" using di that x by force
      then show ?thesis using scan_entry_cong [OF raw_update_other [of i' i s "0xE5"], of l] ml m(2) ip(2) True x by simp
    qed (use ip x p(2) in \<open>simp add: d'_def\<close>)
  qed
  have fold_same: "fold scan_slot (map ?g xs) sc = fold scan_slot xs sc" if "set xs \<subseteq> set (pre @ post)" for xs sc
    unfolding fold_map by (rule fold_cong) (use same that in \<open>auto simp del: set_append\<close>)
  have "fold (scan_sector d') ls ([], [], False) = fold scan_slot post (es, [], False)"
    using fold_scan_sectors [OF ok' sv'] new fold_same [of pre] fold_same [of post] p(4) scan_deleted [OF len m(3)] by simp
  moreover have "fold (scan_sector d) ls ([], [], False) = fold scan_slot post (es @ [e], [], False)"
    using sc p(1,4,5) by simp
  ultimately show "\<exists>pre post. fst (fold (scan_sector d) ls ([], [], False)) = pre @ e # post \<and>
     fst (fold (scan_sector d') ls ([], [], False)) = pre @ post"
    using scan_shift [of post es "([], False)"] scan_shift [of post "es @ [e]" "([], False)"]
    by (intro exI [of _ es] exI [of _ "fst (fold scan_slot post ([], [], False))"]) simp
qed

text \<open>
  C7: \<^verbatim>\<open>delete\<close> of a file whose entry leads to a chain of clusters succeeds: exactly the clusters of the chain become
  free, the directory lists what it listed without that entry, and no sector of the data area outside the directory
  changes.
\<close>

theorem delete_frees_file:
  assumes fs: "fat32 fs = Some st" and lay: "layout st (dev fs)" and dir: "linked st (dev fs) dcs" "distinct dcs"
    and e: "find_entry fs (hd dcs) nm = Some e" "\<not> de_is_dir e" and fl: "linked st (dev fs) cs" "distinct cs" "hd cs = de_cluster e"
    and dis: "set dcs \<inter> set cs = {}"
  shows "\<exists>fs'. delete (hd dcs) nm fs = Some (fs', True) \<and>
    (\<forall>c. valid st c \<longrightarrow> fat_read st c (dev fs') = (if c \<in> set cs then FAT_FREE else fat_read st c (dev fs))) \<and>
    (\<exists>pre post. read_dir fs (hd dcs) = pre @ e # post \<and> read_dir fs' (hd dcs) = pre @ post) \<and>
    (\<forall>l. unat (data_start_sector st) \<le> unat l \<and> l \<notin> set (chain_sectors st dcs) \<longrightarrow> media (dev fs') l = media (dev fs) l)"
proof -
  let ?ls = "chain_sectors st dcs"
  obtain d1 where d1: "fat_free_chain st (de_cluster e) (dev fs) = Some d1"
      "fat_step st (dev fs) d1 (\<lambda>c. if c \<in> set cs then Some FAT_FREE else None)"
    using fat_free_chain_linked [OF lay fl(1,2)] fl(3) by auto
  note S = fat_stepD [OF d1(2)]
  have vd: "\<forall>c \<in> set dcs. valid st c" by (rule linked_valid [OF dir(1)])
  have vc: "valid st (de_cluster e)" using linked_valid [OF fl(1)] fl(1,3) by (cases cs) auto
  have sv: "\<forall>l \<in> set ?ls. served (dev fs) l \<and> unat (data_start_sector st) \<le> unat l"
    using unat_data_sector(2,3) [OF lay] vd by (auto simp: set_chain_sectors)
  have ok: "dev_ok (dev fs)" "dev_ok d1" using layoutD(1) [OF lay] layoutD(1) [OF S(1)] by simp_all
  have sv1: "\<forall>l \<in> set ?ls. served d1 l" using sv S(4) by simp
  have ds: "distinct ?ls" by (rule distinct_chain_sectors [OF lay vd dir(2)])
  have rd: "read_dir fs (hd dcs) = fst (fold (scan_sector (dev fs)) ?ls ([], [], False))"
    using fs cluster_chain_linked [OF lay dir] by (simp add: read_dir_def read_dir_internal_def)
  have eq: "fold (scan_sector d1) ?ls sc = fold (scan_sector (dev fs)) ?ls sc" for sc
    by (rule scan_sectors_cong [OF ok S(4)]) (use sv S(3) in blast)
  have el: "e \<in> set (fst (fold (scan_sector d1) ?ls ([], [], False)))"
    using e(1) unfolding eq rd [symmetric] find_entry_def find_named_def by (auto simp: find_Some_iff)
  note R = entry_removed [OF ok(2) sv1 ds el]
  let ?d2 = "d1\<lparr>media := (media d1)(de_sector e := (media d1 (de_sector e))[de_offset e := 0xE5])\<rparr>"
  have len: "length (media d1 (de_sector e)) = 512" using ok(2) by (simp add: dev_ok_def)
  have ok2: "dev_ok ?d2" using ok(2) by (simp add: dev_ok_def)
  have lay2: "layout st ?d2" by (rule layout_media [OF S(1) ok2])
  have "find_named nm (read_dir_internal st (dev fs) (hd dcs)) = Some e" using e(1) fs by (simp add: find_entry_def read_dir_def)
  moreover have "2 \<le> de_cluster e" using valid_range [OF lay vc] by (meson not_less)
  moreover have "served d1 (de_sector e)" using sv1 R(1) by blast
  ultimately have del: "delete (hd dcs) nm fs = Some (fs\<lparr>dev := ?d2\<rparr>, True)"
    using fs e(2) d1(1) ok(2) len by (simp add: delete_def read_block_eq write_block_eq)
  have "unat (data_start_sector st) \<le> unat (de_sector e)" using sv R(1) by blast
  then have low: "media ?d2 l = media d1 l" if "unat l < unat (data_start_sector st)" for l using that by auto
  have fr: "fat_read st c ?d2 = (if c \<in> set cs then FAT_FREE else fat_read st c (dev fs))" if "valid st c" for c
    using fat_read_cong [OF S(1) lay2 that low] S(2) [OF that] by (simp split: if_splits)
  have "fat_read st c ?d2 = fat_read st c (dev fs)" if "c \<in> set dcs" for c using fr vd that dis by auto
  then have "linked st ?d2 dcs" using linked_cong [of dcs st ?d2 "dev fs"] dir(1) by blast
  then have "read_dir (fs\<lparr>dev := ?d2\<rparr>) (hd dcs) = fst (fold (scan_sector ?d2) ?ls ([], [], False))"
    using fs cluster_chain_linked [OF lay2 _ dir(2)] by (simp add: read_dir_def read_dir_internal_def)
  then have "\<exists>pre post. read_dir fs (hd dcs) = pre @ e # post \<and> read_dir (fs\<lparr>dev := ?d2\<rparr>) (hd dcs) = pre @ post"
    using R(2) unfolding eq rd by simp
  moreover have "\<forall>l. unat (data_start_sector st) \<le> unat l \<and> l \<notin> set ?ls \<longrightarrow> media ?d2 l = media (dev fs) l"
    using S(3) R(1) by auto
  ultimately show ?thesis using del fr by (intro exI [of _ "fs\<lparr>dev := ?d2\<rparr>"]) simp
qed

text \<open>The small volume with a file or a directory \<^verbatim>\<open>A\<close> in cluster 3.\<close>

definition file_dev :: "u8 \<Rightarrow> BlkDev" where
  "file_dev a = small_dev\<lparr>media := (\<lambda>l. if l = 1 then replicate 8 0xFF @ [0xFF, 0xFF, 0xFF, 0x0F, 0xFF, 0xFF, 0xFF, 0x0F] @ replicate 496 0
     else if l = 2 then raw_entry (0x41 # replicate 10 0x20) a 3 5 @ replicate 480 0 else replicate 512 0)\<rparr>"

definition file_fs :: "u8 \<Rightarrow> Fs" where
  "file_fs a = \<lparr>fat32 = Some (small_st 3), dev = file_dev a\<rparr>"

definition file_entry :: "u8 \<Rightarrow> DirEntry" where
  "file_entry a = \<lparr>de_name = [0x61], de_is_dir = (a = ATTR_DIRECTORY), de_size = 5, de_cluster = 3, de_sector = 2, de_offset = 0\<rparr>"

lemmas file_raw = raw_entry_simps [of "0x41 # replicate 10 0x20" _ 3 5, simplified]

lemma file_sel:
  "fat32 (file_fs a) = Some (small_st 3)" "dev (file_fs a) = file_dev a" "de_cluster (file_entry a) = 3" "\<not> de_is_dir (file_entry ATTR_ARCHIVE)"
  by (simp_all add: file_fs_def file_entry_def ATTR_ARCHIVE_def ATTR_DIRECTORY_def)

lemma file_dev_ok: "dev_ok (file_dev a)"
  by (simp add: dev_ok_def file_dev_def file_raw)

lemma file_layout: "layout (small_st 3) (file_dev a)"
proof -
  have "dev_ok (small_dev\<lparr>media := media (file_dev a)\<rparr>)" using file_dev_ok by (simp add: dev_ok_def)
  from layout_media [OF small_layout [of 3] this] show ?thesis by (simp add: file_dev_def)
qed

lemma file_read: "fat_read (small_st 3) 2 (file_dev a) = 0x0FFFFFFF" "fat_read (small_st 3) 3 (file_dev a) = 0x0FFFFFFF"
  using file_dev_ok
  by (simp_all add: fat_read_def read_block_eq fat_sector_def fat_offset_def small_st_def small_dev_def file_dev_def served_def
      le32_at_def nth_append FAT_MASK_def le32_def)

lemma file_linked: "linked (small_st 3) (file_dev a) [2]" "linked (small_st 3) (file_dev a) [3]"
  by (simp_all add: valid_def small_sel file_read FAT_EOC_def)

lemma file_listed:
  assumes "a = ATTR_ARCHIVE \<or> a = ATTR_DIRECTORY"
  shows "read_dir (file_fs a) 2 = [file_entry a]"
proof -
  let ?s = "raw_entry (0x41 # replicate 10 0x20) a 3 5 @ replicate 480 0"
  have c: "chain_sectors (small_st 3) [2] = [2]" by (simp add: chain_sectors_def small_st_def cluster_to_sector_def)
  have m: "media (file_dev a) 2 = ?s" "served (file_dev a) 2" by (simp_all add: file_dev_def small_dev_def served_def)
  have b: "read_block (file_dev a) 2 = Some ?s" using file_dev_ok m by (simp add: read_block_eq)
  have dec: "decode_83_name (0x41 # replicate 10 0x20) = [0x61]"
    using decode_padded [of "[0x41]" "[]"] by (simp add: plain_def in_range_def lower_def replicate_add [symmetric])
  have e: "scan_entry 2 ?s 0 ([], [], False) = ([file_entry a], [], False)"
    unfolding scan_entry_def Let_def using file_raw dec assms
    by (auto simp: ATTR_ARCHIVE_def ATTR_LFN_def ATTR_VOLUME_ID_def ATTR_DIRECTORY_def file_entry_def)
  have "scan_entry 2 ?s 1 ([file_entry a], [], False) = ([file_entry a], [], True)"
    unfolding scan_entry_def Let_def using file_raw by simp
  moreover have quiet: "fold (scan_entry 2 ?s) is (es, p, True) = (es, p, True)" for "is" es p
    by (induction "is") (simp_all add: scan_entry_def)
  moreover have "[0..<16] = 0 # 1 # [2..<16::nat]" by (simp add: upt_conv_Cons numeral_2_eq_2 del: upt_rec_numeral)
  ultimately have "fold (scan_entry 2 ?s) [0..<16] ([], [], False) = ([file_entry a], [], True)" using e by (simp del: upt_rec_numeral)
  then show ?thesis
    using cluster_chain_linked [OF file_layout file_linked(1)]
    by (simp add: read_dir_def read_dir_internal_def file_fs_def c scan_sector_def b del: upt_rec_numeral)
qed

lemma file_found: "a = ATTR_ARCHIVE \<or> a = ATTR_DIRECTORY \<Longrightarrow> find_entry (file_fs a) 2 [0x61] = Some (file_entry a)"
  by (simp add: find_entry_def find_named_def file_listed) (simp add: file_entry_def)

theorem delete_frees_file_witness:
  "\<exists>fs'. delete 2 [0x61] (file_fs ATTR_ARCHIVE) = Some (fs', True) \<and> fat_read (small_st 3) 3 (dev fs') = FAT_FREE \<and>
    fat_read (small_st 3) 2 (dev fs') = 0x0FFFFFFF \<and> read_dir fs' 2 = []"
proof -
  have v: "valid (small_st 3) 2" "valid (small_st 3) 3" by (simp_all add: valid_def small_sel)
  obtain fs' pre post where d: "delete 2 [0x61] (file_fs ATTR_ARCHIVE) = Some (fs', True)"
    "\<forall>c. valid (small_st 3) c \<longrightarrow> fat_read (small_st 3) c (dev fs') = (if c \<in> set [3] then FAT_FREE else fat_read (small_st 3) c (file_dev ATTR_ARCHIVE))"
    "read_dir (file_fs ATTR_ARCHIVE) 2 = pre @ (file_entry ATTR_ARCHIVE) # post" "read_dir fs' 2 = pre @ post"
    using delete_frees_file [of "file_fs ATTR_ARCHIVE" "small_st 3" "[2]" "[0x61]" "file_entry ATTR_ARCHIVE" "[3]"]
      file_layout [of ATTR_ARCHIVE] file_linked [of ATTR_ARCHIVE] file_found [of ATTR_ARCHIVE]
    by (auto simp: file_sel)
  have "pre = []" "post = []" using d(3) file_listed [of ATTR_ARCHIVE] by (auto simp: Cons_eq_append_conv)
  then show ?thesis using d(1,2,4) v by (simp add: file_read)
qed

end
