(* ===== verification/Vfs.thy ===== *)
theory Vfs
  imports Fat32
begin

unbundle bit_operations_syntax

text \<open>
  The virtual file system, \<^verbatim>\<open>kernel/src/storage/vfs.rs\<close>: the working directory and path-based
  operations over the FAT32 driver. A path is its bytes; \<^verbatim>\<open>split\<close> on slashes drops empty
  components. Operations that write return \<^const>\<open>None\<close> where the driver does not return.
\<close>


subsection \<open>State and paths\<close>

record VfsState =
  st_cwd_cluster :: u32
  st_cwd_path :: str

record Storage =
  fs :: Fs
  vfs :: "VfsState option"

definition SLASH :: u8 where "SLASH = 0x2F"
definition DOT :: str where "DOT = [0x2E]"
definition DOTDOT :: str where "DOTDOT = [0x2E, 0x2E]"

definition vfs_init :: "Storage \<Rightarrow> Storage" where
  "vfs_init s = s\<lparr>vfs := Some \<lparr>st_cwd_cluster = root_cluster (fs s), st_cwd_path = [SLASH]\<rparr>\<rparr>"

definition is_ready :: "Storage \<Rightarrow> bool" where
  "is_ready s \<longleftrightarrow> vfs s \<noteq> None \<and> is_mounted (fs s)"

definition cwd :: "Storage \<Rightarrow> str" where
  "cwd s = (case vfs s of Some v \<Rightarrow> st_cwd_path v | None \<Rightarrow> [SLASH])"

definition cwd_cluster :: "Storage \<Rightarrow> u32" where
  "cwd_cluster s = (case vfs s of Some v \<Rightarrow> st_cwd_cluster v | None \<Rightarrow> root_cluster (fs s))"

definition components :: "str \<Rightarrow> str list" where
  "components path = filter (\<lambda>c. c \<noteq> []) (split_at SLASH [] path)"

definition is_absolute :: "str \<Rightarrow> bool" where
  "is_absolute path \<longleftrightarrow> path \<noteq> [] \<and> hd path = SLASH"

definition parse_path :: "str \<Rightarrow> Storage \<Rightarrow> u32 \<times> str list" where
  "parse_path path s = ((if is_absolute path then root_cluster (fs s) else cwd_cluster s), components path)"

text \<open>The loop of \<^verbatim>\<open>resolve_path\<close>.\<close>

fun resolve_from :: "Fs \<Rightarrow> u32 \<Rightarrow> str list \<Rightarrow> (u32 \<times> DirEntry) option" where
  "resolve_from f c [] = None"
| "resolve_from f c (x # xs) =
     (if x = DOT then resolve_from f c xs
      else if x = DOTDOT then resolve_from f (root_cluster f) xs
      else case find_entry f c x of
             None \<Rightarrow> None
           | Some e \<Rightarrow> if xs = [] then Some (c, e) else if \<not> de_is_dir e then None else resolve_from f (de_cluster e) xs)"

definition root_entry :: "u32 \<Rightarrow> DirEntry" where
  "root_entry c = \<lparr>de_name = [SLASH], de_is_dir = True, de_size = 0, de_cluster = c, de_sector = 0, de_offset = 0\<rparr>"

definition resolve_path :: "str \<Rightarrow> Storage \<Rightarrow> (u32 \<times> DirEntry) option" where
  "resolve_path path s =
     (case parse_path path s of (start, cs) \<Rightarrow>
        if cs = [] then Some (start, root_entry start) else resolve_from (fs s) start cs)"

text \<open>The loop of \<^verbatim>\<open>resolve_parent\<close> over all but the last component.\<close>

fun walk :: "Fs \<Rightarrow> u32 \<Rightarrow> str list \<Rightarrow> u32 option" where
  "walk f c [] = Some c"
| "walk f c (x # xs) =
     (if x = DOT then walk f c xs
      else if x = DOTDOT then walk f (root_cluster f) xs
      else case find_entry f c x of
             None \<Rightarrow> None
           | Some e \<Rightarrow> if de_is_dir e then walk f (de_cluster e) xs else None)"

definition resolve_parent :: "str \<Rightarrow> Storage \<Rightarrow> (u32 \<times> str) option" where
  "resolve_parent path s =
     (case parse_path path s of (start, cs) \<Rightarrow>
        if cs = [] then None
        else case walk (fs s) start (butlast cs) of None \<Rightarrow> None | Some c \<Rightarrow> Some (c, last cs))"


subsection \<open>Operations\<close>

definition list_dir :: "str \<Rightarrow> Storage \<Rightarrow> DirEntry list option" where
  "list_dir path s =
     (if path = [] \<or> path = DOT then Some (read_dir (fs s) (cwd_cluster s))
      else if path = [SLASH] then Some (read_dir (fs s) (root_cluster (fs s)))
      else case resolve_path path s of
             None \<Rightarrow> None
           | Some (p, e) \<Rightarrow> if de_is_dir e then Some (read_dir (fs s) (de_cluster e)) else None)"

definition vfs_read_file :: "str \<Rightarrow> Storage \<Rightarrow> u8 list option" where
  "vfs_read_file path s =
     (case resolve_path path s of
        None \<Rightarrow> None
      | Some (p, e) \<Rightarrow> if de_is_dir e then None else Some (read_file (fs s) e))"

definition vfs_write_file :: "str \<Rightarrow> u8 list \<Rightarrow> Storage \<Rightarrow> (Storage \<times> bool) option" where
  "vfs_write_file path data s =
     (case resolve_parent path s of
        None \<Rightarrow> Some (s, False)
      | Some (c, nm) \<Rightarrow> map_option (\<lambda>(f, r). (s\<lparr>fs := f\<rparr>, r)) (write_file c nm data (fs s)))"

definition vfs_mkdir :: "str \<Rightarrow> Storage \<Rightarrow> Storage \<times> bool" where
  "vfs_mkdir path s =
     (case resolve_parent path s of
        None \<Rightarrow> (s, False)
      | Some (c, nm) \<Rightarrow> (case mkdir c nm (fs s) of (f, r) \<Rightarrow> (s\<lparr>fs := f\<rparr>, r)))"

definition vfs_delete :: "str \<Rightarrow> Storage \<Rightarrow> (Storage \<times> bool) option" where
  "vfs_delete path s =
     (case resolve_parent path s of
        None \<Rightarrow> Some (s, False)
      | Some (c, nm) \<Rightarrow> map_option (\<lambda>(f, r). (s\<lparr>fs := f\<rparr>, r)) (delete c nm (fs s)))"

fun join :: "str list \<Rightarrow> str" where
  "join [] = []"
| "join [x] = x"
| "join (x # y # xs) = x @ [SLASH] @ join (y # xs)"

text \<open>The walk of \<^verbatim>\<open>cd ..\<close> from the root, which knows no dots.\<close>

fun walk_plain :: "Fs \<Rightarrow> u32 \<Rightarrow> str list \<Rightarrow> u32 option" where
  "walk_plain f c [] = Some c"
| "walk_plain f c (x # xs) =
     (case find_entry f c x of
        None \<Rightarrow> None
      | Some e \<Rightarrow> if de_is_dir e then walk_plain f (de_cluster e) xs else None)"

definition cd_up :: "Storage \<Rightarrow> Storage \<times> bool" where
  "cd_up s =
     (case vfs s of
        None \<Rightarrow> (s, False)
      | Some v \<Rightarrow>
          if st_cwd_path v = [SLASH] then (s, True)
          else let parts = butlast (components (st_cwd_path v))
               in case walk_plain (fs s) (root_cluster (fs s)) parts of
                    None \<Rightarrow> (s, False)
                  | Some c \<Rightarrow> (s\<lparr>vfs := Some \<lparr>st_cwd_cluster = c, st_cwd_path = [SLASH] @ join parts\<rparr>\<rparr>, True))"

fun trim_end :: "u8 \<Rightarrow> str \<Rightarrow> str" where
  "trim_end b t = rev (dropWhile (\<lambda>x. x = b) (rev t))"

definition cd :: "str \<Rightarrow> Storage \<Rightarrow> Storage \<times> bool" where
  "cd path s =
     (if path = [SLASH]
      then (s\<lparr>vfs := map_option (\<lambda>v. \<lparr>st_cwd_cluster = root_cluster (fs s), st_cwd_path = [SLASH]\<rparr>) (vfs s)\<rparr>, True)
      else if path = DOTDOT then cd_up s
      else case resolve_path path s of
             None \<Rightarrow> (s, False)
           | Some (p, e) \<Rightarrow>
               if \<not> de_is_dir e then (s, False)
               else case vfs s of
                      None \<Rightarrow> (s, False)
                    | Some v \<Rightarrow>
                        (s\<lparr>vfs := Some \<lparr>st_cwd_cluster = de_cluster e,
                           st_cwd_path =
                             (if is_absolute path then (if last path = SLASH then trim_end SLASH path else path)
                              else if st_cwd_path v = [SLASH] then [SLASH] @ path
                              else st_cwd_path v @ [SLASH] @ path)\<rparr>\<rparr>, True))"

definition copy_file :: "str \<Rightarrow> str \<Rightarrow> Storage \<Rightarrow> (Storage \<times> bool) option" where
  "copy_file src dst s =
     (case vfs_read_file src s of None \<Rightarrow> Some (s, False) | Some data \<Rightarrow> vfs_write_file dst data s)"

definition exists :: "str \<Rightarrow> Storage \<Rightarrow> bool" where
  "exists path s \<longleftrightarrow> resolve_path path s \<noteq> None"

definition is_dir :: "str \<Rightarrow> Storage \<Rightarrow> bool" where
  "is_dir path s = (case resolve_path path s of Some (p, e) \<Rightarrow> de_is_dir e | None \<Rightarrow> False)"



subsection \<open>Directories a write leaves alone\<close>

lemma linked_used:
  assumes "layout st d" "linked st d cs" "c \<in> set cs"
  shows "fat_read st c d \<noteq> FAT_FREE"
  using assms(2,3)
proof (induction cs rule: induct_list012)
  case (3 a b bs)
  have "valid st b" using linked_valid [OF "3.prems"(1)] by simp
  then have "b \<noteq> FAT_FREE" by (auto simp: valid_def FAT_FREE_def)
  then show ?case using "3.IH"(2) "3.prems" by auto
qed (auto simp: FAT_FREE_def FAT_EOC_def)

lemma read_dir_kept:
  assumes lay: "layout st (dev f)" "layout st (dev f')" and st: "fat32 f = Some st" "fat32 f' = Some st" "served (dev f') = served (dev f)"
    and dir: "linked st (dev f) cs" "distinct cs" "set cs \<inter> set dcs = {}"
    and keep: "\<forall>c. valid st c \<longrightarrow> fat_read st c (dev f) \<noteq> FAT_FREE \<longrightarrow> fat_read st c (dev f') = fat_read st c (dev f) \<and>
       (c \<notin> set dcs \<longrightarrow> (\<forall>l \<in> set (chain_sectors st [c]). media (dev f') l = media (dev f) l))"
  shows "read_dir f' (hd cs) = read_dir f (hd cs)"
proof -
  have v: "\<forall>c \<in> set cs. valid st c" by (rule linked_valid [OF dir(1)])
  have u: "\<forall>c \<in> set cs. fat_read st c (dev f) \<noteq> FAT_FREE" using linked_used [OF lay(1) dir(1)] by blast
  have "fat_read st c (dev f') = fat_read st c (dev f)" if "c \<in> set cs" for c using keep v u that by blast
  then have l': "linked st (dev f') cs" using linked_cong [of cs st "dev f'" "dev f"] dir(1) by blast
  have "\<forall>l \<in> set (chain_sectors st cs). media (dev f') l = media (dev f) l"
  proof
    fix l assume "l \<in> set (chain_sectors st cs)"
    then obtain c k where c: "c \<in> set cs" "k < unat (sectors_per_cluster st)" "l = cluster_to_sector st c + of_nat k"
      by (rule in_chain_sectorsE)
    then have "l \<in> set (chain_sectors st [c])" unfolding set_chain_sectors by auto
    then show "media (dev f') l = media (dev f) l" using keep v u c(1) dir(3) by blast
  qed
  then have "fold (scan_sector (dev f')) (chain_sectors st cs) x = fold (scan_sector (dev f)) (chain_sectors st cs) x" for x
    by (rule scan_sectors_cong [OF layoutD(1) [OF lay(1)] layoutD(1) [OF lay(2)] st(3)])
  then show ?thesis
    using st(1,2) cluster_chain_linked [OF lay(1) dir(1,2)] cluster_chain_linked [OF lay(2) l' dir(2)]
    by (simp add: read_dir_def read_dir_internal_def)
qed

text \<open>The directories that \<^verbatim>\<open>walk\<close> searches.\<close>

fun visited :: "Fs \<Rightarrow> u32 \<Rightarrow> str list \<Rightarrow> u32 list" where
  "visited f c [] = []"
| "visited f c (x # xs) =
     (if x = DOT then visited f c xs
      else if x = DOTDOT then visited f (root_cluster f) xs
      else c # (case find_entry f c x of None \<Rightarrow> [] | Some e \<Rightarrow> visited f (de_cluster e) xs))"

lemma walk_cong:
  assumes "\<forall>c \<in> set (visited f c xs). read_dir f' c = read_dir f c" "root_cluster f' = root_cluster f"
  shows "walk f' c xs = walk f c xs"
  using assms(1)
proof (induction xs arbitrary: c)
  case (Cons x xs)
  show ?case
  proof (cases "x = DOT \<or> x = DOTDOT")
    case True
    then show ?thesis using Cons assms(2) by auto
  next
    case False
    then have "find_entry f' c x = find_entry f c x" using Cons.prems by (simp add: find_entry_def)
    then show ?thesis using Cons False by (auto split: option.splits)
  qed
qed simp

lemma resolve_from_walk:
  assumes "walk f c (butlast xs) = Some p" "xs \<noteq> []" "last xs \<noteq> DOT" "last xs \<noteq> DOTDOT" "find_entry f p (last xs) = Some e"
  shows "resolve_from f c xs = Some (p, e)"
  using assms
proof (induction xs arbitrary: c)
  case (Cons x xs)
  show ?case
  proof (cases "xs = []")
    case False
    then show ?thesis using Cons by (auto split: option.splits if_splits)
  qed (use Cons.prems in simp)
qed simp

lemma short_name_not_dots: "short_name_ok nm \<Longrightarrow> nm \<noteq> DOT \<and> nm \<noteq> DOTDOT"
  by (auto simp: DOT_def DOTDOT_def short_name_ok_def split_dot_def plain_def in_range_def split: option.splits)



subsection \<open>The working directory\<close>

definition plain_component :: "str \<Rightarrow> bool" where
  "plain_component x \<longleftrightarrow> x \<noteq> [] \<and> SLASH \<notin> set x \<and> x \<noteq> DOT \<and> x \<noteq> DOTDOT"

lemma split_join:
  assumes "xs \<noteq> []" "\<forall>x \<in> set xs. SLASH \<notin> set x"
  shows "split_at SLASH acc (join xs) = (acc @ hd xs) # tl xs"
  using assms
proof (induction xs arbitrary: acc rule: join.induct)
  case (2 x)
  then show ?case using split_at_append [of SLASH x acc "[]"] by simp
next
  case (3 x y xs)
  then show ?case using split_at_append [of SLASH x acc "SLASH # join (y # xs)"] by simp
qed simp

lemma components_join:
  assumes "\<forall>x \<in> set xs. plain_component x"
  shows "components (join xs) = xs" "components (SLASH # join xs) = xs"
proof -
  have p: "\<forall>x \<in> set xs. SLASH \<notin> set x" "\<forall>x \<in> set xs. x \<noteq> []" using assms by (auto simp: plain_component_def)
  show "components (join xs) = xs"
  proof (cases "xs = []")
    case False
    then have "components (join xs) = filter (\<lambda>c. c \<noteq> []) xs" using split_join [OF False p(1), of "[]"] by (simp add: components_def)
    then show ?thesis using p(2) by (simp add: filter_id_conv)
  qed (simp add: components_def)
  then show "components (SLASH # join xs) = xs" by (simp add: components_def)
qed

lemma walk_plain_append:
  "walk_plain f c (xs @ ys) = (case walk_plain f c xs of None \<Rightarrow> None | Some c' \<Rightarrow> walk_plain f c' ys)"
  by (induction xs arbitrary: c) (auto split: option.splits)

lemma resolve_plain:
  assumes "\<forall>x \<in> set xs. plain_component x" "resolve_from f c xs = Some (p, e)" "de_is_dir e"
  shows "walk_plain f c xs = Some (de_cluster e)"
  using assms
proof (induction xs arbitrary: c)
  case (Cons x xs)
  have "x \<noteq> DOT" "x \<noteq> DOTDOT" using Cons.prems(1) by (simp_all add: plain_component_def)
  then show ?case using Cons by (auto split: option.splits if_splits)
qed simp

text \<open>The working directory is where its path leads from the root.\<close>

definition located :: "Storage \<Rightarrow> str list \<Rightarrow> bool" where
  "located s parts \<longleftrightarrow> (\<forall>x \<in> set parts. plain_component x) \<and> (\<exists>v. vfs s = Some v \<and> st_cwd_path v = SLASH # join parts \<and>
     walk_plain (fs s) (root_cluster (fs s)) parts = Some (st_cwd_cluster v))"

lemma located_init: "located (vfs_init s) []"
  by (simp add: located_def vfs_init_def)

lemma join_append: "xs \<noteq> [] \<Longrightarrow> ys \<noteq> [] \<Longrightarrow> join (xs @ ys) = join xs @ SLASH # join ys"
proof (induction xs rule: join.induct)
  case (2 x)
  then show ?case by (cases ys) auto
qed auto

lemma hd_join: "xs \<noteq> [] \<Longrightarrow> \<forall>x \<in> set xs. plain_component x \<Longrightarrow> join xs \<noteq> [] \<and> hd (join xs) \<noteq> SLASH"
  by (induction xs rule: join.induct) (auto simp: plain_component_def hd_append intro: hd_in_set dest: hd_in_set)

lemma cd_relative:
  assumes loc: "located s parts" and xs: "xs \<noteq> []" "\<forall>x \<in> set xs. plain_component x" and ok: "cd (join xs) s = (s1, True)"
  shows "located s1 (parts @ xs) \<and> fs s1 = fs s"
proof -
  obtain v where v: "vfs s = Some v" "st_cwd_path v = SLASH # join parts" "walk_plain (fs s) (root_cluster (fs s)) parts = Some (st_cwd_cluster v)"
    and pl: "\<forall>x \<in> set parts. plain_component x" using loc by (auto simp: located_def)
  have h: "join xs \<noteq> []" "hd (join xs) \<noteq> SLASH" using hd_join [OF xs] by blast+
  have cs: "components (join xs) = xs" by (rule components_join(1) [OF xs(2)])
  have nd: "join xs \<noteq> [SLASH]" "join xs \<noteq> DOTDOT"
  proof -
    show "join xs \<noteq> [SLASH]" using h by auto
    show "join xs \<noteq> DOTDOT"
    proof
      assume "join xs = DOTDOT"
      then have "xs = components DOTDOT" using cs by simp
      also have "\<dots> = [DOTDOT]" by (simp add: components_def DOTDOT_def SLASH_def)
      finally show False using xs(2) by (simp add: plain_component_def)
    qed
  qed
  have rel: "\<not> is_absolute (join xs)" using h by (simp add: is_absolute_def)
  have pp: "parse_path (join xs) s = (st_cwd_cluster v, xs)" using rel cs v(1) by (simp add: parse_path_def cwd_cluster_def)
  obtain p e where e: "resolve_from (fs s) (st_cwd_cluster v) xs = Some (p, e)" "de_is_dir e"
      and s1: "s1 = s\<lparr>vfs := Some \<lparr>st_cwd_cluster = de_cluster e,
        st_cwd_path = (if st_cwd_path v = [SLASH] then [SLASH] @ join xs else st_cwd_path v @ [SLASH] @ join xs)\<rparr>\<rparr>"
    using ok nd v(1) rel xs(1) pp by (auto simp: cd_def resolve_path_def split: option.splits if_splits)
  have w: "walk_plain (fs s) (root_cluster (fs s)) (parts @ xs) = Some (de_cluster e)"
    using resolve_plain [OF xs(2) e] v(3) by (simp add: walk_plain_append)
  have "(if st_cwd_path v = [SLASH] then [SLASH] @ join xs else st_cwd_path v @ [SLASH] @ join xs) = SLASH # join (parts @ xs)"
  proof (cases "parts = []")
    case False
    then have "join parts \<noteq> []" using hd_join pl by blast
    then show ?thesis using v(2) join_append [OF False xs(1)] by simp
  qed (use v(2) in simp)
  then show ?thesis using s1 w pl xs(2) by (auto simp: located_def)
qed

lemma cd_up_located:
  assumes "located s (parts @ [x])"
  shows "\<exists>c. cd DOTDOT s = (s\<lparr>vfs := Some \<lparr>st_cwd_cluster = c, st_cwd_path = SLASH # join parts\<rparr>\<rparr>, True) \<and>
    walk_plain (fs s) (root_cluster (fs s)) parts = Some c"
proof -
  obtain v where v: "vfs s = Some v" "st_cwd_path v = SLASH # join (parts @ [x])"
      "walk_plain (fs s) (root_cluster (fs s)) (parts @ [x]) = Some (st_cwd_cluster v)"
    and pl: "\<forall>y \<in> set (parts @ [x]). plain_component y" using assms by (auto simp: located_def)
  have "join (parts @ [x]) \<noteq> []" using hd_join [of "parts @ [x]"] pl by simp
  moreover have "components (st_cwd_path v) = parts @ [x]" unfolding v(2) by (rule components_join(2) [OF pl])
  moreover obtain c where "walk_plain (fs s) (root_cluster (fs s)) parts = Some c"
    using v(3) by (auto simp: walk_plain_append split: option.splits)
  moreover have "DOTDOT \<noteq> [SLASH]" by (simp add: DOTDOT_def SLASH_def)
  ultimately show ?thesis using v(1,2) by (simp add: cd_def cd_up_def Let_def)
qed

text \<open>
  C13: changing the working directory. From a working directory whose path leads to it, a successful \<^verbatim>\<open>cd\<close> along
  components other than dots ends in a working directory whose path, the old one extended, leads to it; and
  \<^verbatim>\<open>cd ..\<close> after \<^verbatim>\<open>cd\<close> to one component restores the state exactly.
\<close>

theorem cd_round_trip:
  assumes "located s parts" "xs \<noteq> []" "\<forall>x \<in> set xs. plain_component x" "cd (join xs) s = (s1, True)"
  shows "located s1 (parts @ xs) \<and> fs s1 = fs s \<and> (length xs = 1 \<longrightarrow> cd DOTDOT s1 = (s, True))"
proof -
  have l: "located s1 (parts @ xs)" "fs s1 = fs s" using cd_relative [OF assms] by simp_all
  have "cd DOTDOT s1 = (s, True)" if "length xs = 1"
  proof -
    from that obtain x where x: "xs = [x]" by (auto simp: length_Suc_conv)
    obtain v where v: "vfs s = Some v" "st_cwd_path v = SLASH # join parts" "walk_plain (fs s) (root_cluster (fs s)) parts = Some (st_cwd_cluster v)"
      using assms(1) by (auto simp: located_def)
    obtain c where c: "cd DOTDOT s1 = (s1\<lparr>vfs := Some \<lparr>st_cwd_cluster = c, st_cwd_path = SLASH # join parts\<rparr>\<rparr>, True)"
        "walk_plain (fs s1) (root_cluster (fs s1)) parts = Some c"
      using cd_up_located [of s1 parts x] l(1) x by auto
    have "c = st_cwd_cluster v" using c(2) v(3) l(2) by simp
    then have "\<lparr>st_cwd_cluster = c, st_cwd_path = SLASH # join parts\<rparr> = v" using v(2) by (cases v) simp
    moreover have "s1\<lparr>vfs := Some v\<rparr> = s" using l(2) v(1) by (cases s, cases s1) simp
    ultimately show ?thesis using c(1) by simp
  qed
  then show ?thesis using l by blast
qed




definition small_storage :: "Fs \<Rightarrow> Storage" where
  "small_storage f = vfs_init \<lparr>fs = f, vfs = None\<rparr>"

lemma small_storage_sel: "fs (small_storage f) = f" "vfs (small_storage f) = Some \<lparr>st_cwd_cluster = root_cluster f, st_cwd_path = [SLASH]\<rparr>"
  by (simp_all add: small_storage_def vfs_init_def)


theorem cd_round_trip_witness:
  "\<exists>s1. cd [0x61] (small_storage (file_fs ATTR_DIRECTORY)) = (s1, True) \<and> cwd s1 = [0x2F, 0x61] \<and> cwd_cluster s1 = 3 \<and>
    cd DOTDOT s1 = (small_storage (file_fs ATTR_DIRECTORY), True)"
proof -
  let ?s = "small_storage (file_fs ATTR_DIRECTORY)"
  have l: "located ?s []" unfolding small_storage_def by (rule located_init)
  have pl: "\<forall>x \<in> set [[0x61]]. plain_component x" by (simp add: plain_component_def SLASH_def DOT_def DOTDOT_def)
  have r: "root_cluster (file_fs ATTR_DIRECTORY) = 2" by (simp add: root_cluster_def file_sel) (simp add: small_st_def)
  have e: "de_is_dir (file_entry ATTR_DIRECTORY)" by (simp add: file_entry_def)
  have c: "components [0x61] = [[0x61]]" by (simp add: components_def SLASH_def)
  let ?s1 = "?s\<lparr>vfs := Some \<lparr>st_cwd_cluster = 3, st_cwd_path = [0x2F, 0x61]\<rparr>\<rparr>"
  have s1: "cd [0x61] ?s = (?s1, True)"
    using file_found [of ATTR_DIRECTORY] e r
    by (simp add: cd_def resolve_path_def parse_path_def c is_absolute_def cwd_cluster_def small_storage_sel file_sel SLASH_def DOT_def DOTDOT_def)
  have "cd DOTDOT ?s1 = (?s, True)" using cd_round_trip [OF l _ pl, of ?s1] s1 by simp
  then show ?thesis using s1 by (intro exI [of _ ?s1]) (simp add: cwd_def cwd_cluster_def)
qed

end
