(* ===== verification/Fifo.thy ===== *)
theory Fifo
  imports Prelude
begin

text \<open>
  The contracts of the kernel's ring buffers. The keyboard, the mouse, the network driver and the
  logger each keep a fixed array with wrapping indices; they differ in what happens when it is full:
  the keyboard and the network queue drop the newest element, the mouse buffer and the log overwrite the oldest.
  \<^verbatim>\<open>ring_abs\<close> reads a ring as the list of its elements, oldest first, with one lemma for each thing
  the buffers do to the array; the locales state the contracts and carry what follows from them for
  sequences of operations. The buffers are shown to meet them in their own theories.
\<close>

subsection \<open>Rings\<close>

definition ring_abs :: "nat \<Rightarrow> 'a list \<Rightarrow> nat \<Rightarrow> nat \<Rightarrow> 'a list" where
  "ring_abs N xs h n = map (\<lambda>i. xs ! ((h + i) mod N)) [0..<n]"

lemma length_ring_abs [simp]: "length (ring_abs N xs h n) = n"
  by (simp add: ring_abs_def)

lemma ring_abs_0 [simp]: "ring_abs N xs h 0 = []"
  by (simp add: ring_abs_def)

lemma ring_abs_eq_Nil [simp]: "ring_abs N xs h n = [] \<longleftrightarrow> n = 0"
  by (simp add: ring_abs_def)

lemma ring_abs_push:
  assumes "length xs = N" "n < N"
  shows "ring_abs N (xs[(h + n) mod N := e]) h (Suc n) = ring_abs N xs h n @ [e]"
proof -
  have "(h + n) mod N < N" using assms(2) by simp
  moreover have "(h + n) mod N \<noteq> (h + i) mod N" if "i < n" for i
    using add_mod_inj [of i N n h] that assms(2) by simp
  ultimately show ?thesis using assms(1) by (auto simp: ring_abs_def)
qed

lemma ring_abs_pop:
  assumes "h < N" "0 < n"
  shows "ring_abs N xs h n = xs ! h # ring_abs N xs (Suc h mod N) (n - 1)"
proof -
  obtain m where n: "n = Suc m" using assms(2) gr0_implies_Suc by blast
  have "(Suc h mod N + i) mod N = (h + Suc i) mod N" for i
    by (metis add_Suc_shift mod_add_left_eq)
  then show ?thesis using assms(1) by (simp add: ring_abs_def n map_upt_Suc del: upt_Suc)
qed

lemma ring_abs_overwrite:
  assumes "length xs = N" "h < N"
  shows "ring_abs N (xs[h := e]) (Suc h mod N) N = tl (ring_abs N xs h N) @ [e]"
proof -
  obtain m where N: "N = Suc m" using assms(2) by (cases N) auto
  have w: "(Suc h mod N + m) mod N = h"
  proof -
    have "(Suc h mod N + m) mod N = (h + N) mod N" by (simp add: N mod_add_left_eq del: mod_add_self2)
    then show ?thesis using assms(2) by simp
  qed
  have "ring_abs N (xs[h := e]) (Suc h mod N) N = ring_abs N xs (Suc h mod N) m @ [e]"
    using ring_abs_push [of xs N m "Suc h mod N" e] assms(1) w N by simp
  then show ?thesis using ring_abs_pop [of h N N xs] assms(2) N by simp
qed

lemma map2_update: "map2 f (xs[i := a]) (ys[i := b]) = (map2 f xs ys)[i := f a b]"
  using update_zip [of xs ys i "(a, b)"] map_update [of "\<lambda>(x, y). f x y" "zip xs ys" i "(a, b)"] by simp


subsection \<open>Contracts\<close>

text \<open>A queue read from its old end.\<close>

locale fifo =
  fixes qinv :: "'q \<Rightarrow> bool"
    and qabs :: "'q \<Rightarrow> 'a list"
    and pop :: "'q \<Rightarrow> 'q \<times> 'a option"
    and cap :: nat
  assumes pop_inv: "qinv q \<Longrightarrow> qinv (fst (pop q))"
    and pop_abs: "qinv q \<Longrightarrow> qabs (fst (pop q)) = tl (qabs q)"
    and pop_res: "qinv q \<Longrightarrow> snd (pop q) = (case qabs q of [] \<Rightarrow> None | x # r \<Rightarrow> Some x)"
    and bounded: "qinv q \<Longrightarrow> length (qabs q) \<le> cap"
begin

lemma pops: "qinv q \<Longrightarrow> qinv (((\<lambda>q. fst (pop q)) ^^ k) q) \<and> qabs (((\<lambda>q. fst (pop q)) ^^ k) q) = drop k (qabs q)"
  by (induction k) (simp_all add: pop_inv pop_abs drop_Suc tl_drop)

lemma drained: "qinv q \<Longrightarrow> snd (pop (((\<lambda>q. fst (pop q)) ^^ cap) q)) = None"
  using pops [of q cap] bounded [of q] pop_res by simp

end

text \<open>A full queue refuses the new element.\<close>

locale drop_newest = fifo qinv qabs pop cap
  for qinv :: "'q \<Rightarrow> bool" and qabs :: "'q \<Rightarrow> 'a list" and pop :: "'q \<Rightarrow> 'q \<times> 'a option" and cap :: nat +
  fixes push :: "'b \<Rightarrow> 'q \<Rightarrow> 'q"
    and view :: "'b \<Rightarrow> 'a"
  assumes push_inv: "qinv q \<Longrightarrow> qinv (push x q)"
    and push_abs: "qinv q \<Longrightarrow> qabs (push x q) = take cap (qabs q @ [view x])"
begin

lemma pushes:
  assumes "qinv q"
  shows "qinv (fold push xs q) \<and> qabs (fold push xs q) = take cap (qabs q @ map view xs)"
  using assms
proof (induction xs arbitrary: q)
  case (Cons x xs)
  have "take cap (take cap (qabs q @ [view x]) @ ys) = take cap (qabs q @ view x # ys)" for ys
    by (cases "length (qabs q) < cap") (simp_all add: not_less)
  then show ?case using Cons.IH [OF push_inv] push_abs Cons.prems by simp
qed (use bounded in simp_all)

end

text \<open>A full buffer gives up the oldest element.\<close>

definition lastn :: "nat \<Rightarrow> 'a list \<Rightarrow> 'a list" where
  "lastn n xs = drop (length xs - n) xs"

lemma lastn_all [simp]: "length xs \<le> n \<Longrightarrow> lastn n xs = xs"
  by (simp add: lastn_def)

lemma lastn_snoc_full: "length xs = n \<Longrightarrow> xs \<noteq> [] \<Longrightarrow> lastn n (xs @ [x]) = tl xs @ [x]"
  by (cases xs) (auto simp: lastn_def)

lemma lastn_append_lastn: "lastn n (lastn n xs @ ys) = lastn n (xs @ ys)"
  by (cases "length xs \<le> n") (auto simp: lastn_def add.commute)

locale keep_newest =
  fixes qinv :: "'q \<Rightarrow> bool"
    and qabs :: "'q \<Rightarrow> 'c list"
    and cap :: nat
    and push :: "'b \<Rightarrow> 'q \<Rightarrow> 'q"
    and view :: "'b \<Rightarrow> 'c"
  assumes push_inv: "qinv q \<Longrightarrow> qinv (push x q)"
    and push_abs: "qinv q \<Longrightarrow> qabs (push x q) = lastn cap (qabs q @ [view x])"
    and bounded: "qinv q \<Longrightarrow> length (qabs q) \<le> cap"
begin

lemma pushes:
  assumes "qinv q"
  shows "qinv (fold push xs q) \<and> qabs (fold push xs q) = lastn cap (qabs q @ map view xs)"
  using assms
proof (induction xs arbitrary: q)
  case (Cons x xs)
  then show ?case using Cons.IH [OF push_inv] push_abs lastn_append_lastn [of cap "qabs q @ [view x]"] by simp
qed (use bounded in simp_all)

end

end
