(* ===== verification/Net_Device.thy ===== *)
theory Net_Device
  imports Fifo
begin

text \<open>
  The network device as the stack sees it, \<^verbatim>\<open>kernel/src/hal/virtio_net.rs\<close>: the software receive
  queue with its ring of 32 slots, \<^verbatim>\<open>poll_rx\<close> from the used ring into that queue,
  \<^verbatim>\<open>recv_frame\<close> and \<^verbatim>\<open>send_frame\<close>. What the used ring holds at each poll is the sequence
  \<^verbatim>\<open>wire\<close> of raw buffers, a header of ten bytes and a frame each; what was handed to the device is
  \<^verbatim>\<open>tx\<close>. The descriptor rings are not part of this model: a request is its outcome.
\<close>

type_synonym frame = "u8 list"

definition MAX_FRAME_SIZE :: nat where
  "MAX_FRAME_SIZE = 1514"

definition VIRTIO_NET_HDR_SIZE :: nat where
  "VIRTIO_NET_HDR_SIZE = 10"

definition RX_QUEUE_CAPACITY :: nat where
  "RX_QUEUE_CAPACITY = 32"

record RxQueue =
  packets :: "frame list"
  lengths :: "nat list"
  rx_head :: nat
  rx_tail :: nat
  rx_count :: nat

definition rx_new :: RxQueue where
  "rx_new = \<lparr>packets = replicate RX_QUEUE_CAPACITY (replicate MAX_FRAME_SIZE 0),
     lengths = replicate RX_QUEUE_CAPACITY 0, rx_head = 0, rx_tail = 0, rx_count = 0\<rparr>"

definition rx_push :: "frame \<Rightarrow> RxQueue \<Rightarrow> RxQueue \<times> bool" where
  "rx_push data q =
     (if rx_count q \<ge> RX_QUEUE_CAPACITY then (q, False)
      else let len = min (length data) MAX_FRAME_SIZE
           in (q\<lparr>packets := (packets q)[rx_tail q := take len data @ drop len (packets q ! rx_tail q)],
                 lengths := (lengths q)[rx_tail q := len],
                 rx_tail := (rx_tail q + 1) mod RX_QUEUE_CAPACITY,
                 rx_count := rx_count q + 1\<rparr>, True))"

text \<open>\<^verbatim>\<open>pop\<close> into a buffer of \<^verbatim>\<open>n\<close> bytes; the result is the part of the buffer that was written.\<close>

definition rx_pop :: "nat \<Rightarrow> RxQueue \<Rightarrow> RxQueue \<times> frame option" where
  "rx_pop n q =
     (if rx_count q = 0 then (q, None)
      else let len = lengths q ! rx_head q; copy_len = min len n
           in (q\<lparr>rx_head := (rx_head q + 1) mod RX_QUEUE_CAPACITY, rx_count := rx_count q - 1\<rparr>,
               Some (take copy_len (packets q ! rx_head q))))"

record NetDev =
  nd_available :: bool
  mac_addr :: "u8 list"
  rxq :: RxQueue
  wire :: "nat \<Rightarrow> frame list"
  polls :: nat
  tx :: "frame list"

definition send_frame :: "frame \<Rightarrow> NetDev \<Rightarrow> NetDev \<times> bool" where
  "send_frame fr d =
     (if \<not> nd_available d then (d, False)
      else if length fr > MAX_FRAME_SIZE then (d, False)
      else (d\<lparr>tx := tx d @ [fr]\<rparr>, True))"

definition rx_one :: "frame \<Rightarrow> RxQueue \<Rightarrow> RxQueue" where
  "rx_one raw q =
     (if length raw > VIRTIO_NET_HDR_SIZE
      then fst (rx_push (take (min (length raw - VIRTIO_NET_HDR_SIZE) MAX_FRAME_SIZE) (drop VIRTIO_NET_HDR_SIZE raw)) q)
      else q)"

definition poll_rx :: "NetDev \<Rightarrow> NetDev" where
  "poll_rx d =
     (if \<not> nd_available d then d
      else d\<lparr>rxq := fold rx_one (wire d (polls d)) (rxq d), polls := polls d + 1\<rparr>)"

definition recv_frame :: "nat \<Rightarrow> NetDev \<Rightarrow> NetDev \<times> frame option" where
  "recv_frame n d = (case rx_pop n (rxq d) of (q, r) \<Rightarrow> (d\<lparr>rxq := q\<rparr>, r))"


subsection \<open>The receive queue is a bounded FIFO\<close>

definition rx_inv :: "RxQueue \<Rightarrow> bool" where
  "rx_inv q \<longleftrightarrow> length (packets q) = RX_QUEUE_CAPACITY \<and> length (lengths q) = RX_QUEUE_CAPACITY \<and>
     (\<forall>p \<in> set (packets q). length p = MAX_FRAME_SIZE) \<and> (\<forall>l \<in> set (lengths q). l \<le> MAX_FRAME_SIZE) \<and>
     rx_head q < RX_QUEUE_CAPACITY \<and> rx_count q \<le> RX_QUEUE_CAPACITY \<and>
     rx_tail q = (rx_head q + rx_count q) mod RX_QUEUE_CAPACITY"

text \<open>The frames queued, oldest first.\<close>

definition rx_slots :: "RxQueue \<Rightarrow> frame list" where
  "rx_slots q = map2 take (lengths q) (packets q)"

definition rx_abs :: "RxQueue \<Rightarrow> frame list" where
  "rx_abs q = ring_abs RX_QUEUE_CAPACITY (rx_slots q) (rx_head q) (rx_count q)"

lemma length_rx_abs [simp]: "length (rx_abs q) = rx_count q"
  by (simp add: rx_abs_def)

lemma rx_new_abs: "rx_inv rx_new" "rx_abs rx_new = []"
  by (simp_all add: rx_inv_def rx_new_def rx_abs_def RX_QUEUE_CAPACITY_def)

lemma RX_QUEUE_CAPACITY_pos [simp]: "0 < RX_QUEUE_CAPACITY"
  by (simp add: RX_QUEUE_CAPACITY_def)

lemma rx_push_slots:
  assumes "rx_inv q" "rx_count q < RX_QUEUE_CAPACITY"
  shows "rx_slots (fst (rx_push data q)) = (rx_slots q)[rx_tail q := take MAX_FRAME_SIZE data]"
proof -
  have "take (min (length data) MAX_FRAME_SIZE) (take (min (length data) MAX_FRAME_SIZE) data @ r) = take MAX_FRAME_SIZE data" for r
    by (simp add: min_def)
  then show ?thesis
    using assms(2) by (auto simp: rx_slots_def rx_push_def Let_def map2_update)
qed

lemma rx_push_abs:
  assumes "rx_inv q"
  shows "rx_inv (fst (rx_push data q))"
    "rx_abs (fst (rx_push data q)) = (if length (rx_abs q) < RX_QUEUE_CAPACITY then rx_abs q @ [take MAX_FRAME_SIZE data] else rx_abs q)"
    "snd (rx_push data q) \<longleftrightarrow> length (rx_abs q) < RX_QUEUE_CAPACITY"
proof -
  let ?C = RX_QUEUE_CAPACITY and ?t = "rx_tail q"
  have I: "length (packets q) = ?C" "length (lengths q) = ?C" "?t = (rx_head q + rx_count q) mod ?C"
    "\<forall>p \<in> set (packets q). length p = MAX_FRAME_SIZE" "\<forall>l \<in> set (lengths q). l \<le> MAX_FRAME_SIZE"
    using assms by (simp_all add: rx_inv_def)
  have t: "?t < ?C" using I(3) by simp
  show "snd (rx_push data q) \<longleftrightarrow> length (rx_abs q) < ?C" by (simp add: rx_push_def Let_def)
  let ?len = "min (length data) MAX_FRAME_SIZE"
  have "length (take ?len data @ drop ?len (packets q ! ?t)) = MAX_FRAME_SIZE" using I(1,4) t by simp
  then show "rx_inv (fst (rx_push data q))"
    using I t assms
    by (auto simp: rx_push_def Let_def rx_inv_def mod_Suc_eq dest!: set_update_subset_insert [THEN subsetD])
  have "rx_abs (fst (rx_push data q)) = rx_abs q @ [take MAX_FRAME_SIZE data]" if c: "rx_count q < ?C"
  proof -
    have "rx_head (fst (rx_push data q)) = rx_head q" "rx_count (fst (rx_push data q)) = Suc (rx_count q)"
      using c by (simp_all add: rx_push_def Let_def)
    then show ?thesis
      using ring_abs_push [of "rx_slots q" ?C "rx_count q" "rx_head q"] rx_push_slots [OF assms c] I(1,2,3) c
      by (simp add: rx_abs_def rx_slots_def)
  qed
  then show "rx_abs (fst (rx_push data q)) = (if length (rx_abs q) < ?C then rx_abs q @ [take MAX_FRAME_SIZE data] else rx_abs q)"
    by (auto simp: rx_push_def)
qed

lemma rx_pop_abs:
  assumes "rx_inv q"
  shows "rx_inv (fst (rx_pop n q))"
    "snd (rx_pop n q) = (case rx_abs q of [] \<Rightarrow> None | fr # r \<Rightarrow> Some (take n fr))"
    "rx_abs (fst (rx_pop n q)) = tl (rx_abs q)"
proof -
  let ?C = RX_QUEUE_CAPACITY
  have I: "rx_head q < ?C" "length (packets q) = ?C" "length (lengths q) = ?C" using assms by (simp_all add: rx_inv_def)
  have "(Suc (rx_head q) mod ?C + c) mod ?C = (rx_head q + Suc c) mod ?C" for c
    by (metis add_Suc_shift mod_add_left_eq)
  then show "rx_inv (fst (rx_pop n q))"
    using assms by (cases "rx_count q") (simp_all add: rx_pop_def Let_def rx_inv_def)
  have head: "rx_abs q = rx_slots q ! rx_head q # ring_abs ?C (rx_slots q) (Suc (rx_head q) mod ?C) (rx_count q - 1)" if "0 < rx_count q"
    using ring_abs_pop [OF I(1) that] by (simp add: rx_abs_def)
  have slot: "rx_slots q ! rx_head q = take (lengths q ! rx_head q) (packets q ! rx_head q)"
    using I by (simp add: rx_slots_def)
  show "snd (rx_pop n q) = (case rx_abs q of [] \<Rightarrow> None | fr # r \<Rightarrow> Some (take n fr))"
    by (cases "rx_count q = 0") (simp_all add: rx_pop_def Let_def head slot min.commute, simp add: rx_abs_def)
  show "rx_abs (fst (rx_pop n q)) = tl (rx_abs q)"
    by (cases "rx_count q = 0") (simp_all add: rx_pop_def Let_def head, simp_all add: rx_abs_def rx_slots_def)
qed

lemma rx_abs_short: "rx_inv q \<Longrightarrow> fr \<in> set (rx_abs q) \<Longrightarrow> length fr \<le> MAX_FRAME_SIZE"
  by (auto simp: rx_abs_def ring_abs_def rx_slots_def rx_inv_def)

text \<open>What the stack relies on: a bounded first-in first-out queue of frames that drops what does not fit.\<close>

interpretation rx: drop_newest rx_inv rx_abs "rx_pop MAX_FRAME_SIZE" RX_QUEUE_CAPACITY "\<lambda>fr q. fst (rx_push fr q)" "take MAX_FRAME_SIZE"
proof
  fix q fr assume q: "rx_inv q"
  note P = rx_push_abs [OF q] and O = rx_pop_abs [OF q]
  show "rx_inv (fst (rx_push fr q))" "rx_inv (fst (rx_pop MAX_FRAME_SIZE q))" by (rule P(1), rule O(1))
  show b: "length (rx_abs q) \<le> RX_QUEUE_CAPACITY" using q by (simp add: rx_inv_def)
  show "rx_abs (fst (rx_push fr q)) = take RX_QUEUE_CAPACITY (rx_abs q @ [take MAX_FRAME_SIZE fr])"
    using P(2) b by simp
  show "rx_abs (fst (rx_pop MAX_FRAME_SIZE q)) = tl (rx_abs q)" by (rule O(3))
  show "snd (rx_pop MAX_FRAME_SIZE q) = (case rx_abs q of [] \<Rightarrow> None | x # r \<Rightarrow> Some x)"
    using O(2) [of MAX_FRAME_SIZE] rx_abs_short [OF q] by (auto split: list.splits)
qed

text \<open>The frames a poll takes from the used ring.\<close>

definition wire_frames :: "frame list \<Rightarrow> frame list" where
  "wire_frames raws = map (\<lambda>raw. take MAX_FRAME_SIZE (drop VIRTIO_NET_HDR_SIZE raw)) (filter (\<lambda>raw. VIRTIO_NET_HDR_SIZE < length raw) raws)"

lemma rx_one_fold: "fold rx_one raws q = fold (\<lambda>fr q. fst (rx_push fr q)) (wire_frames raws) q"
proof (induction raws arbitrary: q)
  case (Cons raw raws)
  have "take (min (length raw - VIRTIO_NET_HDR_SIZE) MAX_FRAME_SIZE) (drop VIRTIO_NET_HDR_SIZE raw)
      = take MAX_FRAME_SIZE (drop VIRTIO_NET_HDR_SIZE raw)" by (simp add: min_def)
  then show ?case using Cons by (simp add: rx_one_def wire_frames_def)
qed (simp add: wire_frames_def)

lemma poll_rx_abs:
  assumes "rx_inv (rxq d)" "nd_available d"
  shows "rx_inv (rxq (poll_rx d))" "rx_abs (rxq (poll_rx d)) = take RX_QUEUE_CAPACITY (rx_abs (rxq d) @ wire_frames (wire d (polls d)))"
proof -
  have w: "map (take MAX_FRAME_SIZE) (wire_frames raws) = wire_frames raws" for raws by (simp add: wire_frames_def)
  show "rx_inv (rxq (poll_rx d))" "rx_abs (rxq (poll_rx d)) = take RX_QUEUE_CAPACITY (rx_abs (rxq d) @ wire_frames (wire d (polls d)))"
    using rx.pushes [OF assms(1), of "wire_frames (wire d (polls d))"] w assms(2) by (simp_all add: poll_rx_def rx_one_fold)
qed



subsection \<open>Receiving\<close>

lemma recv_frame_rxq: "rxq (fst (recv_frame n d)) = fst (rx_pop n (rxq d))" "snd (recv_frame n d) = snd (rx_pop n (rxq d))"
  by (simp_all add: recv_frame_def split: prod.splits)

lemma recv_frames_abs:
  "rx_inv (rxq d) \<Longrightarrow> rx_inv (rxq (((\<lambda>d. fst (recv_frame n d)) ^^ k) d)) \<and>
    rx_abs (rxq (((\<lambda>d. fst (recv_frame n d)) ^^ k) d)) = drop k (rx_abs (rxq d))"
  by (induction k) (simp_all add: recv_frame_rxq rx_pop_abs drop_Suc tl_drop)

text \<open>
  C28: the receive path refines a bounded first-in first-out queue. After a poll of the device the
  \<^verbatim>\<open>k\<close>-th call of \<^verbatim>\<open>recv_frame\<close> with a buffer of at least 1514 bytes returns the \<^verbatim>\<open>k\<close>-th
  of the frames that were queued before, followed by those the poll found on the used ring (without
  their virtio header, cut at 1514 bytes), of which the first 32 are kept; after them it returns nothing.
\<close>

theorem receive_in_order:
  assumes "rx_inv (rxq d)" "nd_available d" "MAX_FRAME_SIZE \<le> n"
  defines "q \<equiv> take RX_QUEUE_CAPACITY (rx_abs (rxq d) @ wire_frames (wire d (polls d)))"
  shows "snd (recv_frame n (((\<lambda>d. fst (recv_frame n d)) ^^ k) (poll_rx d))) = (if k < length q then Some (q ! k) else None)"
proof -
  note P = poll_rx_abs [OF assms(1,2)]
  let ?d = "((\<lambda>d. fst (recv_frame n d)) ^^ k) (poll_rx d)"
  have I: "rx_inv (rxq ?d)" "rx_abs (rxq ?d) = drop k q" using recv_frames_abs [OF P(1)] P(2) by (simp_all add: q_def)
  have "take n (q ! k) = q ! k" if "k < length q"
    using rx_abs_short [OF P(1), of "q ! k"] P(2) [folded q_def] nth_mem [OF that] assms(3) by simp
  then show ?thesis
    using rx_pop_abs(2) [OF I(1), of n] I(2) by (cases "k < length q") (simp_all add: recv_frame_rxq Cons_nth_drop_Suc [symmetric])
qed

theorem receive_in_order_witness:
  "snd (recv_frame 2048 (((\<lambda>d. fst (recv_frame 2048 d)) ^^ 1) (poll_rx \<lparr>nd_available = True, mac_addr = [], rxq = rx_new,
     wire = (\<lambda>_. [replicate 10 0 @ [1, 2], replicate 9 0, replicate 10 0 @ [3]]), polls = 0, tx = []\<rparr>))) = Some [3]"
  using receive_in_order [of "\<lparr>nd_available = True, mac_addr = [], rxq = rx_new,
     wire = (\<lambda>_. [replicate 10 0 @ [1, 2], replicate 9 0, replicate 10 0 @ [3]]), polls = 0, tx = []\<rparr>" 2048 1]
  by (simp add: rx_new_abs MAX_FRAME_SIZE_def RX_QUEUE_CAPACITY_def wire_frames_def VIRTIO_NET_HDR_SIZE_def)

end
