(* ===== verification/Net.thy ===== *)
theory Net
  imports Net_Device
begin

unbundle bit_operations_syntax

text \<open>
  The network stack, \<^verbatim>\<open>kernel/src/net\<close>: configuration and statistics (\<^verbatim>\<open>mod.rs\<close>), Ethernet
  frames, the ARP cache and its packets, IPv4 with the Internet checksum, ICMP echo and UDP sockets.
  The statics of the modules are the fields of one \<^verbatim>\<open>Net\<close>. Addresses are byte lists.

  Handling a frame can send one, sending resolves an address, and resolving polls for frames, so
  \<^verbatim>\<open>poll\<close> is reached from itself. The functions on that cycle take the inner \<^verbatim>\<open>poll\<close> as
  an argument, and \<^verbatim>\<open>poll\<close> counts the depth. \<^verbatim>\<open>Panic\<close> is a panic of the kernel;
  \<^verbatim>\<open>Stuck\<close> is a run that the given depth and number of turns do not finish. The timer tick is a
  sequence of readings.
\<close>


subsection \<open>State\<close>

type_synonym ip_addr = "u8 list"
type_synonym mac = "u8 list"

record NetConfig =
  ip :: ip_addr
  netmask :: ip_addr
  gateway :: ip_addr
  mac :: mac

definition config_new :: NetConfig where
  "config_new = \<lparr>ip = [10, 0, 2, 15], netmask = [255, 255, 255, 0], gateway = [10, 0, 2, 2], mac = replicate 6 0\<rparr>"

record NetStats =
  tx_packets :: u64
  rx_packets :: u64
  tx_bytes :: u64
  rx_bytes :: u64
  arp_requests :: u64
  arp_replies :: u64
  icmp_sent :: u64
  icmp_received :: u64
  udp_sent :: u64
  udp_received :: u64

definition stats_new :: NetStats where
  "stats_new = \<lparr>tx_packets = 0, rx_packets = 0, tx_bytes = 0, rx_bytes = 0, arp_requests = 0, arp_replies = 0,
     icmp_sent = 0, icmp_received = 0, udp_sent = 0, udp_received = 0\<rparr>"

record ArpEntry =
  ae_ip :: ip_addr
  ae_mac :: mac
  ae_valid :: bool

record PingReply =
  pr_src_ip :: ip_addr
  pr_seq :: u16
  pr_id :: u16
  pr_data_len :: nat
  pr_ttl :: u8

record UdpDatagram =
  dg_src_ip :: ip_addr
  dg_src_port :: u16
  dg_dst_port :: u16
  dg_data :: "u8 list"

record Net =
  cfg :: NetConfig
  net_up :: bool
  net_stats :: NetStats
  arp_cache :: "ArpEntry list"
  ip_id :: u16
  icmp_seq :: u16
  ping_reply :: "PingReply option"
  sockets :: "u16 \<rightharpoonup> UdpDatagram list"
  ndev :: NetDev
  clk :: "nat \<Rightarrow> u64"
  reads :: nat
  tick_rate :: u32

datatype 'a run = Ret 'a | Panic | Stuck

fun bind :: "'a run \<Rightarrow> ('a \<Rightarrow> 'b run) \<Rightarrow> 'b run" where
  "bind (Ret x) k = k x"
| "bind Panic k = Panic"
| "bind Stuck k = Stuck"

definition net_init :: "Net \<Rightarrow> Net" where
  "net_init s =
     (if \<not> nd_available (ndev s) then s
      else s\<lparr>cfg := (cfg s)\<lparr>mac := mac_addr (ndev s)\<rparr>, net_up := True\<rparr>)"

definition set_ip :: "ip_addr \<Rightarrow> Net \<Rightarrow> Net" where
  "set_ip a s = s\<lparr>cfg := (cfg s)\<lparr>ip := a\<rparr>\<rparr>"

definition set_gateway :: "ip_addr \<Rightarrow> Net \<Rightarrow> Net" where
  "set_gateway gw s = s\<lparr>cfg := (cfg s)\<lparr>gateway := gw\<rparr>\<rparr>"

definition set_netmask :: "ip_addr \<Rightarrow> Net \<Rightarrow> Net" where
  "set_netmask m s = s\<lparr>cfg := (cfg s)\<lparr>netmask := m\<rparr>\<rparr>"

definition stat_tx :: "nat \<Rightarrow> Net \<Rightarrow> Net" where
  "stat_tx n s = s\<lparr>net_stats := (net_stats s)\<lparr>tx_packets := tx_packets (net_stats s) + 1, tx_bytes := tx_bytes (net_stats s) + of_nat n\<rparr>\<rparr>"

definition stat_rx :: "nat \<Rightarrow> Net \<Rightarrow> Net" where
  "stat_rx n s = s\<lparr>net_stats := (net_stats s)\<lparr>rx_packets := rx_packets (net_stats s) + 1, rx_bytes := rx_bytes (net_stats s) + of_nat n\<rparr>\<rparr>"

text \<open>\<^verbatim>\<open>shell::ticks\<close> and \<^verbatim>\<open>pit::ticks_to_ms\<close>.\<close>

definition ticks :: "Net \<Rightarrow> Net \<times> u64" where
  "ticks s = (s\<lparr>reads := reads s + 1\<rparr>, clk s (reads s))"

definition ticks_to_ms :: "Net \<Rightarrow> u64 \<Rightarrow> u64" where
  "ticks_to_ms s t = (if tick_rate s = 0 then 0 else t * 1000 div ucast (tick_rate s))"


subsection \<open>Ethernet\<close>

datatype EtherType = Ipv4 | Arp | Unknown u16

definition from_u16 :: "u16 \<Rightarrow> EtherType" where
  "from_u16 v = (if v = 0x0800 then Ipv4 else if v = 0x0806 then Arp else Unknown v)"

fun to_u16 :: "EtherType \<Rightarrow> u16" where
  "to_u16 Ipv4 = 0x0800"
| "to_u16 Arp = 0x0806"
| "to_u16 (Unknown v) = v"

record EthernetFrame =
  ef_dst_mac :: mac
  ef_src_mac :: mac
  ef_ethertype :: EtherType
  ef_payload :: "u8 list"

definition eth_parse :: "u8 list \<Rightarrow> EthernetFrame option" where
  "eth_parse data =
     (if length data < 14 then None
      else Some \<lparr>ef_dst_mac = take 6 data, ef_src_mac = take 6 (drop 6 data),
             ef_ethertype = from_u16 (be16 (data ! 12) (data ! 13)), ef_payload = drop 14 data\<rparr>)"

definition build_frame :: "mac \<Rightarrow> mac \<Rightarrow> EtherType \<Rightarrow> u8 list \<Rightarrow> u8 list" where
  "build_frame dst_mac src_mac ethertype payload =
     dst_mac @ src_mac @ [ucast (drop_bit 8 (to_u16 ethertype)), ucast (to_u16 ethertype)] @ payload"

definition BROADCAST_MAC :: mac where
  "BROADCAST_MAC = replicate 6 0xFF"

definition send_raw :: "u8 list \<Rightarrow> Net \<Rightarrow> Net" where
  "send_raw fr s =
     (if \<not> net_up s then s
      else let s = stat_tx (length fr) s in s\<lparr>ndev := fst (send_frame fr (ndev s))\<rparr>)"


subsection \<open>ARP\<close>

definition ARP_HW_ETHERNET :: u16 where "ARP_HW_ETHERNET = 1"
definition ARP_PROTO_IPV4 :: u16 where "ARP_PROTO_IPV4 = 0x0800"
definition ARP_OP_REQUEST :: u16 where "ARP_OP_REQUEST = 1"
definition ARP_OP_REPLY :: u16 where "ARP_OP_REPLY = 2"
definition ARP_CACHE_SIZE :: nat where "ARP_CACHE_SIZE = 64"

definition arp_empty :: ArpEntry where
  "arp_empty = \<lparr>ae_ip = replicate 4 0, ae_mac = replicate 6 0, ae_valid = False\<rparr>"

definition lookup :: "ip_addr \<Rightarrow> ArpEntry list \<Rightarrow> mac option" where
  "lookup a cache = map_option ae_mac (List.find (\<lambda>e. ae_valid e \<and> ae_ip e = a) cache)"

definition arp_insert :: "ip_addr \<Rightarrow> mac \<Rightarrow> ArpEntry list \<Rightarrow> ArpEntry list" where
  "arp_insert a m cache =
     (case List.find (\<lambda>i. ae_valid (cache ! i) \<and> ae_ip (cache ! i) = a) [0..<length cache] of
        Some i \<Rightarrow> cache[i := (cache ! i)\<lparr>ae_mac := m\<rparr>]
      | None \<Rightarrow>
          (case List.find (\<lambda>i. \<not> ae_valid (cache ! i)) [0..<length cache] of
             Some i \<Rightarrow> cache[i := \<lparr>ae_ip = a, ae_mac = m, ae_valid = True\<rparr>]
           | None \<Rightarrow> cache[0 := \<lparr>ae_ip = a, ae_mac = m, ae_valid = True\<rparr>]))"

definition get_cache :: "Net \<Rightarrow> ArpEntry list" where
  "get_cache s = filter ae_valid (arp_cache s)"

text \<open>The 28 bytes of a packet for Ethernet and IPv4.\<close>

definition arp_packet :: "u16 \<Rightarrow> mac \<Rightarrow> ip_addr \<Rightarrow> mac \<Rightarrow> ip_addr \<Rightarrow> u8 list" where
  "arp_packet op smac sip tmac tip =
     be16_bytes ARP_HW_ETHERNET @ be16_bytes ARP_PROTO_IPV4 @ [6, 4] @ be16_bytes op @ smac @ sip @ tmac @ tip"

definition send_reply :: "mac \<Rightarrow> ip_addr \<Rightarrow> mac \<Rightarrow> ip_addr \<Rightarrow> Net \<Rightarrow> Net" where
  "send_reply dst_mac dst_ip src_mac src_ip s =
     send_raw (build_frame dst_mac src_mac Arp (arp_packet ARP_OP_REPLY src_mac src_ip dst_mac dst_ip)) s"

definition send_request :: "ip_addr \<Rightarrow> Net \<Rightarrow> Net" where
  "send_request target_ip s =
     send_raw (build_frame BROADCAST_MAC (mac (cfg s)) Arp
       (arp_packet ARP_OP_REQUEST (mac (cfg s)) (ip (cfg s)) (replicate 6 0) target_ip)) s"

definition process_arp :: "u8 list \<Rightarrow> Net \<Rightarrow> Net" where
  "process_arp p s =
     (if length p < 28 then s
      else let operation = be16 (p ! 6) (p ! 7)
           in if be16 (p ! 0) (p ! 1) \<noteq> ARP_HW_ETHERNET \<or> be16 (p ! 2) (p ! 3) \<noteq> ARP_PROTO_IPV4 \<or> p ! 4 \<noteq> 6 \<or> p ! 5 \<noteq> 4 then s
              else let sender_mac = take 6 (drop 8 p); sender_ip = take 4 (drop 14 p); target_ip = take 4 (drop 24 p);
                       s = s\<lparr>arp_cache := arp_insert sender_ip sender_mac (arp_cache s)\<rparr>
                   in if operation = ARP_OP_REQUEST
                      then let s = s\<lparr>net_stats := (net_stats s)\<lparr>arp_requests := arp_requests (net_stats s) + 1\<rparr>\<rparr>
                           in if target_ip = ip (cfg s) then send_reply sender_mac sender_ip (mac (cfg s)) (ip (cfg s)) s else s
                      else if operation = ARP_OP_REPLY
                      then s\<lparr>net_stats := (net_stats s)\<lparr>arp_replies := arp_replies (net_stats s) + 1\<rparr>\<rparr>
                      else s)"

definition resolve :: "ip_addr \<Rightarrow> Net \<Rightarrow> Net \<times> mac option" where
  "resolve a s = (case lookup a (arp_cache s) of Some m \<Rightarrow> (s, Some m) | None \<Rightarrow> (send_request a s, None))"

text \<open>The polling loop of \<^verbatim>\<open>resolve_blocking\<close>, for at most \<^verbatim>\<open>n\<close> turns, and its four attempts.\<close>

fun resolve_wait :: "(Net \<Rightarrow> Net run) \<Rightarrow> nat \<Rightarrow> ip_addr \<Rightarrow> u64 \<Rightarrow> Net \<Rightarrow> (Net \<times> mac option) run" where
  "resolve_wait pollf 0 a start s = Stuck"
| "resolve_wait pollf (Suc n) a start s =
     bind (pollf s) (\<lambda>s.
       case lookup a (arp_cache s) of
         Some m \<Rightarrow> Ret (s, Some m)
       | None \<Rightarrow>
           (case ticks s of (s, now) \<Rightarrow>
              if ticks_to_ms s (now - start) > 500 then Ret (s, None) else resolve_wait pollf n a start s))"

fun resolve_attempts :: "(Net \<Rightarrow> Net run) \<Rightarrow> nat \<Rightarrow> nat \<Rightarrow> ip_addr \<Rightarrow> Net \<Rightarrow> (Net \<times> mac option) run" where
  "resolve_attempts pollf n 0 a s = Ret (s, None)"
| "resolve_attempts pollf n (Suc k) a s =
     (case ticks (send_request a s) of (s, start) \<Rightarrow>
        bind (resolve_wait pollf n a start s) (\<lambda>(s, r).
          case r of Some m \<Rightarrow> Ret (s, Some m) | None \<Rightarrow> resolve_attempts pollf n k a s))"

definition resolve_blocking :: "(Net \<Rightarrow> Net run) \<Rightarrow> nat \<Rightarrow> ip_addr \<Rightarrow> Net \<Rightarrow> (Net \<times> mac option) run" where
  "resolve_blocking pollf n a s =
     (case lookup a (arp_cache s) of Some m \<Rightarrow> Ret (s, Some m) | None \<Rightarrow> resolve_attempts pollf n 4 a s)"


subsection \<open>IPv4\<close>

definition PROTO_ICMP :: u8 where "PROTO_ICMP = 1"
definition PROTO_UDP :: u8 where "PROTO_UDP = 17"

fun sum_words :: "u8 list \<Rightarrow> u32 \<Rightarrow> u32" where
  "sum_words (a # b # r) acc = sum_words r (acc + ucast (be16 a b))"
| "sum_words [a] acc = acc + push_bit 8 (ucast a)"
| "sum_words [] acc = acc"

function fold_carry :: "u32 \<Rightarrow> u32" where
  "fold_carry acc = (if drop_bit 16 acc \<noteq> 0 then fold_carry ((acc AND 0xFFFF) + drop_bit 16 acc) else acc)"
  by pat_completeness auto

lemma unat_halves: "unat ((x AND 0xFFFF) + drop_bit 16 x) = unat x mod 65536 + unat x div 65536" for x :: u32
proof -
  have "x AND 0xFFFF = take_bit 16 x" by (simp add: take_bit_eq_mask mask_eq_exp_minus_1)
  then have l: "unat (x AND 0xFFFF) = unat x mod 65536" by (simp add: take_bit_eq_mod unat_mod)
  have h: "unat (drop_bit 16 x) = unat x div 65536" by (simp add: drop_bit_eq_div unat_div)
  have "unat x div 65536 < 65536" using unat_lt2p [of x] by (simp add: less_mult_imp_div_less)
  then have "unat x mod 65536 + unat x div 65536 < 2 ^ 32" by (simp add: order.strict_trans [OF add_strict_mono [of _ 65536 _ 65536]])
  then show ?thesis using unat_add_no_overflow [of "x AND 0xFFFF" "drop_bit 16 x"] l h by simp
qed

termination fold_carry
proof (relation "measure unat")
  fix acc :: u32 assume "drop_bit 16 acc \<noteq> 0"
  then have "unat (drop_bit 16 acc) \<noteq> 0" by (simp add: unsigned_eq_0_iff)
  then have "unat acc div 65536 \<noteq> 0" by (simp add: drop_bit_eq_div unat_div)
  then have "unat acc mod 65536 + unat acc div 65536 < unat acc"
    using div_mult_mod_eq [of "unat acc" 65536] by linarith
  then show "((acc AND 0xFFFF) + drop_bit 16 acc, acc) \<in> measure unat" by (simp only: in_measure unat_halves)
qed simp

declare fold_carry.simps [simp del]

definition checksum :: "u8 list \<Rightarrow> u16" where
  "checksum data = NOT (ucast (fold_carry (sum_words data 0)))"

record Ipv4Packet =
  ipp_src_ip :: ip_addr
  ipp_dst_ip :: ip_addr
  ipp_protocol :: u8
  ipp_ttl :: u8
  ipp_id :: u16
  ipp_header_len :: nat
  ipp_total_len :: nat
  ipp_payload :: "u8 list"

text \<open>\<^verbatim>\<open>Ipv4Packet::parse\<close>; the slice \<^verbatim>\<open>data[header_len..total_len]\<close> panics when its start is above its end.\<close>

definition ipv4_parse :: "u8 list \<Rightarrow> Ipv4Packet option run" where
  "ipv4_parse data =
     (if length data < 20 then Ret None
      else if drop_bit 4 (data ! 0) \<noteq> 4 then Ret None
      else let header_len = unat (data ! 0 AND 0x0F) * 4
           in if header_len < 20 \<or> length data < header_len then Ret None
              else let total_len = unat (be16 (data ! 2) (data ! 3))
                   in if length data < total_len then Ret None
                      else if checksum (take header_len data) \<noteq> 0 then Ret None
                      else if header_len > total_len then Panic
                      else Ret (Some \<lparr>ipp_src_ip = take 4 (drop 12 data), ipp_dst_ip = take 4 (drop 16 data),
                             ipp_protocol = data ! 9, ipp_ttl = data ! 8, ipp_id = be16 (data ! 4) (data ! 5),
                             ipp_header_len = header_len, ipp_total_len = total_len,
                             ipp_payload = take (total_len - header_len) (drop header_len data)\<rparr>))"

text \<open>The bytes of \<^verbatim>\<open>build_packet\<close> with a given identification and checksum field.\<close>

definition ipv4_header :: "nat \<Rightarrow> u16 \<Rightarrow> u8 \<Rightarrow> u16 \<Rightarrow> ip_addr \<Rightarrow> ip_addr \<Rightarrow> u8 list" where
  "ipv4_header total_len idn protocol cksum src_ip dst_ip =
     [0x45, 0x00] @ be16_bytes (of_nat total_len) @ be16_bytes idn @ [0x40, 0x00, 64, protocol] @ be16_bytes cksum @ src_ip @ dst_ip"

definition build_packet :: "ip_addr \<Rightarrow> u8 \<Rightarrow> u8 list \<Rightarrow> Net \<Rightarrow> Net \<times> u8 list" where
  "build_packet dst_ip protocol payload s =
     (let total_len = 20 + length payload; idn = ip_id s;
          cksum = checksum (ipv4_header total_len idn protocol 0 (ip (cfg s)) dst_ip)
      in (s\<lparr>ip_id := ip_id s + 1\<rparr>, ipv4_header total_len idn protocol cksum (ip (cfg s)) dst_ip @ payload))"

definition is_same_subnet :: "ip_addr \<Rightarrow> ip_addr \<Rightarrow> ip_addr \<Rightarrow> bool" where
  "is_same_subnet a b m \<longleftrightarrow> list_all (\<lambda>i. (a ! i) AND (m ! i) = (b ! i) AND (m ! i)) [0..<4]"

definition next_hop :: "NetConfig \<Rightarrow> ip_addr \<Rightarrow> ip_addr" where
  "next_hop c dst_ip = (if is_same_subnet (ip c) dst_ip (netmask c) then dst_ip else gateway c)"

definition ipv4_send :: "(Net \<Rightarrow> Net run) \<Rightarrow> nat \<Rightarrow> ip_addr \<Rightarrow> u8 \<Rightarrow> u8 list \<Rightarrow> Net \<Rightarrow> Net run" where
  "ipv4_send pollf n dst_ip protocol payload s =
     (let c = cfg s
      in case build_packet dst_ip protocol payload s of (s, ip_packet) \<Rightarrow>
           bind (resolve_blocking pollf n (next_hop c dst_ip) s) (\<lambda>(s, r).
             case r of
               None \<Rightarrow> Ret s
             | Some dst_mac \<Rightarrow> Ret (send_raw (build_frame dst_mac (mac c) Ipv4 ip_packet) s)))"


subsection \<open>ICMP\<close>

definition ICMP_ECHO_REPLY :: u8 where "ICMP_ECHO_REPLY = 0"
definition ICMP_ECHO_REQUEST :: u8 where "ICMP_ECHO_REQUEST = 8"

text \<open>A message with its checksum filled in.\<close>

definition icmp_message :: "u8 \<Rightarrow> u8 list \<Rightarrow> u8 list" where
  "icmp_message ty rest = [ty, 0] @ be16_bytes (checksum ([ty, 0, 0, 0] @ rest)) @ rest"

definition send_echo_reply :: "(Net \<Rightarrow> Net run) \<Rightarrow> nat \<Rightarrow> ip_addr \<Rightarrow> u8 list \<Rightarrow> Net \<Rightarrow> Net run" where
  "send_echo_reply pollf n dst_ip request s =
     ipv4_send pollf n dst_ip PROTO_ICMP (icmp_message ICMP_ECHO_REPLY (drop 4 request))
       (s\<lparr>net_stats := (net_stats s)\<lparr>icmp_sent := icmp_sent (net_stats s) + 1\<rparr>\<rparr>)"

definition process_icmp :: "(Net \<Rightarrow> Net run) \<Rightarrow> nat \<Rightarrow> u8 list \<Rightarrow> ip_addr \<Rightarrow> Net \<Rightarrow> Net run" where
  "process_icmp pollf n data src_ip s =
     (if length data < 8 then Ret s
      else if checksum data \<noteq> 0 then Ret s
      else let counted = s\<lparr>net_stats := (net_stats s)\<lparr>icmp_received := icmp_received (net_stats s) + 1\<rparr>\<rparr>
           in if data ! 0 = ICMP_ECHO_REQUEST then send_echo_reply pollf n src_ip data counted
              else if data ! 0 = ICMP_ECHO_REPLY
              then Ret (counted\<lparr>ping_reply := Some \<lparr>pr_src_ip = src_ip, pr_seq = be16 (data ! 6) (data ! 7),
                     pr_id = be16 (data ! 4) (data ! 5), pr_data_len = length data - 8, pr_ttl = 0\<rparr>\<rparr>)
              else Ret s)"

definition send_echo_request :: "(Net \<Rightarrow> Net run) \<Rightarrow> nat \<Rightarrow> ip_addr \<Rightarrow> Net \<Rightarrow> (Net \<times> u16) run" where
  "send_echo_request pollf n dst_ip s =
     (let seq = icmp_seq s;
          icmp = icmp_message ICMP_ECHO_REQUEST (be16_bytes 0xCA05 @ be16_bytes seq @ map of_nat [0..<56]);
          s = s\<lparr>icmp_seq := icmp_seq s + 1, ping_reply := None,
                net_stats := (net_stats s)\<lparr>icmp_sent := icmp_sent (net_stats s) + 1\<rparr>\<rparr>
      in bind (ipv4_send pollf n dst_ip PROTO_ICMP icmp s) (\<lambda>s. Ret (s, seq)))"

definition take_ping_reply :: "Net \<Rightarrow> Net \<times> PingReply option" where
  "take_ping_reply s = (s\<lparr>ping_reply := None\<rparr>, ping_reply s)"

fun ping_wait :: "(Net \<Rightarrow> Net run) \<Rightarrow> nat \<Rightarrow> u64 \<Rightarrow> u64 \<Rightarrow> Net \<Rightarrow> (Net \<times> (u64 \<times> PingReply) option) run" where
  "ping_wait pollf 0 start timeout_ms s = Stuck"
| "ping_wait pollf (Suc n) start timeout_ms s =
     bind (pollf s) (\<lambda>s.
       case take_ping_reply s of (s, r) \<Rightarrow>
       case ticks s of (s, now) \<Rightarrow>
         (case r of
            Some reply \<Rightarrow> Ret (s, Some (ticks_to_ms s (now - start), reply))
          | None \<Rightarrow> if ticks_to_ms s (now - start) > timeout_ms then Ret (s, None) else ping_wait pollf n start timeout_ms s))"

definition ping :: "(Net \<Rightarrow> Net run) \<Rightarrow> nat \<Rightarrow> ip_addr \<Rightarrow> u64 \<Rightarrow> Net \<Rightarrow> (Net \<times> (u64 \<times> PingReply) option) run" where
  "ping pollf n dst_ip timeout_ms s =
     bind (send_echo_request pollf n dst_ip s) (\<lambda>(s, seq).
       case ticks s of (s, start) \<Rightarrow> ping_wait pollf n start timeout_ms s)"


subsection \<open>UDP\<close>

definition MAX_BUFFERED :: nat where "MAX_BUFFERED = 16"

definition udp_bind :: "u16 \<Rightarrow> Net \<Rightarrow> Net" where
  "udp_bind port s = (case sockets s port of Some q \<Rightarrow> s | None \<Rightarrow> s\<lparr>sockets := (sockets s)(port \<mapsto> [])\<rparr>)"

definition unbind :: "u16 \<Rightarrow> Net \<Rightarrow> Net" where
  "unbind port s = s\<lparr>sockets := (sockets s)(port := None)\<rparr>"

definition recv :: "u16 \<Rightarrow> Net \<Rightarrow> Net \<times> UdpDatagram option" where
  "recv port s =
     (case sockets s port of
        Some (dg # q) \<Rightarrow> (s\<lparr>sockets := (sockets s)(port \<mapsto> q)\<rparr>, Some dg)
      | _ \<Rightarrow> (s, None))"

definition udp_message :: "u16 \<Rightarrow> u16 \<Rightarrow> u8 list \<Rightarrow> u8 list" where
  "udp_message src_port dst_port data =
     be16_bytes src_port @ be16_bytes dst_port @ be16_bytes (of_nat (8 + length data)) @ [0, 0] @ data"

definition udp_send :: "(Net \<Rightarrow> Net run) \<Rightarrow> nat \<Rightarrow> ip_addr \<Rightarrow> u16 \<Rightarrow> u16 \<Rightarrow> u8 list \<Rightarrow> Net \<Rightarrow> Net run" where
  "udp_send pollf n dst_ip dst_port src_port data s =
     ipv4_send pollf n dst_ip PROTO_UDP (udp_message src_port dst_port data)
       (s\<lparr>net_stats := (net_stats s)\<lparr>udp_sent := udp_sent (net_stats s) + 1\<rparr>\<rparr>)"

definition process_udp :: "u8 list \<Rightarrow> ip_addr \<Rightarrow> Net \<Rightarrow> Net" where
  "process_udp data src_ip s =
     (if length data < 8 then s
      else let src_port = be16 (data ! 0) (data ! 1); dst_port = be16 (data ! 2) (data ! 3); len = unat (be16 (data ! 4) (data ! 5))
           in if len < 8 \<or> length data < len then s
              else let s = s\<lparr>net_stats := (net_stats s)\<lparr>udp_received := udp_received (net_stats s) + 1\<rparr>\<rparr>;
                       datagram = \<lparr>dg_src_ip = src_ip, dg_src_port = src_port, dg_dst_port = dst_port, dg_data = take (len - 8) (drop 8 data)\<rparr>
                   in case sockets s dst_port of
                        Some q \<Rightarrow> if length q < MAX_BUFFERED then s\<lparr>sockets := (sockets s)(dst_port \<mapsto> q @ [datagram])\<rparr> else s
                      | None \<Rightarrow> s)"


subsection \<open>Receiving\<close>

definition process_ipv4 :: "(Net \<Rightarrow> Net run) \<Rightarrow> nat \<Rightarrow> u8 list \<Rightarrow> Net \<Rightarrow> Net run" where
  "process_ipv4 pollf n data s =
     bind (ipv4_parse data) (\<lambda>r.
       case r of
         None \<Rightarrow> Ret s
       | Some pkt \<Rightarrow>
           if ipp_dst_ip pkt \<noteq> ip (cfg s) \<and> ipp_dst_ip pkt \<noteq> [255, 255, 255, 255] then Ret s
           else if ipp_protocol pkt = PROTO_ICMP then process_icmp pollf n (ipp_payload pkt) (ipp_src_ip pkt) s
           else if ipp_protocol pkt = PROTO_UDP then Ret (process_udp (ipp_payload pkt) (ipp_src_ip pkt) s)
           else Ret s)"

definition process_frame :: "(Net \<Rightarrow> Net run) \<Rightarrow> nat \<Rightarrow> u8 list \<Rightarrow> Net \<Rightarrow> Net run" where
  "process_frame pollf n data s =
     (case eth_parse data of
        None \<Rightarrow> Ret s
      | Some fr \<Rightarrow>
          if ef_dst_mac fr \<noteq> mac (cfg s) \<and> ef_dst_mac fr \<noteq> BROADCAST_MAC then Ret s
          else (case ef_ethertype fr of
                  Arp \<Rightarrow> Ret (process_arp (ef_payload fr) s)
                | Ipv4 \<Rightarrow> process_ipv4 pollf n (ef_payload fr) s
                | Unknown v \<Rightarrow> Ret s))"

text \<open>The loop of \<^verbatim>\<open>poll\<close>, for at most \<^verbatim>\<open>n\<close> turns.\<close>

fun drain :: "(Net \<Rightarrow> Net run) \<Rightarrow> nat \<Rightarrow> nat \<Rightarrow> Net \<Rightarrow> Net run" where
  "drain pollf n 0 s = Stuck"
| "drain pollf n (Suc k) s =
     (case recv_frame 1514 (ndev s) of
        (d, None) \<Rightarrow> Ret (s\<lparr>ndev := d\<rparr>)
      | (d, Some fr) \<Rightarrow> bind (process_frame pollf n fr (stat_rx (length fr) (s\<lparr>ndev := d\<rparr>))) (drain pollf n k))"

fun poll :: "nat \<Rightarrow> Net \<Rightarrow> Net run" where
  "poll 0 s = Stuck"
| "poll (Suc n) s =
     (if \<not> net_up s then Ret s else drain (poll n) n n (s\<lparr>ndev := poll_rx (ndev s)\<rparr>))"


subsection \<open>The Internet checksum\<close>

fun word_sum :: "u8 list \<Rightarrow> nat" where
  "word_sum (a # b # r) = unat (be16 a b) + word_sum r"
| "word_sum [a] = 256 * unat a"
| "word_sum [] = 0"

lemma word_sum_bound: "word_sum xs \<le> 65535 * length xs"
proof (induction xs rule: word_sum.induct)
  case (1 a b r)
  have "unat (be16 a b) \<le> 65535" using unat_lt2p [of "be16 a b"] by simp
  then show ?case using 1 by simp
next
  case (2 a)
  have "unat a < 256" using unat_lt2p [of a] by simp
  then show ?case by simp
qed simp

lemma unat_sum_words: "unat acc + word_sum xs < 2 ^ 32 \<Longrightarrow> unat (sum_words xs acc) = unat acc + word_sum xs"
proof (induction xs acc rule: sum_words.induct)
  case (1 a b r acc)
  have w: "unat (ucast (be16 a b) :: u32) = unat (be16 a b)" by (simp add: unat_ucast_le)
  have e: "unat (acc + ucast (be16 a b)) = unat acc + unat (be16 a b)"
    using unat_add_no_overflow [of acc "ucast (be16 a b)"] "1.prems" w by simp
  then show ?case using "1.IH" "1.prems" by simp
next
  case (2 a acc)
  have "unat a < 256" using unat_lt2p [of a] by simp
  then have w: "unat (push_bit 8 (ucast a) :: u32) = 256 * unat a" by (simp add: push_bit_eq_mult unat_word_ariths unat_ucast_le)
  then show ?case using unat_add_no_overflow [of acc "push_bit 8 (ucast a)"] "2.prems" by simp
qed simp

text \<open>One's complement addition: the residue modulo 65535 with 65535 for the nonzero multiples.\<close>

definition ones :: "nat \<Rightarrow> nat" where
  "ones n = (if n = 0 then 0 else 1 + (n - 1) mod 65535)"

lemma ones_halves: "ones (n mod 65536 + n div 65536) = ones n"
proof (cases "n = 0")
  case False
  let ?y = "n mod 65536 + n div 65536"
  have "n = ?y + 65535 * (n div 65536)" using div_mult_mod_eq [of n 65536] by linarith
  moreover have "?y \<noteq> 0" using False by auto
  ultimately have "n - 1 = (?y - 1) + 65535 * (n div 65536)" by linarith
  then have "(n - 1) mod 65535 = (?y - 1) mod 65535" by (metis mod_mult_self2)
  then show ?thesis using False \<open>?y \<noteq> 0\<close> by (simp add: ones_def)
qed (simp add: ones_def)

lemma unat_fold_carry: "unat (fold_carry x) = ones (unat x)"
proof (induction x rule: fold_carry.induct)
  case (1 x)
  show ?case
  proof (cases "drop_bit 16 x = 0")
    case True
    moreover have "unat (drop_bit 16 x) = unat x div 65536" by (simp add: drop_bit_eq_div unat_div)
    ultimately have "unat x < 65536" by (simp add: div_eq_0_iff)
    then have "ones (unat x) = unat x" by (simp add: ones_def)
    then show ?thesis using True by (subst fold_carry.simps) simp
  next
    case False
    then show ?thesis using "1.IH" by (subst fold_carry.simps) (simp add: unat_halves ones_halves)
  qed
qed

lemma unat_not16: "unat (NOT w) = 65535 - unat w" for w :: u16
proof -
  have "NOT w = - 1 - w" by (simp add: not_eq_complement)
  moreover have "w \<le> - 1" by simp
  ultimately have "unat (NOT w) = unat (- 1 :: u16) - unat w" using unat_sub [of w "- 1"] by simp
  moreover have "unat (- 1 :: u16) = 65535" by (simp add: unsigned_minus_1_eq_mask mask_eq_exp_minus_1)
  ultimately show ?thesis by simp
qed

lemma ones_le: "ones n \<le> 65535"
proof -
  have "(n - 1) mod 65535 < 65535" by simp
  then show ?thesis unfolding ones_def by (simp only: split: if_split) linarith
qed

lemma unat_checksum:
  assumes "length data < 65536"
  shows "unat (checksum data) = 65535 - ones (word_sum data)"
proof -
  have "word_sum data \<le> 65535 * 65535" using word_sum_bound [of data] assms by linarith
  then have "unat (sum_words data 0) = word_sum data" using unat_sum_words [of 0 data] by simp
  then have f: "unat (fold_carry (sum_words data 0)) = ones (word_sum data)" by (simp add: unat_fold_carry)
  then have "unat (ucast (fold_carry (sum_words data 0)) :: u16) = ones (word_sum data)"
    using ones_le [of "word_sum data"] by (simp add: unsigned_ucast_eq unsigned_take_bit_eq take_bit_nat_eq_self)
  then show ?thesis by (simp add: checksum_def unat_not16)
qed

lemma word_sum_append: "even (length xs) \<Longrightarrow> word_sum (xs @ ys) = word_sum xs + word_sum ys"
  by (induction xs rule: word_sum.induct) auto

text \<open>Filling in the checksum of a message makes the checksum of the message zero.\<close>

lemma checksum_filled:
  assumes "even (length pre)" "length pre + length post + 2 < 65536"
  shows "checksum (pre @ be16_bytes (checksum (pre @ [0, 0] @ post)) @ post) = 0"
proof -
  let ?S = "word_sum pre + word_sum post"
  let ?c = "checksum (pre @ [0, 0] @ post)"
  have z: "word_sum (pre @ [0, 0] @ post) = ?S" using assms(1) by (simp add: word_sum_append unat_be16)
  have c: "unat ?c = 65535 - ones ?S" using unat_checksum [of "pre @ [0, 0] @ post"] assms(2) z by simp
  have "word_sum (pre @ be16_bytes ?c @ post) = ?S + unat ?c"
    using assms(1) by (simp add: word_sum_append be16_bytes_def)
  then have u: "unat (checksum (pre @ be16_bytes ?c @ post)) = 65535 - ones (?S + (65535 - ones ?S))"
    using unat_checksum [of "pre @ be16_bytes ?c @ post"] assms(2) c by simp
  have "ones (?S + (65535 - ones ?S)) = 65535"
  proof (cases "?S = 0")
    case False
    define S where "S = ?S"
    have o: "ones S = 1 + (S - 1) mod 65535" using False by (simp add: ones_def S_def)
    have "S + (65535 - ones S) - 1 = 65534 + 65535 * ((S - 1) div 65535)"
      using False o div_mult_mod_eq [of "S - 1" 65535] ones_le [of S] unfolding S_def [symmetric] by linarith
    then have "(S + (65535 - ones S) - 1) mod 65535 = 65534" by simp
    moreover have "S + (65535 - ones S) \<noteq> 0" using False unfolding S_def by linarith
    ultimately show ?thesis unfolding S_def [symmetric] ones_def [of "S + (65535 - ones S)"] by simp
  qed (simp add: ones_def)
  then show ?thesis using u by (simp add: unsigned_eq_0_iff)
qed


subsection \<open>Frames and packets\<close>

lemma length_4E:
  assumes "length xs = 4"
  obtains a b c d where "xs = [a, b, c, d]"
  using assms by (auto simp: numeral_eq_Suc length_Suc_conv)

lemma from_to_u16 [codec_simps]: "from_u16 (to_u16 Ipv4) = Ipv4" "from_u16 (to_u16 Arp) = Arp"
  by (simp_all add: from_u16_def)

lemma eth_parse_build:
  assumes "length dm = 6" "length sm = 6"
  shows "eth_parse (build_frame dm sm et p) =
     Some \<lparr>ef_dst_mac = dm, ef_src_mac = sm, ef_ethertype = from_u16 (to_u16 et), ef_payload = p\<rparr>"
  using assms by (simp add: eth_parse_def build_frame_def nth_append)

lemma length_build_frame: "length dm = 6 \<Longrightarrow> length sm = 6 \<Longrightarrow> length (build_frame dm sm et p) = 14 + length p"
  by (simp add: build_frame_def)

lemma ipv4_header_checksum:
  assumes "length sip = 4" "length dip = 4"
  shows "checksum (ipv4_header t i p (checksum (ipv4_header t i p 0 sip dip)) sip dip) = 0"
proof -
  have "be16_bytes 0 = [0, 0]" by (simp add: be16_bytes_def)
  then show ?thesis
    using checksum_filled [of "[0x45, 0x00] @ be16_bytes (of_nat t) @ be16_bytes i @ [0x40, 0x00, 64, p]" "sip @ dip"] assms
    by (simp add: ipv4_header_def)
qed

lemma length_ipv4_header [simp]: "length sip = 4 \<Longrightarrow> length dip = 4 \<Longrightarrow> length (ipv4_header t i p c sip dip) = 20"
  by (simp add: ipv4_header_def)

lemma ipv4_header_nth:
  assumes "length sip = 4" "length dip = 4"
  shows "ipv4_header t i p c sip dip ! 0 = 0x45" "be16 (ipv4_header t i p c sip dip ! 2) (ipv4_header t i p c sip dip ! 3) = of_nat t"
    "be16 (ipv4_header t i p c sip dip ! 4) (ipv4_header t i p c sip dip ! 5) = i"
    "ipv4_header t i p c sip dip ! 8 = 64" "ipv4_header t i p c sip dip ! 9 = p"
    "take 4 (drop 12 (ipv4_header t i p c sip dip)) = sip" "take 4 (drop 16 (ipv4_header t i p c sip dip)) = dip"
  using assms by (simp_all add: ipv4_header_def be16_bytes_def)

lemma ipv4_parse_header:
  fixes i :: u16 and p :: u8
  assumes "length sip = 4" "length dip = 4" "20 + length payload < 65536"
  defines "c \<equiv> checksum (ipv4_header (20 + length payload) i p 0 sip dip)"
  shows "ipv4_parse (ipv4_header (20 + length payload) i p c sip dip @ payload) =
     Ret (Some \<lparr>ipp_src_ip = sip, ipp_dst_ip = dip, ipp_protocol = p, ipp_ttl = 64, ipp_id = i, ipp_header_len = 20,
       ipp_total_len = 20 + length payload, ipp_payload = payload\<rparr>)"
proof -
  let ?h = "ipv4_header (20 + length payload) i p c sip dip"
  note h = ipv4_header_nth [OF assms(1,2), of "20 + length payload" i p c]
  have l: "length ?h = 20" using assms(1,2) by simp
  have n: "(?h @ payload) ! k = ?h ! k" if "k < 20" for k using that l by (simp add: nth_append)
  have t: "unat (of_nat (20 + length payload) :: u16) = 20 + length payload" by (rule unat_of_nat_small) (use assms(3) in simp)
  have ck: "checksum (take 20 (?h @ payload)) = 0" using ipv4_header_checksum [OF assms(1,2)] l by (simp add: c_def)
  have d: "take 4 (drop 12 (?h @ payload)) = sip" "take 4 (drop 16 (?h @ payload)) = dip" using h(6,7) l assms(1,2) by simp_all
  show ?thesis
    unfolding ipv4_parse_def Let_def using h(1-5) l n t ck d assms(1,2) by simp
qed


subsection \<open>Sending with a known address\<close>

definition addrs_ok :: "NetConfig \<Rightarrow> bool" where
  "addrs_ok c \<longleftrightarrow> length (ip c) = 4 \<and> length (mac c) = 6"

text \<open>The frame of a packet from one host to another.\<close>

definition ip_frame :: "mac \<Rightarrow> ip_addr \<Rightarrow> u8 \<Rightarrow> u8 list \<Rightarrow> Net \<Rightarrow> u8 list" where
  "ip_frame dm dip p payload s = build_frame dm (mac (cfg s)) Ipv4 (snd (build_packet dip p payload s))"

lemma send_raw_tx:
  assumes "net_up s" "nd_available (ndev s)" "length fr \<le> 1514"
  shows "tx (ndev (send_raw fr s)) = tx (ndev s) @ [fr]"
    "send_raw fr s = s\<lparr>net_stats := net_stats (send_raw fr s), ndev := (ndev s)\<lparr>tx := tx (ndev s) @ [fr]\<rparr>\<rparr>"
  using assms by (simp_all add: send_raw_def stat_tx_def send_frame_def MAX_FRAME_SIZE_def Let_def)

lemma ipv4_send_known:
  assumes "lookup (next_hop (cfg s) dip) (arp_cache s) = Some dm"
  shows "ipv4_send pollf n dip p payload s = Ret (send_raw (ip_frame dm dip p payload s) (s\<lparr>ip_id := ip_id s + 1\<rparr>))"
  using assms by (simp add: ipv4_send_def build_packet_def ip_frame_def Let_def resolve_blocking_def)

lemma length_ip_frame:
  assumes "addrs_ok (cfg s)" "length dm = 6" "length dip = 4"
  shows "length (ip_frame dm dip p payload s) = 34 + length payload"
  using assms by (simp add: ip_frame_def build_packet_def Let_def addrs_ok_def length_build_frame)

lemma process_ip_frame:
  assumes "addrs_ok (cfg a)" "addrs_ok (cfg b)" "length payload \<le> 1480"
  shows "process_frame pollf n (ip_frame (mac (cfg b)) (ip (cfg b)) p payload a) b =
     (if p = PROTO_ICMP then process_icmp pollf n payload (ip (cfg a)) b
      else if p = PROTO_UDP then Ret (process_udp payload (ip (cfg a)) b) else Ret b)"
proof -
  have l: "length (ip (cfg a)) = 4" "length (ip (cfg b)) = 4" "length (mac (cfg a)) = 6" "length (mac (cfg b)) = 6"
    using assms(1,2) by (simp_all add: addrs_ok_def)
  show ?thesis
    using ipv4_parse_header [OF l(1,2), where payload = payload and i = "ip_id a" and p = p] assms(3)
    by (simp add: process_frame_def ip_frame_def eth_parse_build [OF l(4,3)] from_u16_def process_ipv4_def build_packet_def Let_def)
qed

subsection \<open>The address cache\<close>

text \<open>
  What sending relies on: a cache answers with what was last learned for an address or not at all.
\<close>

locale address_cache =
  fixes cinv :: "'c \<Rightarrow> bool"
    and find_mac :: "ip_addr \<Rightarrow> 'c \<Rightarrow> mac option"
    and learn :: "ip_addr \<Rightarrow> mac \<Rightarrow> 'c \<Rightarrow> 'c"
  assumes learn_inv: "cinv c \<Longrightarrow> cinv (learn a m c)"
    and learn_same: "cinv c \<Longrightarrow> find_mac a (learn a m c) = Some m"
    and learn_other: "cinv c \<Longrightarrow> b \<noteq> a \<Longrightarrow> find_mac b (learn a m c) = find_mac b c \<or> find_mac b (learn a m c) = None"
begin

lemma never_stale:
  assumes "cinv c"
  shows "cinv (fold (\<lambda>(a, m). learn a m) ps c)"
    "find_mac b (fold (\<lambda>(a, m). learn a m) ps c) \<in> {None, (case map_of (rev ps) b of Some m \<Rightarrow> Some m | None \<Rightarrow> find_mac b c)}"
proof -
  have "cinv (fold (\<lambda>(a, m). learn a m) ps c) \<and> find_mac b (fold (\<lambda>(a, m). learn a m) ps c)
      \<in> {None, (case map_of (rev ps) b of Some m \<Rightarrow> Some m | None \<Rightarrow> find_mac b c)}"
  proof (induction ps rule: rev_induct)
    case (snoc p ps)
    obtain a m where p: "p = (a, m)" by (cases p)
    let ?c = "fold (\<lambda>(a, m). learn a m) ps c"
    have i: "cinv ?c" using snoc by blast
    show ?case
    proof (cases "b = a")
      case True
      then show ?thesis using learn_inv [OF i] learn_same [OF i] p by simp
    next
      case False
      then show ?thesis using learn_inv [OF i] learn_other [OF i False, of m] snoc p by (auto split: option.splits)
    qed
  qed (use assms in simp)
  then show "cinv (fold (\<lambda>(a, m). learn a m) ps c)"
    "find_mac b (fold (\<lambda>(a, m). learn a m) ps c) \<in> {None, (case map_of (rev ps) b of Some m \<Rightarrow> Some m | None \<Rightarrow> find_mac b c)}" by simp_all
qed

end

text \<open>No two valid entries have the same address.\<close>

definition arp_inv :: "ArpEntry list \<Rightarrow> bool" where
  "arp_inv cache \<longleftrightarrow> cache \<noteq> [] \<and>
     (\<forall>i<length cache. \<forall>j<length cache. ae_valid (cache ! i) \<longrightarrow> ae_valid (cache ! j) \<longrightarrow> ae_ip (cache ! i) = ae_ip (cache ! j) \<longrightarrow> i = j)"

lemma lookup_iff:
  assumes "arp_inv cache"
  shows "lookup a cache = Some m \<longleftrightarrow> (\<exists>i<length cache. ae_valid (cache ! i) \<and> ae_ip (cache ! i) = a \<and> ae_mac (cache ! i) = m)"
proof
  assume "lookup a cache = Some m"
  then show "\<exists>i<length cache. ae_valid (cache ! i) \<and> ae_ip (cache ! i) = a \<and> ae_mac (cache ! i) = m"
    unfolding lookup_def by (auto simp: find_Some_iff)
next
  assume "\<exists>i<length cache. ae_valid (cache ! i) \<and> ae_ip (cache ! i) = a \<and> ae_mac (cache ! i) = m"
  then obtain i where i: "i < length cache" "ae_valid (cache ! i)" "ae_ip (cache ! i) = a" "ae_mac (cache ! i) = m" by blast
  have "List.find (\<lambda>e. ae_valid e \<and> ae_ip e = a) cache = Some (cache ! i)"
    unfolding find_Some_iff
  proof (intro exI conjI allI impI)
    fix j assume j: "j < i"
    then have "j < length cache" "j \<noteq> i" using i(1) by simp_all
    then show "\<not> (ae_valid (cache ! j) \<and> ae_ip (cache ! j) = a)" using assms i(1-3) unfolding arp_inv_def by blast
  qed (use i in auto)
  then show "lookup a cache = Some m" using i(4) by (simp add: lookup_def)
qed

lemma arp_update:
  fixes m :: mac
  assumes "arp_inv cache" "i < length cache" "\<forall>j<length cache. j \<noteq> i \<longrightarrow> ae_valid (cache ! j) \<longrightarrow> ae_ip (cache ! j) \<noteq> a"
  defines "cache' \<equiv> cache[i := \<lparr>ae_ip = a, ae_mac = m, ae_valid = True\<rparr>]"
  shows "arp_inv cache'" "lookup a cache' = Some m" "b \<noteq> a \<Longrightarrow> lookup b cache' = lookup b cache \<or> lookup b cache' = None"
proof -
  show inv: "arp_inv cache'" using assms unfolding arp_inv_def by (auto simp: nth_list_update)
  show "lookup a cache' = Some m" unfolding lookup_iff [OF inv] using assms(2) by (auto simp: cache'_def)
  assume b: "b \<noteq> a"
  show "lookup b cache' = lookup b cache \<or> lookup b cache' = None"
  proof (cases "lookup b cache'")
    case (Some x)
    then obtain k where k: "k < length cache'" "ae_valid (cache' ! k)" "ae_ip (cache' ! k) = b" "ae_mac (cache' ! k) = x"
      unfolding lookup_iff [OF inv] by blast
    then have "k \<noteq> i" using b assms(2) by (auto simp: cache'_def)
    then have "lookup b cache = Some x" unfolding lookup_iff [OF assms(1)] using k by (auto simp: cache'_def)
    then show ?thesis using Some by simp
  qed simp
qed

lemma arp_insert_cases:
  assumes "arp_inv cache"
  obtains i where "i < length cache" "arp_insert a m cache = cache[i := \<lparr>ae_ip = a, ae_mac = m, ae_valid = True\<rparr>]"
    "\<forall>j<length cache. j \<noteq> i \<longrightarrow> ae_valid (cache ! j) \<longrightarrow> ae_ip (cache ! j) \<noteq> a"
proof -
  have ne: "0 < length cache" using assms by (simp add: arp_inv_def)
  show ?thesis
  proof (cases "List.find (\<lambda>i. ae_valid (cache ! i) \<and> ae_ip (cache ! i) = a) [0..<length cache]")
    case (Some i)
    then have i: "i < length cache" "ae_valid (cache ! i)" "ae_ip (cache ! i) = a" by (auto simp: find_upt_Some_iff)
    have "\<forall>j<length cache. j \<noteq> i \<longrightarrow> ae_valid (cache ! j) \<longrightarrow> ae_ip (cache ! j) \<noteq> a"
      using assms i unfolding arp_inv_def by metis
    moreover have "(cache ! i)\<lparr>ae_mac := m\<rparr> = \<lparr>ae_ip = a, ae_mac = m, ae_valid = True\<rparr>" using i by (cases "cache ! i") simp
    ultimately show ?thesis using that [of i] i(1) Some by (simp add: arp_insert_def)
  next
    case noip: None
    then have no: "\<forall>j<length cache. ae_valid (cache ! j) \<longrightarrow> ae_ip (cache ! j) \<noteq> a" by (auto simp: find_upt_None_iff)
    show ?thesis
    proof (cases "List.find (\<lambda>i. \<not> ae_valid (cache ! i)) [0..<length cache]")
      case (Some i)
      then have "i < length cache" by (auto simp: find_upt_Some_iff)
      then show ?thesis using that [of i] no Some noip by (simp add: arp_insert_def)
    next
      case None
      then show ?thesis using that [of 0] no ne noip by (simp add: arp_insert_def)
    qed
  qed
qed

interpretation arp: address_cache arp_inv lookup arp_insert
proof
  fix c a m b assume c: "arp_inv c"
  obtain i where i: "i < length c" "arp_insert a m c = c[i := \<lparr>ae_ip = a, ae_mac = m, ae_valid = True\<rparr>]"
    "\<forall>j<length c. j \<noteq> i \<longrightarrow> ae_valid (c ! j) \<longrightarrow> ae_ip (c ! j) \<noteq> a" by (rule arp_insert_cases [OF c])
  note U = arp_update [OF c i(1,3), where m = m]
  show "arp_inv (arp_insert a m c)" "lookup a (arp_insert a m c) = Some m" using U(1,2) i(2) by simp_all
  show "lookup b (arp_insert a m c) = lookup b c \<or> lookup b (arp_insert a m c) = None" if "b \<noteq> a" using U(3) [OF that] i(2) by simp
qed

lemma arp_new_inv: "arp_inv (replicate ARP_CACHE_SIZE arp_empty)"
  by (simp add: arp_inv_def ARP_CACHE_SIZE_def arp_empty_def)


subsection \<open>Addresses as text\<close>

text \<open>\<^verbatim>\<open>{}\<close> of a \<^verbatim>\<open>u8\<close>, \<^verbatim>\<open>{:02X}\<close>, and \<^verbatim>\<open>str::parse::<u8>\<close> with its optional plus sign and its overflow check.\<close>

definition fmt_u8 :: "u8 \<Rightarrow> u8 list" where
  "fmt_u8 b =
     (let n = unat b
      in if n < 10 then [digit n]
         else if n < 100 then [digit (n div 10), digit (n mod 10)]
         else [digit (n div 100), digit (n div 10 mod 10), digit (n mod 10)])"

definition hex_digit :: "nat \<Rightarrow> u8" where
  "hex_digit k = (if k < 10 then 0x30 + of_nat k else 0x37 + of_nat k)"

definition fmt_hex :: "u8 \<Rightarrow> u8 list" where
  "fmt_hex b = [hex_digit (unat b div 16), hex_digit (unat b mod 16)]"

fun digits_u8 :: "nat \<Rightarrow> u8 list \<Rightarrow> u8 option" where
  "digits_u8 acc [] = Some (of_nat acc)"
| "digits_u8 acc (b # bs) =
     (if unat b < 48 \<or> 57 < unat b then None
      else if acc * 10 > 255 then None
      else if acc * 10 + (unat b - 48) > 255 then None
      else digits_u8 (acc * 10 + (unat b - 48)) bs)"

definition parse_u8 :: "u8 list \<Rightarrow> u8 option" where
  "parse_u8 bs =
     (case bs of
        [] \<Rightarrow> None
      | b # r \<Rightarrow> if b = 0x2B then (if r = [] then None else digits_u8 0 r) else digits_u8 0 bs)"

definition format_ip :: "ip_addr \<Rightarrow> u8 list" where
  "format_ip a = fmt_u8 (a ! 0) @ [0x2E] @ fmt_u8 (a ! 1) @ [0x2E] @ fmt_u8 (a ! 2) @ [0x2E] @ fmt_u8 (a ! 3)"

definition format_mac :: "mac \<Rightarrow> u8 list" where
  "format_mac m = fmt_hex (m ! 0) @ [0x3A] @ fmt_hex (m ! 1) @ [0x3A] @ fmt_hex (m ! 2) @ [0x3A] @ fmt_hex (m ! 3)
     @ [0x3A] @ fmt_hex (m ! 4) @ [0x3A] @ fmt_hex (m ! 5)"

fun parse_parts :: "u8 list list \<Rightarrow> nat \<Rightarrow> u8 list \<Rightarrow> ip_addr option" where
  "parse_parts [] idx parts = (if idx = 4 then Some parts else None)"
| "parse_parts (p # ps) idx parts =
     (if idx \<ge> 4 then None
      else case parse_u8 p of None \<Rightarrow> None | Some v \<Rightarrow> parse_parts ps (idx + 1) (parts[idx := v]))"

definition parse_ip :: "u8 list \<Rightarrow> ip_addr option" where
  "parse_ip t = parse_parts (split_at 0x2E [] t) 0 [0, 0, 0, 0]"

lemma digit_ne: "k < 10 \<Longrightarrow> digit k \<noteq> 0x2E" "k < 10 \<Longrightarrow> digit k \<noteq> 0x2B"
  using unat_digit [of k] by auto

lemma parse_fmt_u8 [codec_simps]: "parse_u8 (fmt_u8 b) = Some b"
proof -
  let ?n = "unat b"
  have n: "?n < 256" using unat_lt2p [of b] by simp
  have q: "?n div 10 div 10 = ?n div 100" by (simp add: div_mult2_eq [symmetric])
  have d: "?n div 10 * 10 + ?n mod 10 = ?n" "?n div 100 * 10 + ?n div 10 mod 10 = ?n div 10"
    using div_mult_mod_eq [of ?n 10] div_mult_mod_eq [of "?n div 10" 10] q by simp_all
  have s: "?n div 100 < 10" "?n < 100 \<Longrightarrow> ?n div 10 < 10" "?n div 10 mod 10 < 10" "?n mod 10 < 10" "?n div 10 \<le> 25" using n by simp_all
  have e: "?n mod 10 \<le> 9" "?n div 10 mod 10 \<le> 9" using s(3,4) by linarith+
  consider "?n < 10" | "10 \<le> ?n" "?n < 100" | "100 \<le> ?n" by linarith
  then show ?thesis
  proof cases
    case 3
    then show ?thesis using n d s e digit_ne by (simp add: fmt_u8_def Let_def parse_u8_def unat_digit mult.commute not_less)
  qed (use n d s e digit_ne in \<open>simp_all add: fmt_u8_def Let_def parse_u8_def unat_digit\<close>)
qed

lemma dot_fmt_u8: "0x2E \<notin> set (fmt_u8 b)"
proof -
  have n: "unat b < 256" using unat_lt2p [of b] by simp
  then have "unat b div 100 < 10" by simp
  then show ?thesis using n digit_ne(1) [symmetric] by (simp add: fmt_u8_def Let_def)
qed

lemma parse_format_ip [codec_simps]:
  assumes "length a = 4"
  shows "parse_ip (format_ip a) = Some a"
proof -
  obtain w x y z where a: "a = [w, x, y, z]" using assms by (rule length_4E)
  have "split_at 0x2E [] (format_ip a) = [fmt_u8 w, fmt_u8 x, fmt_u8 y, fmt_u8 z]"
    using split_at_append [OF dot_fmt_u8, of "[]" z "[]"] by (simp add: format_ip_def a split_at_append dot_fmt_u8)
  then show ?thesis by (simp add: parse_ip_def parse_fmt_u8 a)
qed
subsection \<open>Properties\<close>

text \<open>
  C9: a UDP datagram of at most 1472 bytes sent to a host whose address is known leaves as one frame; handled
  by that host, it is appended, with the sender's address and port, to the queue of the bound port, and
  nothing but the receive counter changes otherwise.
\<close>

theorem udp_delivered:
  assumes "net_up a" "nd_available (ndev a)" "addrs_ok (cfg a)" "addrs_ok (cfg b)"
    "lookup (next_hop (cfg a) (ip (cfg b))) (arp_cache a) = Some (mac (cfg b))"
    "length data \<le> 1472" "sockets b port = Some q" "length q < MAX_BUFFERED"
  shows "\<exists>a' fr. udp_send pollf n (ip (cfg b)) port sport data a = Ret a' \<and> tx (ndev a') = tx (ndev a) @ [fr] \<and>
    process_frame pollf' n' fr b = Ret (b\<lparr>sockets := (sockets b)(port \<mapsto> q @ [\<lparr>dg_src_ip = ip (cfg a), dg_src_port = sport,
        dg_dst_port = port, dg_data = data\<rparr>]), net_stats := (net_stats b)\<lparr>udp_received := udp_received (net_stats b) + 1\<rparr>\<rparr>)"
proof -
  let ?a = "a\<lparr>net_stats := (net_stats a)\<lparr>udp_sent := udp_sent (net_stats a) + 1\<rparr>\<rparr>"
  let ?m = "udp_message sport port data"
  let ?fr = "ip_frame (mac (cfg b)) (ip (cfg b)) PROTO_UDP ?m ?a"
  have l: "length ?m = 8 + length data" by (simp add: udp_message_def)
  have fl: "length ?fr \<le> 1514" using length_ip_frame [of ?a "mac (cfg b)" "ip (cfg b)" PROTO_UDP ?m] assms(3,4,6) l by (simp add: addrs_ok_def)
  have s: "udp_send pollf n (ip (cfg b)) port sport data a = Ret (send_raw ?fr (?a\<lparr>ip_id := ip_id a + 1\<rparr>))"
    using ipv4_send_known [of ?a "ip (cfg b)" "mac (cfg b)"] assms(5) by (simp add: udp_send_def)
  have t: "tx (ndev (send_raw ?fr (?a\<lparr>ip_id := ip_id a + 1\<rparr>))) = tx (ndev a) @ [?fr]"
    using send_raw_tx(1) [OF _ _ fl, of "?a\<lparr>ip_id := ip_id a + 1\<rparr>"] assms(1,2) by simp
  have "unat (of_nat (8 + length data) :: u16) = 8 + length data" by (rule unat_of_nat_small) (use assms(6) in simp)
  then have u: "process_udp ?m (ip (cfg a)) b = b\<lparr>sockets := (sockets b)(port \<mapsto> q @ [\<lparr>dg_src_ip = ip (cfg a), dg_src_port = sport,
        dg_dst_port = port, dg_data = data\<rparr>]), net_stats := (net_stats b)\<lparr>udp_received := udp_received (net_stats b) + 1\<rparr>\<rparr>"
    using assms(7,8) by (simp add: process_udp_def udp_message_def be16_bytes_def Let_def)
  have "process_frame pollf' n' ?fr b = Ret (process_udp ?m (ip (cfg a)) b)"
    using process_ip_frame [of ?a b ?m pollf' n' PROTO_UDP] assms(3,4,6) l by (simp add: PROTO_UDP_def PROTO_ICMP_def)
  then show ?thesis using s t u by auto
qed

lemma icmp_message_ok:
  assumes "length rest < 65532"
  shows "checksum (icmp_message ty rest) = 0"
  using checksum_filled [of "[ty, 0]" rest] assms by (simp add: icmp_message_def)

lemma icmp_message_simps [simp]:
  "length (icmp_message ty rest) = 4 + length rest" "drop 4 (icmp_message ty rest) = rest" "icmp_message ty rest ! 0 = ty"
  by (simp_all add: icmp_message_def be16_bytes_def)

text \<open>An echo request is answered with the same identifier, sequence number and data.\<close>

lemma process_echo_request:
  assumes "net_up b" "nd_available (ndev b)" "addrs_ok (cfg a)" "addrs_ok (cfg b)" "4 \<le> length rest" "length rest \<le> 1476"
    "lookup (next_hop (cfg b) (ip (cfg a))) (arp_cache b) = Some (mac (cfg a))"
  shows "\<exists>b' b0. process_frame pollf n (ip_frame (mac (cfg b)) (ip (cfg b)) PROTO_ICMP (icmp_message ICMP_ECHO_REQUEST rest) a) b = Ret b' \<and>
    cfg b0 = cfg b \<and> tx (ndev b') = tx (ndev b) @ [ip_frame (mac (cfg a)) (ip (cfg a)) PROTO_ICMP (icmp_message ICMP_ECHO_REPLY rest) b0]"
proof -
  let ?m = "icmp_message ICMP_ECHO_REQUEST rest" and ?r = "icmp_message ICMP_ECHO_REPLY rest"
  let ?b = "b\<lparr>net_stats := (net_stats b)\<lparr>icmp_received := icmp_received (net_stats b) + 1, icmp_sent := icmp_sent (net_stats b) + 1\<rparr>\<rparr>"
  let ?fr = "ip_frame (mac (cfg a)) (ip (cfg a)) PROTO_ICMP ?r ?b"
  have fl: "length ?fr \<le> 1514" using length_ip_frame [of ?b "mac (cfg a)" "ip (cfg a)" PROTO_ICMP ?r] assms(3,4,6) by (simp add: addrs_ok_def)
  have "process_frame pollf n (ip_frame (mac (cfg b)) (ip (cfg b)) PROTO_ICMP ?m a) b = process_icmp pollf n ?m (ip (cfg a)) b"
    using process_ip_frame [OF assms(3,4), of ?m pollf n PROTO_ICMP] assms(6) by simp
  also have "\<dots> = ipv4_send pollf n (ip (cfg a)) PROTO_ICMP ?r ?b"
    using icmp_message_ok [of rest] assms(5,6) by (simp add: process_icmp_def send_echo_reply_def Let_def)
  also have "\<dots> = Ret (send_raw ?fr (?b\<lparr>ip_id := ip_id b + 1\<rparr>))"
    using ipv4_send_known [of ?b "ip (cfg a)" "mac (cfg a)"] assms(7) by simp
  finally have 1: "process_frame pollf n (ip_frame (mac (cfg b)) (ip (cfg b)) PROTO_ICMP ?m a) b = Ret (send_raw ?fr (?b\<lparr>ip_id := ip_id b + 1\<rparr>))" .
  have 2: "tx (ndev (send_raw ?fr (?b\<lparr>ip_id := ip_id b + 1\<rparr>))) = tx (ndev b) @ [?fr]"
    using send_raw_tx(1) [OF _ _ fl, of "?b\<lparr>ip_id := ip_id b + 1\<rparr>"] assms(1,2) by simp
  have "cfg ?b = cfg b" by simp
  with 1 2 show ?thesis by blast
qed


lemma process_arp_packet:
  assumes "length sm = 6" "length si = 4" "length tm = 6" "length ti = 4"
  shows "process_arp (arp_packet op sm si tm ti) s =
    (let s = s\<lparr>arp_cache := arp_insert si sm (arp_cache s)\<rparr>
     in if op = ARP_OP_REQUEST
        then let s = s\<lparr>net_stats := (net_stats s)\<lparr>arp_requests := arp_requests (net_stats s) + 1\<rparr>\<rparr>
             in if ti = ip (cfg s) then send_reply sm si (mac (cfg s)) (ip (cfg s)) s else s
        else if op = ARP_OP_REPLY then s\<lparr>net_stats := (net_stats s)\<lparr>arp_replies := arp_replies (net_stats s) + 1\<rparr>\<rparr>
        else s)"
proof -
  let ?p = "arp_packet op sm si tm ti"
  have "length ?p = 28" "be16 (?p ! 0) (?p ! 1) = ARP_HW_ETHERNET" "be16 (?p ! 2) (?p ! 3) = ARP_PROTO_IPV4" "?p ! 4 = 6" "?p ! 5 = 4"
    "be16 (?p ! 6) (?p ! 7) = op" "take 6 (drop 8 ?p) = sm" "take 4 (drop 14 ?p) = si" "take 4 (drop 24 ?p) = ti"
    using assms be16_nth_bytes [of ARP_HW_ETHERNET] be16_nth_bytes [of ARP_PROTO_IPV4] be16_nth_bytes [of op]
    by (simp_all add: arp_packet_def nth_append)
  then show ?thesis using assms by (simp add: process_arp_def Let_def)
qed

lemma length_arp_packet: "length sm = 6 \<Longrightarrow> length si = 4 \<Longrightarrow> length tm = 6 \<Longrightarrow> length ti = 4 \<Longrightarrow> length (arp_packet op sm si tm ti) = 28"
  by (simp add: arp_packet_def)

lemma process_arp_frame:
  assumes "length dm = 6" "length sm = 6" "dm = mac (cfg s) \<or> dm = BROADCAST_MAC"
  shows "process_frame pollf n (build_frame dm sm Arp p) s = Ret (process_arp p s)"
  using assms by (auto simp: process_frame_def eth_parse_build from_u16_def)

text \<open>
  address resolution. A request for a host's address leaves as one frame; the host that handles it learns the
  sender's address and answers with one frame; handling the answer, the sender learns the host's address.
\<close>

theorem arp_handshake:
  assumes "net_up a" "nd_available (ndev a)" "addrs_ok (cfg a)" "arp_inv (arp_cache a)"
    "net_up b" "nd_available (ndev b)" "addrs_ok (cfg b)" "arp_inv (arp_cache b)"
  shows "\<exists>f1 b1 f2 a2. tx (ndev (send_request (ip (cfg b)) a)) = tx (ndev a) @ [f1] \<and>
    process_frame pollf n f1 b = Ret b1 \<and> lookup (ip (cfg a)) (arp_cache b1) = Some (mac (cfg a)) \<and> tx (ndev b1) = tx (ndev b) @ [f2] \<and>
    process_frame pollf' n' f2 (send_request (ip (cfg b)) a) = Ret a2 \<and> lookup (ip (cfg b)) (arp_cache a2) = Some (mac (cfg b))"
proof -
  have l: "length (ip (cfg a)) = 4" "length (ip (cfg b)) = 4" "length (mac (cfg a)) = 6" "length (mac (cfg b)) = 6"
    using assms(3,7) by (simp_all add: addrs_ok_def)
  let ?p1 = "arp_packet ARP_OP_REQUEST (mac (cfg a)) (ip (cfg a)) (replicate 6 0) (ip (cfg b))"
  let ?f1 = "build_frame BROADCAST_MAC (mac (cfg a)) Arp ?p1"
  let ?p2 = "arp_packet ARP_OP_REPLY (mac (cfg b)) (ip (cfg b)) (mac (cfg a)) (ip (cfg a))"
  let ?f2 = "build_frame (mac (cfg a)) (mac (cfg b)) Arp ?p2"
  let ?a1 = "send_request (ip (cfg b)) a"
  let ?b0 = "b\<lparr>arp_cache := arp_insert (ip (cfg a)) (mac (cfg a)) (arp_cache b),
    net_stats := (net_stats b)\<lparr>arp_requests := arp_requests (net_stats b) + 1\<rparr>\<rparr>"
  have bl: "length BROADCAST_MAC = 6" by (simp add: BROADCAST_MAC_def)
  have fl: "length ?f1 \<le> 1514" "length ?f2 \<le> 1514" using l bl by (simp_all add: length_build_frame length_arp_packet)
  note S = send_raw_tx [OF assms(1,2) fl(1)]
  have 1: "tx (ndev ?a1) = tx (ndev a) @ [?f1]" using S(1) by (simp add: send_request_def)
  have a1: "cfg ?a1 = cfg a" "arp_cache ?a1 = arp_cache a" by (simp_all add: send_request_def) (subst S(2), simp)+
  have r0: "process_arp ?p1 b = send_raw ?f2 ?b0"
    using process_arp_packet [OF l(3,1), of "replicate 6 0" "ip (cfg b)" ARP_OP_REQUEST b] l(2)
    by (simp add: Let_def send_reply_def)
  have 2: "process_frame pollf n ?f1 b = Ret (send_raw ?f2 ?b0)"
    using process_arp_frame [OF bl l(3), of b pollf n ?p1] r0 by simp
  note T = send_raw_tx [of ?b0, OF _ _ fl(2)]
  have 3: "tx (ndev (send_raw ?f2 ?b0)) = tx (ndev b) @ [?f2]" using T(1) assms(5,6) by simp
  have "arp_cache (send_raw ?f2 ?b0) = arp_insert (ip (cfg a)) (mac (cfg a)) (arp_cache b)"
    by (subst T(2)) (use assms(5,6) in simp_all)
  then have 4: "lookup (ip (cfg a)) (arp_cache (send_raw ?f2 ?b0)) = Some (mac (cfg a))" using arp.learn_same [OF assms(8)] by simp
  have 5: "process_frame pollf' n' ?f2 ?a1 = Ret (process_arp ?p2 ?a1)"
    using process_arp_frame [OF l(3,4), of ?a1 pollf' n' ?p2] a1(1) by simp
  have "lookup (ip (cfg b)) (arp_cache (process_arp ?p2 ?a1)) = Some (mac (cfg b))"
    using process_arp_packet [OF l(4,2,3,1), of ARP_OP_REPLY ?a1] a1(2) arp.learn_same [OF assms(4)]
    by (simp add: Let_def ARP_OP_REPLY_def ARP_OP_REQUEST_def)
  with 1 2 3 4 5 show ?thesis by blast
qed

text \<open>
  C11: a frame whose IPv4 header is in order but announces a total length below its own 20 bytes makes the kernel
  panic, whoever it is addressed to: the slice of the payload has its end before its start.
\<close>

theorem short_total_length_panics:
  assumes "length sm = 6" "length sip = 4" "length dip = 4" "t < 20"
  shows "process_frame pollf n (build_frame BROADCAST_MAC sm Ipv4
      (ipv4_header t i p (checksum (ipv4_header t i p 0 sip dip)) sip dip @ payload)) s = Panic"
proof -
  define c where "c = checksum (ipv4_header t i p 0 sip dip)"
  let ?h = "ipv4_header t i p c sip dip"
  note h = ipv4_header_nth [OF assms(2,3), of t i p c]
  have l: "length ?h = 20" using assms(2,3) by simp
  have n: "(?h @ payload) ! k = ?h ! k" if "k < 20" for k using that l by (simp add: nth_append)
  have tt: "unat (of_nat t :: u16) = t" by (rule unat_of_nat_small) (use assms(4) in simp)
  have ck: "checksum ?h = 0" using ipv4_header_checksum [OF assms(2,3)] by (simp add: c_def)
  have "ipv4_parse (?h @ payload) = Panic"
    unfolding ipv4_parse_def Let_def using h(1,2) l n tt ck assms(4) by simp
  then have "process_ipv4 pollf n (?h @ payload) s = Panic" by (simp add: process_ipv4_def)
  moreover have "length BROADCAST_MAC = 6" by (simp add: BROADCAST_MAC_def)
  ultimately show ?thesis using assms(1) by (simp add: process_frame_def eth_parse_build from_u16_def c_def)
qed


subsection \<open>Two hosts\<close>

definition host_dev :: "mac \<Rightarrow> NetDev" where
  "host_dev m = \<lparr>nd_available = True, mac_addr = m, rxq = rx_new, wire = (\<lambda>_. []), polls = 0, tx = []\<rparr>"

definition host :: "u8 \<Rightarrow> u8 \<Rightarrow> Net" where
  "host x y = net_init \<lparr>cfg = config_new\<lparr>ip := [10, 0, 2, x]\<rparr>, net_up = False, net_stats = stats_new,
     arp_cache = arp_insert [10, 0, 2, y] (replicate 6 y) (replicate ARP_CACHE_SIZE arp_empty), ip_id = 1, icmp_seq = 1,
     ping_reply = None, sockets = [7 \<mapsto> []], ndev = host_dev (replicate 6 x), clk = of_nat, reads = 0, tick_rate = 1000\<rparr>"

lemma host_ok:
  "net_up (host x y)" "nd_available (ndev (host x y))" "addrs_ok (cfg (host x y))" "arp_inv (arp_cache (host x y))"
  "ip (cfg (host x y)) = [10, 0, 2, x]" "mac (cfg (host x y)) = replicate 6 x" "sockets (host x y) 7 = Some []" "icmp_seq (host x y) = 1"
  "tx (ndev (host x y)) = []" "lookup (next_hop (cfg (host x y)) [10, 0, 2, y]) (arp_cache (host x y)) = Some (replicate 6 y)"
  by (simp_all add: host_def net_init_def host_dev_def config_new_def addrs_ok_def arp_new_inv arp.learn_inv arp.learn_same
      next_hop_def is_same_subnet_def upt_rec)

theorem udp_delivered_witness:
  "\<exists>a' fr b'. udp_send (poll 0) 0 [10, 0, 2, 16] 7 9 [1, 2, 3] (host 15 16) = Ret a' \<and> tx (ndev a') = [fr] \<and>
    process_frame (poll 0) 0 fr (host 16 15) = Ret b' \<and>
    sockets b' 7 = Some [\<lparr>dg_src_ip = [10, 0, 2, 15], dg_src_port = 9, dg_dst_port = 7, dg_data = [1, 2, 3]\<rparr>]"
  using udp_delivered [of "host 15 16" "host 16 15" "[1, 2, 3]" 7 "[]" "poll 0" 0 9 "poll 0" 0] host_ok
  by (auto simp: MAX_BUFFERED_def)


theorem arp_handshake_witness:
  "\<exists>f1 b1 f2 a2. tx (ndev (send_request [10, 0, 2, 20] (host 15 16))) = [f1] \<and> process_frame (poll 0) 0 f1 (host 20 21) = Ret b1 \<and>
    tx (ndev b1) = [f2] \<and> process_frame (poll 0) 0 f2 (send_request [10, 0, 2, 20] (host 15 16)) = Ret a2 \<and>
    lookup [10, 0, 2, 20] (arp_cache a2) = Some (replicate 6 20)"
  using arp_handshake [of "host 15 16" "host 20 21" "poll 0" 0 "poll 0" 0] host_ok by auto

theorem short_total_length_panics_witness:
  "process_frame (poll 0) 0 (build_frame BROADCAST_MAC (replicate 6 9) Ipv4
      (ipv4_header 0 1 17 (checksum (ipv4_header 0 1 17 0 [1, 2, 3, 4] [5, 6, 7, 8])) [1, 2, 3, 4] [5, 6, 7, 8])) (host 15 16) = Panic"
  using short_total_length_panics [of "replicate 6 9" "[1, 2, 3, 4]" "[5, 6, 7, 8]" 0 "poll 0" 0 1 17 "[]" "host 15 16"] by simp

end
