(* ===== verification/Calc.thy ===== *)
theory Calc
  imports Prelude "HOL-Library.Signed_Division"
begin

unbundle bit_operations_syntax

text \<open>
  The expression evaluator of the shell, \<^verbatim>\<open>kernel/src/shell/calc.rs\<close>: a tokenizer and a recursive
  descent parser that evaluates while it parses. An \<^verbatim>\<open>i64\<close> is a 64-bit word read as signed, with
  the wrap-around of the release profile. The position in the token slice is the list of the tokens left.
  \<^verbatim>\<open>Reject\<close> is the result \<^verbatim>\<open>None\<close>; \<^verbatim>\<open>Overflow\<close> is the panic of a
  quotient that does not fit.
\<close>


subsection \<open>Tokens\<close>

type_synonym i64 = "64 word"

datatype Token = Num i64 | Op u8 | LParen | RParen

definition is_digit :: "u8 \<Rightarrow> bool" where
  "is_digit b \<longleftrightarrow> 0x30 \<le> b \<and> b \<le> 0x39"

definition is_op :: "u8 \<Rightarrow> bool" where
  "is_op b \<longleftrightarrow> b = 0x2B \<or> b = 0x2D \<or> b = 0x2A \<or> b = 0x2F \<or> b = 0x25"

text \<open>\<^verbatim>\<open>str::parse::<i64>\<close> of a non-empty string of digits: an error when the value does not fit.\<close>

definition digits_val :: "u8 list \<Rightarrow> nat" where
  "digits_val ds = foldl (\<lambda>acc d. acc * 10 + (unat d - 48)) 0 ds"

definition parse_i64 :: "u8 list \<Rightarrow> i64 option" where
  "parse_i64 ds = (if digits_val ds < 2 ^ 63 then Some (of_nat (digits_val ds)) else None)"

definition is_unary :: "Token list \<Rightarrow> bool" where
  "is_unary tokens \<longleftrightarrow> tokens = [] \<or> (case last tokens of Op c \<Rightarrow> True | LParen \<Rightarrow> True | _ \<Rightarrow> False)"

function tokenize_from :: "Token list \<Rightarrow> u8 list \<Rightarrow> Token list option" where
  "tokenize_from tokens [] = Some tokens"
| "tokenize_from tokens (b # bs) =
     (if b = 0x20 \<or> b = 0x09 then tokenize_from tokens bs
      else if is_op b then
        if b = 0x2D \<and> is_unary tokens then
          let ds = takeWhile is_digit bs
          in if ds = [] then None
             else case parse_i64 ds of
                    None \<Rightarrow> None
                  | Some n \<Rightarrow> tokenize_from (tokens @ [Num (- n)]) (dropWhile is_digit bs)
        else tokenize_from (tokens @ [Op b]) bs
      else if b = 0x28 then tokenize_from (tokens @ [LParen]) bs
      else if b = 0x29 then tokenize_from (tokens @ [RParen]) bs
      else if is_digit b then
        case parse_i64 (takeWhile is_digit (b # bs)) of
          None \<Rightarrow> None
        | Some n \<Rightarrow> tokenize_from (tokens @ [Num n]) (dropWhile is_digit (b # bs))
      else None)"
  by pat_completeness auto

termination
  by (relation "measure (\<lambda>(tokens, bs). length bs)") (auto intro: le_imp_less_Suc simp: length_dropWhile_le)

definition tokenize_expr :: "u8 list \<Rightarrow> Token list option" where
  "tokenize_expr input = tokenize_from [] input"


subsection \<open>Parsing and evaluating\<close>

datatype 'a calc = Val 'a | Reject | Overflow

fun cbind :: "'a calc \<Rightarrow> ('a \<Rightarrow> 'b calc) \<Rightarrow> 'b calc" where
  "cbind (Val x) k = k x"
| "cbind Reject k = Reject"
| "cbind Overflow k = Overflow"

lemma cbind_cong [fundef_cong]: "x = x' \<Longrightarrow> (\<And>v. x' = Val v \<Longrightarrow> k v = k' v) \<Longrightarrow> cbind x k = cbind x' k'"
  by (cases x') auto

lemma cbind_Val: "cbind x k = Val y \<longleftrightarrow> (\<exists>z. x = Val z \<and> k z = Val y)"
  by (cases x) auto

text \<open>\<^verbatim>\<open>/\<close> and \<^verbatim>\<open>%\<close>: nothing for a zero divisor, a panic for the smallest number by minus one.\<close>

definition div_op :: "u8 \<Rightarrow> i64 \<Rightarrow> i64 \<Rightarrow> i64 calc" where
  "div_op c a b =
     (if b = 0 then Reject
      else if a = 0x8000000000000000 \<and> b = - 1 then Overflow
      else if c = 0x2F then Val (of_int (sint a sdiv sint b))
      else Val (of_int (sint a smod sint b)))"

function parse_add_sub :: "Token list \<Rightarrow> (i64 \<times> Token list) calc"
  and add_loop :: "i64 \<Rightarrow> Token list \<Rightarrow> (i64 \<times> Token list) calc"
  and parse_mul_div :: "Token list \<Rightarrow> (i64 \<times> Token list) calc"
  and mul_loop :: "i64 \<Rightarrow> Token list \<Rightarrow> (i64 \<times> Token list) calc"
  and parse_primary :: "Token list \<Rightarrow> (i64 \<times> Token list) calc" where
  "parse_add_sub ts = cbind (parse_mul_div ts) (\<lambda>(v, ts). add_loop v ts)"
| "add_loop left ts =
     (case ts of
        Op c # ts' \<Rightarrow>
          if c = 0x2B then cbind (parse_mul_div ts') (\<lambda>(v, ts). add_loop (left + v) ts)
          else if c = 0x2D then cbind (parse_mul_div ts') (\<lambda>(v, ts). add_loop (left - v) ts)
          else Val (left, ts)
      | _ \<Rightarrow> Val (left, ts))"
| "parse_mul_div ts = cbind (parse_primary ts) (\<lambda>(v, ts). mul_loop v ts)"
| "mul_loop left ts =
     (case ts of
        Op c # ts' \<Rightarrow>
          if c = 0x2A then cbind (parse_primary ts') (\<lambda>(v, ts). mul_loop (left * v) ts)
          else if c = 0x2F \<or> c = 0x25 then
            cbind (parse_primary ts') (\<lambda>(v, ts). cbind (div_op c left v) (\<lambda>q. mul_loop q ts))
          else Val (left, ts)
      | _ \<Rightarrow> Val (left, ts))"
| "parse_primary ts =
     (case ts of
        Num n # ts' \<Rightarrow> Val (n, ts')
      | LParen # ts' \<Rightarrow>
          cbind (parse_add_sub ts') (\<lambda>(v, ts). case ts of RParen # ts'' \<Rightarrow> Val (v, ts'') | _ \<Rightarrow> Reject)
      | _ \<Rightarrow> Reject)"
  by pat_completeness auto

text \<open>Every parser that succeeds consumes a token, every loop keeps the rest.\<close>

lemma shorter:
  "parse_add_sub_add_loop_parse_mul_div_mul_loop_parse_primary_dom (Inl (Inl ts)) \<Longrightarrow>
     parse_add_sub ts = Val (v, r) \<Longrightarrow> length r < length ts"
  "parse_add_sub_add_loop_parse_mul_div_mul_loop_parse_primary_dom (Inl (Inr (a, us))) \<Longrightarrow>
     add_loop a us = Val (v, r) \<Longrightarrow> length r \<le> length us"
  "parse_add_sub_add_loop_parse_mul_div_mul_loop_parse_primary_dom (Inr (Inl ts)) \<Longrightarrow>
     parse_mul_div ts = Val (v, r) \<Longrightarrow> length r < length ts"
  "parse_add_sub_add_loop_parse_mul_div_mul_loop_parse_primary_dom (Inr (Inr (Inl (a, us)))) \<Longrightarrow>
     mul_loop a us = Val (v, r) \<Longrightarrow> length r \<le> length us"
  "parse_add_sub_add_loop_parse_mul_div_mul_loop_parse_primary_dom (Inr (Inr (Inr ts))) \<Longrightarrow>
     parse_primary ts = Val (v, r) \<Longrightarrow> length r < length ts"
proof (induction ts and a us and ts and a us and ts arbitrary: v r and v r and v r and v r and v r
    rule: parse_add_sub_add_loop_parse_mul_div_mul_loop_parse_primary.pinduct)
  case (1 ts)
  then show ?case by (fastforce simp: parse_add_sub.psimps cbind_Val)
next
  case (2 left ts)
  show ?case using "2.prems" "2.IH" "2.hyps"
    by (fastforce simp: add_loop.psimps cbind_Val split: list.splits Token.splits if_splits)
next
  case (3 ts)
  then show ?case by (fastforce simp: parse_mul_div.psimps cbind_Val)
next
  case (4 left ts)
  show ?case using "4.prems" "4.IH" "4.hyps"
    by (fastforce simp: mul_loop.psimps cbind_Val split: list.splits Token.splits if_splits)
next
  case (5 ts)
  note e = parse_primary.psimps [OF "5.hyps"]
  consider n us where "ts = Num n # us" | us where "ts = LParen # us" | "parse_primary ts = Reject"
    unfolding e by (cases ts; cases "hd ts"; auto)
  then show ?case
  proof cases
    case (2 us)
    have "cbind (parse_add_sub us) (\<lambda>(v, ts). case ts of RParen # ts'' \<Rightarrow> Val (v, ts'') | _ \<Rightarrow> Reject) = Val (v, r)"
      using "5.prems" e 2 by simp
    then obtain w x where w: "parse_add_sub us = Val (w, x)" "(case x of RParen # y \<Rightarrow> Val (w, y) | _ \<Rightarrow> Reject) = Val (v, r)"
      by (auto simp: cbind_Val)
    have "length x < length us" using "5.IH" [of LParen us w x] 2 w(1) by simp
    then show ?thesis using w(2) 2 by (auto split: list.splits Token.splits)
  qed (use "5.prems" e in simp_all)
qed

termination parse_add_sub
  by (relation "measure (\<lambda>x. case x of Inl (Inl ts) \<Rightarrow> 3 * length ts + 3 | Inl (Inr (a, ts)) \<Rightarrow> 3 * length ts + 1
     | Inr (Inl ts) \<Rightarrow> 3 * length ts + 2 | Inr (Inr (Inl (a, ts))) \<Rightarrow> 3 * length ts + 1 | Inr (Inr (Inr ts)) \<Rightarrow> 3 * length ts + 1)")
    (auto dest: shorter)

declare parse_add_sub.simps [simp del] add_loop.simps [simp del] parse_mul_div.simps [simp del] mul_loop.simps [simp del]
  parse_primary.simps [simp del]

definition eval_expr :: "u8 list \<Rightarrow> i64 calc" where
  "eval_expr input =
     (case tokenize_expr input of
        None \<Rightarrow> Reject
      | Some tokens \<Rightarrow> cbind (parse_add_sub tokens) (\<lambda>(v, ts). if ts = [] then Val v else Reject))"


subsection \<open>Expressions and their values\<close>

datatype bop = Plus | Minus | Times | Divide | Rest

datatype expr = Lit i64 | Paren expr | Bin bop expr expr

fun additive :: "bop \<Rightarrow> bool" where
  "additive Plus = True"
| "additive Minus = True"
| "additive o1 = False"

fun op_byte :: "bop \<Rightarrow> u8" where
  "op_byte Plus = 0x2B"
| "op_byte Minus = 0x2D"
| "op_byte Times = 0x2A"
| "op_byte Divide = 0x2F"
| "op_byte Rest = 0x25"

fun op_val :: "bop \<Rightarrow> i64 \<Rightarrow> i64 \<Rightarrow> i64 calc" where
  "op_val Plus x y = Val (x + y)"
| "op_val Minus x y = Val (x - y)"
| "op_val Times x y = Val (x * y)"
| "op_val Divide x y = div_op 0x2F x y"
| "op_val Rest x y = div_op 0x25 x y"

fun expr_val :: "expr \<Rightarrow> i64 calc" where
  "expr_val (Lit n) = Val n"
| "expr_val (Paren e) = expr_val e"
| "expr_val (Bin o1 a b) = cbind (expr_val a) (\<lambda>x. cbind (expr_val b) (\<lambda>y. op_val o1 x y))"

text \<open>
  The tokens of an expression where level 0 allows a sum, level 1 a product and level 2 neither without
  parentheses; operators associate to the left.
\<close>

definition wrap :: "bool \<Rightarrow> Token list \<Rightarrow> Token list" where
  "wrap p ts = (if p then [LParen] @ ts @ [RParen] else ts)"

fun toks :: "nat \<Rightarrow> expr \<Rightarrow> Token list" where
  "toks l (Lit n) = [Num n]"
| "toks l (Paren e) = wrap True (toks 0 e)"
| "toks l (Bin o1 a b) =
     (if additive o1 then wrap (0 < l) (toks 0 a @ [Op (op_byte o1)] @ toks 1 b)
      else wrap (1 < l) (toks 1 a @ [Op (op_byte o1)] @ toks 2 b))"

lemma cbind_assoc: "cbind (cbind x f) g = cbind x (\<lambda>v. cbind (f v) g)"
  by (cases x) auto

lemma cbind_Val_right: "cbind x (\<lambda>v. Val v) = x"
  by (cases x) auto

lemma cbind_fun_cong: "(\<And>v. f v = g v) \<Longrightarrow> cbind x f = cbind x g"
  by (cases x) auto

definition no_mul :: "Token list \<Rightarrow> bool" where
  "no_mul r \<longleftrightarrow> (case r of Op c # r' \<Rightarrow> c \<noteq> 0x2A \<and> c \<noteq> 0x2F \<and> c \<noteq> 0x25 | _ \<Rightarrow> True)"

lemma no_mul_simps [simp]: "no_mul []" "no_mul (RParen # r)" "no_mul (Op (op_byte o1) # r) \<longleftrightarrow> additive o1"
  by (simp_all add: no_mul_def) (cases o1; simp)

lemma mul_loop_end: "no_mul r \<Longrightarrow> mul_loop v r = Val (v, r)"
  by (subst mul_loop.simps) (auto simp: no_mul_def split: list.splits Token.splits)

lemma add_loop_end: "add_loop v [] = Val (v, [])" "add_loop v (RParen # r) = Val (v, RParen # r)"
  by (simp_all add: add_loop.simps)

lemma loop_op:
  "additive o1 \<Longrightarrow> add_loop v (Op (op_byte o1) # ts) = cbind (parse_mul_div ts) (\<lambda>(w, ts). cbind (op_val o1 v w) (\<lambda>q. add_loop q ts))"
  "\<not> additive o1 \<Longrightarrow> mul_loop v (Op (op_byte o1) # ts) = cbind (parse_primary ts) (\<lambda>(w, ts). cbind (op_val o1 v w) (\<lambda>q. mul_loop q ts))"
  by (cases o1; subst add_loop.simps; simp) (cases o1; subst mul_loop.simps; simp)

text \<open>The parser computes the value and goes on behind the expression.\<close>

lemma parse_wrapped:
  assumes "\<And>r. no_mul r \<Longrightarrow> parse_add_sub (ts @ r) = cbind x (\<lambda>v. add_loop v r)"
  shows "parse_primary (wrap True ts @ r) = cbind x (\<lambda>v. Val (v, r))"
  using assms [of "RParen # r"] by (subst parse_primary.simps) (simp add: wrap_def cbind_assoc add_loop_end)

lemma parse_levels:
  assumes "\<And>r. parse_primary (ts @ r) = cbind x (\<lambda>v. Val (v, r))"
  shows "parse_mul_div (ts @ r) = cbind x (\<lambda>v. mul_loop v r)"
  using assms by (subst parse_mul_div.simps) (simp add: cbind_assoc)

lemma parse_levels_0:
  assumes "\<And>r. parse_mul_div (ts @ r) = cbind x (\<lambda>v. mul_loop v r)" "no_mul r"
  shows "parse_add_sub (ts @ r) = cbind x (\<lambda>v. add_loop v r)"
  using assms by (subst parse_add_sub.simps) (simp add: cbind_assoc mul_loop_end)

lemma parse_toks:
  "(\<forall>r. no_mul r \<longrightarrow> parse_add_sub (toks 0 e @ r) = cbind (expr_val e) (\<lambda>v. add_loop v r)) \<and>
   (\<forall>r. parse_mul_div (toks 1 e @ r) = cbind (expr_val e) (\<lambda>v. mul_loop v r)) \<and>
   (\<forall>r. parse_primary (toks 2 e @ r) = cbind (expr_val e) (\<lambda>v. Val (v, r)))"
proof (induction e)
  case (Lit n)
  have p: "parse_primary ([Num n] @ r) = cbind (Val n) (\<lambda>v. Val (v, r))" for r by (subst parse_primary.simps) simp
  note m = parse_levels [OF p]
  show ?case unfolding toks.simps expr_val.simps using p m parse_levels_0 [OF m] by blast
next
  case (Paren e)
  have p: "parse_primary (wrap True (toks 0 e) @ r) = cbind (expr_val e) (\<lambda>v. Val (v, r))" for r
    using parse_wrapped Paren by blast
  note m = parse_levels [OF p]
  show ?case unfolding toks.simps expr_val.simps using p m parse_levels_0 [OF m] by blast
next
  case (Bin o1 a b)
  show ?case
  proof (cases "additive o1")
    case True
    let ?ts = "toks 0 a @ [Op (op_byte o1)] @ toks 1 b"
    have s: "parse_add_sub (?ts @ r) = cbind (expr_val (Bin o1 a b)) (\<lambda>v. add_loop v r)" if "no_mul r" for r
      using Bin True that by (simp add: loop_op cbind_assoc mul_loop_end)
    have p: "parse_primary (wrap True ?ts @ r) = cbind (expr_val (Bin o1 a b)) (\<lambda>v. Val (v, r))" for r
      using parse_wrapped [OF s] by blast
    have e: "toks 0 (Bin o1 a b) = ?ts" "toks 1 (Bin o1 a b) = wrap True ?ts" "toks 2 (Bin o1 a b) = wrap True ?ts"
      using True by (simp_all add: wrap_def)
    show ?thesis unfolding e using s p parse_levels [OF p] by blast
  next
    case False
    let ?ts = "toks 1 a @ [Op (op_byte o1)] @ toks 2 b"
    have m: "parse_mul_div (?ts @ r) = cbind (expr_val (Bin o1 a b)) (\<lambda>v. mul_loop v r)" for r
      using Bin False by (simp add: loop_op cbind_assoc)
    note s = parse_levels_0 [OF m]
    have p: "parse_primary (wrap True ?ts @ r) = cbind (expr_val (Bin o1 a b)) (\<lambda>v. Val (v, r))" for r
      using parse_wrapped [OF s] by blast
    have e: "toks 0 (Bin o1 a b) = ?ts" "toks 1 (Bin o1 a b) = ?ts" "toks 2 (Bin o1 a b) = wrap True ?ts"
      using False by (simp_all add: wrap_def)
    show ?thesis unfolding e using s m p by blast
  qed
qed

text \<open>Conversely, what a parser consumes is an expression, and what it returns is its value.\<close>

lemma level_1_at_0: "\<exists>e'. toks 0 e' = toks 1 e \<and> expr_val e' = expr_val e"
proof (cases e)
  case (Bin o1 a b)
  show ?thesis
  proof (cases "additive o1")
    case True
    then have "toks 0 (Paren e) = toks 1 e" using Bin by (simp add: wrap_def)
    then show ?thesis by (intro exI [of _ "Paren e"]) simp
  next
    case False
    then have "toks 0 e = toks 1 e" using Bin by (simp add: wrap_def)
    then show ?thesis by blast
  qed
qed (auto intro: exI [of _ e])

lemma level_2_at_1: "\<exists>e'. toks 1 e' = toks 2 e \<and> expr_val e' = expr_val e"
proof (cases e)
  case (Bin o1 a b)
  show ?thesis
  proof (cases "additive o1")
    case True
    then have "toks 1 e = toks 2 e" using Bin by (simp add: wrap_def)
    then show ?thesis by blast
  next
    case False
    then have "toks 1 (Paren e) = toks 2 e" using Bin by (simp add: wrap_def)
    then show ?thesis by (intro exI [of _ "Paren e"]) simp
  qed
qed (auto intro: exI [of _ e])

lemma add_loop_cases:
  assumes "add_loop v ts = Val (w, r)"
  obtains "ts = r" "w = v"
  | o1 us x rs q where "additive o1" "ts = Op (op_byte o1) # us" "parse_mul_div us = Val (x, rs)" "op_val o1 v x = Val q" "add_loop q rs = Val (w, r)"
proof -
  consider c us where "ts = Op c # us" | "add_loop v ts = Val (v, ts)"
    unfolding add_loop.simps [of v ts] by (cases ts; cases "hd ts"; auto)
  then consider o1 us where "additive o1" "ts = Op (op_byte o1) # us" | "add_loop v ts = Val (v, ts)"
  proof cases
    case (1 c us)
    then show ?thesis using that(1) [of Plus us] that(1) [of Minus us] that(2)
      by (cases "c = 0x2B"; cases "c = 0x2D") (simp_all add: add_loop.simps [of v "Op c # us"])
  qed (use that in simp)
  then show thesis
  proof cases
    case (1 o1 us)
    then have "cbind (parse_mul_div us) (\<lambda>(w, ts). cbind (op_val o1 v w) (\<lambda>q. add_loop q ts)) = Val (w, r)"
      using assms loop_op(1) [of o1 v us] by simp
    then show ?thesis using that(2) [OF 1] by (auto simp: cbind_Val)
  qed (use that(1) assms in auto)
qed

lemma mul_loop_cases:
  assumes "mul_loop v ts = Val (w, r)"
  obtains "ts = r" "w = v"
  | o1 us x rs q where "\<not> additive o1" "ts = Op (op_byte o1) # us" "parse_primary us = Val (x, rs)" "op_val o1 v x = Val q" "mul_loop q rs = Val (w, r)"
proof -
  consider c us where "ts = Op c # us" | "mul_loop v ts = Val (v, ts)"
    unfolding mul_loop.simps [of v ts] by (cases ts; cases "hd ts"; auto)
  then consider o1 us where "\<not> additive o1" "ts = Op (op_byte o1) # us" | "mul_loop v ts = Val (v, ts)"
  proof cases
    case (1 c us)
    then show ?thesis using that(1) [of Times us] that(1) [of Divide us] that(1) [of Rest us] that(2)
      by (cases "c = 0x2A"; cases "c = 0x2F"; cases "c = 0x25") (simp_all add: mul_loop.simps [of v "Op c # us"])
  qed (use that in simp)
  then show thesis
  proof cases
    case (1 o1 us)
    then have "cbind (parse_primary us) (\<lambda>(w, ts). cbind (op_val o1 v w) (\<lambda>q. mul_loop q ts)) = Val (w, r)"
      using assms loop_op(2) [of o1 v us] by simp
    then show ?thesis using that(2) [OF 1] by (auto simp: cbind_Val)
  qed (use that(1) assms in auto)
qed

lemma parse_primary_cases:
  assumes "parse_primary ts = Val (v, r)"
  obtains n where "ts = Num n # r" "v = n" | us where "ts = LParen # us" "parse_add_sub us = Val (v, RParen # r)"
proof -
  consider n us where "ts = Num n # us" | us where "ts = LParen # us" | "parse_primary ts = Reject"
    unfolding parse_primary.simps [of ts] by (cases ts; cases "hd ts"; auto)
  then show thesis
  proof cases
    case (1 n us)
    then show ?thesis using that(1) [of n] assms by (simp add: parse_primary.simps)
  next
    case (2 us)
    then have "cbind (parse_add_sub us) (\<lambda>(v, ts). case ts of RParen # ts'' \<Rightarrow> Val (v, ts'') | _ \<Rightarrow> Reject) = Val (v, r)"
      using assms by (subst (asm) parse_primary.simps) simp
    then obtain w x where x: "parse_add_sub us = Val (w, x)" "(case x of RParen # y \<Rightarrow> Val (w, y) | _ \<Rightarrow> Reject) = Val (v, r)"
      by (auto simp: cbind_Val)
    from x(2) have "x = RParen # r" "w = v" by (cases x; cases "hd x"; auto)+
    then show ?thesis using that(2) 2 x(1) by simp
  qed (use assms in simp)
qed

lemma toks_ne: "toks l e \<noteq> []"
  by (cases e) (auto simp: wrap_def)

lemma parse_sound:
  "(\<forall>v r. parse_add_sub ts = Val (v, r) \<longrightarrow> (\<exists>e. ts = toks 0 e @ r \<and> expr_val e = Val v)) \<and>
   (\<forall>v r. parse_mul_div ts = Val (v, r) \<longrightarrow> (\<exists>e. ts = toks 1 e @ r \<and> expr_val e = Val v)) \<and>
   (\<forall>v r. parse_primary ts = Val (v, r) \<longrightarrow> (\<exists>e. ts = toks 2 e @ r \<and> expr_val e = Val v))"
proof (induction ts rule: length_induct)
  case (1 ts)
  note IH = 1 [rule_format]
  have p: "\<exists>e. ts = toks 2 e @ r \<and> expr_val e = Val v" if "parse_primary ts = Val (v, r)" for v r
  proof -
    from that show ?thesis
    proof (cases rule: parse_primary_cases)
      case (1 n)
      then show ?thesis by (intro exI [of _ "Lit n"]) simp
    next
      case (2 us)
      then obtain e where e: "us = toks 0 e @ RParen # r" "expr_val e = Val v" using IH [of us] by auto
      then show ?thesis using 2 by (intro exI [of _ "Paren e"]) (simp add: wrap_def)
    qed
  qed
  have ml: "\<exists>e'. toks 1 e @ us = toks 1 e' @ r \<and> expr_val e' = Val v"
    if "mul_loop x us = Val (v, r)" "expr_val e = Val x" "length us < length ts" for x us v r e
    using that
  proof (induction us arbitrary: x e rule: length_induct)
    case (1 us)
    from "1.prems"(1) show ?case
    proof (cases rule: mul_loop_cases)
      case (2 o1 vs y rs q)
      obtain b where b: "vs = toks 2 b @ rs" "expr_val b = Val y" using IH [of vs] 2 "1.prems"(3) by auto
      have "toks 1 e @ us = toks 1 (Bin o1 e b) @ rs" using 2 b by (simp add: wrap_def)
      moreover have "expr_val (Bin o1 e b) = Val q" using 2 b "1.prems"(2) by simp
      moreover have "length rs < length us" using 2 b by simp
      ultimately show ?thesis using "1.IH" [rule_format, of rs q "Bin o1 e b"] 2 "1.prems"(3) by auto
    qed (use "1.prems" in auto)
  qed
  have m: "\<exists>e. ts = toks 1 e @ r \<and> expr_val e = Val v" if "parse_mul_div ts = Val (v, r)" for v r
  proof -
    from that obtain x us where x: "parse_primary ts = Val (x, us)" "mul_loop x us = Val (v, r)"
      unfolding parse_mul_div.simps [of ts] by (auto simp: cbind_Val)
    obtain e where e: "ts = toks 2 e @ us" "expr_val e = Val x" using p [OF x(1)] by blast
    obtain e' where e': "toks 1 e' = toks 2 e" "expr_val e' = expr_val e" using level_2_at_1 by blast
    have "length us < length ts" using e(1) toks_ne [of 2 e] by simp
    then show ?thesis using ml [OF x(2), of e'] e e' by simp
  qed
  have al: "\<exists>e'. toks 0 e @ us = toks 0 e' @ r \<and> expr_val e' = Val v"
    if "add_loop x us = Val (v, r)" "expr_val e = Val x" "length us < length ts" for x us v r e
    using that
  proof (induction us arbitrary: x e rule: length_induct)
    case (1 us)
    from "1.prems"(1) show ?case
    proof (cases rule: add_loop_cases)
      case (2 o1 vs y rs q)
      obtain b where b: "vs = toks 1 b @ rs" "expr_val b = Val y" using IH [of vs] 2 "1.prems"(3) by auto
      have "toks 0 e @ us = toks 0 (Bin o1 e b) @ rs" using 2 b by (simp add: wrap_def)
      moreover have "expr_val (Bin o1 e b) = Val q" using 2 b "1.prems"(2) by simp
      moreover have "length rs < length us" using 2 b by simp
      ultimately show ?thesis using "1.IH" [rule_format, of rs q "Bin o1 e b"] 2 "1.prems"(3) by auto
    qed (use "1.prems" in auto)
  qed
  have "\<exists>e. ts = toks 0 e @ r \<and> expr_val e = Val v" if "parse_add_sub ts = Val (v, r)" for v r
  proof -
    from that obtain x us where x: "parse_mul_div ts = Val (x, us)" "add_loop x us = Val (v, r)"
      unfolding parse_add_sub.simps [of ts] by (auto simp: cbind_Val)
    obtain e where e: "ts = toks 1 e @ us" "expr_val e = Val x" using m [OF x(1)] by blast
    obtain e' where e': "toks 0 e' = toks 1 e" "expr_val e' = expr_val e" using level_1_at_0 by blast
    have "length us < length ts" using e(1) toks_ne [of 1 e] by simp
    then show ?thesis using al [OF x(2), of e'] e e' by simp
  qed
  then show ?case using m p by blast
qed




subsection \<open>Expressions as text\<close>

definition show_num :: "i64 \<Rightarrow> u8 list" where
  "show_num n = (if sint n < 0 then 0x2D # dec (nat (- sint n)) else dec (nat (sint n)))"

fun show_tok :: "Token \<Rightarrow> u8 list" where
  "show_tok (Num n) = show_num n"
| "show_tok (Op c) = [c]"
| "show_tok LParen = [0x28]"
| "show_tok RParen = [0x29]"

definition show_toks :: "Token list \<Rightarrow> u8 list" where
  "show_toks ts = concat (map show_tok ts)"

text \<open>The smallest number has no literal: its digits are read before its sign.\<close>

fun printable :: "expr \<Rightarrow> bool" where
  "printable (Lit n) = (n \<noteq> 0x8000000000000000)"
| "printable (Paren e) = printable e"
| "printable (Bin o1 a b) = (printable a \<and> printable b)"

definition no_digit :: "u8 list \<Rightarrow> bool" where
  "no_digit s \<longleftrightarrow> s = [] \<or> \<not> is_digit (hd s)"

lemma is_digit_unat: "is_digit b \<longleftrightarrow> 48 \<le> unat b \<and> unat b \<le> 57"
  by (simp add: is_digit_def word_le_nat_alt)

lemma dec_digits: "list_all is_digit (dec n)"
  using set_dec by (auto simp: list_all_iff is_digit_unat)

lemma take_digits:
  assumes "no_digit s"
  shows "takeWhile is_digit (dec n @ s) = dec n" "dropWhile is_digit (dec n @ s) = s"
proof -
  have t: "takeWhile is_digit s = []" "dropWhile is_digit s = s" using assms by (cases s; simp add: no_digit_def)+
  show "takeWhile is_digit (dec n @ s) = dec n" "dropWhile is_digit (dec n @ s) = s"
    using dec_digits [of n] t by (simp_all add: takeWhile_append dropWhile_append list_all_iff)
qed

lemma parse_dec: "n < 2 ^ 63 \<Longrightarrow> parse_i64 (dec n) = Some (of_nat n)"
  by (simp add: parse_i64_def digits_val_def foldl_dec)

lemma digit_not_special: "is_digit b \<Longrightarrow> b \<noteq> 0x20 \<and> b \<noteq> 0x09 \<and> \<not> is_op b \<and> b \<noteq> 0x28 \<and> b \<noteq> 0x29"
  by (auto simp: is_digit_unat is_op_def)

lemma sint_bounds: "- (2 ^ 63) \<le> sint n" "sint n < 2 ^ 63" for n :: i64
  using sint_greater_eq [of n] sint_less [of n] by simp_all

lemma sint_min: "n \<noteq> 0x8000000000000000 \<Longrightarrow> - (2 ^ 63) < sint n" for n :: i64
proof -
  assume n: "n \<noteq> 0x8000000000000000"
  have "sint (0x8000000000000000 :: i64) = - (2 ^ 63)" by simp
  then have "sint n \<noteq> - (2 ^ 63)" using n by (metis signed_word_eqI)
  then show ?thesis using sint_bounds(1) [of n] by linarith
qed

lemma tokenize_num:
  assumes "is_unary acc" "no_digit s" "n \<noteq> 0x8000000000000000"
  shows "tokenize_from acc (show_num n @ s) = tokenize_from (acc @ [Num n]) s"
proof (cases "sint n < 0")
  case True
  let ?m = "nat (- sint n)"
  have m: "?m < 2 ^ 63" using sint_min [OF assms(3)] True by (simp add: nat_less_iff)
  have "- (of_nat ?m) = n" using True by simp
  then show ?thesis
    using True assms(1) m take_digits [OF assms(2)] parse_dec [OF m] by (simp add: show_num_def is_op_def Let_def)
next
  case False
  let ?m = "nat (sint n)"
  have m: "?m < 2 ^ 63" using sint_bounds(2) [of n] False by (simp add: nat_less_iff)
  have n: "of_nat ?m = n" using False by simp
  obtain d ds where d: "dec ?m = d # ds" by (cases "dec ?m") auto
  have "is_digit d" using dec_digits [of ?m] d by simp
  then show ?thesis
    using False d digit_not_special [of d] take_digits [OF assms(2), of ?m] parse_dec [OF m] n by (simp add: show_num_def)
qed

definition closes :: "Token list \<Rightarrow> bool" where
  "closes ts \<longleftrightarrow> ts \<noteq> [] \<and> (case last ts of Num n \<Rightarrow> True | RParen \<Rightarrow> True | _ \<Rightarrow> False)"

lemma closes_toks: "closes (toks l e)"
proof (induction e arbitrary: l)
  case (Bin o1 a b)
  then show ?case using toks_ne by (auto simp: closes_def wrap_def)
qed (auto simp: closes_def wrap_def)

lemma show_toks_simps [simp]: "show_toks [] = []" "show_toks (t # ts) = show_tok t @ show_toks ts" "show_toks (ts @ us) = show_toks ts @ show_toks us"
  by (simp_all add: show_toks_def)

lemma no_digit_simps [simp]: "no_digit []" "no_digit (0x29 # s)" "no_digit (op_byte o1 # s)"
  by (simp_all add: no_digit_def is_digit_unat) (cases o1; simp)

lemma tokenize_op:
  assumes "closes ts"
  shows "tokenize_from (acc @ ts) (op_byte o1 # s) = tokenize_from (acc @ ts @ [Op (op_byte o1)]) s"
proof -
  have "\<not> is_unary (acc @ ts)" using assms by (auto simp: closes_def is_unary_def split: Token.splits)
  then show ?thesis by (cases o1) (simp_all add: is_op_def)
qed

lemma tokenize_wrap:
  assumes "\<And>acc s. is_unary acc \<Longrightarrow> no_digit s \<Longrightarrow> tokenize_from acc (show_toks ts @ s) = tokenize_from (acc @ ts) s" "is_unary acc" "no_digit s"
  shows "tokenize_from acc (show_toks (wrap p ts) @ s) = tokenize_from (acc @ wrap p ts) s"
proof (cases p)
  case True
  have "is_unary (acc @ [LParen])" by (simp add: is_unary_def)
  then have "tokenize_from (acc @ [LParen]) (show_toks ts @ 0x29 # s) = tokenize_from ((acc @ [LParen]) @ ts) (0x29 # s)"
    by (rule assms(1)) simp
  then show ?thesis using True by (simp add: wrap_def is_op_def)
qed (use assms in \<open>simp add: wrap_def\<close>)

lemma tokenize_toks:
  assumes "printable e" "is_unary acc" "no_digit s"
  shows "tokenize_from acc (show_toks (toks l e) @ s) = tokenize_from (acc @ toks l e) s"
  using assms
proof (induction e arbitrary: l acc s)
  case (Lit n)
  then show ?case using tokenize_num by simp
next
  case (Paren e)
  then show ?case using tokenize_wrap [of "toks 0 e" acc s True] by simp
next
  case (Bin o1 a b)
  have t: "tokenize_from acc (show_toks (toks i a @ [Op (op_byte o1)] @ toks j b) @ s) = tokenize_from (acc @ toks i a @ [Op (op_byte o1)] @ toks j b) s"
    if "is_unary acc" "no_digit s" for i j acc s
  proof -
    have "is_unary (acc @ toks i a @ [Op (op_byte o1)])" by (simp add: is_unary_def)
    then show ?thesis
      using Bin.IH(1) [of acc "op_byte o1 # show_toks (toks j b) @ s" i] Bin.IH(2) [of "acc @ toks i a @ [Op (op_byte o1)]" s j]
        tokenize_op [OF closes_toks, of acc i a o1] Bin.prems(1) that by simp
  qed
  show ?case using tokenize_wrap [OF t Bin.prems(2,3)] by (simp del: append_assoc)
qed

text \<open>
  C27: an expression written out is evaluated to its value: for every expression over literals other than the smallest
  number, with parentheses where precedence needs them, \<^verbatim>\<open>eval_expr\<close> of its text returns the value of the
  expression, rejects it on a division by zero and panics on the one quotient that does not fit.
\<close>

theorem calc_text:
  assumes "printable e"
  shows "eval_expr (show_toks (toks 0 e)) = expr_val e"
proof -
  have "tokenize_expr (show_toks (toks 0 e)) = Some (toks 0 e)"
    using tokenize_toks [OF assms, of "[]" "[]" 0] by (simp add: tokenize_expr_def is_unary_def)
  moreover have "parse_add_sub (toks 0 e) = cbind (expr_val e) (\<lambda>v. Val (v, []))"
    using parse_toks [of e] by (auto simp: add_loop_end dest!: spec [of _ "[]"])
  ultimately show ?thesis by (simp add: eval_expr_def cbind_assoc cbind_Val_right)
qed

text \<open>The expression \<^verbatim>\<open>(-9223372036854775807-1)/-1\<close> panics.\<close>

theorem calc_text_witness:
  "eval_expr (show_toks (toks 0 (Bin Divide (Bin Minus (Lit (- 9223372036854775807)) (Lit 1)) (Lit (- 1))))) = Overflow"
  by (subst calc_text) (simp_all add: div_op_def)

end
