(* ===== verification/Keyboard.thy ===== *)
theory Keyboard
  imports Fifo
begin

unbundle bit_operations_syntax

text \<open>
  The PS/2 keyboard driver, \<^verbatim>\<open>kernel/src/hal/keyboard.rs\<close>: scancode set 1 to key codes, the modifier
  state, key codes to ASCII, and the ring of 64 slots between the interrupt handler and the readers.
  The driver's statics are the fields of \<^verbatim>\<open>Keyboard\<close>. The blocking \<^verbatim>\<open>read_char\<close> polls \<^verbatim>\<open>read_key\<close> until an
  interrupt delivers a press; its body is \<^verbatim>\<open>try_read_char\<close> on whatever has arrived.
\<close>

datatype (plugins only: size) KeyCode =
  Key_Unknown | Key_Escape | Key_F1 | Key_F2 | Key_F3 | Key_F4 | Key_F5 | Key_F6 | Key_F7 | Key_F8 | Key_F9 | Key_F10
  | Key_F11 | Key_F12 | Key_Backquote | Key_1 | Key_2 | Key_3 | Key_4 | Key_5 | Key_6 | Key_7 | Key_8 | Key_9
  | Key_0 | Key_Minus | Key_Equals | Key_Backspace | Key_Tab | Key_Q | Key_W | Key_E | Key_R | Key_T | Key_Y | Key_U
  | Key_I | Key_O | Key_P | Key_LeftBracket | Key_RightBracket | Key_Backslash | Key_CapsLock | Key_A | Key_S | Key_D | Key_F | Key_G
  | Key_H | Key_J | Key_K | Key_L | Key_Semicolon | Key_Quote | Key_Enter | Key_LeftShift | Key_Z | Key_X | Key_C | Key_V
  | Key_B | Key_N | Key_M | Key_Comma | Key_Period | Key_Slash | Key_RightShift | Key_LeftCtrl | Key_LeftAlt | Key_Space | Key_RightAlt | Key_RightCtrl
  | Key_Up | Key_Down | Key_Left | Key_Right | Key_Home | Key_End | Key_PageUp | Key_PageDown | Key_Insert | Key_Delete

record KeyEvent =
  ascii :: u8
  key :: KeyCode
  pressed :: bool

record ModifierState =
  left_shift :: bool
  right_shift :: bool
  caps_lock :: bool
  left_ctrl :: bool
  right_ctrl :: bool
  left_alt :: bool
  right_alt :: bool

definition mods_new :: ModifierState where
  "mods_new = \<lparr>left_shift = False, right_shift = False, caps_lock = False, left_ctrl = False, right_ctrl = False,
     left_alt = False, right_alt = False\<rparr>"

definition shift_held :: "ModifierState \<Rightarrow> bool" where
  "shift_held m \<longleftrightarrow> left_shift m \<or> right_shift m"

definition ctrl_held :: "ModifierState \<Rightarrow> bool" where
  "ctrl_held m \<longleftrightarrow> left_ctrl m \<or> right_ctrl m"

definition alt_held :: "ModifierState \<Rightarrow> bool" where
  "alt_held m \<longleftrightarrow> left_alt m \<or> right_alt m"


subsection \<open>The event ring\<close>

definition KEY_BUFFER_SIZE :: nat where
  "KEY_BUFFER_SIZE = 64"

record KeyBuffer =
  kb_buffer :: "KeyEvent list"
  read_pos :: nat
  write_pos :: nat

definition kb_new :: KeyBuffer where
  "kb_new = \<lparr>kb_buffer = replicate KEY_BUFFER_SIZE \<lparr>ascii = 0, key = Key_Unknown, pressed = False\<rparr>, read_pos = 0, write_pos = 0\<rparr>"

definition kb_push :: "KeyEvent \<Rightarrow> KeyBuffer \<Rightarrow> KeyBuffer" where
  "kb_push e b = (let nxt = (write_pos b + 1) mod KEY_BUFFER_SIZE
     in if nxt \<noteq> read_pos b then b\<lparr>kb_buffer := (kb_buffer b)[write_pos b := e], write_pos := nxt\<rparr> else b)"

definition kb_pop :: "KeyBuffer \<Rightarrow> KeyBuffer \<times> KeyEvent option" where
  "kb_pop b =
     (if read_pos b = write_pos b then (b, None)
      else (b\<lparr>read_pos := (read_pos b + 1) mod KEY_BUFFER_SIZE\<rparr>, Some (kb_buffer b ! read_pos b)))"


subsection \<open>Translation tables\<close>

definition scancode_to_keycode :: "u8 \<Rightarrow> KeyCode" where
  "scancode_to_keycode code = (case map_of
  [
   (0x01, Key_Escape), (0x02, Key_1), (0x03, Key_2), (0x04, Key_3), (0x05, Key_4), (0x06, Key_5),
   (0x07, Key_6), (0x08, Key_7), (0x09, Key_8), (0x0A, Key_9), (0x0B, Key_0), (0x0C, Key_Minus),
   (0x0D, Key_Equals), (0x0E, Key_Backspace), (0x0F, Key_Tab), (0x10, Key_Q), (0x11, Key_W), (0x12, Key_E),
   (0x13, Key_R), (0x14, Key_T), (0x15, Key_Y), (0x16, Key_U), (0x17, Key_I), (0x18, Key_O),
   (0x19, Key_P), (0x1A, Key_LeftBracket), (0x1B, Key_RightBracket), (0x1C, Key_Enter), (0x1D, Key_LeftCtrl), (0x1E, Key_A),
   (0x1F, Key_S), (0x20, Key_D), (0x21, Key_F), (0x22, Key_G), (0x23, Key_H), (0x24, Key_J),
   (0x25, Key_K), (0x26, Key_L), (0x27, Key_Semicolon), (0x28, Key_Quote), (0x29, Key_Backquote), (0x2A, Key_LeftShift),
   (0x2B, Key_Backslash), (0x2C, Key_Z), (0x2D, Key_X), (0x2E, Key_C), (0x2F, Key_V), (0x30, Key_B),
   (0x31, Key_N), (0x32, Key_M), (0x33, Key_Comma), (0x34, Key_Period), (0x35, Key_Slash), (0x36, Key_RightShift),
   (0x38, Key_LeftAlt), (0x39, Key_Space), (0x3A, Key_CapsLock), (0x3B, Key_F1), (0x3C, Key_F2), (0x3D, Key_F3),
   (0x3E, Key_F4), (0x3F, Key_F5), (0x40, Key_F6), (0x41, Key_F7), (0x42, Key_F8), (0x43, Key_F9),
   (0x44, Key_F10), (0x57, Key_F11), (0x58, Key_F12)] code of Some k \<Rightarrow> k | None \<Rightarrow> Key_Unknown)"

definition extended_keycode :: "u8 \<Rightarrow> KeyCode" where
  "extended_keycode code = (case map_of
  [
   (0x48, Key_Up), (0x50, Key_Down), (0x4B, Key_Left), (0x4D, Key_Right), (0x47, Key_Home), (0x4F, Key_End),
   (0x49, Key_PageUp), (0x51, Key_PageDown), (0x52, Key_Insert), (0x53, Key_Delete), (0x1D, Key_RightCtrl), (0x38, Key_RightAlt)] code of Some k \<Rightarrow> k | None \<Rightarrow> Key_Unknown)"

definition ctrl_table :: "(KeyCode \<times> u8) list" where
  "ctrl_table =
  [
   (Key_A, 0x01), (Key_B, 0x02), (Key_C, 0x03), (Key_D, 0x04), (Key_E, 0x05), (Key_F, 0x06),
   (Key_L, 0x0C)]"

definition letter_table :: "(KeyCode \<times> u8 \<times> u8) list" where
  "letter_table =
  [
   (Key_A, 0x41, 0x61), (Key_B, 0x42, 0x62), (Key_C, 0x43, 0x63), (Key_D, 0x44, 0x64), (Key_E, 0x45, 0x65),
   (Key_F, 0x46, 0x66), (Key_G, 0x47, 0x67), (Key_H, 0x48, 0x68), (Key_I, 0x49, 0x69), (Key_J, 0x4A, 0x6A),
   (Key_K, 0x4B, 0x6B), (Key_L, 0x4C, 0x6C), (Key_M, 0x4D, 0x6D), (Key_N, 0x4E, 0x6E), (Key_O, 0x4F, 0x6F),
   (Key_P, 0x50, 0x70), (Key_Q, 0x51, 0x71), (Key_R, 0x52, 0x72), (Key_S, 0x53, 0x73), (Key_T, 0x54, 0x74),
   (Key_U, 0x55, 0x75), (Key_V, 0x56, 0x76), (Key_W, 0x57, 0x77), (Key_X, 0x58, 0x78), (Key_Y, 0x59, 0x79),
   (Key_Z, 0x5A, 0x7A)]"

definition symbol_table :: "(KeyCode \<times> u8 \<times> u8) list" where
  "symbol_table =
  [
   (Key_1, 0x21, 0x31), (Key_2, 0x40, 0x32), (Key_3, 0x23, 0x33), (Key_4, 0x24, 0x34), (Key_5, 0x25, 0x35),
   (Key_6, 0x5E, 0x36), (Key_7, 0x26, 0x37), (Key_8, 0x2A, 0x38), (Key_9, 0x28, 0x39), (Key_0, 0x29, 0x30),
   (Key_Minus, 0x5F, 0x2D), (Key_Equals, 0x2B, 0x3D), (Key_LeftBracket, 0x7B, 0x5B), (Key_RightBracket, 0x7D, 0x5D), (Key_Backslash, 0x7C, 0x5C),
   (Key_Semicolon, 0x3A, 0x3B), (Key_Quote, 0x22, 0x27), (Key_Backquote, 0x7E, 0x60), (Key_Comma, 0x3C, 0x2C), (Key_Period, 0x3E, 0x2E),
   (Key_Slash, 0x3F, 0x2F)]"

definition space_table :: "(KeyCode \<times> u8) list" where
  "space_table =
  [
   (Key_Space, 0x20), (Key_Enter, 0x0A), (Key_Tab, 0x09), (Key_Backspace, 0x08)]"

definition keycode_to_ascii :: "KeyCode \<Rightarrow> bool \<Rightarrow> bool \<Rightarrow> bool \<Rightarrow> u8" where
  "keycode_to_ascii k shift caps ctrl =
     (if ctrl then (case map_of ctrl_table k of Some c \<Rightarrow> c | None \<Rightarrow> 0)
      else let upper = (shift \<noteq> caps) in
        (case map_of letter_table k of Some (u, l) \<Rightarrow> if upper then u else l
         | None \<Rightarrow> (case map_of symbol_table k of Some (s, p) \<Rightarrow> if shift then s else p
         | None \<Rightarrow> (case map_of space_table k of Some c \<Rightarrow> c | None \<Rightarrow> 0))))"


subsection \<open>The interrupt handler and the readers\<close>

record Keyboard =
  MODIFIERS :: ModifierState
  KEY_BUFFER :: KeyBuffer
  EXTENDED_KEY :: bool

definition keyboard_new :: Keyboard where
  "keyboard_new = \<lparr>MODIFIERS = mods_new, KEY_BUFFER = kb_new, EXTENDED_KEY = False\<rparr>"

definition update_mods :: "KeyCode \<Rightarrow> bool \<Rightarrow> ModifierState \<Rightarrow> ModifierState" where
  "update_mods k p m = (case k of
       Key_LeftShift \<Rightarrow> m\<lparr>left_shift := p\<rparr>
     | Key_RightShift \<Rightarrow> m\<lparr>right_shift := p\<rparr>
     | Key_LeftCtrl \<Rightarrow> m\<lparr>left_ctrl := p\<rparr>
     | Key_RightCtrl \<Rightarrow> m\<lparr>right_ctrl := p\<rparr>
     | Key_LeftAlt \<Rightarrow> m\<lparr>left_alt := p\<rparr>
     | Key_RightAlt \<Rightarrow> m\<lparr>right_alt := p\<rparr>
     | Key_CapsLock \<Rightarrow> if p then m\<lparr>caps_lock := \<not> caps_lock m\<rparr> else m
     | _ \<Rightarrow> m)"

definition handle_scancode :: "u8 \<Rightarrow> Keyboard \<Rightarrow> Keyboard" where
  "handle_scancode scancode s =
     (if scancode = 0xE0 then s\<lparr>EXTENDED_KEY := True\<rparr>
      else let is_extended = EXTENDED_KEY s;
               p = (scancode AND 0x80 = 0);
               code = scancode AND 0x7F;
               k = (if is_extended then extended_keycode code else scancode_to_keycode code);
               m = update_mods k p (MODIFIERS s);
               a = (if p then keycode_to_ascii k (shift_held m) (caps_lock m) (ctrl_held m) else 0)
           in s\<lparr>EXTENDED_KEY := False, MODIFIERS := m,
                KEY_BUFFER := kb_push \<lparr>ascii = a, key = k, pressed = p\<rparr> (KEY_BUFFER s)\<rparr>)"

definition read_key :: "Keyboard \<Rightarrow> Keyboard \<times> KeyEvent option" where
  "read_key s = (case kb_pop (KEY_BUFFER s) of (b, e) \<Rightarrow> (s\<lparr>KEY_BUFFER := b\<rparr>, e))"

text \<open>
  The loop of \<^verbatim>\<open>try_read_char\<close>. On a ring with its indices out of range it need not end, so it is
  a partial function; \<^verbatim>\<open>try_read_char_abs\<close> below shows that it returns on every ring of the driver.
\<close>

partial_function (option) try_read_char :: "Keyboard \<Rightarrow> (Keyboard \<times> KeyEvent option) option" where
  "try_read_char s =
     (case read_key s of
        (s', Some e) \<Rightarrow> if pressed e then Some (s', Some e) else try_read_char s'
      | (s', None) \<Rightarrow> Some (s', None))"



subsection \<open>The ring is a bounded queue\<close>

definition kb_inv :: "KeyBuffer \<Rightarrow> bool" where
  "kb_inv b \<longleftrightarrow> length (kb_buffer b) = KEY_BUFFER_SIZE \<and> read_pos b < KEY_BUFFER_SIZE \<and> write_pos b < KEY_BUFFER_SIZE"

definition kb_count :: "KeyBuffer \<Rightarrow> nat" where
  "kb_count b = (if read_pos b \<le> write_pos b then write_pos b - read_pos b else write_pos b + KEY_BUFFER_SIZE - read_pos b)"

definition kb_abs :: "KeyBuffer \<Rightarrow> KeyEvent list" where
  "kb_abs b = ring_abs KEY_BUFFER_SIZE (kb_buffer b) (read_pos b) (kb_count b)"

lemma kb_new_abs: "kb_inv kb_new" "kb_abs kb_new = []"
  by (simp_all add: kb_inv_def kb_new_def kb_abs_def kb_count_def KEY_BUFFER_SIZE_def)

lemma kb_write_pos: "kb_inv b \<Longrightarrow> write_pos b = (read_pos b + kb_count b) mod KEY_BUFFER_SIZE"
  by (auto simp: kb_inv_def kb_count_def)

lemma kb_count_less: "kb_inv b \<Longrightarrow> kb_count b < KEY_BUFFER_SIZE"
  by (auto simp: kb_inv_def kb_count_def)

lemma kb_next_pos: "kb_inv b \<Longrightarrow> (write_pos b + 1) mod KEY_BUFFER_SIZE \<noteq> read_pos b \<longleftrightarrow> kb_count b < KEY_BUFFER_SIZE - 1"
  by (auto simp: kb_inv_def kb_count_def mod_Suc)

lemma kb_push_inv: "kb_inv b \<Longrightarrow> kb_inv (kb_push e b)"
  by (auto simp: kb_inv_def kb_push_def Let_def)

lemma kb_push_abs:
  assumes "kb_inv b"
  shows "kb_abs (kb_push e b) = take (KEY_BUFFER_SIZE - 1) (kb_abs b @ [e])"
proof (cases "kb_count b < KEY_BUFFER_SIZE - 1")
  case True
  have p: "kb_push e b = b\<lparr>kb_buffer := (kb_buffer b)[write_pos b := e], write_pos := (write_pos b + 1) mod KEY_BUFFER_SIZE\<rparr>"
    using True kb_next_pos [OF assms] by (simp add: kb_push_def Let_def)
  have "kb_count (kb_push e b) = Suc (kb_count b)"
    using True assms unfolding p by (auto simp: kb_count_def kb_inv_def mod_Suc)
  then have c: "kb_count (kb_push e b) = Suc (kb_count b)" "read_pos (kb_push e b) = read_pos b"
    "kb_buffer (kb_push e b) = (kb_buffer b)[(read_pos b + kb_count b) mod KEY_BUFFER_SIZE := e]"
    using kb_write_pos [OF assms] by (simp_all add: p)
  show ?thesis
    using ring_abs_push [of "kb_buffer b" KEY_BUFFER_SIZE "kb_count b"] assms True c by (simp add: kb_abs_def kb_inv_def)
next
  case False
  then have "kb_push e b = b" using kb_next_pos [OF assms] by (simp add: kb_push_def Let_def)
  moreover have "kb_count b = KEY_BUFFER_SIZE - 1" using False kb_count_less [OF assms] by simp
  ultimately show ?thesis by (simp add: kb_abs_def)
qed

lemma kb_pop_inv: "kb_inv b \<Longrightarrow> kb_inv (fst (kb_pop b))"
  by (auto simp: kb_inv_def kb_pop_def)

lemma kb_pop_count: "kb_inv b \<Longrightarrow> kb_count (fst (kb_pop b)) = kb_count b - 1"
  by (auto simp: kb_pop_def kb_count_def kb_inv_def mod_Suc)

lemma kb_count_0: "kb_inv b \<Longrightarrow> read_pos b = write_pos b \<longleftrightarrow> kb_count b = 0"
  by (auto simp: kb_count_def kb_inv_def)

interpretation keys: drop_newest kb_inv kb_abs kb_pop "KEY_BUFFER_SIZE - 1" kb_push "\<lambda>e. e"
proof
  fix q x assume q: "kb_inv q"
  show "kb_inv (fst (kb_pop q))" "kb_inv (kb_push x q)" by (rule kb_pop_inv [OF q], rule kb_push_inv [OF q])
  show "kb_abs (kb_push x q) = take (KEY_BUFFER_SIZE - 1) (kb_abs q @ [x])" by (rule kb_push_abs [OF q])
  show "length (kb_abs q) \<le> KEY_BUFFER_SIZE - 1" using kb_count_less [OF q] by (simp add: kb_abs_def)
  have h: "kb_abs q = kb_buffer q ! read_pos q # ring_abs KEY_BUFFER_SIZE (kb_buffer q) (Suc (read_pos q) mod KEY_BUFFER_SIZE) (kb_count q - 1)"
    if "read_pos q \<noteq> write_pos q"
    using ring_abs_pop [of "read_pos q" KEY_BUFFER_SIZE "kb_count q"] q that kb_count_0 [OF q] by (simp add: kb_abs_def kb_inv_def)
  have e: "kb_abs q = []" if "read_pos q = write_pos q" using that kb_count_0 [OF q] by (simp add: kb_abs_def)
  show "snd (kb_pop q) = (case kb_abs q of [] \<Rightarrow> None | x # r \<Rightarrow> Some x)" using h e by (simp add: kb_pop_def)
  show "kb_abs (fst (kb_pop q)) = tl (kb_abs q)"
  proof (cases "read_pos q = write_pos q")
    case False
    have "kb_abs (fst (kb_pop q)) = ring_abs KEY_BUFFER_SIZE (kb_buffer q) (Suc (read_pos q) mod KEY_BUFFER_SIZE) (kb_count q - 1)"
      unfolding kb_abs_def kb_pop_count [OF q] using False by (simp add: kb_pop_def)
    then show ?thesis using h [OF False] by simp
  qed (simp add: kb_pop_def e)
qed

text \<open>\<^verbatim>\<open>try_read_char\<close> returns the oldest press and removes it with the releases before it.\<close>

lemma try_read_char_abs:
  assumes "kb_inv (KEY_BUFFER s)"
  shows "\<exists>b. kb_inv b \<and>
    try_read_char s = Some (s\<lparr>KEY_BUFFER := b\<rparr>, case dropWhile (\<lambda>e. \<not> pressed e) (kb_abs (KEY_BUFFER s)) of [] \<Rightarrow> None | e # r \<Rightarrow> Some e) \<and>
    kb_abs b = tl (dropWhile (\<lambda>e. \<not> pressed e) (kb_abs (KEY_BUFFER s)))"
  using assms
proof (induction "kb_abs (KEY_BUFFER s)" arbitrary: s)
  case Nil
  have "kb_pop (KEY_BUFFER s) = (KEY_BUFFER s, None)"
    using keys.pop_res [OF Nil.prems] Nil.hyps [symmetric] by (simp add: kb_pop_def split: if_splits)
  then show ?case using Nil.prems Nil.hyps [symmetric]
    by (intro exI [of _ "KEY_BUFFER s"]) (simp add: try_read_char.simps read_key_def)
next
  case (Cons e es)
  obtain b' r where b': "kb_pop (KEY_BUFFER s) = (b', r)" by fastforce
  have r: "r = Some e" "kb_inv b'" "kb_abs b' = es"
    using keys.pop_res [OF Cons.prems] keys.pop_inv [OF Cons.prems] keys.pop_abs [OF Cons.prems] Cons.hyps(2) [symmetric] b' by simp_all
  have k: "read_key s = (s\<lparr>KEY_BUFFER := b'\<rparr>, Some e)" using b' r(1) by (simp add: read_key_def)
  show ?case
  proof (cases "pressed e")
    case True
    then show ?thesis using k r Cons.hyps(2) [symmetric]
      by (intro exI [of _ b']) (simp add: try_read_char.simps)
  next
    case False
    then show ?thesis using Cons.hyps(1) [of "s\<lparr>KEY_BUFFER := b'\<rparr>"] k r Cons.hyps(2) [symmetric]
      by (subst try_read_char.simps) simp
  qed
qed


subsection \<open>What the interrupt handler queues\<close>

definition scan_event :: "u8 \<Rightarrow> Keyboard \<Rightarrow> KeyEvent" where
  "scan_event c s =
     (let k = (if EXTENDED_KEY s then extended_keycode (c AND 0x7F) else scancode_to_keycode (c AND 0x7F));
          m = update_mods k (c AND 0x80 = 0) (MODIFIERS s)
      in \<lparr>ascii = if c AND 0x80 = 0 then keycode_to_ascii k (shift_held m) (caps_lock m) (ctrl_held m) else 0,
          key = k, pressed = (c AND 0x80 = 0)\<rparr>)"

primrec scan_events :: "u8 list \<Rightarrow> Keyboard \<Rightarrow> KeyEvent list" where
  "scan_events [] s = []"
| "scan_events (c # cs) s = (if c = 0xE0 then [] else [scan_event c s]) @ scan_events cs (handle_scancode c s)"

lemma handle_scancode_event:
  "handle_scancode c s = (if c = 0xE0 then s\<lparr>EXTENDED_KEY := True\<rparr>
     else s\<lparr>EXTENDED_KEY := False, MODIFIERS := update_mods (key (scan_event c s)) (pressed (scan_event c s)) (MODIFIERS s),
            KEY_BUFFER := kb_push (scan_event c s) (KEY_BUFFER s)\<rparr>)"
  by (simp add: handle_scancode_def scan_event_def Let_def)

lemma scan_events_append: "scan_events (cs @ ds) s = scan_events cs s @ scan_events ds (fold handle_scancode cs s)"
  by (induction cs arbitrary: s) simp_all

lemma scancodes_queued:
  "KEY_BUFFER (fold handle_scancode cs s) = fold kb_push (scan_events cs s) (KEY_BUFFER s)"
  by (induction cs arbitrary: s) (simp_all add: handle_scancode_event)

lemma scancodes_abs:
  assumes "kb_inv (KEY_BUFFER s)"
  shows "kb_inv (KEY_BUFFER (fold handle_scancode cs s))"
    "kb_abs (KEY_BUFFER (fold handle_scancode cs s)) = take (KEY_BUFFER_SIZE - 1) (kb_abs (KEY_BUFFER s) @ scan_events cs s)"
  using scancodes_queued keys.pushes [OF assms] by simp_all


subsection \<open>Typing\<close>

text \<open>The US layout: a character, whether shift is held, and the make code of the key (set 1).\<close>

definition us_layout :: "(u8 \<times> bool \<times> u8) list" where
  "us_layout =
  [
   (0x20, False, 0x39), (0x21, True, 0x02), (0x22, True, 0x28), (0x23, True, 0x04), (0x24, True, 0x05),
   (0x25, True, 0x06), (0x26, True, 0x08), (0x27, False, 0x28), (0x28, True, 0x0A), (0x29, True, 0x0B),
   (0x2A, True, 0x09), (0x2B, True, 0x0D), (0x2C, False, 0x33), (0x2D, False, 0x0C), (0x2E, False, 0x34),
   (0x2F, False, 0x35), (0x30, False, 0x0B), (0x31, False, 0x02), (0x32, False, 0x03), (0x33, False, 0x04),
   (0x34, False, 0x05), (0x35, False, 0x06), (0x36, False, 0x07), (0x37, False, 0x08), (0x38, False, 0x09),
   (0x39, False, 0x0A), (0x3A, True, 0x27), (0x3B, False, 0x27), (0x3C, True, 0x33), (0x3D, False, 0x0D),
   (0x3E, True, 0x34), (0x3F, True, 0x35), (0x40, True, 0x03), (0x41, True, 0x1E), (0x42, True, 0x30),
   (0x43, True, 0x2E), (0x44, True, 0x20), (0x45, True, 0x12), (0x46, True, 0x21), (0x47, True, 0x22),
   (0x48, True, 0x23), (0x49, True, 0x17), (0x4A, True, 0x24), (0x4B, True, 0x25), (0x4C, True, 0x26),
   (0x4D, True, 0x32), (0x4E, True, 0x31), (0x4F, True, 0x18), (0x50, True, 0x19), (0x51, True, 0x10),
   (0x52, True, 0x13), (0x53, True, 0x1F), (0x54, True, 0x14), (0x55, True, 0x16), (0x56, True, 0x2F),
   (0x57, True, 0x11), (0x58, True, 0x2D), (0x59, True, 0x15), (0x5A, True, 0x2C), (0x5B, False, 0x1A),
   (0x5C, False, 0x2B), (0x5D, False, 0x1B), (0x5E, True, 0x07), (0x5F, True, 0x0C), (0x60, False, 0x29),
   (0x61, False, 0x1E), (0x62, False, 0x30), (0x63, False, 0x2E), (0x64, False, 0x20), (0x65, False, 0x12),
   (0x66, False, 0x21), (0x67, False, 0x22), (0x68, False, 0x23), (0x69, False, 0x17), (0x6A, False, 0x24),
   (0x6B, False, 0x25), (0x6C, False, 0x26), (0x6D, False, 0x32), (0x6E, False, 0x31), (0x6F, False, 0x18),
   (0x70, False, 0x19), (0x71, False, 0x10), (0x72, False, 0x13), (0x73, False, 0x1F), (0x74, False, 0x14),
   (0x75, False, 0x16), (0x76, False, 0x2F), (0x77, False, 0x11), (0x78, False, 0x2D), (0x79, False, 0x15),
   (0x7A, False, 0x2C), (0x7B, True, 0x1A), (0x7C, True, 0x2B), (0x7D, True, 0x1B), (0x7E, True, 0x29),
   (0x0A, False, 0x1C), (0x09, False, 0x0F), (0x08, False, 0x0E)]"

text \<open>The scancodes of typing one character: the key pressed and released, between press and release of the left shift key where it is needed.\<close>

definition keystrokes :: "u8 \<Rightarrow> u8 list" where
  "keystrokes ch = (case map_of us_layout ch of
       None \<Rightarrow> []
     | Some (sh, c) \<Rightarrow> (if sh then [0x2A] else []) @ [c, c OR 0x80] @ (if sh then [0xAA] else []))"

text \<open>A reader that calls \<^verbatim>\<open>try_read_char\<close> up to \<^verbatim>\<open>n\<close> times and keeps the characters.\<close>

primrec read_chars :: "nat \<Rightarrow> Keyboard \<Rightarrow> u8 list" where
  "read_chars 0 s = []"
| "read_chars (Suc n) s = (case try_read_char s of
       Some (s', Some e) \<Rightarrow> (if ascii e \<noteq> 0 then [ascii e] else []) @ read_chars n s'
     | _ \<Rightarrow> [])"

lemma filter_dropWhile: "(\<And>x. P x \<Longrightarrow> Q x) \<Longrightarrow> filter P xs = filter P (dropWhile (\<lambda>x. \<not> Q x) xs)"
  by (induction xs) auto

lemma read_chars_abs:
  "kb_inv (KEY_BUFFER s) \<Longrightarrow> length (kb_abs (KEY_BUFFER s)) \<le> n \<Longrightarrow>
    read_chars n s = map ascii (filter (\<lambda>e. pressed e \<and> ascii e \<noteq> 0) (kb_abs (KEY_BUFFER s)))"
proof (induction n arbitrary: s)
  case (Suc n)
  let ?d = "dropWhile (\<lambda>e. \<not> pressed e) (kb_abs (KEY_BUFFER s))"
  obtain b where b: "kb_inv b" "try_read_char s = Some (s\<lparr>KEY_BUFFER := b\<rparr>, case ?d of [] \<Rightarrow> None | e # r \<Rightarrow> Some e)" "kb_abs b = tl ?d"
    using try_read_char_abs [OF Suc.prems(1)] by blast
  have f: "filter (\<lambda>e. pressed e \<and> ascii e \<noteq> 0) (kb_abs (KEY_BUFFER s)) = filter (\<lambda>e. pressed e \<and> ascii e \<noteq> 0) ?d"
    by (rule filter_dropWhile) simp
  show ?case
  proof (cases ?d)
    case (Cons e r)
    have "pressed e" using hd_dropWhile [of "\<lambda>e. \<not> pressed e" "kb_abs (KEY_BUFFER s)"] Cons by simp
    moreover have "length r \<le> n"
      using length_dropWhile_le [of "\<lambda>e. \<not> pressed e" "kb_abs (KEY_BUFFER s)"] Cons Suc.prems(2) by simp
    ultimately show ?thesis using Suc.IH [of "s\<lparr>KEY_BUFFER := b\<rparr>"] b Cons by (simp add: f)
  next
    case Nil
    show ?thesis unfolding f using b(2) unfolding Nil by simp
  qed
qed simp

text \<open>No modifier held or locked, no prefix pending.\<close>

definition neutral :: "Keyboard \<Rightarrow> bool" where
  "neutral s \<longleftrightarrow> MODIFIERS s = mods_new \<and> \<not> EXTENDED_KEY s"

lemma layout_decodes:
  "list_all (\<lambda>(ch, sh, c). scancode_to_keycode c \<notin> {Key_LeftShift, Key_RightShift, Key_LeftCtrl, Key_RightCtrl, Key_LeftAlt, Key_RightAlt, Key_CapsLock} \<and>
     keycode_to_ascii (scancode_to_keycode c) sh False False = ch) us_layout"
  unfolding us_layout_def list.pred_inject prod.case
  by (intro conjI TrueI; simp add: scancode_to_keycode_def keycode_to_ascii_def letter_table_def symbol_table_def space_table_def
      map_of_Cons_code del: map_of.simps)

lemma layout_range: "list_all (\<lambda>(ch, sh, c). ch \<noteq> 0 \<and> c < 0x80 \<and> c \<noteq> 0xE0) us_layout"
  by (simp add: us_layout_def)



lemma us_layoutD:
  assumes "map_of us_layout ch = Some (sh, c)"
  shows "scancode_to_keycode c \<notin> {Key_LeftShift, Key_RightShift, Key_LeftCtrl, Key_RightCtrl, Key_LeftAlt, Key_RightAlt, Key_CapsLock}"
    "keycode_to_ascii (scancode_to_keycode c) sh False False = ch" "ch \<noteq> 0" "c < 0x80" "c \<noteq> 0xE0"
  using layout_decodes layout_range map_of_SomeD [OF assms] by (auto simp: list_all_iff)

lemma update_mods_other:
  "k \<notin> {Key_LeftShift, Key_RightShift, Key_LeftCtrl, Key_RightCtrl, Key_LeftAlt, Key_RightAlt, Key_CapsLock} \<Longrightarrow> update_mods k p m = m"
  by (cases k) (simp_all add: update_mods_def)

lemma update_mods_shift: "update_mods Key_LeftShift p m = m\<lparr>left_shift := p\<rparr>"
  by (simp add: update_mods_def)

text \<open>Make and break codes: the low seven bits are the key, the top bit the release.\<close>

lemma make_code: "c < 0x80 \<Longrightarrow> c AND 0x80 = 0 \<and> c AND 0x7F = c" for c :: u8
proof -
  assume c: "c < 0x80"
  then have "take_bit 7 c = c"
    by (intro word_unat_eq_iff [THEN iffD2]) (simp add: unsigned_take_bit_eq word_less_nat_alt take_bit_nat_eq_self)
  then have m: "c AND mask 7 = c" by (simp add: take_bit_eq_mask)
  then have "c AND 0x80 = c AND (mask 7 AND 0x80)" by (metis and.assoc)
  then show ?thesis using m by (simp add: mask_eq_exp_minus_1)
qed

lemma break_code: "c < 0x80 \<Longrightarrow> (c OR 0x80) AND 0x80 \<noteq> 0 \<and> (c OR 0x80) AND 0x7F = c" for c :: u8
proof -
  assume c: "c < 0x80"
  have "(c OR 0x80) AND 0x80 = c AND 0x80 OR 0x80" by (simp add: bit.conj_disj_distrib2)
  moreover have "(c OR 0x80) AND 0x7F = c AND 0x7F" by (simp add: bit.conj_disj_distrib2)
  ultimately show ?thesis using make_code [OF c] by simp
qed

lemma keystrokes_events:
  assumes "map_of us_layout ch \<noteq> None" "neutral s"
  shows "neutral (fold handle_scancode (keystrokes ch) s) \<and> length (scan_events (keystrokes ch) s) \<le> 4 \<and>
    map ascii (filter (\<lambda>e. pressed e \<and> ascii e \<noteq> 0) (scan_events (keystrokes ch) s)) = [ch]"
proof -
  obtain sh c where l: "map_of us_layout ch = Some (sh, c)" using assms(1) by auto
  note D = us_layoutD [OF l]
  have n: "MODIFIERS s = mods_new" "\<not> EXTENDED_KEY s" using assms(2) by (auto simp: neutral_def)
  have "c OR 0x80 \<noteq> 0xE0"
  proof
    assume e: "c OR 0x80 = 0xE0"
    have "c = 0x60" using break_code [OF D(4)] unfolding e by simp
    then show False using D(2,3) by (simp add: scancode_to_keycode_def keycode_to_ascii_def letter_table_def symbol_table_def space_table_def)
  qed
  moreover have "scancode_to_keycode 0x2A = Key_LeftShift" by (simp add: scancode_to_keycode_def)
  moreover have "keycode_to_ascii Key_LeftShift True False False = 0"
    by (simp add: keycode_to_ascii_def letter_table_def symbol_table_def space_table_def)
  moreover have "(0xAA :: u8) AND 0x7F = 0x2A" "(0x2A :: u8) AND 0x7F = 0x2A" "(0xAA :: u8) AND 0x80 = 0x80" "(0x2A :: u8) AND 0x80 = 0" by simp_all
  ultimately show ?thesis
    using D n make_code [OF D(4)] break_code [OF D(4)] update_mods_other [OF D(1)]
    by (cases sh) (simp_all add: keystrokes_def l handle_scancode_event scan_event_def Let_def neutral_def mods_new_def
        shift_held_def ctrl_held_def update_mods_shift)
qed

lemma typed_events:
  "list_all (\<lambda>ch. map_of us_layout ch \<noteq> None) t \<Longrightarrow> neutral s \<Longrightarrow>
    neutral (fold handle_scancode (concat (map keystrokes t)) s) \<and> length (scan_events (concat (map keystrokes t)) s) \<le> 4 * length t \<and>
    map ascii (filter (\<lambda>e. pressed e \<and> ascii e \<noteq> 0) (scan_events (concat (map keystrokes t)) s)) = t"
proof (induction t arbitrary: s)
  case (Cons ch t)
  let ?s = "fold handle_scancode (keystrokes ch) s"
  have 1: "neutral ?s \<and> length (scan_events (keystrokes ch) s) \<le> 4 \<and>
    map ascii (filter (\<lambda>e. pressed e \<and> ascii e \<noteq> 0) (scan_events (keystrokes ch) s)) = [ch]"
    using Cons.prems by (intro keystrokes_events) auto
  then show ?case using Cons.IH [of ?s] Cons.prems(1) by (auto simp: scan_events_append)
qed simp

text \<open>
  C29: typing is read back. With no modifier held and nothing waiting in the buffer, the
  scancodes of typing a text on a US keyboard (printable characters, newline, tab and backspace; with
  the shift key where the layout needs it) make \<^verbatim>\<open>try_read_char\<close> return exactly that text, in order,
  as long as its events, at most four for a character, fit the 63 places of the ring; the
  driver is again without modifiers afterwards.
\<close>

theorem typed_text:
  assumes "list_all (\<lambda>ch. map_of us_layout ch \<noteq> None) t" "4 * length t \<le> KEY_BUFFER_SIZE - 1"
    "neutral s" "kb_inv (KEY_BUFFER s)" "kb_abs (KEY_BUFFER s) = []"
  shows "read_chars KEY_BUFFER_SIZE (fold handle_scancode (concat (map keystrokes t)) s) = t \<and>
    neutral (fold handle_scancode (concat (map keystrokes t)) s)"
proof -
  let ?s = "fold handle_scancode (concat (map keystrokes t)) s" and ?e = "scan_events (concat (map keystrokes t)) s"
  note T = typed_events [OF assms(1,3)]
  have "kb_abs (KEY_BUFFER ?s) = ?e" using scancodes_abs(2) [OF assms(4)] assms(2,5) T by simp
  moreover have "length ?e \<le> KEY_BUFFER_SIZE" using T assms(2) by linarith
  ultimately show ?thesis using read_chars_abs [OF scancodes_abs(1) [OF assms(4)]] T by simp
qed

theorem typed_text_witness:
  "read_chars KEY_BUFFER_SIZE (fold handle_scancode (concat (map keystrokes [0x4C, 0x73, 0x20, 0x7C, 0x0A])) keyboard_new) = [0x4C, 0x73, 0x20, 0x7C, 0x0A]"
proof -
  have "list_all (\<lambda>ch. map_of us_layout ch \<noteq> None) [0x4C, 0x73, 0x20, 0x7C, 0x0A]"
    by (simp add: us_layout_def map_of_Cons_code del: map_of.simps not_None_eq)
  moreover have "neutral keyboard_new" "kb_inv (KEY_BUFFER keyboard_new)" "kb_abs (KEY_BUFFER keyboard_new) = []"
    by (simp_all add: neutral_def keyboard_new_def kb_new_abs)
  moreover have "4 * length [0x4C, 0x73, 0x20, 0x7C, 0x0A :: u8] \<le> KEY_BUFFER_SIZE - 1" by (simp add: KEY_BUFFER_SIZE_def)
  ultimately show ?thesis using typed_text [of "[0x4C, 0x73, 0x20, 0x7C, 0x0A]" keyboard_new] by blast
qed


subsection \<open>The modifier state\<close>

lemma update_mods_fields:
  "left_shift (update_mods k p m) = (if k = Key_LeftShift then p else left_shift m)"
  "right_shift (update_mods k p m) = (if k = Key_RightShift then p else right_shift m)"
  "left_ctrl (update_mods k p m) = (if k = Key_LeftCtrl then p else left_ctrl m)"
  "right_ctrl (update_mods k p m) = (if k = Key_RightCtrl then p else right_ctrl m)"
  "left_alt (update_mods k p m) = (if k = Key_LeftAlt then p else left_alt m)"
  "right_alt (update_mods k p m) = (if k = Key_RightAlt then p else right_alt m)"
  "caps_lock (update_mods k p m) = (if k = Key_CapsLock \<and> p then \<not> caps_lock m else caps_lock m)"
  by (cases k; simp add: update_mods_def)+

text \<open>A key is held when its last event is a press; a lock is on after an odd number of presses.\<close>

definition held :: "KeyCode \<Rightarrow> KeyEvent list \<Rightarrow> bool" where
  "held k es \<longleftrightarrow> (case rev (filter (\<lambda>e. key e = k) es) of [] \<Rightarrow> False | e # r \<Rightarrow> pressed e)"

definition locked :: "KeyCode \<Rightarrow> KeyEvent list \<Rightarrow> bool" where
  "locked k es \<longleftrightarrow> odd (length (filter (\<lambda>e. key e = k \<and> pressed e) es))"

lemma held_snoc [simp]: "held k (es @ [e]) = (if key e = k then pressed e else held k es)"
  by (simp add: held_def)

lemma locked_snoc [simp]: "locked k (es @ [e]) = (if key e = k \<and> pressed e then \<not> locked k es else locked k es)"
  by (simp add: locked_def)

text \<open>
  the modifier state is what the event history says. After any sequence of scancodes
  from power-on, each shift, control and alt flag of the driver is set exactly when the last event of
  that key is a press, and caps lock exactly when its key has been pressed an odd number of
  times. (The keys are those the driver recognises: the prefix \<^verbatim>\<open>0xE0\<close> distinguishes the right control and alt keys.)
\<close>

theorem modifiers_track:
  "let m = MODIFIERS (fold handle_scancode cs keyboard_new); es = scan_events cs keyboard_new in
   left_shift m = held Key_LeftShift es \<and> right_shift m = held Key_RightShift es \<and>
   left_ctrl m = held Key_LeftCtrl es \<and> right_ctrl m = held Key_RightCtrl es \<and>
   left_alt m = held Key_LeftAlt es \<and> right_alt m = held Key_RightAlt es \<and> caps_lock m = locked Key_CapsLock es"
proof (induction cs rule: rev_induct)
  case Nil
  then show ?case by (simp add: keyboard_new_def mods_new_def held_def locked_def)
next
  case (snoc c cs)
  define s where "s = fold handle_scancode cs keyboard_new"
  have "scan_events (cs @ [c]) keyboard_new = scan_events cs keyboard_new @ (if c = 0xE0 then [] else [scan_event c s])"
    "fold handle_scancode (cs @ [c]) keyboard_new = handle_scancode c s"
    by (simp_all add: scan_events_append s_def)
  then show ?case using snoc [folded s_def]
    by (cases "c = 0xE0") (simp_all add: Let_def handle_scancode_event [of c s] handle_scancode_event [of "0xE0" s] update_mods_fields)
qed


subsection \<open>The characters a keyboard can send\<close>

text \<open>Control-N, control-O and control-S are not among them: of the letters only A to F and L have a control code.\<close>

definition editor_code :: "u8 \<Rightarrow> bool" where
  "editor_code c \<longleftrightarrow> c = 0x0E \<or> c = 0x0F \<or> c = 0x13"

lemma tables_no_editor_codes:
  "list_all (\<lambda>(k, c). \<not> editor_code c) ctrl_table" "list_all (\<lambda>(k, c). \<not> editor_code c) space_table"
  "list_all (\<lambda>(k, c). \<not> editor_code (fst c) \<and> \<not> editor_code (snd c)) letter_table"
  "list_all (\<lambda>(k, c). \<not> editor_code (fst c) \<and> \<not> editor_code (snd c)) symbol_table"
  by (simp_all add: ctrl_table_def space_table_def letter_table_def symbol_table_def editor_code_def)

lemma map_of_all: "list_all (\<lambda>(k, c). P c) t \<Longrightarrow> map_of t k = Some c \<Longrightarrow> P c"
  by (auto simp: list_all_iff dest: map_of_SomeD)

lemma no_editor_codes: "\<not> editor_code (keycode_to_ascii k sh caps ctrl)"
proof -
  have "\<not> editor_code 0" by (simp add: editor_code_def)
  then show ?thesis
    unfolding keycode_to_ascii_def Let_def
    by (auto split: option.split dest: tables_no_editor_codes [THEN map_of_all])
qed

lemma scan_events_codes: "e \<in> set (scan_events cs s) \<Longrightarrow> \<not> editor_code (ascii e)"
proof (induction cs arbitrary: s)
  case (Cons c cs)
  then show ?case using no_editor_codes by (auto simp: scan_event_def Let_def editor_code_def split: if_splits)
qed simp

end
