(* ===== verification/Mouse.thy ===== *)
theory Mouse
  imports Fifo
begin

unbundle bit_operations_syntax

text \<open>
  The PS/2 mouse driver, \<^verbatim>\<open>kernel/src/hal/mouse.rs\<close>: the packet accumulator of the IRQ12 handler, the
  ring of 32 events that overwrites the oldest, and the bring-up sequence over the 8042 controller.
  The controller is a device outside the program: \<^verbatim>\<open>status_in\<close> and \<^verbatim>\<open>data_in\<close> give what the n-th read of
  the status and of the data port returns, \<^verbatim>\<open>outs\<close> records the writes in order.
\<close>

type_synonym i16 = "16 word"

subsection \<open>Events and the ring\<close>

record MouseButtons =
  btn_left :: bool
  btn_right :: bool
  btn_middle :: bool

record MouseEvent =
  ev_dx :: i16
  ev_dy :: i16
  ev_buttons :: MouseButtons

record MousePacketState =
  pk_bytes :: "u8 list"
  byte_index :: nat
  has_scroll :: bool

definition packet_new :: MousePacketState where
  "packet_new = \<lparr>pk_bytes = [0, 0, 0, 0], byte_index = 0, has_scroll = False\<rparr>"

definition packet_size :: "MousePacketState \<Rightarrow> nat" where
  "packet_size p = (if has_scroll p then 4 else 3)"

definition MOUSE_BUFFER_SIZE :: nat where
  "MOUSE_BUFFER_SIZE = 32"

record MouseBuffer =
  mb_events :: "MouseEvent list"
  read_idx :: nat
  write_idx :: nat
  mb_count :: nat

definition no_buttons :: MouseButtons where
  "no_buttons = \<lparr>btn_left = False, btn_right = False, btn_middle = False\<rparr>"

definition mb_new :: MouseBuffer where
  "mb_new = \<lparr>mb_events = replicate MOUSE_BUFFER_SIZE \<lparr>ev_dx = 0, ev_dy = 0, ev_buttons = no_buttons\<rparr>, read_idx = 0, write_idx = 0, mb_count = 0\<rparr>"

definition mb_push :: "MouseEvent \<Rightarrow> MouseBuffer \<Rightarrow> MouseBuffer" where
  "mb_push e b =
     (let b1 = b\<lparr>mb_events := (mb_events b)[write_idx b := e], write_idx := (write_idx b + 1) mod MOUSE_BUFFER_SIZE\<rparr>
      in if mb_count b < MOUSE_BUFFER_SIZE then b1\<lparr>mb_count := mb_count b + 1\<rparr>
         else b1\<lparr>read_idx := (read_idx b + 1) mod MOUSE_BUFFER_SIZE\<rparr>)"

definition mb_pop :: "MouseBuffer \<Rightarrow> MouseBuffer \<times> MouseEvent option" where
  "mb_pop b =
     (if mb_count b = 0 then (b, None)
      else (b\<lparr>read_idx := (read_idx b + 1) mod MOUSE_BUFFER_SIZE, mb_count := mb_count b - 1\<rparr>, Some (mb_events b ! read_idx b)))"


subsection \<open>The interrupt handler\<close>

record Mouse =
  MOUSE_PACKET :: MousePacketState
  MOUSE_BUFFER :: MouseBuffer
  MOUSE_X :: "32 word"
  MOUSE_Y :: "32 word"
  MOUSE_BUTTONS :: MouseButtons
  MOUSE_INITIALIZED :: bool

definition mouse_new :: Mouse where
  "mouse_new = \<lparr>MOUSE_PACKET = packet_new, MOUSE_BUFFER = mb_new, MOUSE_X = 0, MOUSE_Y = 0, MOUSE_BUTTONS = no_buttons, MOUSE_INITIALIZED = False\<rparr>"

definition decode_buttons :: "u8 \<Rightarrow> MouseButtons" where
  "decode_buttons b0 = \<lparr>btn_left = (b0 AND 0x01 \<noteq> 0), btn_right = (b0 AND 0x02 \<noteq> 0), btn_middle = (b0 AND 0x04 \<noteq> 0)\<rparr>"

text \<open>A movement byte with its sign and overflow bits in the first byte: \<^verbatim>\<open>d as i16\<close>, extended by \<^verbatim>\<open>|= !0xFF\<close>, zero on overflow.\<close>

definition decode_delta :: "u8 \<Rightarrow> u8 \<Rightarrow> u8 \<Rightarrow> u8 \<Rightarrow> i16" where
  "decode_delta b0 sign overflow b =
     (let d = ucast b; d = (if b0 AND sign \<noteq> 0 then d OR NOT 0xFF else d)
      in if b0 AND overflow \<noteq> 0 then 0 else d)"

definition decode_packet :: "u8 list \<Rightarrow> MouseEvent" where
  "decode_packet bs = \<lparr>ev_dx = decode_delta (bs ! 0) 0x10 0x40 (bs ! 1), ev_dy = - decode_delta (bs ! 0) 0x20 0x80 (bs ! 2),
     ev_buttons = decode_buttons (bs ! 0)\<rparr>"

definition handle_irq :: "u8 \<Rightarrow> Mouse \<Rightarrow> Mouse" where
  "handle_irq b s =
     (let p = MOUSE_PACKET s in
      if byte_index p = 0 \<and> b AND 0x08 = 0 then s
      else let p = p\<lparr>pk_bytes := (pk_bytes p)[byte_index p := b], byte_index := byte_index p + 1\<rparr> in
           if byte_index p \<ge> packet_size p
           then let e = decode_packet (pk_bytes p)
                in s\<lparr>MOUSE_PACKET := p\<lparr>byte_index := 0\<rparr>, MOUSE_BUTTONS := ev_buttons e, MOUSE_BUFFER := mb_push e (MOUSE_BUFFER s)\<rparr>
           else s\<lparr>MOUSE_PACKET := p\<rparr>)"

definition try_read_event :: "Mouse \<Rightarrow> Mouse \<times> MouseEvent option" where
  "try_read_event s = (case mb_pop (MOUSE_BUFFER s) of (b, e) \<Rightarrow> (s\<lparr>MOUSE_BUFFER := b\<rparr>, e))"

definition mouse_position :: "Mouse \<Rightarrow> 32 word \<times> 32 word" where
  "mouse_position s = (MOUSE_X s, MOUSE_Y s)"

definition set_position :: "32 word \<Rightarrow> 32 word \<Rightarrow> Mouse \<Rightarrow> Mouse" where
  "set_position x y s = s\<lparr>MOUSE_X := x, MOUSE_Y := y\<rparr>"


subsection \<open>Bring-up over the 8042 controller\<close>

record Ps2 =
  status_in :: "nat \<Rightarrow> u8"
  data_in :: "nat \<Rightarrow> u8"
  status_reads :: nat
  data_reads :: nat
  outs :: "(u16 \<times> u8) list"

definition read_status :: "Ps2 \<Rightarrow> Ps2 \<times> u8" where
  "read_status c = (c\<lparr>status_reads := status_reads c + 1\<rparr>, status_in c (status_reads c))"

definition read_data :: "Ps2 \<Rightarrow> Ps2 \<times> u8" where
  "read_data c = (c\<lparr>data_reads := data_reads c + 1\<rparr>, data_in c (data_reads c))"

definition ps2_out :: "u16 \<Rightarrow> u8 \<Rightarrow> Ps2 \<Rightarrow> Ps2" where
  "ps2_out port v c = c\<lparr>outs := outs c @ [(port, v)]\<rparr>"

fun wait_input_loop :: "nat \<Rightarrow> Ps2 \<Rightarrow> Ps2" where
  "wait_input_loop 0 c = c"
| "wait_input_loop (Suc n) c = (case read_status c of (c, v) \<Rightarrow> if v AND 0x02 = 0 then c else wait_input_loop n c)"

definition wait_input :: "Ps2 \<Rightarrow> Ps2" where
  "wait_input = wait_input_loop 100000"

fun wait_output_loop :: "nat \<Rightarrow> Ps2 \<Rightarrow> Ps2 \<times> bool" where
  "wait_output_loop 0 c = (c, False)"
| "wait_output_loop (Suc n) c = (case read_status c of (c, v) \<Rightarrow> if v AND 0x01 \<noteq> 0 then (c, True) else wait_output_loop n c)"

definition wait_output :: "Ps2 \<Rightarrow> Ps2 \<times> bool" where
  "wait_output = wait_output_loop 100000"

definition ps2_command :: "u8 \<Rightarrow> Ps2 \<Rightarrow> Ps2" where
  "ps2_command cmd c = ps2_out 0x64 cmd (wait_input c)"

definition ps2_write_data :: "u8 \<Rightarrow> Ps2 \<Rightarrow> Ps2" where
  "ps2_write_data d c = ps2_out 0x60 d (wait_input c)"

definition ps2_read_data :: "Ps2 \<Rightarrow> Ps2 \<times> u8 option" where
  "ps2_read_data c = (case wait_output c of (c, ready) \<Rightarrow>
     if ready then (case read_data c of (c, v) \<Rightarrow> (c, Some v)) else (c, None))"

definition mouse_write :: "u8 \<Rightarrow> Ps2 \<Rightarrow> Ps2" where
  "mouse_write cmd c = ps2_write_data cmd (ps2_command 0xD4 c)"

definition mouse_write_ack :: "u8 \<Rightarrow> Ps2 \<Rightarrow> Ps2 \<times> bool" where
  "mouse_write_ack cmd c = (case ps2_read_data (mouse_write cmd c) of (c, r) \<Rightarrow> (c, r = Some 0xFA))"

definition try_enable_scroll_wheel :: "Ps2 \<Rightarrow> Ps2 \<times> bool" where
  "try_enable_scroll_wheel c =
     (let c = fold (\<lambda>b c. fst (mouse_write_ack b c)) [0xF3, 200, 0xF3, 100, 0xF3, 80, 0xF2] c
      in (case ps2_read_data c of (c, r) \<Rightarrow> (c, r = Some 3)))"

fun flush_output :: "nat \<Rightarrow> Ps2 \<Rightarrow> Ps2" where
  "flush_output 0 c = c"
| "flush_output (Suc n) c = (case read_status c of (c, v) \<Rightarrow>
     flush_output n (if v AND 0x01 \<noteq> 0 then fst (read_data c) else c))"

definition mouse_init :: "Ps2 \<Rightarrow> Mouse \<Rightarrow> Ps2 \<times> Mouse" where
  "mouse_init c s =
     (let c = ps2_command 0x20 (ps2_command 0xA8 c) in
      case ps2_read_data c of
        (c, None) \<Rightarrow> (c, s)
      | (c, Some config) \<Rightarrow>
          let c = ps2_write_data ((config OR 0x02) AND NOT 0x20) (ps2_command 0x60 c);
              c = fst (mouse_write_ack 0xF6 c)
          in (case try_enable_scroll_wheel c of (c, scroll) \<Rightarrow>
               (flush_output 16 (fst (mouse_write_ack 0xF4 c)),
                s\<lparr>MOUSE_PACKET := (MOUSE_PACKET s)\<lparr>has_scroll := scroll\<rparr>, MOUSE_INITIALIZED := True\<rparr>)))"


subsection \<open>The ring keeps the newest events\<close>

definition mb_inv :: "MouseBuffer \<Rightarrow> bool" where
  "mb_inv b \<longleftrightarrow> length (mb_events b) = MOUSE_BUFFER_SIZE \<and> read_idx b < MOUSE_BUFFER_SIZE \<and> mb_count b \<le> MOUSE_BUFFER_SIZE \<and>
     write_idx b = (read_idx b + mb_count b) mod MOUSE_BUFFER_SIZE"

definition mb_abs :: "MouseBuffer \<Rightarrow> MouseEvent list" where
  "mb_abs b = ring_abs MOUSE_BUFFER_SIZE (mb_events b) (read_idx b) (mb_count b)"

lemma mb_new_abs: "mb_inv mb_new" "mb_abs mb_new = []"
  by (simp_all add: mb_inv_def mb_new_def mb_abs_def MOUSE_BUFFER_SIZE_def)

lemma MOUSE_BUFFER_SIZE_pos [simp]: "0 < MOUSE_BUFFER_SIZE"
  by (simp add: MOUSE_BUFFER_SIZE_def)

lemma mb_push_inv: "mb_inv b \<Longrightarrow> mb_inv (mb_push e b)"
  by (auto simp: mb_inv_def mb_push_def Let_def mod_Suc_eq mod_add_left_eq)

lemma mb_push_abs:
  assumes "mb_inv b"
  shows "mb_abs (mb_push e b) = lastn MOUSE_BUFFER_SIZE (mb_abs b @ [e])"
proof (cases "mb_count b < MOUSE_BUFFER_SIZE")
  case True
  then show ?thesis
    using ring_abs_push [of "mb_events b" MOUSE_BUFFER_SIZE "mb_count b"] assms by (simp add: mb_abs_def mb_push_def Let_def mb_inv_def)
next
  case False
  then have full: "mb_count b = MOUSE_BUFFER_SIZE" "write_idx b = read_idx b" using assms by (auto simp: mb_inv_def)
  have "lastn MOUSE_BUFFER_SIZE (mb_abs b @ [e]) = tl (mb_abs b) @ [e]"
    using full(1) by (intro lastn_snoc_full) (simp_all add: mb_abs_def)
  then show ?thesis
    using ring_abs_overwrite [of "mb_events b" MOUSE_BUFFER_SIZE "read_idx b"] assms full
    by (simp add: mb_abs_def mb_push_def Let_def mb_inv_def)
qed

interpretation mouse_ring: keep_newest mb_inv mb_abs MOUSE_BUFFER_SIZE mb_push "\<lambda>e. e"
  by unfold_locales (simp_all add: mb_push_inv mb_push_abs, simp add: mb_abs_def mb_inv_def)

interpretation mouse_queue: fifo mb_inv mb_abs mb_pop MOUSE_BUFFER_SIZE
proof
  fix q assume q: "mb_inv q"
  show "length (mb_abs q) \<le> MOUSE_BUFFER_SIZE" by (rule mouse_ring.bounded [OF q])
  have "(Suc (read_idx q) mod MOUSE_BUFFER_SIZE + c) mod MOUSE_BUFFER_SIZE = (read_idx q + Suc c) mod MOUSE_BUFFER_SIZE" for c
    by (metis add_Suc_shift mod_add_left_eq)
  then show "mb_inv (fst (mb_pop q))" using q by (cases "mb_count q") (simp_all add: mb_pop_def mb_inv_def)
  have h: "mb_abs q = mb_events q ! read_idx q # ring_abs MOUSE_BUFFER_SIZE (mb_events q) (Suc (read_idx q) mod MOUSE_BUFFER_SIZE) (mb_count q - 1)"
    if "mb_count q \<noteq> 0" using ring_abs_pop [of "read_idx q" MOUSE_BUFFER_SIZE "mb_count q"] q that by (simp add: mb_abs_def mb_inv_def)
  show "snd (mb_pop q) = (case mb_abs q of [] \<Rightarrow> None | x # r \<Rightarrow> Some x)"
    by (cases "mb_count q = 0") (simp_all add: mb_pop_def h, simp add: mb_abs_def)
  show "mb_abs (fst (mb_pop q)) = tl (mb_abs q)"
    by (cases "mb_count q = 0") (simp_all add: mb_pop_def h, simp_all add: mb_abs_def)
qed



subsection \<open>Packets\<close>

text \<open>
  What a PS/2 mouse sends for a movement of \<^verbatim>\<open>mx\<close> to the right and \<^verbatim>\<open>my\<close> up, each in the range of nine
  bits: the flag byte with the two sign bits, the low bytes, and the wheel byte \<^verbatim>\<open>z\<close> of an IntelliMouse.
\<close>

definition flag_byte :: "int \<Rightarrow> int \<Rightarrow> MouseButtons \<Rightarrow> u8" where
  "flag_byte mx my bt = 0x08 OR (if btn_left bt then 0x01 else 0) OR (if btn_right bt then 0x02 else 0) OR (if btn_middle bt then 0x04 else 0)
     OR (if mx < 0 then 0x10 else 0) OR (if my < 0 then 0x20 else 0)"

definition encode_packet :: "bool \<Rightarrow> int \<times> int \<times> MouseButtons \<times> u8 \<Rightarrow> u8 list" where
  "encode_packet scroll = (\<lambda>(mx, my, bt, z). [flag_byte mx my bt, word_of_int mx, word_of_int my] @ (if scroll then [z] else []))"

definition motion_event :: "int \<times> int \<times> MouseButtons \<times> u8 \<Rightarrow> MouseEvent" where
  "motion_event = (\<lambda>(mx, my, bt, z). \<lparr>ev_dx = word_of_int mx, ev_dy = word_of_int (- my), ev_buttons = bt\<rparr>)"

definition motion_ok :: "int \<times> int \<times> MouseButtons \<times> u8 \<Rightarrow> bool" where
  "motion_ok = (\<lambda>(mx, my, bt, z). -256 \<le> mx \<and> mx < 256 \<and> -256 \<le> my \<and> my < 256)"

lemma flag_byte_bits:
  "flag_byte mx my bt AND 0x08 \<noteq> 0" "flag_byte mx my bt AND 0x10 \<noteq> 0 \<longleftrightarrow> mx < 0" "flag_byte mx my bt AND 0x20 \<noteq> 0 \<longleftrightarrow> my < 0"
  "flag_byte mx my bt AND 0x40 = 0" "flag_byte mx my bt AND 0x80 = 0" "decode_buttons (flag_byte mx my bt) = bt"
  by (cases "btn_left bt"; cases "btn_right bt"; cases "btn_middle bt"; simp add: flag_byte_def decode_buttons_def bit.conj_disj_distrib2)+

text \<open>Nine bits, two's complement: the low byte, sign-extended.\<close>

lemma sign_extend:
  assumes "-256 \<le> d" "d < 256"
  shows "(let w = ucast (word_of_int d :: u8) in if d < 0 then w OR NOT 0xFF else w) = (word_of_int d :: i16)"
proof (cases "d < 0")
  case True
  have hi: "bit d n" if "8 \<le> n" for n
  proof -
    have "(2::int) ^ 8 \<le> 2 ^ n" using that by (intro power_increasing) auto
    then have "d div 2 ^ n = -1" using assms(1) True by (intro int_div_pos_eq [of d _ "-1" "d + 2 ^ n"]) auto
    then show ?thesis by (simp add: bit_iff_odd)
  qed
  have mask: "(0xFF :: i16) = mask 8" by (simp add: mask_eq_exp_minus_1)
  have "bit (ucast (word_of_int d :: u8) OR NOT (mask 8) :: i16) n = bit (word_of_int d :: i16) n" if "n < 16" for n
    using that hi [of n] by (auto simp: bit_simps not_less)
  then have "ucast (word_of_int d :: u8) OR NOT 0xFF = (word_of_int d :: i16)"
    unfolding mask by (intro bit_word_eqI) simp
  then show ?thesis using True by (simp only: Let_def if_True)
next
  case False
  then show ?thesis using assms by (simp add: Let_def unsigned_of_int take_bit_int_eq_self)
qed


lemma decode_motion:
  assumes "motion_ok (mx, my, bt, z)"
  shows "decode_packet (flag_byte mx my bt # word_of_int mx # word_of_int my # r) = motion_event (mx, my, bt, z)"
proof -
  have "decode_delta (flag_byte mx my bt) 0x10 0x40 (word_of_int mx) = word_of_int mx"
    "decode_delta (flag_byte mx my bt) 0x20 0x80 (word_of_int my) = word_of_int my"
    using assms sign_extend [of mx] sign_extend [of my] unfolding decode_delta_def motion_ok_def Let_def
    by (simp_all only: flag_byte_bits prod.case if_True if_False simp_thms)
  then show ?thesis by (simp add: decode_packet_def motion_event_def flag_byte_bits)
qed

text \<open>The accumulator between two packets.\<close>

definition in_sync :: "Mouse \<Rightarrow> bool" where
  "in_sync s \<longleftrightarrow> byte_index (MOUSE_PACKET s) = 0 \<and> length (pk_bytes (MOUSE_PACKET s)) = 4"

lemma packet_event:
  assumes "in_sync s" "motion_ok m"
  shows "in_sync (fold handle_irq (encode_packet (has_scroll (MOUSE_PACKET s)) m) s) \<and>
    has_scroll (MOUSE_PACKET (fold handle_irq (encode_packet (has_scroll (MOUSE_PACKET s)) m) s)) = has_scroll (MOUSE_PACKET s) \<and>
    MOUSE_BUTTONS (fold handle_irq (encode_packet (has_scroll (MOUSE_PACKET s)) m) s) = ev_buttons (motion_event m) \<and>
    MOUSE_BUFFER (fold handle_irq (encode_packet (has_scroll (MOUSE_PACKET s)) m) s) = mb_push (motion_event m) (MOUSE_BUFFER s)"
proof -
  obtain mx my bt z where m: "m = (mx, my, bt, z)" by (cases m) auto
  obtain a b c d where bs: "pk_bytes (MOUSE_PACKET s) = [a, b, c, d]" and i: "byte_index (MOUSE_PACKET s) = 0"
    using assms(1) by (auto simp: in_sync_def numeral_eq_Suc length_Suc_conv)
  note D = decode_motion [OF assms(2) [unfolded m], of "[d]"] decode_motion [OF assms(2) [unfolded m], of "[z]"]
  show ?thesis
    by (cases "has_scroll (MOUSE_PACKET s)")
      (simp_all add: m encode_packet_def handle_irq_def Let_def packet_size_def bs i D flag_byte_bits in_sync_def)
qed




subsection \<open>The bring-up sequence\<close>

lemma wait_input_outs [simp]: "outs (wait_input c) = outs c"
proof -
  have "outs (wait_input_loop n c) = outs c" for n
    by (induction n arbitrary: c) (simp_all add: read_status_def)
  then show ?thesis by (simp add: wait_input_def)
qed

lemma ps2_read_data_outs [simp]: "outs (fst (ps2_read_data c)) = outs c"
proof -
  have "outs (fst (wait_output_loop n c)) = outs c" for n
    by (induction n arbitrary: c) (simp_all add: read_status_def)
  then show ?thesis by (auto simp: ps2_read_data_def wait_output_def read_data_def split: prod.splits dest: sym [of _ "wait_output_loop _ _"]) (metis fst_conv)+
qed

lemma ps2_write_outs [simp]:
  "outs (ps2_command b c) = outs c @ [(0x64, b)]" "outs (ps2_write_data b c) = outs c @ [(0x60, b)]"
  "outs (mouse_write b c) = outs c @ [(0x64, 0xD4), (0x60, b)]"
  by (simp_all add: ps2_command_def ps2_write_data_def mouse_write_def ps2_out_def)

lemma mouse_write_ack_outs [simp]: "outs (fst (mouse_write_ack b c)) = outs c @ [(0x64, 0xD4), (0x60, b)]"
  by (simp add: mouse_write_ack_def split_beta)

lemma flush_output_outs [simp]: "outs (flush_output n c) = outs c"
  by (induction n arbitrary: c) (simp_all add: read_status_def read_data_def)

lemma scroll_outs:
  "outs (fst (try_enable_scroll_wheel c)) =
     outs c @ concat (map (\<lambda>b. [(0x64, 0xD4), (0x60, b)]) [0xF3, 200, 0xF3, 100, 0xF3, 80, 0xF2])"
  by (simp add: try_enable_scroll_wheel_def split_beta Let_def)

text \<open>
  The writes of the bring-up are fixed by the driver alone, whatever the controller and
  the mouse answer after the configuration byte \<^verbatim>\<open>cfg\<close> was read: the auxiliary port on, interrupt 12 on in the configuration,
  defaults, the wheel sequence, and data reporting last. Without a configuration byte nothing
  beyond the first two commands is sent and the driver state stays as it was.
\<close>

lemma mouse_init_protocol:
  "case snd (ps2_read_data (ps2_command 0x20 (ps2_command 0xA8 c))) of
     None \<Rightarrow> outs (fst (mouse_init c s)) = outs c @ [(0x64, 0xA8), (0x64, 0x20)] \<and> snd (mouse_init c s) = s
   | Some cfg \<Rightarrow> outs (fst (mouse_init c s)) = outs c @ [(0x64, 0xA8), (0x64, 0x20), (0x64, 0x60), (0x60, (cfg OR 0x02) AND NOT 0x20)] @
         concat (map (\<lambda>b. [(0x64, 0xD4), (0x60, b)]) [0xF6, 0xF3, 200, 0xF3, 100, 0xF3, 80, 0xF2, 0xF4]) \<and>
       MOUSE_INITIALIZED (snd (mouse_init c s)) \<and> MOUSE_BUFFER (snd (mouse_init c s)) = MOUSE_BUFFER s"
proof -
  obtain c1 r where r: "ps2_read_data (ps2_command 0x20 (ps2_command 0xA8 c)) = (c1, r)" by fastforce
  have o: "outs c1 = outs c @ [(0x64, 0xA8), (0x64, 0x20)]"
    using ps2_read_data_outs [of "ps2_command 0x20 (ps2_command 0xA8 c)"] r by simp
  show ?thesis
  proof (cases r)
    case None
    then show ?thesis using r o by (simp add: mouse_init_def)
  next
    case (Some cfg)
    define c2 where "c2 = fst (mouse_write_ack 0xF6 (ps2_write_data ((cfg OR 0x02) AND NOT 0x20) (ps2_command 0x60 c1)))"
    obtain c3 sc where s: "try_enable_scroll_wheel c2 = (c3, sc)" by fastforce
    have "outs c3 = outs c2 @ concat (map (\<lambda>b. [(0x64, 0xD4), (0x60, b)]) [0xF3, 200, 0xF3, 100, 0xF3, 80, 0xF2])"
      using scroll_outs [of c2] s by simp
    then show ?thesis using r o Some s by (simp add: mouse_init_def Let_def c2_def [symmetric]) (simp add: c2_def)
  qed
qed

end
