(* ===== verification/Rtc.thy ===== *)
theory Rtc
  imports Prelude
begin

unbundle bit_operations_syntax

text \<open>
  The real-time clock driver, \<^verbatim>\<open>kernel/src/hal/rtc.rs\<close>. The CMOS chip is a device outside the program:
  \<^verbatim>\<open>cmos n r\<close> is what the n-th access reads from register \<^verbatim>\<open>r\<close>, so that the chip may change between any
  two accesses. Both wait loops and the loop that reads the registers until two readings agree may
  run for ever on such a chip; they are partial functions, and what is claimed of a clock that
  stands still is that they return.
\<close>

type_synonym cmos = "nat \<Rightarrow> u8 \<Rightarrow> u8"

record DateTime =
  year :: u16
  month :: u8
  day :: u8
  hour :: u8
  minute :: u8
  second :: u8

definition RTC_SECONDS :: u8 where "RTC_SECONDS = 0x00"
definition RTC_MINUTES :: u8 where "RTC_MINUTES = 0x02"
definition RTC_HOURS :: u8 where "RTC_HOURS = 0x04"
definition RTC_DAY :: u8 where "RTC_DAY = 0x07"
definition RTC_MONTH :: u8 where "RTC_MONTH = 0x08"
definition RTC_YEAR :: u8 where "RTC_YEAR = 0x09"
definition RTC_CENTURY :: u8 where "RTC_CENTURY = 0x32"
definition RTC_STATUS_A :: u8 where "RTC_STATUS_A = 0x0A"
definition RTC_STATUS_B :: u8 where "RTC_STATUS_B = 0x0B"

lemmas rtc_registers = RTC_SECONDS_def RTC_MINUTES_def RTC_HOURS_def RTC_DAY_def RTC_MONTH_def RTC_YEAR_def RTC_CENTURY_def
  RTC_STATUS_A_def RTC_STATUS_B_def

definition cmos_read :: "cmos \<Rightarrow> u8 \<Rightarrow> nat \<Rightarrow> nat \<times> u8" where
  "cmos_read c r n = (n + 1, c n (r AND 0x7F))"

definition rtc_updating :: "cmos \<Rightarrow> nat \<Rightarrow> nat \<times> bool" where
  "rtc_updating c n = (n + 1, c n (RTC_STATUS_A AND 0x7F) AND 0x80 \<noteq> 0)"

definition bcd_to_binary :: "u8 \<Rightarrow> u8" where
  "bcd_to_binary b = (b AND 0x0F) + drop_bit 4 b * 10"

partial_function (option) wait_update :: "cmos \<Rightarrow> nat \<Rightarrow> nat option" where
  "wait_update c n = (case rtc_updating c n of (n', busy) \<Rightarrow> if busy then wait_update c n' else Some n')"

text \<open>The seven registers in the order the driver reads them.\<close>

definition time_registers :: "u8 list" where
  "time_registers = [RTC_SECONDS, RTC_MINUTES, RTC_HOURS, RTC_DAY, RTC_MONTH, RTC_YEAR, RTC_CENTURY]"

fun read_registers :: "cmos \<Rightarrow> u8 list \<Rightarrow> nat \<Rightarrow> nat \<times> u8 list" where
  "read_registers c [] n = (n, [])"
| "read_registers c (r # rs) n =
     (case cmos_read c r n of (n, v) \<Rightarrow> case read_registers c rs n of (n, vs) \<Rightarrow> (n, v # vs))"

partial_function (option) read_stable :: "cmos \<Rightarrow> u8 list \<Rightarrow> nat \<Rightarrow> (nat \<times> u8 list) option" where
  "read_stable c vs n =
     (case wait_update c n of
        None \<Rightarrow> None
      | Some n' \<Rightarrow> (case read_registers c time_registers n' of (n'', vs') \<Rightarrow>
          if vs = vs' then Some (n'', vs) else read_stable c vs' n''))"

definition to_datetime :: "u8 \<Rightarrow> u8 list \<Rightarrow> DateTime" where
  "to_datetime status_b vs =
     (let is_binary = (status_b AND 0x04 \<noteq> 0);
          is_24h = (status_b AND 0x02 \<noteq> 0);
          conv = (\<lambda>i. if is_binary then vs ! i else bcd_to_binary (vs ! i));
          h = (if is_binary then vs ! 2 else bcd_to_binary (vs ! 2 AND 0x7F));
          h = (if \<not> is_24h \<and> h AND 0x80 \<noteq> 0 then ((h AND 0x7F) + 12) mod 24 else h);
          century = conv 6;
          full_year = (if century > 0 then ucast century * 100 + ucast (conv 5) else 2000 + ucast (conv 5))
      in \<lparr>year = full_year, month = conv 4, day = conv 3, hour = h, minute = conv 1, second = conv 0\<rparr>)"

definition read_datetime :: "cmos \<Rightarrow> nat \<Rightarrow> (nat \<times> DateTime) option" where
  "read_datetime c n =
     (case wait_update c n of
        None \<Rightarrow> None
      | Some n \<Rightarrow> (case read_registers c time_registers n of (n, vs) \<Rightarrow>
          (case read_stable c vs n of
             None \<Rightarrow> None
           | Some (n, vs) \<Rightarrow> (case cmos_read c RTC_STATUS_B n of (n, status_b) \<Rightarrow> Some (n, to_datetime status_b vs)))))"

text \<open>\<^verbatim>\<open>DateTime::format\<close>: each field with a fixed number of decimal digits, the low ones of the value.\<close>

definition digits_of :: "nat \<Rightarrow> nat \<Rightarrow> u8 list" where
  "digits_of k n = rev (map (\<lambda>i. digit ((n div 10 ^ i) mod 10)) [0..<k])"

definition dt_format :: "DateTime \<Rightarrow> u8 list" where
  "dt_format t = digits_of 4 (unat (year t)) @ [0x2D] @ digits_of 2 (unat (month t)) @ [0x2D] @ digits_of 2 (unat (day t)) @ [0x20] @
     digits_of 2 (unat (hour t)) @ [0x3A] @ digits_of 2 (unat (minute t)) @ [0x3A] @ digits_of 2 (unat (second t))"


subsection \<open>A clock that stands still\<close>

definition to_bcd :: "nat \<Rightarrow> u8" where
  "to_bcd n = of_nat (16 * (n div 10) + n mod 10)"

lemma bcd_round_trip: "n < 100 \<Longrightarrow> bcd_to_binary (to_bcd n) = of_nat n"
proof -
  assume n: "n < 100"
  have "list_all (\<lambda>n. bcd_to_binary (to_bcd n) = of_nat n) [0..<100]"
    by (simp add: bcd_to_binary_def to_bcd_def upt_rec)
  then show ?thesis using n by (simp add: list_all_iff)
qed

lemma hour_unmasked: "n < 24 \<Longrightarrow> to_bcd n AND 0x7F = to_bcd n"
proof -
  assume n: "n < 24"
  have "list_all (\<lambda>n. to_bcd n AND 0x7F = to_bcd n) [0..<24]"
    by (simp add: to_bcd_def upt_rec)
  then show ?thesis using n by (simp add: list_all_iff)
qed

text \<open>A chip whose registers do not change while it is read and that is not in an update.\<close>

definition stands_still :: "cmos \<Rightarrow> (u8 \<Rightarrow> u8) \<Rightarrow> bool" where
  "stands_still c regs \<longleftrightarrow> (\<forall>n r. c n r = regs r) \<and> regs 0x0A AND 0x80 = 0"

lemma still_wait: "stands_still c regs \<Longrightarrow> wait_update c n = Some (n + 1)"
  by (subst wait_update.simps) (simp add: rtc_updating_def stands_still_def RTC_STATUS_A_def)

lemma still_registers: "stands_still c regs \<Longrightarrow> read_registers c rs n = (n + length rs, map (\<lambda>r. regs (r AND 0x7F)) rs)"
  by (induction rs arbitrary: n) (simp_all add: cmos_read_def stands_still_def)

lemma still_datetime:
  assumes "stands_still c regs"
  shows "read_datetime c n = Some (n + 17, to_datetime (regs 0x0B) (map regs time_registers))"
proof -
  have m: "map (\<lambda>r. regs (r AND 0x7F)) time_registers = map regs time_registers" "length time_registers = 7"
    by (simp_all add: time_registers_def rtc_registers)
  have "read_stable c (map regs time_registers) k = Some (k + 8, map regs time_registers)" for k
    using still_wait [OF assms] still_registers [OF assms] by (subst read_stable.simps) (simp add: m)
  then show ?thesis
    using still_wait [OF assms] still_registers [OF assms] assms
    by (simp add: read_datetime_def m cmos_read_def stands_still_def RTC_STATUS_B_def)
qed



text \<open>What the registers hold at a date and time, in the binary or in the BCD format, on the 24-hour clock.\<close>

definition enc :: "bool \<Rightarrow> nat \<Rightarrow> u8" where
  "enc binary n = (if binary then of_nat n else to_bcd n)"

definition shows_time :: "(u8 \<Rightarrow> u8) \<Rightarrow> bool \<Rightarrow> nat \<Rightarrow> nat \<Rightarrow> nat \<Rightarrow> nat \<Rightarrow> nat \<Rightarrow> nat \<Rightarrow> bool" where
  "shows_time regs binary y mo d h mi s \<longleftrightarrow>
     regs 0x32 = enc binary (y div 100) \<and> regs 0x09 = enc binary (y mod 100) \<and> regs 0x08 = enc binary mo \<and> regs 0x07 = enc binary d \<and>
     regs 0x04 = enc binary h \<and> regs 0x02 = enc binary mi \<and> regs 0x00 = enc binary s \<and>
     (regs 0x0B AND 0x04 \<noteq> 0 \<longleftrightarrow> binary) \<and> regs 0x0B AND 0x02 \<noteq> 0"

lemma year_combined:
  assumes "100 \<le> y" "y < 10000"
  shows "(0 :: u8) < of_nat (y div 100) \<and> ucast (of_nat (y div 100) :: u8) * 100 + ucast (of_nat (y mod 100) :: u8) = (of_nat y :: u16)"
proof -
  have b: "y div 100 < 100" "0 < y div 100" using assms by auto
  have e: "ucast (of_nat (y div 100) :: u8) = (of_nat (y div 100) :: u16)" "ucast (of_nat (y mod 100) :: u8) = (of_nat (y mod 100) :: u16)"
    using b by (simp_all add: unsigned_of_nat take_bit_nat_eq_self)
  have "(of_nat (y div 100) * 100 + of_nat (y mod 100) :: u16) = of_nat (y div 100 * 100 + y mod 100)"
    by (simp only: of_nat_add of_nat_mult of_nat_numeral)
  then show ?thesis using b e by (simp add: word_gt_0 unat_eq_zero [symmetric] unat_of_nat_small del: of_nat_add of_nat_mult)
qed

lemma conv_enc: "n < 100 \<Longrightarrow> (if binary then enc binary n else bcd_to_binary (enc binary n)) = of_nat n"
  by (simp add: enc_def bcd_round_trip)

text \<open>
  C31: the clock is read correctly. If the chip stands still while it is read and its registers
  hold a date and time of the years 100 to 9999 on the 24-hour clock, in binary or in BCD, then
  \<^verbatim>\<open>read_datetime\<close> returns, after seventeen register accesses, exactly that date and time, and
  \<^verbatim>\<open>DateTime::format\<close> writes it with every field at its full width.
\<close>

theorem rtc_reads_time:
  assumes "stands_still c regs" "shows_time regs binary y mo d h mi s"
    "100 \<le> y" "y < 10000" "mo < 100" "d < 100" "h < 24" "mi < 100" "s < 100"
  shows "\<exists>t. read_datetime c n = Some (n + 17, t) \<and>
    t = \<lparr>year = of_nat y, month = of_nat mo, day = of_nat d, hour = of_nat h, minute = of_nat mi, second = of_nat s\<rparr> \<and>
    dt_format t = digits_of 4 y @ [0x2D] @ digits_of 2 mo @ [0x2D] @ digits_of 2 d @ [0x20] @
      digits_of 2 h @ [0x3A] @ digits_of 2 mi @ [0x3A] @ digits_of 2 s"
proof -
  let ?t = "\<lparr>year = of_nat y, month = of_nat mo, day = of_nat d, hour = of_nat h, minute = of_nat mi, second = of_nat s\<rparr>"
  note R = assms(2) [unfolded shows_time_def]
  have yy: "y div 100 < 100" "y mod 100 < 100" using assms(4) by auto
  have h: "(if binary then enc binary h else bcd_to_binary (enc binary h AND 0x7F)) = of_nat h"
    using assms(7) by (simp add: enc_def hour_unmasked bcd_round_trip)
  have t: "to_datetime (regs 0x0B) (map regs time_registers) = ?t"
    using R h conv_enc [OF yy(1), of binary] conv_enc [OF yy(2), of binary] conv_enc [OF assms(5), of binary]
      conv_enc [OF assms(6), of binary] conv_enc [OF assms(8), of binary] conv_enc [OF assms(9), of binary] year_combined [OF assms(3,4)]
    by (cases binary) (simp_all add: to_datetime_def time_registers_def rtc_registers Let_def)
  have "unat (of_nat y :: u16) = y" "unat (of_nat mo :: u8) = mo" "unat (of_nat d :: u8) = d" "unat (of_nat h :: u8) = h"
    "unat (of_nat mi :: u8) = mi" "unat (of_nat s :: u8) = s"
    using assms(4-9) by (simp_all add: unat_of_nat_small)
  then have f: "dt_format ?t = digits_of 4 y @ [0x2D] @ digits_of 2 mo @ [0x2D] @ digits_of 2 d @ [0x20] @
      digits_of 2 h @ [0x3A] @ digits_of 2 mi @ [0x3A] @ digits_of 2 s"
    unfolding dt_format_def by (simp del: unsigned_of_nat)
  show ?thesis using still_datetime [OF assms(1), of n] t f by auto
qed

theorem rtc_reads_time_witness:
  "\<exists>t. read_datetime (\<lambda>n. (\<lambda>_. 0)(0x32 := 0x20, 0x09 := 0x26, 0x08 := 0x11, 0x07 := 0x16, 0x04 := 0x23, 0x02 := 0x59, 0x00 := 0x58, 0x0B := 0x02)) 0 = Some (17, t) \<and>
    hour t = 23 \<and> dt_format t = map (\<lambda>c. of_nat (of_char c)) ''2026-11-16 23:59:58''"
proof -
  let ?r = "(\<lambda>_. 0)(0x32 := 0x20, 0x09 := 0x26, 0x08 := 0x11, 0x07 := 0x16, 0x04 := 0x23, 0x02 := 0x59, 0x00 := 0x58, 0x0B := 0x02) :: u8 \<Rightarrow> u8"
  have "stands_still (\<lambda>n. ?r) ?r" by (simp add: stands_still_def)
  moreover have "shows_time ?r False 2026 11 16 23 59 58" by (simp add: shows_time_def enc_def to_bcd_def)
  ultimately show ?thesis
    using rtc_reads_time [of "\<lambda>n. ?r" ?r False 2026 11 16 23 59 58 0]
    by (auto simp: digits_of_def digit_def upt_rec)
qed


subsection \<open>The 12-hour clock\<close>

text \<open>
  on a chip in the usual BCD format with the 12-hour clock the afternoon is lost. Bit 7 of the
  hour register marks the afternoon; the driver masks it away before it converts the digits, and tests
  it afterwards. So for each of the twelve hours the register values before and after noon are
  read as the same hour, the digits of the register.
\<close>

theorem rtc_pm_lost:
  assumes "1 \<le> h" "h \<le> 12" "stands_still c regs" "regs 0x0B AND 0x04 = 0" "regs 0x0B AND 0x02 = 0"
    "regs 0x04 = (if pm then 0x80 OR to_bcd h else to_bcd h)"
  shows "\<exists>t. read_datetime c n = Some (n + 17, t) \<and> hour t = of_nat h"
proof -
  have "list_all (\<lambda>h. (0x80 OR to_bcd h) AND 0x7F = to_bcd h \<and> (of_nat h :: u8) AND 0x80 = 0) [1..<13]"
    by (simp add: to_bcd_def upt_rec)
  then have "(0x80 OR to_bcd h) AND 0x7F = to_bcd h" "(of_nat h :: u8) AND 0x80 = 0"
    using assms(1,2) by (simp_all add: list_all_iff)
  then have "hour (to_datetime (regs 0x0B) (map regs time_registers)) = of_nat h"
    using assms hour_unmasked [of h] bcd_round_trip [of h] by (simp add: to_datetime_def time_registers_def rtc_registers Let_def)
  then show ?thesis using still_datetime [OF assms(3), of n] by auto
qed

theorem rtc_pm_lost_witness:
  "\<exists>t. read_datetime (\<lambda>n. (\<lambda>_. 0)(0x04 := 0x83)) 0 = Some (17, t) \<and> hour t = 3"
  using rtc_pm_lost [of 3 "\<lambda>n. (\<lambda>_. 0)(0x04 := 0x83)" "(\<lambda>_. 0)(0x04 := 0x83)" True 0]
  by (simp add: stands_still_def to_bcd_def)

end
