(* ===== verification/Desktop_Types.thy ===== *)
theory Desktop_Types
  imports Keyboard
begin

text \<open>
  What the desktop applications share: the result of an input event
  (\<^verbatim>\<open>kernel/src/desktop/input.rs\<close>) and the size of a character cell (\<^verbatim>\<open>kernel/src/graphics/font.rs\<close>).
\<close>

datatype InputResult = Continue | Redraw | ExitDesktop

definition CHAR_WIDTH :: u32 where "CHAR_WIDTH = 8"
definition CHAR_HEIGHT :: u32 where "CHAR_HEIGHT = 16"

end
