(* ===== verification/Lcg.thy ===== *)
theory Lcg
  imports Prelude
begin

text \<open>
  The linear congruential generator of the desktop games, \<^verbatim>\<open>seed.wrapping_mul(1103515245).wrapping_add(12345)\<close>
  on \<^verbatim>\<open>u32\<close>, in \<^verbatim>\<open>kernel/src/desktop/apps/minesweeper.rs\<close> and \<^verbatim>\<open>snake.rs\<close>. Its period is the whole of the
  32-bit range: from every seed every value is reached. The loop of the minesweeper that draws
  cells until enough of them are new ends because of this.
\<close>

definition lcg_next :: "u32 \<Rightarrow> u32" where
  "lcg_next seed = seed * 1103515245 + 12345"

text \<open>\<^verbatim>\<open>((seed >> 16) as usize) % total\<close>\<close>

definition lcg_pick :: "nat \<Rightarrow> u32 \<Rightarrow> nat" where
  "lcg_pick n seed = unat (drop_bit 16 seed) mod n"


subsection \<open>The period\<close>

definition geo :: "nat \<Rightarrow> nat \<Rightarrow> nat" where
  "geo a n = (\<Sum>i<n. a ^ i)"

lemma geo_Suc: "geo a (Suc n) = a * geo a n + 1"
  unfolding geo_def sum.lessThan_Suc_shift by (simp add: sum_distrib_left)

lemma geo_0 [simp]: "geo a 0 = 0"
  by (simp add: geo_def)

lemma geo_parity: "odd a \<Longrightarrow> even (geo a n) \<longleftrightarrow> even n"
  by (induction n) (simp_all add: geo_Suc)

lemma geo_double: "geo a (2 * m) = geo a m * (1 + a ^ m)"
proof -
  have s: "geo a (m + k) = geo a m + a ^ m * geo a k" for k
    by (induction k) (simp_all add: geo_def power_add algebra_simps)
  show ?thesis unfolding mult_2 s by (simp add: distrib_left)
qed

lemma geo_dvd:
  assumes "a mod 4 = 1"
  shows "2 ^ k dvd geo a n \<Longrightarrow> 2 ^ k dvd n"
proof (induction k arbitrary: n)
  case (Suc k)
  have "odd a" using assms by presburger
  moreover have "even (geo a n)" using dvd_trans [OF _ Suc.prems, of 2] by simp
  ultimately obtain m where m: "n = 2 * m" using geo_parity by blast
  have "a ^ m mod 4 = 1" using power_mod [of a 4 m] assms by simp
  then obtain q where q: "a ^ m = 4 * q + 1" using mult_div_mod_eq [of 4 "a ^ m"] by metis
  have "geo a n = 2 * (geo a m * (2 * q + 1))" unfolding m geo_double q by (simp add: algebra_simps)
  then have "2 * 2 ^ k dvd 2 * (geo a m * (2 * q + 1))" using Suc.prems by simp
  then have "2 ^ k dvd geo a m * (2 * q + 1)" by (simp only: nat_mult_dvd_cancel1)
  moreover have "coprime (2 ^ k) (2 * q + 1)" by simp
  ultimately have "2 ^ k dvd geo a m" by (simp only: coprime_dvd_mult_left_iff)
  then show ?case using Suc.IH m by simp
qed simp

lemma lcg_steps: "((\<lambda>x. x * (1 + b) + c) ^^ n) x = x + of_nat (geo (Suc k) n) * (b * x + c)" if "b = of_nat k" for x b c :: "'a::len word"
  by (induction n) (simp_all add: geo_Suc that algebra_simps)

lemma dvd_of_word_mult:
  fixes u :: "'a::len word"
  assumes "of_nat m * u = 0" "odd (unat u)"
  shows "2 ^ LENGTH('a) dvd m"
proof -
  have "of_nat (m * unat u) = (0 :: 'a word)" using assms(1) by simp
  then have "2 ^ LENGTH('a) dvd m * unat u" by (simp only: word_of_nat_eq_0_iff)
  moreover have "coprime (2 ^ LENGTH('a)) (unat u)" using assms(2) by simp
  ultimately show ?thesis by (simp only: coprime_dvd_mult_left_iff)
qed

lemma lcg_no_short_cycle:
  assumes "0 < n" "n < 2 ^ 32"
  shows "(lcg_next ^^ n) x \<noteq> x"
proof
  assume c: "(lcg_next ^^ n) x = x"
  have f: "lcg_next = (\<lambda>x. x * (1 + 1103515244) + 12345)" by (simp add: lcg_next_def fun_eq_iff)
  have "of_nat (geo 1103515245 n) * (1103515244 * x + 12345) = 0"
    using c lcg_steps [where b = "1103515244 :: u32" and k = 1103515244 and c = 12345 and n = n and x = x] unfolding f by simp
  moreover have "odd (unat (1103515244 * x + 12345))"
  proof -
    have "unat (1103515244 * x + 12345) = (1103515244 * unat x + 12345) mod 2 ^ 32"
      by (simp add: unat_word_ariths mod_simps)
    then show ?thesis using dvd_mod_iff [of 2 "2 ^ 32" "1103515244 * unat x + 12345"] by simp
  qed
  ultimately have "2 ^ 32 dvd geo 1103515245 n" using dvd_of_word_mult by fastforce
  then have "2 ^ 32 dvd n" by (rule geo_dvd [rotated]) simp
  then show False using assms dvd_imp_le by fastforce
qed

lemma lcg_inj: "inj lcg_next"
proof (rule injI)
  fix x y assume "lcg_next x = lcg_next y"
  then have "of_nat (unat (x - y)) * 1103515245 = (0 :: u32)" by (simp add: lcg_next_def algebra_simps)
  then have "2 ^ 32 dvd unat (x - y)" using dvd_of_word_mult [of "unat (x - y)" "1103515245 :: u32"] by simp
  moreover have "unat (x - y) < 2 ^ 32" using unat_lt2p [of "x - y"] by simp
  ultimately have "unat (x - y) = 0" using dvd_imp_le by fastforce
  then show "x = y" by (simp add: unat_eq_zero)
qed

lemma lcg_full_period: "\<exists>k. (lcg_next ^^ k) x = y"
proof -
  let ?f = "\<lambda>k. (lcg_next ^^ k) x"
  have "i = j" if "i \<le> j" "j < 2 ^ 32" "?f i = ?f j" for i j
  proof (rule ccontr)
    assume "i \<noteq> j"
    have "(lcg_next ^^ i) ((lcg_next ^^ (j - i)) x) = ?f j" using that(1) by (simp add: funpow_add [THEN fun_cong, simplified, symmetric])
    then have "(lcg_next ^^ (j - i)) x = x" using that(3) injD [OF inj_fn [OF lcg_inj, of i], of "(lcg_next ^^ (j - i)) x" x] by simp
    then show False using lcg_no_short_cycle [of "j - i" x] \<open>i \<noteq> j\<close> that by (simp add: less_imp_diff_less)
  qed
  then have "inj_on ?f {..<2 ^ 32}" by (intro inj_onI) (metis lessThan_iff nat_le_linear)
  then have "card (?f ` {..<2 ^ 32}) = 2 ^ 32" by (simp add: card_image)
  then have "card (?f ` {..<2 ^ 32}) = card (UNIV :: u32 set)" by (simp add: card_word)
  then have "?f ` {..<2 ^ 32} = UNIV" by (intro card_subset_eq) auto
  then have "y \<in> ?f ` {..<2 ^ 32}" by (rule ssubst) (rule UNIV_I)
  then show ?thesis by blast
qed

text \<open>Every cell is drawn sooner or later.\<close>

lemma lcg_pick_reaches:
  assumes "i < n" "n \<le> 2 ^ 16"
  shows "\<exists>k. lcg_pick n ((lcg_next ^^ Suc k) x) = i"
proof -
  let ?y = "of_nat (65536 * i) :: u32"
  obtain k where k: "(lcg_next ^^ k) (lcg_next x) = ?y" using lcg_full_period by blast
  have "unat ?y = 65536 * i" using assms by (intro unat_of_nat_small) simp
  then have "unat (drop_bit 16 ?y) = i" by (simp add: unat_div drop_bit_eq_div del: of_nat_mult)
  then have "lcg_pick n ?y = i" using assms(1) by (simp add: lcg_pick_def)
  then show ?thesis using k by (intro exI [of _ k]) (simp add: funpow_swap1)
qed

end
