(* ===== verification/Rust_Vec.thy ===== *)
theory Rust_Vec
  imports Prelude
begin

text \<open>
  Operations of the Rust standard library that several components use: \<^verbatim>\<open>Vec::get\<close>, \<^verbatim>\<open>Vec::remove\<close>, \<^verbatim>\<open>Vec::insert\<close>,
  \<^verbatim>\<open>Iterator::position\<close> and \<^verbatim>\<open>rposition\<close> on lists, and saturating and signed arithmetic on words.
\<close>

definition nth_opt :: "'a list \<Rightarrow> nat \<Rightarrow> 'a option" where
  "nth_opt xs i = (if i < length xs then Some (xs ! i) else None)"

definition vec_remove :: "nat \<Rightarrow> 'a list \<Rightarrow> 'a list" where
  "vec_remove i xs = take i xs @ drop (Suc i) xs"

definition vec_insert :: "nat \<Rightarrow> 'a \<Rightarrow> 'a list \<Rightarrow> 'a list" where
  "vec_insert i x xs = take i xs @ [x] @ drop i xs"

definition position :: "('a \<Rightarrow> bool) \<Rightarrow> 'a list \<Rightarrow> nat option" where
  "position P xs = find (\<lambda>i. P (xs ! i)) [0..<length xs]"

definition rposition :: "('a \<Rightarrow> bool) \<Rightarrow> 'a list \<Rightarrow> nat option" where
  "rposition P xs = find (\<lambda>i. P (xs ! i)) (rev [0..<length xs])"

definition sat_sub :: "'a::len word \<Rightarrow> 'a word \<Rightarrow> 'a word" where
  "sat_sub a b = (if b \<le> a then a - b else 0)"

text \<open>\<^verbatim>\<open>max\<close> and \<^verbatim>\<open>min\<close> on signed values.\<close>

definition smax :: "'a::len word \<Rightarrow> 'a word \<Rightarrow> 'a word" where
  "smax a b = (if sint a \<le> sint b then b else a)"


subsection \<open>Lists\<close>

lemma length_vec_remove [simp]: "i < length xs \<Longrightarrow> length (vec_remove i xs) = length xs - 1"
  by (simp add: vec_remove_def)

lemma vec_remove_map: "map f (vec_remove i xs) = vec_remove i (map f xs)"
  by (simp add: vec_remove_def take_map drop_map)

lemma set_vec_remove: "set (vec_remove i xs) \<subseteq> set xs"
  by (auto simp: vec_remove_def dest: in_set_takeD in_set_dropD)

lemma vec_remove_distinct: "distinct xs \<Longrightarrow> distinct (vec_remove i xs)"
  using set_take_disj_set_drop_if_distinct [of xs i "Suc i"] by (simp add: vec_remove_def)

lemma vec_remove_filter:
  assumes "distinct (map f xs)" "i < length xs"
  shows "vec_remove i xs = filter (\<lambda>x. f x \<noteq> f (xs ! i)) xs"
proof -
  let ?P = "\<lambda>x. f x \<noteq> f (xs ! i)"
  have inj: "f (xs ! j) = f (xs ! i) \<longleftrightarrow> j = i" if "j < length xs" for j
    using nth_eq_iff_index_eq [OF assms(1), of j i] assms(2) that by simp
  have "filter ?P (take i xs) = take i xs"
    using inj assms(2) by (auto simp: filter_id_conv in_set_conv_nth)
  moreover have "filter ?P (drop (Suc i) xs) = drop (Suc i) xs"
  proof (rule filter_True, rule ballI)
    fix x assume "x \<in> set (drop (Suc i) xs)"
    then obtain k where k: "k < length xs - Suc i" "x = drop (Suc i) xs ! k" by (auto simp: in_set_conv_nth)
    then have "x = xs ! (Suc i + k)" "Suc i + k < length xs" by (simp_all add: nth_drop)
    then show "?P x" using inj [of "Suc i + k"] by simp
  qed
  ultimately have "filter ?P (take i xs @ xs ! i # drop (Suc i) xs) = take i xs @ drop (Suc i) xs" by simp
  then show ?thesis unfolding vec_remove_def by (simp add: id_take_nth_drop [OF assms(2), symmetric])
qed

lemma position_Some: "position P xs = Some i \<longleftrightarrow> i < length xs \<and> P (xs ! i) \<and> (\<forall>j < i. \<not> P (xs ! j))"
  unfolding position_def using find_upt_Some_iff [of "\<lambda>i. P (xs ! i)" 0 "length xs" i] by auto

lemma position_None: "position P xs = None \<longleftrightarrow> (\<forall>x \<in> set xs. \<not> P x)"
  unfolding position_def by (auto simp: find_None_iff all_set_conv_all_nth)

lemma position_key:
  assumes "distinct (map f xs)" "i < length xs"
  shows "position (\<lambda>x. f x = f (xs ! i)) xs = Some i"
proof -
  have "f (xs ! j) \<noteq> f (xs ! i)" if "j < i" for j
    using nth_eq_iff_index_eq [OF assms(1), of j i] assms(2) that by simp
  then show ?thesis using assms(2) by (simp add: position_Some)
qed

lemma rposition_Some:
  "rposition P xs = Some i \<longleftrightarrow> i < length xs \<and> P (xs ! i) \<and> (\<forall>j. i < j \<longrightarrow> j < length xs \<longrightarrow> \<not> P (xs ! j))"
proof -
  have "find Q (rev [0..<n]) = Some i \<longleftrightarrow> i < n \<and> Q i \<and> (\<forall>j. i < j \<longrightarrow> j < n \<longrightarrow> \<not> Q j)" for Q n
    by (induction n) (auto simp: less_Suc_eq)
  then show ?thesis by (simp add: rposition_def)
qed

lemma rposition_None: "rposition P xs = None \<longleftrightarrow> (\<forall>x \<in> set xs. \<not> P x)"
  unfolding rposition_def by (auto simp: find_None_iff all_set_conv_all_nth)


subsection \<open>Words\<close>

lemma unat_sat_sub [simp]: "unat (sat_sub a b) = unat a - unat b"
  by (simp add: sat_sub_def unat_sub word_le_nat_alt)

lemma word_less_Suc: "x \<noteq> - 1 \<Longrightarrow> x < x + 1" for x :: "'a::len word"
proof -
  assume "x \<noteq> - 1"
  then have "unat x \<noteq> unat (- 1 :: 'a word)" using word_unat_eq_iff by blast
  then have "unat x \<noteq> 2 ^ LENGTH('a) - 1" by (simp add: unsigned_minus_1_eq_mask mask_eq_exp_minus_1)
  moreover have "unat x < 2 ^ LENGTH('a)" by (rule unsigned_less)
  ultimately have "unat x + unat (1 :: 'a word) < 2 ^ LENGTH('a)" by (simp del: unsigned_less)
  then show ?thesis by (simp add: word_less_nat_alt unat_add_no_overflow)
qed

lemma sint_smax: "sint (smax a b) = max (sint a) (sint b)"
  by (simp add: smax_def)

lemma smax_ge: "0 \<le> sint b \<Longrightarrow> unat b \<le> unat (smax a b)" for a b :: "'a::len word"
proof -
  assume b: "0 \<le> sint b"
  have u: "uint x = sint x" if "0 \<le> sint x" for x :: "'a word"
  proof -
    have "sint x < 2 ^ (LENGTH('a) - 1)" by (rule sint_lt)
    also have "\<dots> \<le> (2 :: int) ^ LENGTH('a)" by (rule power_increasing) simp_all
    finally show ?thesis using that by (simp add: uint_sint take_bit_int_eq_self)
  qed
  have "sint b \<le> sint (smax a b)" by (simp add: sint_smax)
  then have "uint b \<le> uint (smax a b)" using u [of b] u [of "smax a b"] b by simp
  then have "b \<le> smax a b" unfolding word_le_def .
  then show ?thesis unfolding word_le_nat_alt .
qed

lemma sint_small: "unat a < 2 ^ 31 \<Longrightarrow> sint a = int (unat a)" for a :: u32
proof -
  assume "unat a < 2 ^ 31"
  then have "uint a < 2 ^ 31" by (metis of_nat_less_iff of_nat_numeral of_nat_power uint_nat)
  moreover have "0 \<le> uint a" by simp
  ultimately have "signed_take_bit 31 (uint a) = uint a" by (intro signed_take_bit_int_eq_self) linarith+
  then show ?thesis by (simp add: sint_uint)
qed

end
