(* ===== verification/Minesweeper.thy ===== *)
theory Minesweeper
  imports Desktop_Types Lcg Rust_Vec
begin

text \<open>
  The minesweeper, \<^verbatim>\<open>kernel/src/desktop/apps/minesweeper.rs\<close>: a board of 12 by 12 cells with 20 mines drawn by the
  generator of \<^verbatim>\<open>Lcg\<close> from the timer ticks, the recursive reveal, and the keyboard and mouse handlers.
  The recursion of \<^verbatim>\<open>minesweeper_reveal\<close> is \<^verbatim>\<open>reveal_all\<close> on the list of calls still to be made, first call
  first; the function does nothing after its recursive calls, so the list is the rest of the run.
\<close>

definition MINE_ROWS :: nat where "MINE_ROWS = 12"
definition MINE_COLS :: nat where "MINE_COLS = 12"
definition MINE_COUNT :: nat where "MINE_COUNT = 20"
definition CELL_SIZE :: u32 where "CELL_SIZE = 22"

lemmas board_size = MINE_ROWS_def MINE_COLS_def

datatype CellState = Hidden | Revealed | Flagged

record MinesweeperState =
  mines :: "bool list"
  states :: "CellState list"
  adjacent :: "nat list"
  cursor_row :: nat
  cursor_col :: nat
  game_over :: bool
  won :: bool

definition minesweeper_new :: MinesweeperState where
  "minesweeper_new = \<lparr>mines = replicate (MINE_ROWS * MINE_COLS) False, states = replicate (MINE_ROWS * MINE_COLS) Hidden,
     adjacent = replicate (MINE_ROWS * MINE_COLS) 0, cursor_row = 0, cursor_col = 0, game_over = False, won = False\<rparr>"

definition neighbours :: "nat \<Rightarrow> nat \<Rightarrow> (nat \<times> nat) list" where
  "neighbours r c =
     map (\<lambda>(dr, dc). (nat (int r + dr), nat (int c + dc)))
       (filter (\<lambda>(dr, dc). \<not> (dr = 0 \<and> dc = 0) \<and> int r + dr \<ge> 0 \<and> int r + dr < int MINE_ROWS \<and> int c + dc \<ge> 0 \<and> int c + dc < int MINE_COLS)
         (List.product [-1, 0, 1] [-1, 0, 1]))"

text \<open>The loop that draws mines until twenty are placed; it need not end for an arbitrary generator.\<close>

partial_function (option) place_mines :: "u32 \<Rightarrow> nat \<Rightarrow> bool list \<Rightarrow> bool list option" where
  "place_mines seed placed ms =
     (if placed < MINE_COUNT
      then let seed = lcg_next seed; idx = lcg_pick (MINE_ROWS * MINE_COLS) seed
           in if \<not> ms ! idx then place_mines seed (placed + 1) (ms[idx := True]) else place_mines seed placed ms
      else Some ms)"

definition adjacent_count :: "bool list \<Rightarrow> nat \<Rightarrow> nat \<Rightarrow> nat" where
  "adjacent_count ms r c = length (filter (\<lambda>(nr, nc). ms ! (nr * MINE_COLS + nc)) (neighbours r c))"

definition compute_adjacent :: "bool list \<Rightarrow> nat list \<Rightarrow> nat list" where
  "compute_adjacent ms adj =
     fold (\<lambda>(r, c) adj. adj[r * MINE_COLS + c := adjacent_count ms r c]) (List.product [0..<MINE_ROWS] [0..<MINE_COLS]) adj"

definition minesweeper_init :: "u64 \<Rightarrow> MinesweeperState \<Rightarrow> MinesweeperState option" where
  "minesweeper_init ticks s =
     (case place_mines (ucast ticks) 0 (map (\<lambda>_. False) (mines s)) of
        None \<Rightarrow> None
      | Some ms \<Rightarrow> Some \<lparr>mines = ms, states = map (\<lambda>_. Hidden) (states s), adjacent = compute_adjacent ms (adjacent s),
                       cursor_row = 0, cursor_col = 0, game_over = False, won = False\<rparr>)"

definition hidden_count :: "MinesweeperState \<Rightarrow> nat" where
  "hidden_count s = length (filter (\<lambda>x. x = Hidden) (states s))"

definition reveal_mines :: "bool list \<Rightarrow> CellState list \<Rightarrow> CellState list" where
  "reveal_mines ms st = fold (\<lambda>i st. if ms ! i then st[i := Revealed] else st) [0..<MINE_ROWS * MINE_COLS] st"

lemma length_filter_update:
  "i < length xs \<Longrightarrow> P (xs ! i) \<Longrightarrow> \<not> P y \<Longrightarrow> length (filter P (xs[i := y])) < length (filter P xs)"
proof (induction xs arbitrary: i)
  case (Cons x xs)
  then show ?case by (cases i) auto
qed simp

lemma length_filter_update_le: "\<not> P y \<Longrightarrow> length (filter P (xs[i := y])) \<le> length (filter P xs)"
proof (induction xs arbitrary: i)
  case (Cons x xs)
  then show ?case by (cases i) (auto intro: le_SucI)
qed simp

lemma hidden_reveal_mines: "length (filter (\<lambda>x. x = Hidden) (reveal_mines ms st)) \<le> length (filter (\<lambda>x. x = Hidden) st)"
proof -
  have "length (filter (\<lambda>x. x = Hidden) (fold (\<lambda>i st. if ms ! i then st[i := Revealed] else st) is st)) \<le> length (filter (\<lambda>x. x = Hidden) st)" for "is"
  proof (induction "is" arbitrary: st)
    case (Cons i "is")
    have "length (filter (\<lambda>x. x = Hidden) (st[i := Revealed])) \<le> length (filter (\<lambda>x. x = Hidden) st)"
      by (rule length_filter_update_le) simp
    then show ?case using Cons [of "st[i := Revealed]"] Cons [of st] by auto
  qed simp
  then show ?thesis by (simp add: reveal_mines_def)
qed

text \<open>
  The calls of \<^verbatim>\<open>minesweeper_reveal\<close> still to be made. The array of the program has 144 cells by its type,
  so the index is always in range; on a list of another length the function stops.
\<close>

function reveal_all :: "(nat \<times> nat) list \<Rightarrow> MinesweeperState \<Rightarrow> MinesweeperState" where
  "reveal_all [] s = s"
| "reveal_all ((r, c) # calls) s =
     (let idx = r * MINE_COLS + c in
      if r \<ge> MINE_ROWS \<or> c \<ge> MINE_COLS \<or> idx \<ge> length (states s) then reveal_all calls s
      else if states s ! idx \<noteq> Hidden then reveal_all calls s
      else let s = s\<lparr>states := (states s)[idx := Revealed]\<rparr> in
           if mines s ! idx then reveal_all calls (s\<lparr>game_over := True, states := reveal_mines (mines s) (states s)\<rparr>)
           else if adjacent s ! idx = 0 then reveal_all (neighbours r c @ calls) s
           else reveal_all calls s)"
  by pat_completeness auto

termination
proof (relation "measures [\<lambda>(calls, s). hidden_count s, \<lambda>(calls, s). length calls]", goal_cases)
  case (4 r c calls s x xa)
  then show ?case
    using le_less_trans [OF hidden_reveal_mines length_filter_update] by (simp add: hidden_count_def)
qed (simp_all add: hidden_count_def length_filter_update)

definition minesweeper_reveal :: "nat \<Rightarrow> nat \<Rightarrow> MinesweeperState \<Rightarrow> MinesweeperState" where
  "minesweeper_reveal r c s = reveal_all [(r, c)] s"

definition minesweeper_check_win :: "MinesweeperState \<Rightarrow> MinesweeperState" where
  "minesweeper_check_win s =
     (if \<forall>i \<in> set [0..<MINE_ROWS * MINE_COLS]. mines s ! i \<or> states s ! i = Revealed
      then s\<lparr>won := True, game_over := True\<rparr> else s)"

text \<open>Revealing the cell under the cursor, as the keyboard and the mouse handler do.\<close>

definition reveal_cursor :: "MinesweeperState \<Rightarrow> MinesweeperState" where
  "reveal_cursor s =
     (if states s ! (cursor_row s * MINE_COLS + cursor_col s) = Hidden
      then let s = minesweeper_reveal (cursor_row s) (cursor_col s) s
           in if \<not> game_over s then minesweeper_check_win s else s
      else s)"

definition toggle_flag :: "MinesweeperState \<Rightarrow> MinesweeperState" where
  "toggle_flag s =
     (let idx = cursor_row s * MINE_COLS + cursor_col s in
      case states s ! idx of
        Hidden \<Rightarrow> s\<lparr>states := (states s)[idx := Flagged]\<rparr>
      | Flagged \<Rightarrow> s\<lparr>states := (states s)[idx := Hidden]\<rparr>
      | Revealed \<Rightarrow> s)"

text \<open>The handlers return nothing where the restart would draw for ever.\<close>

definition minesweeper_input :: "u64 \<Rightarrow> KeyEvent \<Rightarrow> MinesweeperState \<Rightarrow> (MinesweeperState \<times> InputResult) option" where
  "minesweeper_input ticks e s =
     (if game_over s
      then if ascii e = 0x72 \<or> ascii e = 0x52
           then (case minesweeper_init ticks s of Some s \<Rightarrow> Some (s, Redraw) | None \<Rightarrow> None)
           else Some (s, Continue)
      else if key e = Key_Up then Some (if cursor_row s > 0 then s\<lparr>cursor_row := cursor_row s - 1\<rparr> else s, Redraw)
      else if key e = Key_Down then Some (if cursor_row s + 1 < MINE_ROWS then s\<lparr>cursor_row := cursor_row s + 1\<rparr> else s, Redraw)
      else if key e = Key_Left then Some (if cursor_col s > 0 then s\<lparr>cursor_col := cursor_col s - 1\<rparr> else s, Redraw)
      else if key e = Key_Right then Some (if cursor_col s + 1 < MINE_COLS then s\<lparr>cursor_col := cursor_col s + 1\<rparr> else s, Redraw)
      else if key e = Key_Space \<or> key e = Key_Enter then Some (reveal_cursor s, Redraw)
      else if ascii e = 0x66 \<or> ascii e = 0x46 then Some (toggle_flag s, Redraw)
      else Some (s, Continue))"

definition minesweeper_click :: "u32 \<Rightarrow> u32 \<Rightarrow> MinesweeperState \<Rightarrow> MinesweeperState \<times> InputResult" where
  "minesweeper_click local_x local_y s =
     (if game_over s then (s, Continue)
      else let header_h = CHAR_HEIGHT + 8 in
        if local_y < header_h then (s, Continue)
        else let col = unat (sat_sub local_x 4 div CELL_SIZE); row = unat ((local_y - header_h) div CELL_SIZE) in
          if row < MINE_ROWS \<and> col < MINE_COLS then (reveal_cursor (s\<lparr>cursor_row := row, cursor_col := col\<rparr>), Redraw)
          else (s, Continue))"



subsection \<open>A new game\<close>

abbreviation cells :: nat where
  "cells \<equiv> MINE_ROWS * MINE_COLS"

lemma cells_144: "cells = 144"
  by (simp add: board_size)

definition mine_count :: "bool list \<Rightarrow> nat" where
  "mine_count ms = length (filter (\<lambda>m. m) ms)"

lemma mine_count_update: "i < length ms \<Longrightarrow> \<not> ms ! i \<Longrightarrow> mine_count (ms[i := True]) = Suc (mine_count ms)"
proof (induction ms arbitrary: i)
  case (Cons m ms)
  then show ?case by (cases i) (auto simp: mine_count_def)
qed simp

lemma lcg_pick_less: "lcg_pick cells x < cells"
  by (simp add: lcg_pick_def board_size)

text \<open>Drawing goes on until a free cell comes up, which it does.\<close>

lemma place_mines_draw:
  assumes "placed < MINE_COUNT" "\<not> ms ! lcg_pick cells ((lcg_next ^^ Suc k) seed)"
  shows "\<exists>seed' i. i < cells \<and> \<not> ms ! i \<and> place_mines seed placed ms = place_mines seed' (placed + 1) (ms[i := True])"
  using assms(2)
proof (induction k arbitrary: seed)
  case 0
  then show ?case using assms(1) lcg_pick_less [of "lcg_next seed"] by (subst place_mines.simps) (auto simp: Let_def)
next
  case (Suc k)
  let ?i = "lcg_pick cells (lcg_next seed)"
  show ?case
  proof (cases "ms ! ?i")
    case True
    have "place_mines seed placed ms = place_mines (lcg_next seed) placed ms"
      using assms(1) True by (subst place_mines.simps) (simp add: Let_def)
    moreover have "\<not> ms ! lcg_pick cells ((lcg_next ^^ Suc k) (lcg_next seed))"
      using Suc.prems by (simp add: funpow_swap1)
    ultimately show ?thesis using Suc.IH by metis
  next
    case False
    then show ?thesis using assms(1) lcg_pick_less [of "lcg_next seed"] by (subst place_mines.simps) (auto simp: Let_def)
  qed
qed

lemma place_mines_returns:
  assumes "length ms = cells" "mine_count ms = placed" "placed \<le> MINE_COUNT"
  shows "\<exists>ms'. place_mines seed placed ms = Some ms' \<and> length ms' = cells \<and> mine_count ms' = MINE_COUNT"
  using assms
proof (induction "MINE_COUNT - placed" arbitrary: placed ms seed)
  case 0
  then show ?case by (subst place_mines.simps) simp
next
  case (Suc n)
  have p: "placed < MINE_COUNT" using Suc.hyps(2) by simp
  have "\<exists>i < cells. \<not> ms ! i"
  proof (rule ccontr)
    assume "\<not> ?thesis"
    then have "filter (\<lambda>m. m) ms = ms" using Suc.prems(1) by (auto simp: filter_id_conv in_set_conv_nth)
    then show False using Suc.prems p by (simp add: mine_count_def cells_144 MINE_COUNT_def)
  qed
  then obtain i where i: "i < cells" "\<not> ms ! i" by blast
  then obtain k where "lcg_pick cells ((lcg_next ^^ Suc k) seed) = i" using lcg_pick_reaches [of i cells seed] by (auto simp: cells_144)
  then obtain seed' j where j: "j < cells" "\<not> ms ! j" "place_mines seed placed ms = place_mines seed' (placed + 1) (ms[j := True])"
    using place_mines_draw [OF p, of ms k seed] i(2) by blast
  have "mine_count (ms[j := True]) = placed + 1" using mine_count_update [of j ms] j Suc.prems by simp
  then show ?case using Suc.hyps(1) [of "placed + 1" "ms[j := True]" seed'] Suc.hyps(2) Suc.prems p j(3) by simp
qed

lemma fold_update_nth:
  assumes "inj_on f (set ks)" "k \<in> set ks" "\<forall>k \<in> set ks. f k < length a"
  shows "fold (\<lambda>k a. a[f k := g k]) ks a ! f k = g k"
  using assms
proof (induction ks rule: rev_induct)
  case (snoc x ks)
  have l: "length (fold (\<lambda>k a. a[f k := g k]) ks a) = length a" by (induction ks arbitrary: a) simp_all
  show ?case
  proof (cases "k = x")
    case False
    then have "f x \<noteq> f k" using snoc.prems(1,2) by (auto dest: inj_onD)
    then show ?thesis using snoc False by (simp add: inj_on_Un)
  qed (use snoc.prems l in simp)
qed simp

lemma length_fold_update: "length (fold (\<lambda>k a. a[f k := g k]) ks a) = length a"
  by (induction ks arbitrary: a) simp_all

definition idx :: "nat \<times> nat \<Rightarrow> nat" where
  "idx = (\<lambda>(r, c). r * MINE_COLS + c)"

definition on_board :: "nat \<times> nat \<Rightarrow> bool" where
  "on_board = (\<lambda>(r, c). r < MINE_ROWS \<and> c < MINE_COLS)"

lemma idx_less: "on_board x \<Longrightarrow> idx x < cells"
  by (cases x) (auto simp: idx_def on_board_def board_size)

lemma idx_inj: "on_board x \<Longrightarrow> on_board y \<Longrightarrow> idx x = idx y \<Longrightarrow> x = y"
proof -
  assume a: "on_board x" "on_board y" "idx x = idx y"
  obtain r c r' c' where p: "x = (r, c)" "y = (r', c')" by (cases x, cases y) auto
  have d: "(r * 12 + c) div 12 = r" "(r' * 12 + c') div 12 = r'" using a p by (auto simp: on_board_def board_size)
  have e: "r * 12 + c = r' * 12 + c'" using a(3) p by (simp add: idx_def board_size)
  then have "r = r'" using d by simp
  then show ?thesis using e p by simp
qed

lemma idx_surj: "i < cells \<Longrightarrow> \<exists>x. on_board x \<and> idx x = i"
  by (rule exI [of _ "(i div 12, i mod 12)"]) (auto simp: idx_def on_board_def board_size)

lemma compute_adjacent_fold:
  "compute_adjacent ms adj =
     fold (\<lambda>k a. a[idx k := adjacent_count ms (fst k) (snd k)]) (List.product [0..<MINE_ROWS] [0..<MINE_COLS]) adj"
  unfolding compute_adjacent_def by (rule fold_cong) (auto simp: idx_def)

lemma length_compute_adjacent [simp]: "length (compute_adjacent ms adj) = length adj"
  by (simp add: compute_adjacent_fold length_fold_update)

lemma compute_adjacent_nth:
  assumes "length adj = cells" "on_board x"
  shows "compute_adjacent ms adj ! idx x = adjacent_count ms (fst x) (snd x)"
  unfolding compute_adjacent_fold
proof (rule fold_update_nth)
  let ?ks = "List.product [0..<MINE_ROWS] [0..<MINE_COLS]"
  have s: "k \<in> set ?ks \<longleftrightarrow> on_board k" for k by (cases k) (auto simp: on_board_def)
  show "inj_on idx (set ?ks)" by (rule inj_onI) (use s idx_inj in blast)
  show "x \<in> set ?ks" using s assms(2) by blast
  show "\<forall>k \<in> set ?ks. idx k < length adj" using s idx_less assms(1) by metis
qed

lemma in_map_filter_product:
  "x \<in> set (map (\<lambda>(a, b). f a b) (filter (\<lambda>(a, b). P a b) (List.product as bs))) \<longleftrightarrow> (\<exists>a \<in> set as. \<exists>b \<in> set bs. P a b \<and> x = f a b)"
  by auto

lemma set_neighbours:
  assumes "on_board (r, c)"
  shows "(r', c') \<in> set (neighbours r c) \<longleftrightarrow>
     on_board (r', c') \<and> (r', c') \<noteq> (r, c) \<and> int r' - int r \<in> {-1, 0, 1} \<and> int c' - int c \<in> {-1, 0, 1}"
proof -
  have step: "(int r + dr \<ge> 0 \<and> int r + dr < int MINE_ROWS \<and> int c + dc \<ge> 0 \<and> int c + dc < int MINE_COLS) \<and>
      r' = nat (int r + dr) \<and> c' = nat (int c + dc) \<longleftrightarrow> r' < MINE_ROWS \<and> c' < MINE_COLS \<and> int r' - int r = dr \<and> int c' - int c = dc" for dr dc
    by auto
  have "(r', c') \<in> set (neighbours r c) \<longleftrightarrow> (\<exists>dr \<in> {-1, 0, 1}. \<exists>dc \<in> {-1, 0, 1}. \<not> (dr = 0 \<and> dc = 0) \<and>
      (int r + dr \<ge> 0 \<and> int r + dr < int MINE_ROWS \<and> int c + dc \<ge> 0 \<and> int c + dc < int MINE_COLS) \<and>
      r' = nat (int r + dr) \<and> c' = nat (int c + dc))"
    unfolding neighbours_def in_map_filter_product list.set by (simp only: conj_assoc prod.inject)
  also have "\<dots> \<longleftrightarrow> (\<exists>dr \<in> {-1, 0, 1}. \<exists>dc \<in> {-1, 0, 1}. \<not> (dr = 0 \<and> dc = 0) \<and> r' < MINE_ROWS \<and> c' < MINE_COLS \<and> int r' - int r = dr \<and> int c' - int c = dc)"
    by (simp only: conj_assoc step [unfolded conj_assoc])
  also have "\<dots> \<longleftrightarrow> on_board (r', c') \<and> (r', c') \<noteq> (r, c) \<and> int r' - int r \<in> {-1, 0, 1} \<and> int c' - int c \<in> {-1, 0, 1}"
    by (simp only: on_board_def prod.case prod.inject bex_simps) auto
  finally show ?thesis .
qed


subsection \<open>Revealing is a flood fill\<close>

definition hidden :: "MinesweeperState \<Rightarrow> nat \<times> nat \<Rightarrow> bool" where
  "hidden s x \<longleftrightarrow> on_board x \<and> states s ! idx x = Hidden"

text \<open>Where a reveal goes on from a cell: to all neighbours of a cell without mines around it.\<close>

definition spread :: "MinesweeperState \<Rightarrow> nat \<times> nat \<Rightarrow> (nat \<times> nat) list" where
  "spread s x = (if adjacent s ! idx x = 0 then neighbours (fst x) (snd x) else [])"

inductive flood :: "('c \<Rightarrow> bool) \<Rightarrow> ('c \<Rightarrow> 'c list) \<Rightarrow> 'c list \<Rightarrow> 'c \<Rightarrow> bool" for H S calls where
  flood_start: "x \<in> set calls \<Longrightarrow> H x \<Longrightarrow> flood H S calls x"
| flood_step: "flood H S calls x \<Longrightarrow> y \<in> set (S x) \<Longrightarrow> H y \<Longrightarrow> flood H S calls y"

lemma flood_hidden: "flood H S calls x \<Longrightarrow> H x"
  by (induction rule: flood.induct) auto

lemma flood_mono:
  "flood H S calls y \<Longrightarrow> (\<And>x. H x \<Longrightarrow> H' x) \<Longrightarrow> (\<And>x. x \<in> set calls \<Longrightarrow> H x \<Longrightarrow> flood H' S calls' x) \<Longrightarrow> flood H' S calls' y"
  by (induction rule: flood.induct) (auto intro: flood.intros)

lemma flood_skip: "\<not> H x \<Longrightarrow> flood H S (x # calls) y \<longleftrightarrow> flood H S calls y"
  by (auto elim!: flood_mono intro: flood.intros)

lemma flood_visit:
  assumes "H x"
  shows "flood H S (x # calls) y \<longleftrightarrow> y = x \<or> flood (\<lambda>z. H z \<and> z \<noteq> x) S (S x @ calls) y"
proof
  assume "flood H S (x # calls) y"
  then show "y = x \<or> flood (\<lambda>z. H z \<and> z \<noteq> x) S (S x @ calls) y"
    by (induction rule: flood.induct) (auto intro: flood.intros)
next
  have x: "flood H S (x # calls) x" using assms by (simp add: flood_start)
  assume "y = x \<or> flood (\<lambda>z. H z \<and> z \<noteq> x) S (S x @ calls) y"
  then show "flood H S (x # calls) y"
  proof
    assume "flood (\<lambda>z. H z \<and> z \<noteq> x) S (S x @ calls) y"
    then show ?thesis by (induction rule: flood.induct) (auto intro: flood_start flood_step flood_step [OF x])
  qed (use x in simp)
qed

definition board_ok :: "MinesweeperState \<Rightarrow> bool" where
  "board_ok s \<longleftrightarrow> length (mines s) = cells \<and> length (states s) = cells \<and> length (adjacent s) = cells \<and>
     (\<forall>x. on_board x \<longrightarrow> adjacent s ! idx x = adjacent_count (mines s) (fst x) (snd x))"

lemma spread_safe: "board_ok s \<Longrightarrow> on_board x \<Longrightarrow> y \<in> set (spread s x) \<Longrightarrow> on_board y \<and> \<not> mines s ! idx y"
proof -
  assume a: "board_ok s" "on_board x" "y \<in> set (spread s x)"
  have "adjacent s ! idx x = adjacent_count (mines s) (fst x) (snd x)" using a(1,2) unfolding board_ok_def by blast
  moreover have zero: "adjacent s ! idx x = 0"
  proof (rule ccontr)
    assume "adjacent s ! idx x \<noteq> 0"
    then show False using a(3) by (simp add: spread_def)
  qed
  ultimately have z: "adjacent_count (mines s) (fst x) (snd x) = 0" by simp
  have n: "y \<in> set (neighbours (fst x) (snd x))" using a(3) zero by (simp add: spread_def)
  have "on_board y" using set_neighbours [of "fst x" "snd x" "fst y" "snd y"] n a(2) by simp
  moreover have "\<not> mines s ! idx y" using z n by (auto simp: adjacent_count_def filter_empty_conv idx_def)
  ultimately show ?thesis by simp
qed

lemma reveal_all_visit:
  assumes "hidden s x" "board_ok s" "\<not> mines s ! idx x"
  shows "reveal_all (x # calls) s = reveal_all (spread s x @ calls) (s\<lparr>states := (states s)[idx x := Revealed]\<rparr>)"
proof -
  obtain r c where x: "x = (r, c)" by fastforce
  have "r < MINE_ROWS" "c < MINE_COLS" "r * MINE_COLS + c < length (states s)" "states s ! (r * MINE_COLS + c) = Hidden" "\<not> mines s ! (r * MINE_COLS + c)"
    using assms idx_less [of x] by (auto simp: x hidden_def board_ok_def idx_def on_board_def)
  then show ?thesis by (simp add: x spread_def idx_def Let_def)
qed

lemma reveal_all_skip: "\<not> hidden s x \<Longrightarrow> board_ok s \<Longrightarrow> reveal_all (x # calls) s = reveal_all calls s"
proof -
  assume a: "\<not> hidden s x" "board_ok s"
  obtain r c where x: "x = (r, c)" by fastforce
  show ?thesis using a idx_less [of x] by (auto simp: x hidden_def board_ok_def idx_def on_board_def Let_def)
qed

lemma reveal_all_flood:
  "board_ok s \<Longrightarrow> list_all (\<lambda>x. on_board x \<longrightarrow> \<not> mines s ! idx x) calls \<Longrightarrow>
     length (states (reveal_all calls s)) = cells \<and>
     (\<forall>y. on_board y \<longrightarrow> states (reveal_all calls s) ! idx y = (if flood (hidden s) (spread s) calls y then Revealed else states s ! idx y)) \<and>
     reveal_all calls s = s\<lparr>states := states (reveal_all calls s)\<rparr>"
proof (induction "hidden_count s" arbitrary: calls s rule: less_induct)
  case less
  show ?case
    using less.prems(2)
  proof (induction calls)
    case Nil
    have "\<not> flood (hidden s) (spread s) [] y" for y
      by (rule notI, induction rule: flood.induct) auto
    then show ?case using less.prems(1) by (simp add: board_ok_def)
  next
    case (Cons x calls)
    show ?case
    proof (cases "hidden s x")
      case False
      then show ?thesis using Cons reveal_all_skip [OF False less.prems(1)] by (simp add: flood_skip)
    next
      case True
      define s' where "s' = s\<lparr>states := (states s)[idx x := Revealed]\<rparr>"
      have x: "on_board x" "idx x < length (states s)" "states s ! idx x = Hidden" "\<not> mines s ! idx x"
        using True idx_less [of x] less.prems(1) Cons.prems by (auto simp: hidden_def board_ok_def)
      have ok: "board_ok s'" and sp: "spread s' = spread s" and ms: "mines s' = mines s"
        using less.prems(1) by (simp_all add: s'_def board_ok_def spread_def fun_eq_iff)
      have hid: "hidden s' = (\<lambda>z. hidden s z \<and> z \<noteq> x)"
      proof (rule ext)
        fix z show "hidden s' z \<longleftrightarrow> hidden s z \<and> z \<noteq> x"
          using x idx_inj [of x z] by (cases "z = x") (auto simp: hidden_def s'_def nth_list_update)
      qed
      have less': "hidden_count s' < hidden_count s"
        using length_filter_update [of "idx x" "states s" "\<lambda>x. x = Hidden" Revealed] x by (simp add: hidden_count_def s'_def)
      have "list_all (\<lambda>x. on_board x \<longrightarrow> \<not> mines s' ! idx x) (spread s' x @ calls)"
        using Cons.prems spread_safe [OF less.prems(1) x(1)] by (auto simp: list_all_iff sp ms)
      note IH = less.hyps [OF less' ok this]
      have r: "reveal_all (x # calls) s = reveal_all (spread s' x @ calls) s'"
        using reveal_all_visit [OF True less.prems(1) x(4)] by (simp add: s'_def [symmetric] sp)
      have "states (reveal_all (x # calls) s) ! idx y = (if flood (hidden s) (spread s) (x # calls) y then Revealed else states s ! idx y)" if "on_board y" for y
      proof -
        have "states s' ! idx y = (if y = x then Revealed else states s ! idx y)"
          using x(2) idx_inj [OF x(1) that] by (auto simp: s'_def nth_list_update)
        moreover have "states (reveal_all (spread s' x @ calls) s') ! idx y =
            (if flood (hidden s') (spread s') (spread s' x @ calls) y then Revealed else states s' ! idx y)"
          using IH that by blast
        ultimately show ?thesis unfolding r flood_visit [of "hidden s" x, OF True] hid sp by (cases "y = x") simp_all
      qed
      moreover obtain t where "reveal_all (spread s' x @ calls) s' = s'\<lparr>states := t\<rparr>" using IH by blast
      then have "reveal_all (x # calls) s = s\<lparr>states := states (reveal_all (x # calls) s)\<rparr>"
        by (simp only: r) (simp add: s'_def)
      moreover have "length (states (reveal_all (x # calls) s)) = cells" using IH unfolding r by blast
      ultimately show ?thesis by blast
    qed
  qed
qed


lemma reveal_mines_nth:
  "length (reveal_mines ms st) = length st"
  "length st = cells \<Longrightarrow> i < cells \<Longrightarrow> reveal_mines ms st ! i = (if ms ! i then Revealed else st ! i)"
proof -
  have l: "length (fold (\<lambda>i st. if ms ! i then st[i := Revealed] else st) is st) = length st" for "is" st
    by (induction "is" arbitrary: st) auto
  show "length (reveal_mines ms st) = length st" by (simp add: reveal_mines_def l)
  have "i < length st \<Longrightarrow> fold (\<lambda>i st. if ms ! i then st[i := Revealed] else st) [0..<n] st ! i = (if i < n \<and> ms ! i then Revealed else st ! i)" for n
    by (induction n) (auto simp: nth_list_update l less_Suc_eq)
  from this [of cells] show "length st = cells \<Longrightarrow> i < cells \<Longrightarrow> reveal_mines ms st ! i = (if ms ! i then Revealed else st ! i)"
    by (simp add: reveal_mines_def)
qed

lemma reveal_mine:
  assumes "board_ok s" "hidden s (r, c)" "mines s ! idx (r, c)"
  shows "minesweeper_reveal r c s = s\<lparr>game_over := True, states := reveal_mines (mines s) ((states s)[idx (r, c) := Revealed])\<rparr>"
proof -
  have "r < MINE_ROWS" "c < MINE_COLS" "r * MINE_COLS + c < length (states s)" "states s ! (r * MINE_COLS + c) = Hidden" "mines s ! (r * MINE_COLS + c)"
    using assms idx_less [of "(r, c)"] by (auto simp: hidden_def board_ok_def idx_def on_board_def)
  then show ?thesis by (simp add: minesweeper_reveal_def idx_def Let_def)
qed

text \<open>The flood fill in full: the frame, the length of the array, and each cell.\<close>

lemma minesweeper_flood:
  assumes "board_ok s" "hidden s (r, c)" "\<not> mines s ! idx (r, c)"
  shows "minesweeper_reveal r c s = s\<lparr>states := states (minesweeper_reveal r c s)\<rparr>" "length (states (minesweeper_reveal r c s)) = cells"
    "on_board y \<Longrightarrow> states (minesweeper_reveal r c s) ! idx y = (if flood (hidden s) (spread s) [(r, c)] y then Revealed else states s ! idx y) \<and>
      (flood (hidden s) (spread s) [(r, c)] y \<longrightarrow> \<not> mines s ! idx y)"
proof -
  have f: "on_board z \<and> \<not> mines s ! idx z" if "flood (hidden s) (spread s) [(r, c)] z" for z
    using that assms(3)
  proof (induction rule: flood.induct)
    case (flood_step x z)
    then show ?case using spread_safe [OF assms(1)] by blast
  qed (auto simp: hidden_def)
  note R = reveal_all_flood [OF assms(1), of "[(r, c)]"]
  show "minesweeper_reveal r c s = s\<lparr>states := states (minesweeper_reveal r c s)\<rparr>" "length (states (minesweeper_reveal r c s)) = cells"
    using R assms(3) unfolding minesweeper_reveal_def by (simp_all del: reveal_all.simps)
  show "on_board y \<Longrightarrow> states (minesweeper_reveal r c s) ! idx y = (if flood (hidden s) (spread s) [(r, c)] y then Revealed else states s ! idx y) \<and>
      (flood (hidden s) (spread s) [(r, c)] y \<longrightarrow> \<not> mines s ! idx y)"
    using R assms(3) f unfolding minesweeper_reveal_def by (simp del: reveal_all.simps split_paired_All)
qed

text \<open>
  C32: revealing a hidden cell is the flood fill of the game. A mine ends the game: every mine is shown and no
  other cell changes. Otherwise exactly those cells are shown that can be reached from the cell through
  hidden cells with no mine around them, the rim of numbered cells included; the recursion ends,
  no mine is shown, and nothing but the cell states changes.
\<close>

theorem minesweeper_reveal_floods:
  assumes "board_ok s" "hidden s (r, c)" "on_board y"
  shows "if mines s ! idx (r, c)
    then game_over (minesweeper_reveal r c s) \<and>
      states (minesweeper_reveal r c s) ! idx y = (if mines s ! idx y then Revealed else states s ! idx y)
    else minesweeper_reveal r c s = s\<lparr>states := states (minesweeper_reveal r c s)\<rparr> \<and>
      states (minesweeper_reveal r c s) ! idx y = (if flood (hidden s) (spread s) [(r, c)] y then Revealed else states s ! idx y) \<and>
      (flood (hidden s) (spread s) [(r, c)] y \<longrightarrow> \<not> mines s ! idx y)"
proof (cases "mines s ! idx (r, c)")
  case True
  have "length ((states s)[idx (r, c) := Revealed]) = cells" using assms(1) by (simp add: board_ok_def)
  note N = reveal_mines_nth(2) [OF this idx_less [OF assms(3)], of "mines s"]
  show ?thesis
    unfolding reveal_mine [OF assms(1,2) True]
    using True N by (cases "idx y = idx (r, c)") simp_all
next
  case False
  then show ?thesis using minesweeper_flood [OF assms(1,2) False] assms(3) by simp
qed

text \<open>A board with one mine in a corner: revealing the far corner opens everything but the mine.\<close>

definition corner_board :: MinesweeperState where
  "corner_board = (let ms = (replicate cells False)[0 := True] in
     \<lparr>mines = ms, states = replicate cells Hidden, adjacent = compute_adjacent ms (replicate cells 0),
      cursor_row = 0, cursor_col = 0, game_over = False, won = False\<rparr>)"

lemma corner_board_ok: "board_ok corner_board"
  by (simp add: board_ok_def corner_board_def Let_def compute_adjacent_nth)

theorem minesweeper_reveal_floods_witness:
  "game_over (minesweeper_reveal 0 0 corner_board) \<and> states (minesweeper_reveal 0 0 corner_board) ! idx (3, 4) = Hidden"
proof -
  have "hidden corner_board (0, 0)" "on_board (3, 4)"
    by (simp_all add: hidden_def corner_board_def Let_def on_board_def board_size idx_def)
  moreover have "mines corner_board ! idx (0, 0)" "\<not> mines corner_board ! idx (3, 4)" "states corner_board ! idx (3, 4) = Hidden"
    by (simp_all add: corner_board_def Let_def board_size idx_def)
  ultimately show ?thesis using minesweeper_reveal_floods [OF corner_board_ok, of 0 0 "(3, 4)"] by simp
qed


subsection \<open>The game\<close>

definition game_inv :: "MinesweeperState \<Rightarrow> bool" where
  "game_inv s \<longleftrightarrow> board_ok s \<and> mine_count (mines s) = MINE_COUNT \<and> cursor_row s < MINE_ROWS \<and> cursor_col s < MINE_COLS \<and>
     (if won s then game_over s \<and> (\<forall>i < cells. states s ! i = Revealed \<longleftrightarrow> \<not> mines s ! i)
      else if game_over s then \<forall>i < cells. mines s ! i \<longrightarrow> states s ! i = Revealed
      else (\<forall>i < cells. mines s ! i \<longrightarrow> states s ! i \<noteq> Revealed) \<and> (\<exists>i < cells. \<not> mines s ! i \<and> states s ! i \<noteq> Revealed))"

lemma safe_cell: "length ms = cells \<Longrightarrow> mine_count ms = MINE_COUNT \<Longrightarrow> \<exists>i < cells. \<not> ms ! i"
proof (rule ccontr)
  assume a: "length ms = cells" "mine_count ms = MINE_COUNT" "\<not> (\<exists>i < cells. \<not> ms ! i)"
  then have "filter (\<lambda>m. m) ms = ms" by (auto simp: filter_id_conv in_set_conv_nth)
  then show False using a by (simp add: mine_count_def cells_144 MINE_COUNT_def)
qed

lemma minesweeper_init_inv:
  assumes "length (mines s) = cells" "length (states s) = cells" "length (adjacent s) = cells"
  shows "\<exists>s'. minesweeper_init ticks s = Some s' \<and> game_inv s' \<and> \<not> game_over s' \<and> states s' = replicate cells Hidden"
proof -
  have "mine_count (map (\<lambda>_. False) (mines s)) = 0" by (simp add: mine_count_def filter_map)
  then obtain ms where ms: "place_mines (ucast ticks) 0 (map (\<lambda>_. False) (mines s)) = Some ms" "length ms = cells" "mine_count ms = MINE_COUNT"
    using place_mines_returns [of "map (\<lambda>_. False) (mines s)" 0] assms(1) by auto
  have st: "map (\<lambda>_. Hidden) (states s) = replicate cells Hidden" using assms(2) by (simp add: map_replicate_const)
  have "0 < MINE_ROWS" "0 < MINE_COLS" by (simp_all add: board_size)
  then show ?thesis
    using ms assms(3) compute_adjacent_nth [OF assms(3)] safe_cell [OF ms(2,3)]
    by (auto simp: minesweeper_init_def st game_inv_def board_ok_def)
qed


lemma cursor_on_board: "game_inv s \<Longrightarrow> on_board (cursor_row s, cursor_col s)"
  by (simp add: game_inv_def on_board_def)

lemma board_ok_states: "board_ok s \<Longrightarrow> length st = cells \<Longrightarrow> board_ok (s\<lparr>states := st\<rparr>)"
  by (simp add: board_ok_def)

lemma check_win_inv:
  assumes "board_ok s" "mine_count (mines s) = MINE_COUNT" "cursor_row s < MINE_ROWS" "cursor_col s < MINE_COLS" "\<not> game_over s" "\<not> won s"
    "\<forall>i < cells. mines s ! i \<longrightarrow> states s ! i \<noteq> Revealed"
  shows "game_inv (minesweeper_check_win s)"
proof (cases "\<forall>i \<in> set [0..<cells]. mines s ! i \<or> states s ! i = Revealed")
  case True
  then have "minesweeper_check_win s = s\<lparr>won := True, game_over := True\<rparr>" by (simp add: minesweeper_check_win_def)
  then show ?thesis using assms True by (auto simp: game_inv_def board_ok_def)
next
  case False
  then have "minesweeper_check_win s = s" unfolding minesweeper_check_win_def by (simp only: if_False)
  then show ?thesis using assms False by (auto simp: game_inv_def)
qed

lemma reveal_cursor_inv:
  assumes "game_inv s" "\<not> game_over s"
  shows "game_inv (reveal_cursor s)"
proof (cases "states s ! idx (cursor_row s, cursor_col s) = Hidden")
  case False
  then show ?thesis using assms(1) by (simp add: reveal_cursor_def idx_def)
next
  case True
  let ?r = "cursor_row s" and ?c = "cursor_col s"
  let ?s = "minesweeper_reveal ?r ?c s"
  note I = assms(1) [unfolded game_inv_def]
  have ok: "board_ok s" and h: "hidden s (?r, ?c)" and w: "\<not> won s"
    using I True assms(2) cursor_on_board [OF assms(1)] by (auto simp: hidden_def split: if_splits)
  have rc: "reveal_cursor s = (if \<not> game_over ?s then minesweeper_check_win ?s else ?s)"
    using True by (simp add: reveal_cursor_def idx_def Let_def)
  note F = minesweeper_flood [OF ok h]
  show ?thesis
  proof (cases "mines s ! idx (?r, ?c)")
    case mine: True
    have "length ((states s)[idx (?r, ?c) := Revealed]) = cells" using ok by (simp add: board_ok_def)
    then have "length (states ?s) = cells" "\<forall>i < cells. mines s ! i \<longrightarrow> states ?s ! i = Revealed"
      using reveal_mines_nth(1) [of "mines s" "(states s)[idx (?r, ?c) := Revealed]"]
        reveal_mines_nth(2) [of "(states s)[idx (?r, ?c) := Revealed]" _ "mines s"] unfolding reveal_mine [OF ok h mine] by auto
    then show ?thesis using I w ok unfolding rc reveal_mine [OF ok h mine] by (auto simp: game_inv_def board_ok_def)
  next
    case safe: False
    have e: "?s = s\<lparr>states := states ?s\<rparr>" "length (states ?s) = cells" using F(1,2) safe by auto
    have nm: "mines s ! i \<longrightarrow> states ?s ! i \<noteq> Revealed" if "i < cells" for i
    proof -
      obtain y where y: "on_board y" "idx y = i" using idx_surj [OF \<open>i < cells\<close>] by blast
      have "mines s ! i \<longrightarrow> states s ! i \<noteq> Revealed" using I assms(2) w \<open>i < cells\<close> by auto
      then show ?thesis using F(3) [OF safe y(1)] y(2) by auto
    qed
    have "game_inv (minesweeper_check_win ?s)"
      by (subst e(1), rule check_win_inv) (use I assms(2) w nm e(2) ok in \<open>auto intro: board_ok_states\<close>)
    moreover have "\<not> game_over ?s" by (subst e(1)) (simp add: assms(2))
    ultimately show ?thesis unfolding rc by simp
  qed
qed


lemma toggle_flag_inv:
  assumes "game_inv s" "\<not> game_over s"
  shows "game_inv (toggle_flag s)"
proof -
  let ?i = "cursor_row s * MINE_COLS + cursor_col s"
  have "game_inv (s\<lparr>states := (states s)[?i := v]\<rparr>)" if "states s ! ?i \<noteq> Revealed" "v \<noteq> Revealed" for v
  proof -
    have "(states s)[?i := v] ! j = Revealed \<longleftrightarrow> states s ! j = Revealed" if "j < cells" for j
      using \<open>states s ! ?i \<noteq> Revealed\<close> \<open>v \<noteq> Revealed\<close> that assms(1) by (cases "?i = j") (simp_all add: game_inv_def board_ok_def)
    moreover have "\<not> won s" using assms by (auto simp: game_inv_def)
    ultimately show ?thesis using assms by (auto simp: game_inv_def board_ok_def)
  qed
  then show ?thesis using assms(1) by (simp add: toggle_flag_def Let_def split: CellState.split)
qed

lemma cursor_inv: "game_inv s \<Longrightarrow> r < MINE_ROWS \<Longrightarrow> c < MINE_COLS \<Longrightarrow> game_inv (s\<lparr>cursor_row := r, cursor_col := c\<rparr>)"
  by (simp add: game_inv_def board_ok_def)

lemma cursor_row_inv: "game_inv s \<Longrightarrow> r < MINE_ROWS \<Longrightarrow> game_inv (s\<lparr>cursor_row := r\<rparr>)"
  by (simp add: game_inv_def board_ok_def)

lemma cursor_col_inv: "game_inv s \<Longrightarrow> c < MINE_COLS \<Longrightarrow> game_inv (s\<lparr>cursor_col := c\<rparr>)"
  by (simp add: game_inv_def board_ok_def)

text \<open>
  C33: every game of minesweeper is a game by the rules. Starting a game from any timer value returns (the
  generator has full period, so the draws reach a free cell) with twenty mines, every number right,
  and every cell hidden; and each key and each click returns with the invariant kept: while the
  game runs no mine is shown and some safe cell is not; after a loss every mine is shown; the game is
  won exactly with all the safe cells, and no mine, shown. The cursor stays on the board.
\<close>

theorem minesweeper_game:
  "(\<exists>s. minesweeper_init ticks minesweeper_new = Some s \<and> game_inv s \<and> \<not> game_over s \<and> states s = replicate cells Hidden) \<and>
   (game_inv s \<longrightarrow> (\<exists>s' res. minesweeper_input ticks e s = Some (s', res) \<and> game_inv s') \<and> game_inv (fst (minesweeper_click x y s)))"
proof (intro conjI impI)
  show "\<exists>s. minesweeper_init ticks minesweeper_new = Some s \<and> game_inv s \<and> \<not> game_over s \<and> states s = replicate cells Hidden"
    by (rule minesweeper_init_inv) (simp_all add: minesweeper_new_def)
next
  assume I: "game_inv s"
  show "\<exists>s' res. minesweeper_input ticks e s = Some (s', res) \<and> game_inv s'"
  proof (cases "game_over s")
    case True
    have "length (mines s) = cells" "length (states s) = cells" "length (adjacent s) = cells" using I by (simp_all add: game_inv_def board_ok_def)
    then obtain s' where "minesweeper_init ticks s = Some s'" "game_inv s'" using minesweeper_init_inv by blast
    then show ?thesis using True I by (simp add: minesweeper_input_def)
  next
    case False
    have b: "cursor_row s < MINE_ROWS" "cursor_col s < MINE_COLS" using I by (simp_all add: game_inv_def)
    show ?thesis
      unfolding minesweeper_input_def using False I b reveal_cursor_inv [OF I False] toggle_flag_inv [OF I False]
      by (auto intro!: cursor_row_inv cursor_col_inv)
  qed
next
  assume I: "game_inv s"
  show "game_inv (fst (minesweeper_click x y s))"
    using I by (auto simp: minesweeper_click_def Let_def intro!: reveal_cursor_inv cursor_inv)
qed

theorem minesweeper_game_witness:
  "\<exists>s s' res. minesweeper_init 7 minesweeper_new = Some s \<and>
     minesweeper_input 9 \<lparr>ascii = 0x20, key = Key_Space, pressed = True\<rparr> s = Some (s', res) \<and> game_inv s'"
proof -
  obtain s where s: "minesweeper_init 7 minesweeper_new = Some s" "game_inv s" using minesweeper_game [of 7] by blast
  obtain s' res where "minesweeper_input 9 \<lparr>ascii = 0x20, key = Key_Space, pressed = True\<rparr> s = Some (s', res)" "game_inv s'"
    using minesweeper_game s(2) by blast
  then show ?thesis using s(1) by blast
qed

end
