(* ===== verification/Snake.thy ===== *)
theory Snake
  imports Desktop_Types Lcg
begin

text \<open>
  The snake game, \<^verbatim>\<open>kernel/src/desktop/apps/snake.rs\<close>. Coordinates are \<^verbatim>\<open>usize\<close> as in the code, so that a step up from
  row 0 wraps to the largest value and is caught by the bounds check. \<^verbatim>\<open>body[0]\<close> of an empty body
  panics; the step and the handlers return nothing in that case.
\<close>

definition SNAKE_COLS :: u64 where "SNAKE_COLS = 20"
definition SNAKE_ROWS :: u64 where "SNAKE_ROWS = 18"

lemmas snake_board = SNAKE_COLS_def SNAKE_ROWS_def

datatype Direction = DirUp | DirDown | DirLeft | DirRight

type_synonym cell = "u64 \<times> u64"

record SnakeState =
  body :: "cell list"
  dir :: Direction
  food :: cell
  snake_over :: bool
  score :: u32
  seed :: u32

definition snake_new :: SnakeState where
  "snake_new = \<lparr>body = [], dir = DirRight, food = (0, 0), snake_over = False, score = 0, seed = 0\<rparr>"

fun place_food_loop :: "nat \<Rightarrow> SnakeState \<Rightarrow> SnakeState" where
  "place_food_loop 0 s = s"
| "place_food_loop (Suc n) s =
     (let s = s\<lparr>seed := lcg_next (seed s)\<rparr>; r = of_nat (lcg_pick (unat SNAKE_ROWS) (seed s));
          s = s\<lparr>seed := lcg_next (seed s)\<rparr>; c = of_nat (lcg_pick (unat SNAKE_COLS) (seed s))
      in if (r, c) \<notin> set (body s) then s\<lparr>food := (r, c)\<rparr> else place_food_loop n s)"

definition snake_place_food :: "SnakeState \<Rightarrow> SnakeState" where
  "snake_place_food s = place_food_loop (unat (SNAKE_COLS * SNAKE_ROWS)) s"

definition snake_init :: "u64 \<Rightarrow> SnakeState \<Rightarrow> SnakeState" where
  "snake_init ticks s =
     (let mid_r = SNAKE_ROWS div 2; mid_c = SNAKE_COLS div 2
      in snake_place_food (s\<lparr>body := [(mid_r, mid_c), (mid_r, mid_c - 1), (mid_r, mid_c - 2)], dir := DirRight,
           snake_over := False, score := 0, seed := ucast ticks\<rparr>))"

fun ahead :: "Direction \<Rightarrow> cell \<Rightarrow> cell" where
  "ahead DirUp (r, c) = (r - 1, c)"
| "ahead DirDown (r, c) = (r + 1, c)"
| "ahead DirLeft (r, c) = (r, c - 1)"
| "ahead DirRight (r, c) = (r, c + 1)"

definition snake_step :: "SnakeState \<Rightarrow> SnakeState option" where
  "snake_step s =
     (if snake_over s then Some s
      else case body s of
        [] \<Rightarrow> None
      | h # t \<Rightarrow>
          let (nr, nc) = ahead (dir s) h in
          if nr \<ge> SNAKE_ROWS \<or> nc \<ge> SNAKE_COLS then Some (s\<lparr>snake_over := True\<rparr>)
          else if (nr, nc) \<in> set (body s) then Some (s\<lparr>snake_over := True\<rparr>)
          else let s = s\<lparr>body := (nr, nc) # body s\<rparr> in
               if (nr, nc) = food s then Some (snake_place_food (s\<lparr>score := score s + 10\<rparr>))
               else Some (s\<lparr>body := butlast (body s)\<rparr>))"

definition turn :: "Direction \<Rightarrow> Direction \<Rightarrow> SnakeState \<Rightarrow> SnakeState" where
  "turn forbidden d s = (if dir s \<noteq> forbidden then s\<lparr>dir := d\<rparr> else s)"

definition snake_input :: "u64 \<Rightarrow> KeyEvent \<Rightarrow> SnakeState \<Rightarrow> (SnakeState \<times> InputResult) option" where
  "snake_input ticks e s =
     (let stepped = (\<lambda>s. case snake_step s of None \<Rightarrow> None | Some s \<Rightarrow> Some (s, Redraw)) in
      if snake_over s
      then if ascii e = 0x72 \<or> ascii e = 0x52 then Some (snake_init ticks s, Redraw) else Some (s, Continue)
      else if key e = Key_Up then stepped (turn DirDown DirUp s)
      else if key e = Key_Down then stepped (turn DirUp DirDown s)
      else if key e = Key_Left then stepped (turn DirRight DirLeft s)
      else if key e = Key_Right then stepped (turn DirLeft DirRight s)
      else if key e = Key_Space then stepped s
      else Some (s, Continue))"


subsection \<open>The snake stays a snake\<close>

definition on_field :: "cell \<Rightarrow> bool" where
  "on_field = (\<lambda>(r, c). r < SNAKE_ROWS \<and> c < SNAKE_COLS)"

fun behind :: "Direction \<Rightarrow> cell \<Rightarrow> cell" where
  "behind DirUp x = ahead DirDown x"
| "behind DirDown x = ahead DirUp x"
| "behind DirLeft x = ahead DirRight x"
| "behind DirRight x = ahead DirLeft x"

text \<open>Each segment is next to the one before it.\<close>

definition beside :: "cell \<Rightarrow> cell \<Rightarrow> bool" where
  "beside x y \<longleftrightarrow> (\<exists>d. y = ahead d x)"

fun linked :: "cell list \<Rightarrow> bool" where
  "linked (x # y # r) \<longleftrightarrow> beside x y \<and> linked (y # r)"
| "linked r \<longleftrightarrow> True"

definition snake_inv :: "SnakeState \<Rightarrow> bool" where
  "snake_inv s \<longleftrightarrow> 3 \<le> length (body s) \<and> distinct (body s) \<and> list_all on_field (body s) \<and> linked (body s) \<and> on_field (food s) \<and>
     (\<not> snake_over s \<longrightarrow> body s ! 1 = behind (dir s) (body s ! 0)) \<and> unat (score s) = 10 * (length (body s) - 3)"

lemma place_food_frame:
  "body (snake_place_food s) = body s \<and> dir (snake_place_food s) = dir s \<and> snake_over (snake_place_food s) = snake_over s \<and>
   score (snake_place_food s) = score s \<and> (on_field (food s) \<longrightarrow> on_field (food (snake_place_food s)))"
proof -
  have p: "lcg_pick 18 x < 18" "lcg_pick 20 x < 20" for x by (simp_all add: lcg_pick_def)
  have "(of_nat (lcg_pick 18 x) :: u64) < 18" "(of_nat (lcg_pick 20 x) :: u64) < 20" for x
    using p [of x] by (simp_all add: word_less_nat_alt unat_of_nat_small)
  then have "body (place_food_loop n s) = body s \<and> dir (place_food_loop n s) = dir s \<and> snake_over (place_food_loop n s) = snake_over s \<and>
     score (place_food_loop n s) = score s \<and> (on_field (food s) \<longrightarrow> on_field (food (place_food_loop n s)))" for n
    by (induction n arbitrary: s) (simp_all add: Let_def on_field_def snake_board)
  then show ?thesis by (simp add: snake_place_food_def)
qed

lemma field_card: "list_all on_field xs \<Longrightarrow> distinct xs \<Longrightarrow> length xs \<le> 360"
proof -
  assume a: "list_all on_field xs" "distinct xs"
  let ?f = "\<lambda>x. (unat (fst x), unat (snd x))"
  have "?f ` set xs \<subseteq> {..<18} \<times> {..<20}"
    using a(1) by (auto simp: list_all_iff on_field_def snake_board word_less_nat_alt)
  then have "card (?f ` set xs) \<le> card ({..<18::nat} \<times> {..<20::nat})" by (intro card_mono) auto
  moreover have "card (?f ` set xs) = length xs"
    using a(2) by (simp add: card_image inj_on_def prod_eq_iff distinct_card word_unat_eq_iff)
  ultimately show ?thesis by simp
qed

lemma linked_butlast: "linked xs \<Longrightarrow> linked (butlast xs)"
proof (induction xs rule: linked.induct)
  case (1 x y r)
  then show ?case by (cases r) auto
qed auto

lemma snake_init_inv: "snake_inv (snake_init ticks s) \<and> \<not> snake_over (snake_init ticks s)" if "on_field (food s)"
  using that place_food_frame [of "s\<lparr>body := [(9, 10), (9, 9), (9, 8)], dir := DirRight, snake_over := False, score := 0, seed := ucast ticks\<rparr>"]
  by (auto simp: snake_init_def Let_def snake_inv_def snake_board on_field_def beside_def intro: exI [of _ DirLeft])

lemma behind_ahead: "behind d (ahead d x) = x"
  by (cases x; cases d) simp_all

lemma beside_ahead: "beside (ahead d x) x"
  unfolding beside_def by (rule exI [of _ "case d of DirUp \<Rightarrow> DirDown | DirDown \<Rightarrow> DirUp | DirLeft \<Rightarrow> DirRight | DirRight \<Rightarrow> DirLeft"])
    (cases x; cases d; simp)



text \<open>The direction a key leads to: an arrow key against the current direction is ignored.\<close>

definition heading :: "KeyCode \<Rightarrow> Direction \<Rightarrow> Direction" where
  "heading k d =
     (if k = Key_Up \<and> d \<noteq> DirDown then DirUp else if k = Key_Down \<and> d \<noteq> DirUp then DirDown
      else if k = Key_Left \<and> d \<noteq> DirRight then DirLeft else if k = Key_Right \<and> d \<noteq> DirLeft then DirRight else d)"

definition steers :: "KeyCode \<Rightarrow> bool" where
  "steers k \<longleftrightarrow> k = Key_Up \<or> k = Key_Down \<or> k = Key_Left \<or> k = Key_Right \<or> k = Key_Space"

lemma step_same_dir: "dir s = d \<Longrightarrow> snake_step (s\<lparr>dir := d\<rparr>) = snake_step s"
  by (metis SnakeState.surjective SnakeState.update_convs(2))

lemma input_steps:
  assumes "\<not> snake_over s" "steers (key e)"
  shows "snake_input ticks e s = map_option (\<lambda>s. (s, Redraw)) (snake_step (s\<lparr>dir := heading (key e) (dir s)\<rparr>))"
  using assms by (auto simp: snake_input_def Let_def heading_def turn_def steers_def map_option_case step_same_dir)

lemma heading_not_back: "ahead (heading k d) x \<noteq> behind d x"
proof -
  have "r + 1 \<noteq> r - (1 :: u64)" for r
  proof
    assume "r + 1 = r - 1"
    then have "(r + 1) - (r - 1) = 0" by simp
    then show False by simp
  qed
  moreover from this have "r - 1 \<noteq> r + (1 :: u64)" for r by metis
  ultimately show ?thesis by (cases x; cases d) (auto simp: heading_def)
qed

text \<open>
  C34: the snake moves by the rules. While the game runs, an arrow key or the space key moves the snake
  one cell in its new direction, where a key against the current direction counts as none, so that
  the snake never turns into its own neck. The game ends, the body unchanged, exactly when that cell is off
  the field or is a segment behind the neck; otherwise the cell becomes the head and the last segment
  goes, unless the cell was the food. The handler returns, and the body stays a chain of distinct
  neighbouring cells on the field whose length is told by the score.
\<close>

theorem snake_moves:
  assumes "snake_inv s" "\<not> snake_over s" "steers (key e)"
  defines "d \<equiv> heading (key e) (dir s)"
  defines "n \<equiv> ahead d (body s ! 0)"
  shows "\<exists>s'. snake_input ticks e s = Some (s', Redraw) \<and> snake_inv s' \<and> dir s' = d \<and>
    (if \<not> on_field n \<or> n \<in> set (drop 2 (body s)) then snake_over s' \<and> body s' = body s
     else \<not> snake_over s' \<and> body s' = n # (if n = food s then body s else butlast (body s)))"
proof -
  note I = assms(1) [unfolded snake_inv_def]
  obtain h k x r where b: "body s = h # k # x # r" using I by (auto simp: numeral_3_eq_3 Suc_le_length_iff)
  have nk: "n \<noteq> k" using I assms(2) b heading_not_back [of "key e" "dir s" h] by (simp add: n_def d_def)
  have nh: "n \<noteq> h"
  proof -
    have "ahead d h \<noteq> h" by (cases h; cases d) simp_all
    then show ?thesis by (simp add: n_def b)
  qed
  have mem: "n \<in> set (body s) \<longleftrightarrow> n \<in> set (drop 2 (body s))" using nk nh by (simp add: b)
  obtain nr nc where nn: "n = (nr, nc)" by fastforce
  have off: "nr \<ge> SNAKE_ROWS \<or> nc \<ge> SNAKE_COLS \<longleftrightarrow> \<not> on_field n" by (auto simp: nn on_field_def not_less)
  have st: "snake_step (s\<lparr>dir := d\<rparr>) =
      (if \<not> on_field n \<or> n \<in> set (body s) then Some (s\<lparr>dir := d, snake_over := True\<rparr>)
       else if n = food s then Some (snake_place_food (s\<lparr>dir := d, body := n # body s, score := score s + 10\<rparr>))
       else Some (s\<lparr>dir := d, body := butlast (n # body s)\<rparr>))"
    using assms(2) off nn by (simp add: snake_step_def b n_def Let_def)
  have inp: "snake_input ticks e s = map_option (\<lambda>s. (s, Redraw)) (snake_step (s\<lparr>dir := d\<rparr>))"
    using input_steps [OF assms(2,3)] by (simp add: d_def)
  show ?thesis
  proof (cases "\<not> on_field n \<or> n \<in> set (body s)")
    case True
    then show ?thesis using I mem inp st by (auto simp: snake_inv_def)
  next
    case False
    have l: "linked (n # body s)" using I beside_ahead [of d h] by (simp add: b n_def)
    have bk: "h = behind d n" using behind_ahead [of d h] by (simp add: n_def b)
    show ?thesis
    proof (cases "n = food s")
      case True
      let ?s = "s\<lparr>dir := d, body := n # body s, score := score s + 10\<rparr>"
      have "length (body s) \<le> 360" using I field_card by blast
      then have "unat (score s + 10) = unat (score s) + 10" using I by (subst unat_add_no_overflow) auto
      then have "snake_inv (snake_place_food ?s)"
        using place_food_frame [of ?s] I False l bk by (auto simp: snake_inv_def b)
      then show ?thesis using place_food_frame [of ?s] inp st False True mem assms(2) by simp
    next
      case food: False
      define xs where "xs = n # body s"
      have xs: "distinct xs" "\<forall>x \<in> set xs. on_field x" "linked xs" "4 \<le> length xs" "xs ! 1 = behind d (xs ! 0)" "length xs = Suc (length (body s))"
        using I False l bk by (auto simp: xs_def b list_all_iff)
      have "butlast xs ! 0 = xs ! 0" "butlast xs ! 1 = xs ! 1" using xs(4) by (simp_all add: nth_butlast)
      then have "snake_inv (s\<lparr>dir := d, body := butlast xs\<rparr>)"
        using I xs linked_butlast [OF xs(3)]
        by (simp add: snake_inv_def distinct_butlast list_all_iff) (meson in_set_butlastD)
      then have "snake_inv (s\<lparr>dir := d, body := butlast (n # body s)\<rparr>)" by (simp only: xs_def)
      then show ?thesis using inp st False food mem assms(2) by (simp add: b)
    qed
  qed
qed


theorem snake_moves_witness:
  "\<exists>s'. snake_input 5 \<lparr>ascii = 0, key = Key_Left, pressed = True\<rparr> (snake_init 3 snake_new) = Some (s', Redraw) \<and> snake_inv s' \<and> dir s' = DirRight"
proof -
  have "on_field (food snake_new)" by (simp add: snake_new_def on_field_def snake_board)
  note I = snake_init_inv [OF this, of 3]
  have d: "dir (snake_init 3 snake_new) = DirRight" using place_food_frame by (simp add: snake_init_def Let_def)
  have "steers (key \<lparr>ascii = 0, key = Key_Left, pressed = True\<rparr>)" by (simp add: steers_def)
  then show ?thesis using snake_moves [of "snake_init 3 snake_new" "\<lparr>ascii = 0, key = Key_Left, pressed = True\<rparr>" 5] I
    by (auto simp: d heading_def)
qed

end
