(* ===== verification/Notepad.thy ===== *)
theory Notepad
  imports Desktop_Types Vfs Rust_Vec
begin

unbundle bit_operations_syntax

text \<open>
  The notepad, \<^verbatim>\<open>kernel/src/desktop/apps/notepad.rs\<close>: a text as a list of lines with a cursor, edited by key events
  and saved to and opened from the virtual file system. Strings are indexed by bytes as in the
  code; an operation that panics, or a file operation that does not return, gives no result.
\<close>

record NotepadState =
  np_lines :: "str list"
  np_row :: nat
  np_col :: nat
  np_scroll :: nat
  np_filename :: str
  np_modified :: bool
  np_status :: str

definition notepad_new :: NotepadState where
  "notepad_new = \<lparr>np_lines = [[]], np_row = 0, np_col = 0, np_scroll = 0, np_filename = lit ''/notepad.txt'', np_modified = False,
     np_status = lit ''Ctrl+S:Save  Ctrl+O:Open  Ctrl+N:New''\<rparr>"

definition line_len :: "NotepadState \<Rightarrow> nat" where
  "line_len s = (case nth_opt (np_lines s) (np_row s) of None \<Rightarrow> 0 | Some l \<Rightarrow> length l)"


subsection \<open>Cursor keys\<close>

definition np_left :: "NotepadState \<Rightarrow> NotepadState option" where
  "np_left s =
     (if np_col s > 0 then Some (s\<lparr>np_col := np_col s - 1\<rparr>)
      else if np_row s > 0
      then map_option (\<lambda>l. s\<lparr>np_row := np_row s - 1, np_col := length l\<rparr>) (nth_opt (np_lines s) (np_row s - 1))
      else Some s)"

definition np_right :: "NotepadState \<Rightarrow> NotepadState" where
  "np_right s =
     (if np_col s < line_len s then s\<lparr>np_col := np_col s + 1\<rparr>
      else if np_row s + 1 < length (np_lines s) then s\<lparr>np_row := np_row s + 1, np_col := 0\<rparr>
      else s)"

definition np_up :: "NotepadState \<Rightarrow> NotepadState option" where
  "np_up s =
     (if np_row s > 0
      then map_option (\<lambda>l. s\<lparr>np_row := np_row s - 1, np_col := min (np_col s) (length l),
             np_scroll := (if np_row s - 1 < np_scroll s then np_row s - 1 else np_scroll s)\<rparr>) (nth_opt (np_lines s) (np_row s - 1))
      else Some s)"

definition np_down :: "NotepadState \<Rightarrow> NotepadState" where
  "np_down s =
     (if np_row s + 1 < length (np_lines s)
      then s\<lparr>np_row := np_row s + 1, np_col := min (np_col s) (length (np_lines s ! (np_row s + 1)))\<rparr>
      else s)"

definition np_delete :: "NotepadState \<Rightarrow> NotepadState option" where
  "np_delete s =
     (case nth_opt (np_lines s) (np_row s) of
        None \<Rightarrow> Some s
      | Some l \<Rightarrow>
          if np_col s < length l
          then map_option (\<lambda>l'. s\<lparr>np_lines := (np_lines s)[np_row s := l'], np_modified := True\<rparr>) (str_remove (np_col s) l)
          else if np_row s + 1 < length (np_lines s)
          then Some (s\<lparr>np_lines := (vec_remove (np_row s + 1) (np_lines s))[np_row s := l @ np_lines s ! (np_row s + 1)], np_modified := True\<rparr>)
          else Some s)"


subsection \<open>Files\<close>

text \<open>The loop that joins the lines for saving.\<close>

fun flat :: "str list \<Rightarrow> str" where
  "flat [] = []"
| "flat [l] = l"
| "flat (l # m # r) = l @ [0x0A] @ flat (m # r)"

definition np_save :: "NotepadState \<Rightarrow> Storage \<Rightarrow> (NotepadState \<times> Storage) option" where
  "np_save s st =
     (if is_ready st
      then let content = flat (np_lines s) in
        case vfs_write_file (np_filename s) content st of
          None \<Rightarrow> None
        | Some (st', True) \<Rightarrow>
            Some (s\<lparr>np_modified := False, np_status := lit ''Saved '' @ dec (length content) @ lit '' bytes to '' @ np_filename s\<rparr>, st')
        | Some (st', False) \<Rightarrow> Some (s\<lparr>np_status := lit ''ERROR: Failed to save!''\<rparr>, st')
      else Some (s\<lparr>np_status := lit ''No filesystem mounted!''\<rparr>, st))"

definition np_open :: "NotepadState \<Rightarrow> Storage \<Rightarrow> NotepadState" where
  "np_open s st =
     (if is_ready st
      then (case vfs_read_file (np_filename s) st of
              Some data \<Rightarrow>
                let t = from_utf8_or [] data;
                    ls = (if t = [] then [[]] else str_lines t);
                    ls = (if ls = [] then [[]] else ls)
                in s\<lparr>np_lines := ls, np_row := 0, np_col := 0, np_scroll := 0, np_modified := False, np_status := lit ''Opened '' @ np_filename s\<rparr>
            | None \<Rightarrow> s\<lparr>np_status := lit ''File not found: '' @ np_filename s\<rparr>)
      else s\<lparr>np_status := lit ''No filesystem mounted!''\<rparr>)"

definition np_fresh :: "NotepadState \<Rightarrow> NotepadState" where
  "np_fresh s = s\<lparr>np_lines := [[]], np_row := 0, np_col := 0, np_scroll := 0, np_modified := False, np_filename := lit ''/notepad.txt'',
     np_status := lit ''New file''\<rparr>"


subsection \<open>Editing\<close>

definition np_enter :: "NotepadState \<Rightarrow> NotepadState option" where
  "np_enter s =
     (let cur = (case nth_opt (np_lines s) (np_row s) of None \<Rightarrow> [] | Some l \<Rightarrow> l) in
      case str_split_at (min (np_col s) (length cur)) cur of
        None \<Rightarrow> None
      | Some (l, r) \<Rightarrow>
          if np_row s < length (np_lines s)
          then Some (s\<lparr>np_lines := vec_insert (np_row s + 1) r ((np_lines s)[np_row s := l]), np_row := np_row s + 1, np_col := 0, np_modified := True\<rparr>)
          else None)"

definition np_backspace :: "NotepadState \<Rightarrow> NotepadState option" where
  "np_backspace s =
     map_option (\<lambda>s. s\<lparr>np_modified := True\<rparr>)
     (if np_col s > 0
      then (case nth_opt (np_lines s) (np_row s) of
              None \<Rightarrow> Some s
            | Some l \<Rightarrow>
                let s = s\<lparr>np_col := np_col s - 1\<rparr> in
                if np_col s < length l then map_option (\<lambda>l'. s\<lparr>np_lines := (np_lines s)[np_row s := l']\<rparr>) (str_remove (np_col s) l)
                else Some s)
      else if np_row s > 0
      then (if np_row s < length (np_lines s)
            then let cur = np_lines s ! np_row s; prev = np_lines s ! (np_row s - 1)
                 in Some (s\<lparr>np_lines := (vec_remove (np_row s) (np_lines s))[np_row s - 1 := prev @ cur], np_row := np_row s - 1, np_col := length prev\<rparr>)
            else None)
      else Some s)"

definition np_type :: "u8 \<Rightarrow> NotepadState \<Rightarrow> NotepadState option" where
  "np_type c s =
     (let ls = (if length (np_lines s) \<le> np_row s then np_lines s @ [[]] else np_lines s) in
      case nth_opt ls (np_row s) of
        None \<Rightarrow> None
      | Some l \<Rightarrow>
          map_option (\<lambda>l'. s\<lparr>np_lines := ls[np_row s := l'], np_col := np_col s + 1, np_modified := True\<rparr>)
            (if np_col s \<ge> length l then Some (l @ [c]) else str_insert (np_col s) c l))"

definition notepad_input :: "KeyEvent \<Rightarrow> NotepadState \<times> Storage \<Rightarrow> ((NotepadState \<times> Storage) \<times> InputResult) option" where
  "notepad_input e = (\<lambda>(s, st).
     let edit = map_option (\<lambda>s'. ((s', st), Redraw)) in
     if key e = Key_Left then edit (np_left s)
     else if key e = Key_Right then edit (Some (np_right s))
     else if key e = Key_Up then edit (np_up s)
     else if key e = Key_Down then edit (Some (np_down s))
     else if key e = Key_Home then edit (Some (s\<lparr>np_col := 0\<rparr>))
     else if key e = Key_End then edit (Some (s\<lparr>np_col := line_len s\<rparr>))
     else if key e = Key_Delete then edit (np_delete s)
     else if ascii e = 0x13 then map_option (\<lambda>r. (r, Redraw)) (np_save s st)
     else if ascii e = 0x0F then edit (Some (np_open s st))
     else if ascii e = 0x0E then edit (Some (np_fresh s))
     else if ascii e = 0x0A then edit (np_enter s)
     else if ascii e = 0x08 then edit (np_backspace s)
     else if ascii e \<ge> 0x20 \<and> ascii e < 0x7F then edit (np_type (ascii e) s)
     else Some ((s, st), Continue))"



subsection \<open>The editor is an editor of a flat text\<close>

definition before :: "str list \<Rightarrow> str" where
  "before A = concat (map (\<lambda>l. l @ [0x0A]) A)"

definition after :: "str list \<Rightarrow> str" where
  "after B = concat (map (\<lambda>l. 0x0A # l) B)"

lemma before_simps [simp]: "before [] = []" "before (A @ B) = before A @ before B" "before (l # A) = l @ [0x0A] @ before A"
  by (simp_all add: before_def)

lemma after_simps [simp]: "after [] = []" "after (l # B) = 0x0A # l @ after B"
  by (simp_all add: after_def)

lemma flat_Cons: "flat (l # B) = l @ after B"
  by (induction "l # B" arbitrary: l B rule: flat.induct) auto

lemma flat_zip: "flat (A @ l # B) = before A @ l @ after B"
proof (induction A)
  case (Cons a A)
  then show ?case by (cases A) (simp_all add: flat_Cons)
qed (simp add: flat_Cons)

text \<open>The text with the position of the cursor in it.\<close>

definition np_abs :: "NotepadState \<Rightarrow> str \<times> nat" where
  "np_abs s = (flat (np_lines s), length (before (take (np_row s) (np_lines s))) + np_col s)"

definition plain_line :: "str \<Rightarrow> bool" where
  "plain_line l \<longleftrightarrow> is_ascii l \<and> 0x0A \<notin> set l"

definition np_inv :: "NotepadState \<Rightarrow> bool" where
  "np_inv s \<longleftrightarrow> np_row s < length (np_lines s) \<and> np_col s \<le> length (np_lines s ! np_row s) \<and> list_all plain_line (np_lines s)"

text \<open>The cursor splits the lines into those above, its own, and those below.\<close>

definition np_at :: "NotepadState \<Rightarrow> str list \<Rightarrow> str \<Rightarrow> str list \<Rightarrow> nat \<Rightarrow> bool" where
  "np_at s A l B c \<longleftrightarrow> np_lines s = A @ l # B \<and> np_row s = length A \<and> np_col s = c \<and> c \<le> length l \<and> list_all plain_line (A @ l # B)"

lemma np_inv_at: "np_inv s \<Longrightarrow> \<exists>A l B. np_at s A l B (np_col s)"
  using id_take_nth_drop [of "np_row s" "np_lines s"]
  by (intro exI [of _ "take (np_row s) (np_lines s)"] exI [of _ "np_lines s ! np_row s"] exI [of _ "drop (Suc (np_row s)) (np_lines s)"])
    (simp add: np_inv_def np_at_def)

lemma np_at_inv: "np_at s A l B c \<Longrightarrow> np_inv s"
  by (simp add: np_at_def np_inv_def)

lemma np_at_abs: "np_at s A l B c \<Longrightarrow> np_abs s = (before A @ l @ after B, length (before A) + c)"
  by (simp add: np_at_def np_abs_def flat_zip)

text \<open>Each operation in terms of the split.\<close>

lemma np_left_at:
  assumes "np_at s A l B c"
  shows "\<exists>s'. np_left s = Some s' \<and> np_inv s' \<and> np_abs s' = (fst (np_abs s), snd (np_abs s) - 1)"
proof (cases c)
  case 0
  show ?thesis
  proof (cases A rule: rev_cases)
    case Nil
    then show ?thesis using assms 0 np_at_inv [OF assms] np_at_abs [OF assms] by (simp add: np_left_def np_at_def)
  next
    case (snoc A' m)
    let ?s = "s\<lparr>np_row := length A', np_col := length m\<rparr>"
    have "np_left s = Some ?s" using assms 0 snoc by (simp add: np_left_def np_at_def nth_opt_def)
    moreover have n: "np_at ?s A' m (l # B) (length m)" using assms snoc by (simp add: np_at_def)
    ultimately show ?thesis using np_at_inv [OF n] np_at_abs [OF n] np_at_abs [OF assms] 0 snoc by simp
  qed
next
  case (Suc k)
  have n: "np_at (s\<lparr>np_col := k\<rparr>) A l B k" using assms Suc by (simp add: np_at_def)
  have "np_left s = Some (s\<lparr>np_col := k\<rparr>)" using assms Suc by (simp add: np_left_def np_at_def)
  then show ?thesis using np_at_inv [OF n] np_at_abs [OF n] np_at_abs [OF assms] Suc by simp
qed

lemma line_len_at: "np_at s A l B c \<Longrightarrow> line_len s = length l"
  by (simp add: line_len_def np_at_def nth_opt_def)

lemma np_right_at:
  assumes "np_at s A l B c"
  shows "np_inv (np_right s) \<and> np_abs (np_right s) = (fst (np_abs s), min (length (fst (np_abs s))) (snd (np_abs s) + 1))"
proof (cases "c < length l")
  case True
  have n: "np_at (s\<lparr>np_col := c + 1\<rparr>) A l B (c + 1)" using assms True by (simp add: np_at_def)
  have "np_right s = s\<lparr>np_col := c + 1\<rparr>" using assms True line_len_at [OF assms] by (simp add: np_right_def np_at_def)
  then show ?thesis using np_at_inv [OF n] np_at_abs [OF n] np_at_abs [OF assms] True by simp
next
  case False
  then have c: "c = length l" using assms by (simp add: np_at_def)
  show ?thesis
  proof (cases B)
    case Nil
    then have "np_right s = s" using assms c line_len_at [OF assms] by (simp add: np_right_def np_at_def)
    then show ?thesis using np_at_inv [OF assms] np_at_abs [OF assms] Nil c by simp
  next
    case (Cons m B')
    let ?s = "s\<lparr>np_row := np_row s + 1, np_col := 0\<rparr>"
    have n: "np_at ?s (A @ [l]) m B' 0" using assms Cons by (simp add: np_at_def)
    have "np_right s = ?s" using assms c Cons line_len_at [OF assms] by (simp add: np_right_def np_at_def)
    then show ?thesis using np_at_inv [OF n] np_at_abs [OF n] np_at_abs [OF assms] Cons c by simp
  qed
qed

lemma plain_take_drop: "plain_line l \<Longrightarrow> plain_line (take i l @ drop j l)"
  using set_take_subset [of i l] set_drop_subset [of j l] by (auto simp: plain_line_def is_ascii_def list_all_iff)

lemma np_delete_at:
  assumes "np_at s A l B c"
  shows "\<exists>s'. np_delete s = Some s' \<and> np_inv s' \<and>
    np_abs s' = (take (snd (np_abs s)) (fst (np_abs s)) @ drop (snd (np_abs s) + 1) (fst (np_abs s)), snd (np_abs s))"
proof (cases "c < length l")
  case True
  have a: "is_ascii l" using assms by (simp add: np_at_def plain_line_def)
  let ?l = "take c l @ drop (Suc c) l"
  let ?s = "s\<lparr>np_lines := A @ ?l # B, np_modified := True\<rparr>"
  have n: "np_at ?s A ?l B c" using assms True by (simp add: np_at_def plain_take_drop)
  have "np_delete s = Some ?s" using assms True ascii_ops(1) [OF a True] by (simp add: np_delete_def np_at_def nth_opt_def)
  then show ?thesis using np_at_inv [OF n] np_at_abs [OF n] np_at_abs [OF assms] True by simp
next
  case False
  then have c: "c = length l" using assms by (simp add: np_at_def)
  show ?thesis
  proof (cases B)
    case Nil
    then have "np_delete s = Some s" using assms c by (simp add: np_delete_def np_at_def nth_opt_def)
    then show ?thesis using np_at_inv [OF assms] np_at_abs [OF assms] Nil c by simp
  next
    case (Cons m B')
    let ?s = "s\<lparr>np_lines := A @ (l @ m) # B', np_modified := True\<rparr>"
    have n: "np_at ?s A (l @ m) B' c" using assms Cons c by (simp add: np_at_def plain_line_def is_ascii_def)
    have "np_delete s = Some ?s"
      using assms c Cons by (simp add: np_delete_def np_at_def nth_opt_def vec_remove_def nth_append list_update_append)
    then show ?thesis using np_at_inv [OF n] np_at_abs [OF n] np_at_abs [OF assms] Cons c by simp
  qed
qed


lemma np_enter_at:
  assumes "np_at s A l B c"
  shows "\<exists>s'. np_enter s = Some s' \<and> np_inv s' \<and>
    np_abs s' = (take (snd (np_abs s)) (fst (np_abs s)) @ [0x0A] @ drop (snd (np_abs s)) (fst (np_abs s)), snd (np_abs s) + 1)"
proof -
  have a: "is_ascii l" and c: "c \<le> length l" using assms by (simp_all add: np_at_def plain_line_def)
  let ?s = "s\<lparr>np_lines := A @ take c l # drop c l # B, np_row := np_row s + 1, np_col := 0, np_modified := True\<rparr>"
  have pl: "plain_line (take c l)" "plain_line (drop c l)"
    using assms plain_take_drop [of l c "length l"] plain_take_drop [of l 0 c] by (simp_all add: np_at_def)
  have n: "np_at ?s (A @ [take c l]) (drop c l) B 0" using assms pl by (simp add: np_at_def)
  have "np_enter s = Some ?s"
    using assms ascii_ops(3) [OF a c] by (simp add: np_enter_def np_at_def nth_opt_def vec_insert_def list_update_append min_absorb1)
  then show ?thesis using np_at_inv [OF n] np_at_abs [OF n] np_at_abs [OF assms] c by simp
qed

lemma np_backspace_at:
  assumes "np_at s A l B c"
  shows "\<exists>s'. np_backspace s = Some s' \<and> np_inv s' \<and>
    np_abs s' = (if snd (np_abs s) = 0 then np_abs s
      else (take (snd (np_abs s) - 1) (fst (np_abs s)) @ drop (snd (np_abs s)) (fst (np_abs s)), snd (np_abs s) - 1))"
proof (cases c)
  case (Suc k)
  have a: "is_ascii l" and k: "k < length l" using assms Suc by (simp_all add: np_at_def plain_line_def)
  let ?l = "take k l @ drop (Suc k) l"
  let ?s = "s\<lparr>np_lines := A @ ?l # B, np_col := k, np_modified := True\<rparr>"
  have n: "np_at ?s A ?l B k" using assms k by (simp add: np_at_def plain_take_drop)
  have "np_backspace s = Some ?s"
    using assms Suc k ascii_ops(1) [OF a k] by (simp add: np_backspace_def np_at_def nth_opt_def Let_def)
  then show ?thesis using np_at_inv [OF n] np_at_abs [OF n] np_at_abs [OF assms] Suc k by simp
next
  case 0
  show ?thesis
  proof (cases A rule: rev_cases)
    case Nil
    let ?s = "s\<lparr>np_modified := True\<rparr>"
    have n: "np_at ?s A l B c" using assms by (simp add: np_at_def)
    have "np_backspace s = Some ?s" using assms 0 Nil by (simp add: np_backspace_def np_at_def)
    then show ?thesis using np_at_inv [OF n] np_at_abs [OF n] np_at_abs [OF assms] 0 Nil by simp
  next
    case (snoc A' m)
    let ?s = "s\<lparr>np_lines := A' @ (m @ l) # B, np_row := length A', np_col := length m, np_modified := True\<rparr>"
    have n: "np_at ?s A' (m @ l) B (length m)" using assms snoc by (simp add: np_at_def plain_line_def is_ascii_def)
    have "np_backspace s = Some ?s"
      using assms 0 snoc by (simp add: np_backspace_def np_at_def Let_def vec_remove_def nth_append list_update_append)
    then show ?thesis using np_at_inv [OF n] np_at_abs [OF n] np_at_abs [OF assms] 0 snoc by simp
  qed
qed

lemma np_type_at:
  assumes "np_at s A l B c" "b < 0x80" "b \<noteq> 0x0A"
  shows "\<exists>s'. np_type b s = Some s' \<and> np_inv s' \<and>
    np_abs s' = (take (snd (np_abs s)) (fst (np_abs s)) @ [b] @ drop (snd (np_abs s)) (fst (np_abs s)), snd (np_abs s) + 1)"
proof -
  have a: "is_ascii l" and c: "c \<le> length l" using assms(1) by (simp_all add: np_at_def plain_line_def)
  let ?l = "take c l @ [b] @ drop c l"
  let ?s = "s\<lparr>np_lines := A @ ?l # B, np_col := c + 1, np_modified := True\<rparr>"
  have "plain_line (take c l)" "plain_line (drop c l)"
    using assms plain_take_drop [of l c "length l"] plain_take_drop [of l 0 c] by (simp_all add: np_at_def)
  then have "plain_line ?l" using assms(2,3) by (simp add: plain_line_def is_ascii_def)
  then have n: "np_at ?s A ?l B (c + 1)" using assms c by (simp add: np_at_def)
  have "np_type b s = Some ?s"
    using assms(1) ascii_ops(2) [OF a c] c by (auto simp: np_type_def np_at_def nth_opt_def Let_def)
  then show ?thesis using np_at_inv [OF n] np_at_abs [OF n] np_at_abs [OF assms(1)] c by simp
qed

text \<open>The editing commands on a text and a position in it.\<close>

definition edit_text :: "KeyEvent \<Rightarrow> str \<times> nat \<Rightarrow> str \<times> nat" where
  "edit_text e = (\<lambda>(t, p).
     if key e = Key_Left then (t, p - 1)
     else if key e = Key_Right then (t, min (length t) (p + 1))
     else if key e = Key_Delete then (take p t @ drop (p + 1) t, p)
     else if ascii e = 0x08 then (if p = 0 then (t, p) else (take (p - 1) t @ drop p t, p - 1))
     else (take p t @ [ascii e] @ drop p t, p + 1))"

definition edits :: "KeyEvent \<Rightarrow> bool" where
  "edits e \<longleftrightarrow> key e = Key_Left \<or> key e = Key_Right \<or> key e = Key_Delete \<or>
     key e \<noteq> Key_Up \<and> key e \<noteq> Key_Down \<and> key e \<noteq> Key_Home \<and> key e \<noteq> Key_End \<and>
     (ascii e = 0x08 \<or> ascii e = 0x0A \<or> 0x20 \<le> ascii e \<and> ascii e < 0x7F)"

text \<open>
  C35: the notepad refines an editor of a flat text with a cursor position. The lines joined by newlines are
  the text; then the left and right keys move the position by one, the delete and the backspace key remove the
  character after and before it, joining lines where that is a newline, and the enter key and every
  printable character insert one, whatever the lines and the cursor are. The handler returns without a
  panic and keeps the cursor inside the text; the disk is not touched.
\<close>

theorem notepad_refines_text:
  assumes "np_inv s" "edits e"
  shows "\<exists>s'. notepad_input e (s, st) = Some ((s', st), Redraw) \<and> np_inv s' \<and> np_abs s' = edit_text e (np_abs s)"
proof -
  obtain A l B where at: "np_at s A l B (np_col s)" using np_inv_at [OF assms(1)] by blast
  have t: "(ascii e :: u8) < 0x80 \<and> ascii e \<noteq> 0x0A" if "0x20 \<le> ascii e" "ascii e < 0x7F"
    using that by (auto simp: word_less_nat_alt word_le_nat_alt)
  note O = np_left_at [OF at] np_right_at [OF at] np_delete_at [OF at] np_enter_at [OF at] np_backspace_at [OF at] np_type_at [OF at, of "ascii e"]
  consider "key e = Key_Left" | "key e = Key_Right" | "key e = Key_Delete"
    | "key e \<notin> {Key_Left, Key_Right, Key_Delete, Key_Up, Key_Down, Key_Home, Key_End}" "ascii e = 0x08"
    | "key e \<notin> {Key_Left, Key_Right, Key_Delete, Key_Up, Key_Down, Key_Home, Key_End}" "ascii e = 0x0A"
    | "key e \<notin> {Key_Left, Key_Right, Key_Delete, Key_Up, Key_Down, Key_Home, Key_End}" "0x20 \<le> ascii e" "ascii e < 0x7F"
    using assms(2) unfolding edits_def by auto
  then show ?thesis
  proof cases
    case 1
    then show ?thesis using O(1) by (auto simp: notepad_input_def Let_def edit_text_def split_beta)
  next
    case 2
    then show ?thesis using O(2) by (auto simp: notepad_input_def Let_def edit_text_def split_beta)
  next
    case 3
    then show ?thesis using O(3) by (auto simp: notepad_input_def Let_def edit_text_def split_beta)
  next
    case 4
    then show ?thesis using O(5) by (auto simp: notepad_input_def Let_def edit_text_def split_beta prod_eq_iff)
  next
    case 5
    then show ?thesis using O(4) by (auto simp: notepad_input_def Let_def edit_text_def split_beta)
  next
    case 6
    have "ascii e \<noteq> 0x13" "ascii e \<noteq> 0x0F" "ascii e \<noteq> 0x0E" "ascii e \<noteq> 0x08" "ascii e \<noteq> 0x0A" using 6(2) by auto
    then show ?thesis using 6 t O(6) by (auto simp: notepad_input_def Let_def edit_text_def split_beta)
  qed
qed

theorem notepad_refines_text_witness:
  "\<exists>s'. notepad_input \<lparr>ascii = 0x08, key = Key_Backspace, pressed = True\<rparr> (notepad_new\<lparr>np_lines := [[0x61, 0x62], [0x63]], np_row := 1\<rparr>, small_storage (small_fs 3))
     = Some ((s', small_storage (small_fs 3)), Redraw) \<and> np_abs s' = ([0x61, 0x62, 0x63], 2)"
proof -
  let ?s = "notepad_new\<lparr>np_lines := [[0x61, 0x62], [0x63]], np_row := 1\<rparr>" and ?e = "\<lparr>ascii = 0x08, key = Key_Backspace, pressed = True\<rparr>"
  have "np_inv ?s" by (simp add: np_inv_def notepad_new_def plain_line_def is_ascii_def)
  moreover have "edits ?e" by (simp add: edits_def)
  moreover have "edit_text ?e (np_abs ?s) = ([0x61, 0x62, 0x63], 2)" by (simp add: edit_text_def np_abs_def notepad_new_def)
  ultimately show ?thesis using notepad_refines_text [of ?s ?e "small_storage (small_fs 3)"] by auto
qed


text \<open>Every other key leaves the text alone and the cursor in it.\<close>

lemma notepad_moves:
  assumes "np_inv s" "key e = Key_Up \<or> key e = Key_Down \<or> key e = Key_Home \<or> key e = Key_End"
  shows "\<exists>s'. notepad_input e (s, st) = Some ((s', st), Redraw) \<and> np_inv s' \<and> np_lines s' = np_lines s"
proof -
  have I: "np_row s < length (np_lines s)" "np_col s \<le> length (np_lines s ! np_row s)" using assms(1) by (simp_all add: np_inv_def)
  from assms(2) show ?thesis
  proof (elim disjE)
    assume "key e = Key_Up"
    then show ?thesis using I assms(1) by (cases "np_row s") (simp_all add: notepad_input_def np_up_def np_inv_def nth_opt_def)
  next
    assume "key e = Key_Down"
    then show ?thesis using I assms(1) by (simp add: notepad_input_def np_down_def np_inv_def)
  next
    assume "key e = Key_Home"
    then show ?thesis using I assms(1) by (simp add: notepad_input_def np_inv_def)
  next
    assume "key e = Key_End"
    then show ?thesis using I assms(1) by (simp add: notepad_input_def np_inv_def line_len_def nth_opt_def)
  qed
qed


subsection \<open>Saving and opening\<close>

lemma str_lines_flat:
  assumes "list_all (\<lambda>l. 0x0A \<notin> set l \<and> 0x0D \<notin> set l) ls"
  shows "str_lines (flat ls) = (if ls \<noteq> [] \<and> last ls = [] then butlast ls else ls)"
  unfolding str_lines_def using assms
proof (induction ls rule: flat.induct)
  case (2 l)
  then show ?case using lines_from_plain [of l "[]" "[]"] by simp
next
  case (3 l m r)
  have "0x0D \<notin> set l" using 3(2) by simp
  then have "strip_cr l = l" using last_in_set [of l] by (metis strip_cr_def)
  moreover have "lines_from [] (flat (l # m # r)) = lines_from l (0x0A # flat (m # r))"
    using 3(2) lines_from_plain [of l "[]" "0x0A # flat (m # r)"] by simp
  ultimately show ?case using 3(1) 3(2) by simp
qed simp

lemma ascii_utf8: "is_ascii s \<Longrightarrow> utf8_ok s"
  by (induction s) (simp_all add: is_ascii_def)

lemma flat_ascii: "list_all plain_line ls \<Longrightarrow> is_ascii (flat ls)"
  by (induction ls rule: flat.induct) (simp_all add: plain_line_def is_ascii_def)

lemma flat_Nil: "flat ls = [] \<longleftrightarrow> ls = [] \<or> ls = [[]]"
  by (cases ls rule: flat.cases) auto

text \<open>What opening a saved text gives: the lines, without a last empty line where there are others.\<close>

definition reopened :: "str list \<Rightarrow> str list" where
  "reopened ls = (if 1 < length ls \<and> last ls = [] then butlast ls else ls)"

lemma np_open_saved:
  assumes "np_inv s" "list_all (\<lambda>l. 0x0D \<notin> set l) (np_lines s)" "is_ready st" "vfs_read_file (np_filename s) st = Some (flat (np_lines s))"
  shows "np_lines (np_open s st) = reopened (np_lines s) \<and> np_inv (np_open s st)"
proof -
  let ?ls = "np_lines s"
  have ne: "?ls \<noteq> []" and pl: "list_all plain_line ?ls" using assms(1) by (auto simp: np_inv_def)
  have t: "from_utf8_or [] (flat ?ls) = flat ?ls" by (simp add: from_utf8_or_def ascii_utf8 flat_ascii pl)
  have "list_all (\<lambda>l. 0x0A \<notin> set l \<and> 0x0D \<notin> set l) ?ls" using pl assms(2) by (auto simp: list_all_iff plain_line_def)
  note L = str_lines_flat [OF this]
  have r: "(let ls = (if flat ?ls = [] then [[]] else str_lines (flat ?ls)) in if ls = [] then [[]] else ls) = reopened ?ls"
  proof (cases "?ls = [[]]")
    case False
    then have f: "flat ?ls \<noteq> []" using ne flat_Nil by blast
    have one: "length ?ls = 1 \<Longrightarrow> last ?ls \<noteq> []" using False ne by (cases ?ls) auto
    show ?thesis
    proof (cases "last ?ls = []")
      case True
      then have len: "1 < length ?ls" using one ne by (metis One_nat_def length_greater_0_conv less_antisym not_less_eq Suc_lessI)
      then have "butlast ?ls \<noteq> []" by (metis length_butlast length_greater_0_conv zero_less_diff)
      then show ?thesis using True f ne L len by (simp add: reopened_def)
    qed (use f ne L in \<open>simp add: reopened_def Let_def\<close>)
  qed (simp add: reopened_def)
  have "np_lines (np_open s st) = reopened ?ls" using r assms(3,4) t by (simp add: np_open_def Let_def)
  moreover have "reopened ?ls \<noteq> []" unfolding r [symmetric] by (simp add: Let_def)
  moreover have "list_all plain_line (reopened ?ls)" using pl by (auto simp: reopened_def list_all_iff dest: in_set_butlastD)
  moreover have "np_row (np_open s st) = 0" "np_col (np_open s st) = 0" using assms(3,4) by (simp_all add: np_open_def Let_def)
  ultimately show ?thesis by (simp add: np_inv_def)
qed

end
