(* ===== verification/Wm.thy ===== *)
theory Wm
  imports Desktop_Types Rust_Vec Rust_Str
begin

unbundle bit_operations_syntax

text \<open>
  The window manager, \<^verbatim>\<open>kernel/src/desktop/wm.rs\<close>: overlapping windows in a list whose last element is on top, with focus,
  minimising, maximising, moving and resizing by the mouse. Coordinates are 32-bit words that wrap
  around as in a release build. The applications inside the windows are given by the functions the
  window manager calls; their state and the part of the system they work on are type parameters.
\<close>

datatype AppId = SystemInfo | TaskManager | NotepadApp | Calculator | About | Terminal | FileBrowser | Paint
  | MinesweeperApp | SnakeApp | Settings | Clock

record ('a, 'w) Apps =
  app_new :: "AppId \<Rightarrow> 'w \<Rightarrow> ('a \<times> 'w) option"
  app_input :: "KeyEvent \<Rightarrow> 'a \<times> 'w \<Rightarrow> (('a \<times> 'w) \<times> InputResult) option"
  app_click :: "u32 \<Rightarrow> u32 \<Rightarrow> 'a \<times> 'w \<Rightarrow> (('a \<times> 'w) \<times> InputResult) option"

definition TASKBAR_HEIGHT :: u32 where "TASKBAR_HEIGHT = 28"
definition TITLEBAR_HEIGHT :: u32 where "TITLEBAR_HEIGHT = 20"
definition BORDER_WIDTH :: u32 where "BORDER_WIDTH = 3"
definition MAX_WINDOWS :: nat where "MAX_WINDOWS = 8"
definition RESIZE_BORDER :: u32 where "RESIZE_BORDER = 5"
definition MIN_WIN_WIDTH :: u32 where "MIN_WIN_WIDTH = 160"
definition MIN_WIN_HEIGHT :: u32 where "MIN_WIN_HEIGHT = 100"

lemmas wm_consts = TASKBAR_HEIGHT_def TITLEBAR_HEIGHT_def BORDER_WIDTH_def MAX_WINDOWS_def RESIZE_BORDER_def
  MIN_WIN_WIDTH_def MIN_WIN_HEIGHT_def

datatype ResizeEdge = EdgeLeft | EdgeRight | EdgeTop | EdgeBottom | TopLeft | TopRight | BottomLeft | BottomRight

datatype DragState = NoDrag
  | Moving (drag_win: u32) (offset_x: u32) (offset_y: u32)
  | Resizing (drag_win: u32) (edge: ResizeEdge) (start_mx: u32) (start_my: u32)
      (orig_x: u32) (orig_y: u32) (orig_w: u32) (orig_h: u32)

datatype WindowButton = Minimize | Maximize | Close

record 'a Window =
  w_id :: u32
  w_title :: str
  w_x :: u32
  w_y :: u32
  w_width :: u32
  w_height :: u32
  w_focused :: bool
  w_app_id :: AppId
  w_app :: 'a
  w_close :: bool
  w_minimized :: bool
  w_maximized :: bool
  w_rx :: u32
  w_ry :: u32
  w_rw :: u32
  w_rh :: u32


subsection \<open>One window\<close>

fun app_window :: "AppId \<Rightarrow> str \<times> u32 \<times> u32" where
  "app_window SystemInfo = (lit ''System Information'', 500, 400)"
| "app_window TaskManager = (lit ''Task Manager'', 560, 420)"
| "app_window NotepadApp = (lit ''Notepad'', 520, 380)"
| "app_window Calculator = (lit ''Calculator'', 260, 320)"
| "app_window About = (lit ''About CantayaOS'', 400, 280)"
| "app_window Terminal = (lit ''Terminal'', 600, 400)"
| "app_window FileBrowser = (lit ''File Browser'', 480, 400)"
| "app_window Paint = (lit ''Paint'', 500, 400)"
| "app_window MinesweeperApp = (lit ''Minesweeper'', 320, 380)"
| "app_window SnakeApp = (lit ''Snake'', 340, 380)"
| "app_window Settings = (lit ''Settings'', 400, 360)"
| "app_window Clock = (lit ''Clock'', 280, 240)"

definition window_new :: "('a, 'w) Apps \<Rightarrow> u32 \<Rightarrow> AppId \<Rightarrow> u32 \<Rightarrow> u32 \<Rightarrow> 'w \<Rightarrow> ('a Window \<times> 'w) option" where
  "window_new apps i app screen_w screen_h w =
     (let (title, width, height) = app_window app;
          cascade = (i mod 5) * 30;
          x = sat_sub screen_w width div 2 + cascade;
          y = sat_sub (sat_sub screen_h TASKBAR_HEIGHT) height div 2 + cascade
      in map_option (\<lambda>(st, w'). (\<lparr>w_id = i, w_title = title, w_x = x, w_y = y, w_width = width, w_height = height, w_focused = True,
           w_app_id = app, w_app = st, w_close = False, w_minimized = False, w_maximized = False,
           w_rx = x, w_ry = y, w_rw = width, w_rh = height\<rparr>, w')) (app_new apps app w))"

definition client_x :: "'a Window \<Rightarrow> u32" where
  "client_x win = w_x win + BORDER_WIDTH"

definition client_y :: "'a Window \<Rightarrow> u32" where
  "client_y win = w_y win + BORDER_WIDTH + TITLEBAR_HEIGHT"

definition client_width :: "'a Window \<Rightarrow> u32" where
  "client_width win = sat_sub (w_width win) (BORDER_WIDTH * 2)"

definition client_height :: "'a Window \<Rightarrow> u32" where
  "client_height win = sat_sub (w_height win) (BORDER_WIDTH * 2 + TITLEBAR_HEIGHT)"

definition maximize :: "u32 \<Rightarrow> u32 \<Rightarrow> 'a Window \<Rightarrow> 'a Window" where
  "maximize screen_w screen_h win =
     (if \<not> w_maximized win
      then win\<lparr>w_rx := w_x win, w_ry := w_y win, w_rw := w_width win, w_rh := w_height win,
             w_x := 0, w_y := 0, w_width := screen_w, w_height := screen_h - TASKBAR_HEIGHT, w_maximized := True\<rparr>
      else win)"

definition restore_from_maximize :: "'a Window \<Rightarrow> 'a Window" where
  "restore_from_maximize win =
     (if w_maximized win
      then win\<lparr>w_x := w_rx win, w_y := w_ry win, w_width := w_rw win, w_height := w_rh win, w_maximized := False\<rparr>
      else win)"

definition toggle_maximize :: "u32 \<Rightarrow> u32 \<Rightarrow> 'a Window \<Rightarrow> 'a Window" where
  "toggle_maximize screen_w screen_h win =
     (if w_maximized win then restore_from_maximize win else maximize screen_w screen_h win)"

definition hit_test_buttons :: "'a Window \<Rightarrow> u32 \<Rightarrow> u32 \<Rightarrow> WindowButton option" where
  "hit_test_buttons win mx my =
     (let btn_y = w_y win + BORDER_WIDTH + 2; btn_h = 14; btn_w = 16;
          close_x = w_x win + w_width win - BORDER_WIDTH - btn_w - 2;
          max_x = close_x - btn_w - 2;
          min_x = max_x - btn_w - 2
      in if my < btn_y \<or> my \<ge> btn_y + btn_h then None
         else if mx \<ge> close_x \<and> mx < close_x + btn_w then Some Close
         else if mx \<ge> max_x \<and> mx < max_x + btn_w then Some Maximize
         else if mx \<ge> min_x \<and> mx < min_x + btn_w then Some Minimize
         else None)"

definition hit_test_titlebar :: "'a Window \<Rightarrow> u32 \<Rightarrow> u32 \<Rightarrow> bool" where
  "hit_test_titlebar win mx my =
     (let tb_x = w_x win + BORDER_WIDTH; tb_y = w_y win + BORDER_WIDTH; tb_w = w_width win - BORDER_WIDTH * 2
      in mx \<ge> tb_x \<and> mx < tb_x + tb_w \<and> my \<ge> tb_y \<and> my < tb_y + TITLEBAR_HEIGHT \<and> hit_test_buttons win mx my = None)"

definition hit_test_resize_edge :: "'a Window \<Rightarrow> u32 \<Rightarrow> u32 \<Rightarrow> ResizeEdge option" where
  "hit_test_resize_edge win mx my =
     (if w_maximized win then None
      else let x = w_x win; y = w_y win; w = w_width win; h = w_height win; r = RESIZE_BORDER in
        if mx + r < x \<or> mx > x + w + r \<or> my + r < y \<or> my > y + h + r then None
        else let on_left = mx < x + r; on_right = mx \<ge> x + w - r; on_top = my < y + r; on_bottom = my \<ge> y + h - r in
          if on_left \<and> on_top then Some TopLeft
          else if on_left \<and> on_bottom then Some BottomLeft
          else if on_right \<and> on_top then Some TopRight
          else if on_right \<and> on_bottom then Some BottomRight
          else if on_left then Some EdgeLeft
          else if on_right then Some EdgeRight
          else if on_top then Some EdgeTop
          else if on_bottom then Some EdgeBottom
          else None)"

definition hit_test_client :: "'a Window \<Rightarrow> u32 \<Rightarrow> u32 \<Rightarrow> bool" where
  "hit_test_client win mx my =
     (let cx = client_x win; cy = client_y win
      in mx \<ge> cx \<and> mx < cx + client_width win \<and> my \<ge> cy \<and> my < cy + client_height win)"


subsection \<open>The manager\<close>

record 'a WindowManager =
  windows :: "'a Window list"
  next_id :: u32
  wm_screen_w :: u32
  wm_screen_h :: u32
  drag :: DragState

definition wm_new :: "u32 \<Rightarrow> u32 \<Rightarrow> 'a WindowManager" where
  "wm_new sw sh = \<lparr>windows = [], next_id = 1, wm_screen_w = sw, wm_screen_h = sh, drag = NoDrag\<rparr>"

definition upd_window :: "nat \<Rightarrow> ('a Window \<Rightarrow> 'a Window) \<Rightarrow> 'a WindowManager \<Rightarrow> 'a WindowManager" where
  "upd_window i f wm = wm\<lparr>windows := (windows wm)[i := f (windows wm ! i)]\<rparr>"

definition set_focus :: "nat \<Rightarrow> 'a WindowManager \<Rightarrow> 'a WindowManager" where
  "set_focus idx wm = wm\<lparr>windows := map2 (\<lambda>i w. w\<lparr>w_focused := (i = idx)\<rparr>) [0..<length (windows wm)] (windows wm)\<rparr>"

definition focus_last :: "'a WindowManager \<Rightarrow> 'a WindowManager" where
  "focus_last wm = (let len = length (windows wm) in if len > 0 then set_focus (len - 1) wm else wm)"

definition focused_index :: "'a WindowManager \<Rightarrow> nat option" where
  "focused_index wm = position w_focused (windows wm)"

definition has_focused_window :: "'a WindowManager \<Rightarrow> bool" where
  "has_focused_window wm = list_ex w_focused (windows wm)"

definition open_app :: "('a, 'w) Apps \<Rightarrow> AppId \<Rightarrow> 'a WindowManager \<times> 'w \<Rightarrow> ('a WindowManager \<times> 'w) option" where
  "open_app apps app = (\<lambda>(wm, w).
     if length (windows wm) \<ge> MAX_WINDOWS then Some (wm, w)
     else map_option (\<lambda>(win, w'). (focus_last (wm\<lparr>next_id := next_id wm + 1, windows := windows wm @ [win]\<rparr>), w'))
            (window_new apps (next_id wm) app (wm_screen_w wm) (wm_screen_h wm) w))"

text \<open>The part that closing the focused window and closing a window by its number share.\<close>

definition remove_at :: "nat \<Rightarrow> 'a WindowManager \<Rightarrow> 'a WindowManager" where
  "remove_at idx wm =
     (let wm = wm\<lparr>windows := vec_remove idx (windows wm)\<rparr>; n = length (windows wm)
      in if n \<noteq> 0 then set_focus (if idx < n then idx else n - 1) wm else wm)"

definition close_focused :: "'a WindowManager \<Rightarrow> 'a WindowManager" where
  "close_focused wm = (case focused_index wm of None \<Rightarrow> wm | Some idx \<Rightarrow> remove_at idx wm)"

definition close_window :: "u32 \<Rightarrow> 'a WindowManager \<Rightarrow> 'a WindowManager" where
  "close_window i wm =
     (let wm = (case position (\<lambda>w. w_id w = i) (windows wm) of None \<Rightarrow> wm | Some idx \<Rightarrow> remove_at idx wm)
      in if drag wm \<noteq> NoDrag \<and> drag_win (drag wm) = i then wm\<lparr>drag := NoDrag\<rparr> else wm)"

definition bring_to_front :: "u32 \<Rightarrow> 'a WindowManager \<Rightarrow> 'a WindowManager" where
  "bring_to_front i wm =
     (case position (\<lambda>w. w_id w = i) (windows wm) of
        None \<Rightarrow> wm
      | Some idx \<Rightarrow>
          if idx = length (windows wm) - 1 then set_focus idx wm
          else focus_last (wm\<lparr>windows := vec_remove idx (windows wm) @ [windows wm ! idx]\<rparr>))"

definition cycle_focus :: "'a WindowManager \<Rightarrow> 'a WindowManager" where
  "cycle_focus wm =
     (let len = length (windows wm) in
      if len \<le> 1 then wm
      else case focused_index wm of None \<Rightarrow> wm | Some idx \<Rightarrow> set_focus ((idx + 1) mod len) wm)"

definition handle_input :: "('a, 'w) Apps \<Rightarrow> KeyEvent \<Rightarrow> 'a WindowManager \<times> 'w \<Rightarrow> (('a WindowManager \<times> 'w) \<times> InputResult) option" where
  "handle_input apps e = (\<lambda>(wm, w).
     if key e = Key_F4 \<or> key e = Key_Escape then Some ((close_focused wm, w), Redraw)
     else if key e = Key_F2 then Some ((cycle_focus wm, w), Redraw)
     else case focused_index wm of
       None \<Rightarrow> Some ((wm, w), Continue)
     | Some idx \<Rightarrow>
         map_option (\<lambda>((st, w'), result).
             let wm = upd_window idx (\<lambda>win. win\<lparr>w_app := st\<rparr>) wm; win = windows wm ! idx
             in if w_close win then ((close_window (w_id win) wm, w'), Redraw) else ((wm, w'), result))
           (app_input apps e (w_app (windows wm ! idx), w)))"

definition window_titles :: "'a WindowManager \<Rightarrow> (u32 \<times> str \<times> bool \<times> bool) list" where
  "window_titles wm = map (\<lambda>w. (w_id w, w_title w, w_focused w, w_minimized w)) (windows wm)"

definition focus_window_by_id :: "u32 \<Rightarrow> 'a WindowManager \<Rightarrow> 'a WindowManager" where
  "focus_window_by_id i wm =
     (case position (\<lambda>w. w_id w = i) (windows wm) of
        None \<Rightarrow> wm
      | Some idx \<Rightarrow> set_focus idx (upd_window idx (\<lambda>win. win\<lparr>w_minimized := False\<rparr>) wm))"

text \<open>The loop that gives the focus to the topmost visible window.\<close>

definition focus_visible :: "'a WindowManager \<Rightarrow> 'a WindowManager" where
  "focus_visible wm =
     (case rposition (\<lambda>w. \<not> w_minimized w) (windows wm) of
        None \<Rightarrow> wm
      | Some idx \<Rightarrow> upd_window idx (\<lambda>w. w\<lparr>w_focused := True\<rparr>) wm)"

definition toggle_minimize_by_id :: "u32 \<Rightarrow> 'a WindowManager \<Rightarrow> 'a WindowManager" where
  "toggle_minimize_by_id i wm =
     (case position (\<lambda>w. w_id w = i) (windows wm) of
        None \<Rightarrow> wm
      | Some idx \<Rightarrow>
          if w_minimized (windows wm ! idx) then set_focus idx (upd_window idx (\<lambda>win. win\<lparr>w_minimized := False\<rparr>) wm)
          else if w_focused (windows wm ! idx)
          then focus_visible (upd_window idx (\<lambda>win. win\<lparr>w_minimized := True, w_focused := False\<rparr>) wm)
          else set_focus idx wm)"

definition unfocus_all :: "'a WindowManager \<Rightarrow> 'a WindowManager" where
  "unfocus_all wm = wm\<lparr>windows := map (\<lambda>w. w\<lparr>w_focused := False\<rparr>) (windows wm)\<rparr>"


subsection \<open>The mouse\<close>

definition under_mouse :: "u32 \<Rightarrow> u32 \<Rightarrow> 'a Window \<Rightarrow> bool" where
  "under_mouse mx my win \<longleftrightarrow> \<not> w_minimized win \<and>
     mx \<ge> sat_sub (w_x win) RESIZE_BORDER \<and> mx < w_x win + w_width win + RESIZE_BORDER \<and>
     my \<ge> sat_sub (w_y win) RESIZE_BORDER \<and> my < w_y win + w_height win + RESIZE_BORDER"

definition press_button :: "WindowButton \<Rightarrow> u32 \<Rightarrow> nat \<Rightarrow> 'a WindowManager \<Rightarrow> 'a WindowManager" where
  "press_button b i idx wm =
     (case b of
        Close \<Rightarrow> close_window i wm
      | Maximize \<Rightarrow> upd_window idx (toggle_maximize (wm_screen_w wm) (wm_screen_h wm)) wm
      | Minimize \<Rightarrow> focus_visible (upd_window idx (\<lambda>win. win\<lparr>w_minimized := True, w_focused := False\<rparr>) wm))"

definition start_move :: "u32 \<Rightarrow> u32 \<Rightarrow> u32 \<Rightarrow> nat \<Rightarrow> 'a WindowManager \<Rightarrow> 'a WindowManager" where
  "start_move mx my i idx wm =
     (let wm = (if w_maximized (windows wm ! idx)
                then upd_window idx (\<lambda>win. let win = restore_from_maximize win in win\<lparr>w_x := sat_sub mx (w_width win div 2)\<rparr>) wm
                else wm);
          win = windows wm ! idx
      in wm\<lparr>drag := Moving i (mx - w_x win) (my - w_y win)\<rparr>)"

definition handle_click :: "('a, 'w) Apps \<Rightarrow> u32 \<Rightarrow> u32 \<Rightarrow> 'a WindowManager \<times> 'w \<Rightarrow> (('a WindowManager \<times> 'w) \<times> InputResult option) option" where
  "handle_click apps mx my = (\<lambda>(wm, w).
     case rposition (under_mouse mx my) (windows wm) of
       None \<Rightarrow> Some ((wm, w), None)
     | Some hit \<Rightarrow>
         let i = w_id (windows wm ! hit);
             wm = bring_to_front i wm;
             idx = length (windows wm) - 1;
             win = windows wm ! idx
         in case hit_test_buttons win mx my of
              Some b \<Rightarrow> Some ((press_button b i idx wm, w), Some Redraw)
            | None \<Rightarrow>
              (case hit_test_resize_edge win mx my of
                 Some e \<Rightarrow> Some ((wm\<lparr>drag := Resizing i e mx my (w_x win) (w_y win) (w_width win) (w_height win)\<rparr>, w), Some Redraw)
               | None \<Rightarrow>
                 if hit_test_titlebar win mx my then Some ((start_move mx my i idx wm, w), Some Redraw)
                 else if hit_test_client win mx my
                 then map_option (\<lambda>((st, w'), result). ((upd_window idx (\<lambda>win. win\<lparr>w_app := st\<rparr>) wm, w'), Some result))
                        (app_click apps (mx - client_x win) (my - client_y win) (w_app win, w))
                 else Some ((wm, w), Some Redraw)))"

definition move_window :: "u32 \<Rightarrow> u32 \<Rightarrow> u32 \<Rightarrow> u32 \<Rightarrow> u32 \<Rightarrow> u32 \<Rightarrow> 'a Window \<Rightarrow> 'a Window" where
  "move_window sw sh ox oy mx my win =
     win\<lparr>w_x := min (smax (mx - ox) 0) (sat_sub sw 30), w_y := min (smax (my - oy) 0) (sat_sub sh (TASKBAR_HEIGHT + 10))\<rparr>"

definition resize_window :: "DragState \<Rightarrow> u32 \<Rightarrow> u32 \<Rightarrow> 'a Window \<Rightarrow> 'a Window" where
  "resize_window d mx my win =
     (let dx = mx - start_mx d; dy = my - start_my d;
          win = (if edge d \<in> {EdgeRight, TopRight, BottomRight} then win\<lparr>w_width := smax (orig_w d + dx) MIN_WIN_WIDTH\<rparr>
                 else if edge d \<in> {EdgeLeft, TopLeft, BottomLeft}
                 then let new_w = smax (orig_w d - dx) MIN_WIN_WIDTH in win\<lparr>w_x := orig_x d + orig_w d - new_w, w_width := new_w\<rparr>
                 else win)
      in if edge d \<in> {EdgeBottom, BottomLeft, BottomRight} then win\<lparr>w_height := smax (orig_h d + dy) MIN_WIN_HEIGHT\<rparr>
         else if edge d \<in> {EdgeTop, TopLeft, TopRight}
         then let new_h = smax (orig_h d - dy) MIN_WIN_HEIGHT in win\<lparr>w_y := orig_y d + orig_h d - new_h, w_height := new_h\<rparr>
         else win)"

definition handle_mouse_move :: "u32 \<Rightarrow> u32 \<Rightarrow> 'a WindowManager \<Rightarrow> 'a WindowManager \<times> bool" where
  "handle_mouse_move mx my wm =
     (if drag wm = NoDrag then (wm, False)
      else case position (\<lambda>w. w_id w = drag_win (drag wm)) (windows wm) of
        None \<Rightarrow> (wm\<lparr>drag := NoDrag\<rparr>, False)
      | Some idx \<Rightarrow>
          (upd_window idx
            (case drag wm of
               Moving _ ox oy \<Rightarrow> move_window (wm_screen_w wm) (wm_screen_h wm) ox oy mx my
             | d \<Rightarrow> resize_window d mx my) wm, True))"

definition handle_mouse_up :: "'a WindowManager \<Rightarrow> 'a WindowManager" where
  "handle_mouse_up wm = wm\<lparr>drag := NoDrag\<rparr>"

definition is_dragging :: "'a WindowManager \<Rightarrow> bool" where
  "is_dragging wm \<longleftrightarrow> drag wm \<noteq> NoDrag"



subsection \<open>Invariant\<close>

definition one_focus :: "'a Window list \<Rightarrow> bool" where
  "one_focus ws \<longleftrightarrow> (\<forall>i < length ws. \<forall>j < length ws. w_focused (ws ! i) \<longrightarrow> w_focused (ws ! j) \<longrightarrow> i = j)"

text \<open>The numbers of the windows from the bottom to the top.\<close>

definition stack :: "'a WindowManager \<Rightarrow> u32 list" where
  "stack wm = map w_id (windows wm)"

definition wm_inv :: "'a WindowManager \<Rightarrow> bool" where
  "wm_inv wm \<longleftrightarrow> distinct (stack wm) \<and> (\<forall>i \<in> set (stack wm). i < next_id wm) \<and> length (windows wm) \<le> MAX_WINDOWS \<and> one_focus (windows wm)"

text \<open>A window apart from its focus.\<close>

definition unfocused :: "'a Window \<Rightarrow> 'a Window" where
  "unfocused w = w\<lparr>w_focused := False\<rparr>"

lemma unfocused_sel [simp]:
  "w_id (unfocused w) = w_id w" "w_minimized (unfocused w) = w_minimized w" "\<not> w_focused (unfocused w)"
  "unfocused (w\<lparr>w_focused := b\<rparr>) = unfocused w"
  by (simp_all add: unfocused_def)

named_theorems wm_simps

lemma length_set_focus [simp]: "length (windows (set_focus i wm)) = length (windows wm)"
  by (simp add: set_focus_def)

lemma set_focus_nth: "j < length (windows wm) \<Longrightarrow> windows (set_focus i wm) ! j = (windows wm ! j)\<lparr>w_focused := (j = i)\<rparr>"
  by (simp add: set_focus_def)

lemma set_focus_keeps [simp]: "map unfocused (windows (set_focus i wm)) = map unfocused (windows wm)"
  by (rule nth_equalityI) (simp_all add: set_focus_nth)

lemma set_focus_sel [simp]:
  "next_id (set_focus i wm) = next_id wm" "drag (set_focus i wm) = drag wm" "wm_screen_w (set_focus i wm) = wm_screen_w wm"
  "wm_screen_h (set_focus i wm) = wm_screen_h wm"
  by (simp_all add: set_focus_def)

lemma one_focus_set_focus [simp]: "one_focus (windows (set_focus i wm))"
  by (auto simp: one_focus_def set_focus_nth)

text \<open>What is determined by the windows apart from their focus.\<close>

lemma stack_unfocused: "stack wm = map w_id (map unfocused (windows wm))"
  by (simp add: stack_def)

lemma stack_set_focus [simp]: "stack (set_focus i wm) = stack wm"
  by (simp add: stack_unfocused del: map_map)

lemma focus_last_sel [simp]:
  "next_id (focus_last wm) = next_id wm" "stack (focus_last wm) = stack wm" "drag (focus_last wm) = drag wm"
  "length (windows (focus_last wm)) = length (windows wm)" "one_focus (windows (focus_last wm))"
  "map unfocused (windows (focus_last wm)) = map unfocused (windows wm)"
proof -
  show "one_focus (windows (focus_last wm))" by (cases "windows wm = []") (simp_all add: focus_last_def, simp add: one_focus_def)
qed (simp_all add: focus_last_def Let_def)

lemma upd_window_sel [simp]:
  "next_id (upd_window i f wm) = next_id wm" "drag (upd_window i f wm) = drag wm" "length (windows (upd_window i f wm)) = length (windows wm)"
  "wm_screen_w (upd_window i f wm) = wm_screen_w wm" "wm_screen_h (upd_window i f wm) = wm_screen_h wm"
  by (simp_all add: upd_window_def)

lemma upd_window_nth:
  "j < length (windows wm) \<Longrightarrow> windows (upd_window i f wm) ! j = (if j = i then f (windows wm ! j) else windows wm ! j)"
  by (simp add: upd_window_def)

lemma stack_upd_window [simp]: "(\<And>w. w_id (f w) = w_id w) \<Longrightarrow> stack (upd_window i f wm) = stack wm"
  unfolding stack_def by (rule nth_equalityI) (simp_all add: upd_window_nth)

lemma one_focus_upd:
  "one_focus (windows wm) \<Longrightarrow> (\<And>w. w_focused (f w) \<Longrightarrow> w_focused w) \<Longrightarrow> one_focus (windows (upd_window i f wm))"
  by (auto simp: one_focus_def upd_window_nth)

lemma wm_inv_focus: "distinct (stack wm) \<Longrightarrow> (\<forall>i \<in> set (stack wm). i < next_id wm) \<Longrightarrow> length (windows wm) \<le> MAX_WINDOWS \<Longrightarrow> wm_inv (set_focus i wm)"
  by (simp add: wm_inv_def)

lemma wm_inv_set_focus: "wm_inv wm \<Longrightarrow> wm_inv (set_focus i wm)"
  by (simp add: wm_inv_def)

lemma wm_inv_upd:
  "wm_inv wm \<Longrightarrow> (\<And>w. w_id (f w) = w_id w) \<Longrightarrow> (\<And>w. w_focused (f w) \<Longrightarrow> w_focused w) \<Longrightarrow> wm_inv (upd_window i f wm)"
  by (simp add: wm_inv_def one_focus_upd)

lemma wm_inv_drag [simp]: "wm_inv (wm\<lparr>drag := d\<rparr>) = wm_inv wm"
  by (simp add: wm_inv_def stack_def)

lemma stack_drag [simp]: "stack (wm\<lparr>drag := d\<rparr>) = stack wm"
  by (simp add: stack_def)

text \<open>Giving the focus to a visible window when the focused one has lost it.\<close>

lemma focus_visible_sel [simp]:
  "stack (focus_visible wm) = stack wm" "next_id (focus_visible wm) = next_id wm" "length (windows (focus_visible wm)) = length (windows wm)"
  "map unfocused (windows (focus_visible wm)) = map unfocused (windows wm)"
proof -
  show "map unfocused (windows (focus_visible wm)) = map unfocused (windows wm)"
    by (cases "rposition (\<lambda>w. \<not> w_minimized w) (windows wm)") (auto simp: focus_visible_def upd_window_nth intro!: nth_equalityI)
qed (simp_all add: focus_visible_def split: option.split)

lemma minimize_inv:
  assumes "wm_inv wm" "idx < length (windows wm)" "w_focused (windows wm ! idx)"
  shows "wm_inv (focus_visible (upd_window idx (\<lambda>win. win\<lparr>w_minimized := True, w_focused := False\<rparr>) wm))" (is "wm_inv (focus_visible ?m)")
proof -
  have none: "\<not> w_focused (windows ?m ! j)" if "j < length (windows wm)" for j
    using assms that by (auto simp: wm_inv_def one_focus_def upd_window_nth)
  have "one_focus (windows (focus_visible ?m))"
    unfolding focus_visible_def using none by (auto simp: one_focus_def upd_window_nth split: option.split)
  then show ?thesis using assms(1) by (simp add: wm_inv_def)
qed

lemma remove_at_inv:
  assumes "wm_inv wm" "idx < length (windows wm)"
  shows "wm_inv (remove_at idx wm) \<and> stack (remove_at idx wm) = vec_remove idx (stack wm) \<and> drag (remove_at idx wm) = drag wm \<and>
    next_id (remove_at idx wm) = next_id wm \<and> map unfocused (windows (remove_at idx wm)) = vec_remove idx (map unfocused (windows wm))"
proof -
  let ?m = "wm\<lparr>windows := vec_remove idx (windows wm)\<rparr>"
  have st: "stack ?m = vec_remove idx (stack wm)" by (simp add: stack_def vec_remove_map)
  have "distinct (stack ?m)" "\<forall>i \<in> set (stack ?m). i < next_id ?m" "length (windows ?m) \<le> MAX_WINDOWS"
    using assms set_vec_remove [of idx "stack wm"] vec_remove_distinct [of "stack wm" idx] unfolding st by (auto simp: wm_inv_def)
  note i = wm_inv_focus [OF this]
  show ?thesis
  proof (cases "vec_remove idx (windows wm) = []")
    case True
    then have "remove_at idx wm = ?m" by (simp add: remove_at_def)
    then show ?thesis using True assms(1) st vec_remove_map [of unfocused idx "windows wm"] by (simp add: wm_inv_def stack_def one_focus_def)
  next
    case False
    then obtain j where "remove_at idx wm = set_focus j ?m" by (simp add: remove_at_def Let_def)
    then show ?thesis using i st by (simp add: vec_remove_map)
  qed
qed

lemma stack_nth [simp]: "k < length (windows wm) \<Longrightarrow> stack wm ! k = w_id (windows wm ! k)"
  by (simp add: stack_def)

lemma length_stack [simp]: "length (stack wm) = length (windows wm)"
  by (simp add: stack_def)

lemma position_id:
  assumes "distinct (stack wm)" "k < length (windows wm)"
  shows "position (\<lambda>w. w_id w = w_id (windows wm ! k)) (windows wm) = Some k"
  using position_key [of w_id "windows wm" k] assms by (simp add: stack_def)

lemma remove_stack:
  assumes "distinct (stack wm)" "k < length (windows wm)"
  shows "vec_remove k (stack wm) = filter (\<lambda>j. j \<noteq> w_id (windows wm ! k)) (stack wm)"
  using vec_remove_filter [of "\<lambda>x. x" "stack wm" k] assms by simp

lemma remove_windows:
  assumes "distinct (stack wm)" "k < length (windows wm)"
  shows "vec_remove k (windows wm) = filter (\<lambda>w. w_id w \<noteq> w_id (windows wm ! k)) (windows wm)"
  using vec_remove_filter [of w_id "windows wm" k] assms by (simp add: stack_def)

subsection \<open>Clicking\<close>

lemma bring_to_front_top:
  assumes "wm_inv wm" "k < length (windows wm)"
  defines "i \<equiv> w_id (windows wm ! k)" and "m \<equiv> bring_to_front (w_id (windows wm ! k)) wm"
  shows "wm_inv m" "windows m \<noteq> []" "length (windows m) = length (windows wm)" "next_id m = next_id wm" "drag m = drag wm"
    "wm_screen_w m = wm_screen_w wm" "wm_screen_h m = wm_screen_h wm"
    "stack m = filter (\<lambda>j. j \<noteq> i) (stack wm) @ [i]"
    "map unfocused (windows m) = map unfocused (filter (\<lambda>w. w_id w \<noteq> i) (windows wm)) @ [unfocused (windows wm ! k)]"
    "windows m ! (length (windows m) - 1) = (windows wm ! k)\<lparr>w_focused := True\<rparr>"
    "\<And>j. j < length (windows m) - 1 \<Longrightarrow> \<not> w_focused (windows m ! j)"
proof -
  let ?n = "length (windows wm)"
  let ?m = "wm\<lparr>windows := vec_remove k (windows wm) @ [windows wm ! k]\<rparr>"
  have d: "distinct (stack wm)" using assms(1) by (simp add: wm_inv_def)
  have n: "length (vec_remove k (windows wm)) = ?n - 1" using assms(2) by simp
  have m: "m = set_focus (?n - 1) ?m"
  proof (cases "k = ?n - 1")
    case True
    then have "vec_remove k (windows wm) @ [windows wm ! k] = windows wm"
      using assms(2) by (simp add: vec_remove_def take_Suc_conv_app_nth [symmetric])
    moreover have "m = set_focus (?n - 1) wm"
      unfolding m_def bring_to_front_def using True position_id [OF d assms(2)] by simp
    ultimately show ?thesis by simp
  next
    case False
    then show ?thesis unfolding m_def bring_to_front_def using position_id [OF d assms(2)] assms(2) n
      by (simp add: focus_last_def)
  qed
  have st: "stack ?m = filter (\<lambda>j. j \<noteq> i) (stack wm) @ [i]"
    using remove_stack [OF d assms(2)] by (simp add: stack_def vec_remove_map i_def)
  show s: "stack m = filter (\<lambda>j. j \<noteq> i) (stack wm) @ [i]" unfolding m using st by simp
  show l: "length (windows m) = ?n" "windows m \<noteq> []" using m n assms(2) by (auto simp flip: length_greater_0_conv)
  show f: "next_id m = next_id wm" "drag m = drag wm" "wm_screen_w m = wm_screen_w wm" "wm_screen_h m = wm_screen_h wm" by (simp_all add: m)
  have "i \<in> set (stack wm)" using assms(2) by (auto simp: i_def stack_def)
  then show "wm_inv m" using assms(1) s l(1) f(1) unfolding wm_inv_def by (auto simp: m)
  show "map unfocused (windows m) = map unfocused (filter (\<lambda>w. w_id w \<noteq> i) (windows wm)) @ [unfocused (windows wm ! k)]"
    unfolding m using remove_windows [OF d assms(2)] by (simp add: i_def)
  show "windows m ! (length (windows m) - 1) = (windows wm ! k)\<lparr>w_focused := True\<rparr>"
    unfolding l(1) using n assms(2) by (simp add: m set_focus_nth nth_append)
  show "\<not> w_focused (windows m ! j)" if "j < length (windows m) - 1" for j
    using that n assms(2) unfolding l(1) by (simp add: m set_focus_nth)
qed



subsection \<open>Every operation keeps the invariant\<close>

lemma wm_new_inv: "wm_inv (wm_new sw sh)"
  by (simp add: wm_inv_def wm_new_def stack_def one_focus_def)

lemma window_new_id: "window_new apps i app sw sh w = Some (win, w') \<Longrightarrow> w_id win = i"
  by (auto simp: window_new_def Let_def split_beta)

lemma open_app_cases:
  assumes "open_app apps app (wm, w) = Some (wm', w')" "wm_inv wm" "next_id wm \<noteq> - 1"
  shows "wm_inv wm'"
    "length (windows wm) < MAX_WINDOWS \<Longrightarrow> stack wm' = stack wm @ [next_id wm] \<and> next_id wm' = next_id wm + 1"
    "length (windows wm) \<ge> MAX_WINDOWS \<Longrightarrow> wm' = wm \<and> w' = w"
proof -
  note le = word_less_Suc [OF assms(3)]
  show "length (windows wm) \<ge> MAX_WINDOWS \<Longrightarrow> wm' = wm \<and> w' = w" using assms(1) by (simp add: open_app_def)
  have new: "wm_inv wm' \<and> stack wm' = stack wm @ [next_id wm] \<and> next_id wm' = next_id wm + 1" if lt: "length (windows wm) < MAX_WINDOWS"
  proof -
    from assms(1) lt obtain win where win: "w_id win = next_id wm" "wm' = focus_last (wm\<lparr>next_id := next_id wm + 1, windows := windows wm @ [win]\<rparr>)"
      using window_new_id by (fastforce simp: open_app_def)
    let ?m = "wm\<lparr>next_id := next_id wm + 1, windows := windows wm @ [win]\<rparr>"
    have st: "stack ?m = stack wm @ [next_id wm]" by (simp add: stack_def win(1))
    have "\<forall>i \<in> set (stack wm). i < next_id wm" "distinct (stack wm)" using assms(2) by (simp_all add: wm_inv_def)
    then have "distinct (stack ?m)" "\<forall>i \<in> set (stack ?m). i < next_id ?m" using le by (auto simp: st)
    then show ?thesis using lt st unfolding win(2) wm_inv_def by simp
  qed
  then show "length (windows wm) < MAX_WINDOWS \<Longrightarrow> stack wm' = stack wm @ [next_id wm] \<and> next_id wm' = next_id wm + 1" by blast
  show "wm_inv wm'" using new assms(1,2) by (cases "length (windows wm) < MAX_WINDOWS") (simp_all add: open_app_def)
qed

lemma close_focused_inv: "wm_inv wm \<Longrightarrow> wm_inv (close_focused wm)"
  using remove_at_inv [of wm] by (auto simp: close_focused_def focused_index_def position_Some split: option.split)

lemma close_window_keeps:
  assumes "wm_inv wm"
  shows "wm_inv (close_window i wm)" "stack (close_window i wm) = filter (\<lambda>j. j \<noteq> i) (stack wm)"
    "map unfocused (windows (close_window i wm)) = map unfocused (filter (\<lambda>w. w_id w \<noteq> i) (windows wm))"
proof -
  have "wm_inv (close_window i wm) \<and> stack (close_window i wm) = filter (\<lambda>j. j \<noteq> i) (stack wm) \<and>
    map unfocused (windows (close_window i wm)) = map unfocused (filter (\<lambda>w. w_id w \<noteq> i) (windows wm))"
  proof (cases "position (\<lambda>w. w_id w = i) (windows wm)")
    case None
    then have n: "\<forall>w \<in> set (windows wm). w_id w \<noteq> i" by (simp add: position_None)
    then have "filter (\<lambda>w. w_id w \<noteq> i) (windows wm) = windows wm" "filter (\<lambda>j. j \<noteq> i) (stack wm) = stack wm"
      by (simp_all add: filter_id_conv stack_def)
    then show ?thesis using None assms by (simp add: close_window_def Let_def)
  next
    case (Some k)
    then have k: "k < length (windows wm)" "w_id (windows wm ! k) = i" by (simp_all add: position_Some)
    have d: "distinct (stack wm)" using assms by (simp add: wm_inv_def)
    show ?thesis
      using remove_at_inv [OF assms k(1)] remove_stack [OF d k(1)] remove_windows [OF d k(1)] Some k(2)
      by (simp add: close_window_def Let_def vec_remove_map [symmetric])
  qed
  then show "wm_inv (close_window i wm)" "stack (close_window i wm) = filter (\<lambda>j. j \<noteq> i) (stack wm)"
    "map unfocused (windows (close_window i wm)) = map unfocused (filter (\<lambda>w. w_id w \<noteq> i) (windows wm))" by simp_all
qed

lemma cycle_focus_inv: "wm_inv wm \<Longrightarrow> wm_inv (cycle_focus wm)"
  by (simp add: cycle_focus_def Let_def wm_inv_set_focus split: option.split)

lemma handle_input_inv:
  assumes "handle_input apps e (wm, w) = Some ((wm', w'), r)" "wm_inv wm"
  shows "wm_inv wm'"
proof -
  consider "wm' = close_focused wm" | "wm' = cycle_focus wm" | "wm' = wm"
    | idx st where "wm' = upd_window idx (\<lambda>win. win\<lparr>w_app := st\<rparr>) wm"
    | idx st i where "wm' = close_window i (upd_window idx (\<lambda>win. win\<lparr>w_app := st\<rparr>) wm)"
    using assms(1) by (auto simp: handle_input_def Let_def split: if_splits option.splits)
  then show ?thesis
    using assms(2) by cases (auto intro!: close_focused_inv cycle_focus_inv wm_inv_upd close_window_keeps(1))
qed

lemma focus_window_by_id_inv: "wm_inv wm \<Longrightarrow> wm_inv (focus_window_by_id i wm)"
  by (auto simp: focus_window_by_id_def intro!: wm_inv_set_focus wm_inv_upd split: option.split)

lemma toggle_minimize_inv: "wm_inv wm \<Longrightarrow> wm_inv (toggle_minimize_by_id i wm)"
  by (auto simp: toggle_minimize_by_id_def position_Some intro!: minimize_inv wm_inv_set_focus wm_inv_upd split: option.split)

lemma unfocus_all_inv: "wm_inv wm \<Longrightarrow> wm_inv (unfocus_all wm)"
  by (simp add: wm_inv_def unfocus_all_def stack_def one_focus_def comp_def)

lemma geometry_sel [simp]:
  "w_id (move_window sw sh ox oy mx my win) = w_id win" "w_focused (move_window sw sh ox oy mx my win) = w_focused win"
  "w_id (resize_window d mx my win) = w_id win" "w_focused (resize_window d mx my win) = w_focused win"
  "w_id (toggle_maximize sw sh win) = w_id win" "w_focused (toggle_maximize sw sh win) = w_focused win"
  "w_minimized (toggle_maximize sw sh win) = w_minimized win"
  by (simp_all add: move_window_def resize_window_def toggle_maximize_def maximize_def restore_from_maximize_def Let_def)

lemma mouse_move_inv: "wm_inv wm \<Longrightarrow> wm_inv (fst (handle_mouse_move mx my wm))"
  by (auto simp: handle_mouse_move_def intro!: wm_inv_upd split: option.split DragState.split)

lemma start_move_keeps:
  "start_move mx my i idx wm = (upd_window idx (\<lambda>win. if w_maximized win
      then (restore_from_maximize win)\<lparr>w_x := sat_sub mx (w_width (restore_from_maximize win) div 2)\<rparr> else win) wm)
     \<lparr>drag := drag (start_move mx my i idx wm)\<rparr>"
  by (cases wm) (simp add: start_move_def upd_window_def Let_def)

text \<open>What a click does to the window on top after it has been brought there, apart from closing it.\<close>

lemma press_button_inv:
  assumes "wm_inv m" "idx < length (windows m)" "w_focused (windows m ! idx)"
  shows "wm_inv (press_button b i idx m)"
  using assms by (auto simp: press_button_def intro!: close_window_keeps(1) wm_inv_upd minimize_inv split: WindowButton.split)

lemma start_move_inv: "wm_inv m \<Longrightarrow> wm_inv (start_move mx my i idx m)"
  by (subst start_move_keeps) (auto simp: restore_from_maximize_def intro!: wm_inv_upd split: if_splits)

lemma handle_click_None:
  "rposition (under_mouse mx my) (windows wm) = None \<Longrightarrow> handle_click apps mx my (wm, w) = Some ((wm, w), None)"
  by (simp add: handle_click_def)

definition click_result :: "u32 \<Rightarrow> u32 \<Rightarrow> u32 \<Rightarrow> 'a WindowManager \<Rightarrow> 'a WindowManager \<Rightarrow> bool" where
  "click_result mx my i m wm' \<longleftrightarrow> (let idx = length (windows m) - 1 in
     (\<exists>b. hit_test_buttons (windows m ! idx) mx my = Some b \<and> wm' = press_button b i idx m) \<or>
     (\<exists>d. wm' = m\<lparr>drag := d\<rparr>) \<or> wm' = start_move mx my i idx m \<or>
     (\<exists>st. wm' = upd_window idx (\<lambda>win. win\<lparr>w_app := st\<rparr>) m) \<or> wm' = m)"

lemma handle_click_Some:
  assumes "handle_click apps mx my (wm, w) = Some ((wm', w'), r)" "rposition (under_mouse mx my) (windows wm) = Some k"
  shows "r \<noteq> None \<and> click_result mx my (w_id (windows wm ! k)) (bring_to_front (w_id (windows wm ! k)) wm) wm'"
proof -
  define m where "m = bring_to_front (w_id (windows wm ! k)) wm"
  define win where "win = windows m ! (length (windows m) - 1)"
  have e: "handle_click apps mx my (wm, w) = (case hit_test_buttons win mx my of
              Some b \<Rightarrow> Some ((press_button b (w_id (windows wm ! k)) (length (windows m) - 1) m, w), Some Redraw)
            | None \<Rightarrow>
              (case hit_test_resize_edge win mx my of
                 Some e \<Rightarrow> Some ((m\<lparr>drag := Resizing (w_id (windows wm ! k)) e mx my (w_x win) (w_y win) (w_width win) (w_height win)\<rparr>, w), Some Redraw)
               | None \<Rightarrow>
                 if hit_test_titlebar win mx my then Some ((start_move mx my (w_id (windows wm ! k)) (length (windows m) - 1) m, w), Some Redraw)
                 else if hit_test_client win mx my
                 then map_option (\<lambda>((st, w'), result). ((upd_window (length (windows m) - 1) (\<lambda>win. win\<lparr>w_app := st\<rparr>) m, w'), Some result))
                        (app_click apps (mx - client_x win) (my - client_y win) (w_app win, w))
                 else Some ((m, w), Some Redraw)))"
    unfolding handle_click_def prod.case assms(2) option.case Let_def m_def win_def ..
  show ?thesis
  proof (cases "hit_test_buttons win mx my")
    case None
    then show ?thesis
      using assms(1) unfolding e m_def [symmetric] click_result_def Let_def
      by (auto split: option.splits if_splits)
  next
    case (Some b)
    then show ?thesis using assms(1) unfolding e m_def [symmetric] click_result_def Let_def by (auto simp: win_def)
  qed
qed

lemma handle_click_Close:
  assumes "handle_click apps mx my (wm, w) = Some ((wm', w'), r)" "rposition (under_mouse mx my) (windows wm) = Some k"
    "m = bring_to_front (w_id (windows wm ! k)) wm" "hit_test_buttons (windows m ! (length (windows m) - 1)) mx my = Some Close"
  shows "wm' = close_window (w_id (windows wm ! k)) m"
  using assms(1) unfolding handle_click_def prod.case assms(2) option.case Let_def assms(3) [symmetric] assms(4)
  by (simp add: press_button_def)

lemma click_result_inv:
  assumes "click_result mx my i m wm'" "wm_inv m" "windows m \<noteq> []" "w_focused (windows m ! (length (windows m) - 1))"
  shows "wm_inv wm'"
  using assms by (auto simp: click_result_def Let_def intro!: press_button_inv start_move_inv wm_inv_upd)

lemma handle_click_inv:
  assumes "handle_click apps mx my (wm, w) = Some ((wm', w'), r)" "wm_inv wm"
  shows "wm_inv wm'"
proof (cases "rposition (under_mouse mx my) (windows wm)")
  case None
  then show ?thesis using assms handle_click_None [OF None, of apps w] by simp
next
  case (Some k)
  have k: "k < length (windows wm)" using Some by (simp add: rposition_Some)
  note top = bring_to_front_top [OF assms(2) k]
  show ?thesis using handle_click_Some [OF assms(1) Some] click_result_inv top(1,2,10) by fastforce
qed

inductive wm_step :: "('a, 'w) Apps \<Rightarrow> 'a WindowManager \<times> 'w \<Rightarrow> 'a WindowManager \<times> 'w \<Rightarrow> bool" for apps where
  Open: "next_id (fst s) \<noteq> - 1 \<Longrightarrow> open_app apps app s = Some s' \<Longrightarrow> wm_step apps s s'"
| Key: "handle_input apps e s = Some (s', r) \<Longrightarrow> wm_step apps s s'"
| Click: "handle_click apps mx my s = Some (s', r') \<Longrightarrow> wm_step apps s s'"
| Move: "wm_step apps (wm, w) (fst (handle_mouse_move mx my wm), w)"
| Release: "wm_step apps (wm, w) (handle_mouse_up wm, w)"
| Taskbar: "wm_step apps (wm, w) (toggle_minimize_by_id i wm, w)"
| Focus: "wm_step apps (wm, w) (focus_window_by_id i wm, w)"
| Desktop: "wm_step apps (wm, w) (unfocus_all wm, w)"

lemma wm_step_inv: "wm_step apps s s' \<Longrightarrow> wm_inv (fst s) \<Longrightarrow> wm_inv (fst s')"
proof (induction rule: wm_step.induct)
  case (Open s app s')
  then show ?case using open_app_cases(1) [of apps app "fst s" "snd s" "fst s'" "snd s'"] by simp
next
  case (Key e s s' r)
  then show ?case using handle_input_inv [of apps e "fst s" "snd s" "fst s'" "snd s'" r] by simp
next
  case (Click mx my s s' r')
  then show ?case using handle_click_inv [of apps mx my "fst s" "snd s" "fst s'" "snd s'" r'] by simp
qed (simp_all add: mouse_move_inv toggle_minimize_inv focus_window_by_id_inv unfocus_all_inv handle_mouse_up_def)

text \<open>
  C36: windows and focus. In every state reached from the empty desktop by opening applications (while numbers are
  left), keys, clicks, mouse movement and the taskbar, the windows have different numbers, at most eight are open and at
  most one has the focus, whatever the applications do.
\<close>

theorem wm_invariant:
  assumes "(wm_step apps)\<^sup>*\<^sup>* (wm_new sw sh, w0) (wm, w)"
  shows "distinct (map w_id (windows wm)) \<and> length (windows wm) \<le> MAX_WINDOWS \<and>
    (\<forall>i j. i < length (windows wm) \<longrightarrow> j < length (windows wm) \<longrightarrow> w_focused (windows wm ! i) \<longrightarrow> w_focused (windows wm ! j) \<longrightarrow> i = j)"
proof -
  have "wm_inv (fst s)" if "(wm_step apps)\<^sup>*\<^sup>* (wm_new sw sh, w0) s" for s
    using that by (induction rule: rtranclp_induct) (auto simp: wm_new_inv intro: wm_step_inv)
  from this [OF assms] show ?thesis by (simp add: wm_inv_def one_focus_def stack_def)
qed

definition plain_apps :: "(unit, unit) Apps" where
  "plain_apps = \<lparr>app_new = (\<lambda>_ w. Some ((), w)), app_input = (\<lambda>_ s. Some (s, Redraw)), app_click = (\<lambda>_ _ s. Some (s, Redraw))\<rparr>"

theorem wm_invariant_witness:
  "\<exists>wm. open_app plain_apps Clock (wm_new 1024 768, ()) = Some (wm, ()) \<and> length (windows wm) = 1 \<and> length (windows wm) \<le> MAX_WINDOWS"
proof -
  have n: "next_id (fst (wm_new 1024 768 :: unit WindowManager, ())) \<noteq> - 1" by (simp add: wm_new_def)
  obtain wm where o: "open_app plain_apps Clock (wm_new 1024 768, ()) = Some (wm, ())" "length (windows wm) = 1"
    by (simp add: open_app_def wm_new_def window_new_def plain_apps_def Let_def wm_consts)
  then have "(wm_step plain_apps)\<^sup>*\<^sup>* (wm_new 1024 768, ()) (wm, ())" using wm_step.Open [OF n] by blast
  from wm_invariant [OF this] show ?thesis using o by blast
qed

text \<open>A window whose number is used keeps it.\<close>

lemma click_result_stack:
  assumes "click_result mx my i m wm'" "wm_inv m" "windows m \<noteq> []" "\<forall>b. hit_test_buttons (windows m ! (length (windows m) - 1)) mx my = Some b \<longrightarrow> b \<noteq> Close"
  shows "stack wm' = stack m \<and> length (windows wm') = length (windows m) \<and>
    (\<forall>j < length (windows m) - 1. unfocused (windows wm' ! j) = unfocused (windows m ! j))"
proof -
  let ?idx = "length (windows m) - 1"
  have vis: "unfocused (windows (focus_visible n) ! j) = unfocused (windows n ! j)" if "j < length (windows n)" for n :: "'a WindowManager" and j
    using that by (metis focus_visible_sel(3,4) nth_map)
  consider f where "wm' = upd_window ?idx f m" "\<And>w. w_id (f w) = w_id w" | d where "wm' = m\<lparr>drag := d\<rparr>" | "wm' = m"
    | f d where "wm' = (upd_window ?idx f m)\<lparr>drag := d\<rparr>" "\<And>w. w_id (f w) = w_id w"
    | "wm' = focus_visible (upd_window ?idx (\<lambda>win. win\<lparr>w_minimized := True, w_focused := False\<rparr>) m)"
  proof -
    from assms(1) consider b where "hit_test_buttons (windows m ! ?idx) mx my = Some b" "wm' = press_button b i ?idx m"
      | d where "wm' = m\<lparr>drag := d\<rparr>" | "wm' = start_move mx my i ?idx m" | st where "wm' = upd_window ?idx (\<lambda>win. win\<lparr>w_app := st\<rparr>) m" | "wm' = m"
      by (auto simp: click_result_def Let_def)
    then show thesis
    proof cases
      case (1 b)
      then have "b = Maximize \<or> b = Minimize" using assms(4) by (cases b) auto
      then show thesis using 1(2) that(1) [of "toggle_maximize (wm_screen_w m) (wm_screen_h m)"] that(5) by (auto simp: press_button_def)
    next
      case 3
      let ?f = "\<lambda>win. if w_maximized win
      then (restore_from_maximize win)\<lparr>w_x := sat_sub mx (w_width (restore_from_maximize win) div 2)\<rparr> else win"
      have "w_id (?f w) = w_id w" for w :: "'a Window" by (simp add: restore_from_maximize_def)
      then show thesis using that(4) start_move_keeps [of mx my i ?idx m] unfolding 3 by blast
    next
      case (4 st)
      then show thesis using that(1) by simp
    qed (use that(2,3) in blast)+
  qed
  then show ?thesis
  proof cases
    case 5
    then show ?thesis using vis [of _ "upd_window ?idx (\<lambda>win. win\<lparr>w_minimized := True, w_focused := False\<rparr>) m"] by (simp add: upd_window_nth)
  qed (simp_all add: upd_window_nth)
qed

text \<open>
  C37: a click goes to the topmost window under the mouse. That window, the highest in the stack that is not minimised and
  contains the point, is brought to the top or, when its close button is hit, removed; the other windows keep their
  order and everything but the focus; and the click is reported as handled.
\<close>

theorem click_raises:
  assumes "distinct (map w_id (windows wm))" "\<forall>i \<in> set (map w_id (windows wm)). i < next_id wm" "length (windows wm) \<le> MAX_WINDOWS" "one_focus (windows wm)"
    "k < length (windows wm)" "under_mouse mx my (windows wm ! k)" "\<forall>j. k < j \<longrightarrow> j < length (windows wm) \<longrightarrow> \<not> under_mouse mx my (windows wm ! j)"
    "handle_click apps mx my (wm, w) = Some ((wm', w'), r)"
  shows "r \<noteq> None \<and>
    (if hit_test_buttons (windows wm ! k) mx my = Some Close
     then map unfocused (windows wm') = map unfocused (filter (\<lambda>v. w_id v \<noteq> w_id (windows wm ! k)) (windows wm))
     else map w_id (windows wm') = map w_id (filter (\<lambda>v. w_id v \<noteq> w_id (windows wm ! k)) (windows wm)) @ [w_id (windows wm ! k)] \<and>
       map unfocused (butlast (windows wm')) = map unfocused (filter (\<lambda>v. w_id v \<noteq> w_id (windows wm ! k)) (windows wm)))"
proof -
  let ?i = "w_id (windows wm ! k)" and ?m = "bring_to_front (w_id (windows wm ! k)) wm"
  have inv: "wm_inv wm" using assms(1-4) by (simp add: wm_inv_def stack_def)
  have rp: "rposition (under_mouse mx my) (windows wm) = Some k" using assms(5-7) by (simp add: rposition_Some)
  note top = bring_to_front_top [OF inv assms(5)]
  have cr: "r \<noteq> None" "click_result mx my ?i ?m wm'" using handle_click_Some [OF assms(8) rp] by simp_all
  have hb: "hit_test_buttons (windows ?m ! (length (windows ?m) - 1)) mx my = hit_test_buttons (windows wm ! k) mx my"
    unfolding top(10) by (simp add: hit_test_buttons_def)
  show ?thesis
  proof (cases "hit_test_buttons (windows wm ! k) mx my = Some Close")
    case True
    then have "wm' = close_window ?i ?m" using handle_click_Close [OF assms(8) rp refl] hb by simp
    moreover have "map unfocused (filter (\<lambda>v. w_id v \<noteq> ?i) (windows ?m)) = filter (\<lambda>v. w_id v \<noteq> ?i) (map unfocused (windows ?m))"
      by (simp add: filter_map comp_def)
    ultimately show ?thesis using True cr(1) close_window_keeps(3) [OF top(1), of ?i] unfolding top(9) by (simp add: filter_map comp_def)
  next
    case False
    note cs = click_result_stack [OF cr(2) top(1,2)]
    have s: "stack wm' = stack ?m" "length (windows wm') = length (windows ?m)"
      "\<And>j. j < length (windows ?m) - 1 \<Longrightarrow> unfocused (windows wm' ! j) = unfocused (windows ?m ! j)"
      using cs False hb by auto
    have "map unfocused (butlast (windows wm')) = map unfocused (butlast (windows ?m))"
      using s(2,3) by (intro nth_equalityI) (simp_all add: nth_butlast)
    also have "\<dots> = butlast (map unfocused (windows ?m))" by (simp add: map_butlast)
    finally have "map unfocused (butlast (windows wm')) = map unfocused (filter (\<lambda>v. w_id v \<noteq> ?i) (windows wm))" unfolding top(9) by simp
    moreover have "map w_id (windows wm') = map w_id (filter (\<lambda>v. w_id v \<noteq> ?i) (windows wm)) @ [?i]"
      using s(1) top(8) by (simp add: stack_def filter_map comp_def)
    ultimately show ?thesis using False cr(1) by simp
  qed
qed

text \<open>Two overlapping windows, the lower one hit beside the upper one.\<close>

definition demo_window :: "u32 \<Rightarrow> u32 \<Rightarrow> bool \<Rightarrow> unit Window" where
  "demo_window i x f = \<lparr>w_id = i, w_title = [], w_x = x, w_y = 50, w_width = 300, w_height = 200, w_focused = f, w_app_id = Clock, w_app = (),
     w_close = False, w_minimized = False, w_maximized = False, w_rx = 0, w_ry = 0, w_rw = 0, w_rh = 0\<rparr>"

definition demo_wm :: "unit WindowManager" where
  "demo_wm = \<lparr>windows = [demo_window 1 100 False, demo_window 2 300 True], next_id = 3, wm_screen_w = 1024, wm_screen_h = 768, drag = NoDrag\<rparr>"

lemmas hit_defs = hit_test_buttons_def hit_test_resize_edge_def hit_test_titlebar_def hit_test_client_def client_x_def client_y_def
  client_width_def client_height_def under_mouse_def sat_sub_def

theorem click_raises_witness:
  "\<exists>wm' r. handle_click plain_apps 200 150 (demo_wm, ()) = Some ((wm', ()), r) \<and> r \<noteq> None \<and> map w_id (windows wm') = [2, 1]"
proof -
  have u: "under_mouse 200 150 (windows demo_wm ! 0)" "\<not> under_mouse 200 150 (windows demo_wm ! 1)"
    by (simp_all add: demo_wm_def demo_window_def hit_defs wm_consts)
  have hb: "hit_test_buttons (windows demo_wm ! 0) 200 150 = None" by (simp add: demo_wm_def demo_window_def hit_defs wm_consts)
  have one: "one_focus (windows demo_wm)" by (auto simp: one_focus_def demo_wm_def demo_window_def nth_Cons split: nat.splits)
  have "\<exists>wm' r. handle_click plain_apps 200 150 (demo_wm, ()) = Some ((wm', ()), r)"
    unfolding handle_click_def by (auto simp: plain_apps_def Let_def split: option.split)
  then obtain wm' r where c: "handle_click plain_apps 200 150 (demo_wm, ()) = Some ((wm', ()), r)" by blast
  have "\<forall>j. 0 < j \<longrightarrow> j < length (windows demo_wm) \<longrightarrow> \<not> under_mouse 200 150 (windows demo_wm ! j)"
    using u(2) by (auto simp: demo_wm_def less_Suc_eq numeral_2_eq_2)
  from click_raises [OF _ _ _ one _ u(1) this c] hb have "r \<noteq> None \<and> map w_id (windows wm') = [2, 1]"
    by (simp add: demo_wm_def demo_window_def wm_consts)
  then show ?thesis using c by auto
qed


subsection \<open>Moving and resizing\<close>


lemma handle_mouse_move_drag:
  assumes "distinct (map w_id (windows wm))" "k < length (windows wm)" "drag wm = d" "d \<noteq> NoDrag" "drag_win d = w_id (windows wm ! k)"
  shows "handle_mouse_move mx my wm = (upd_window k (case d of Moving _ ox oy \<Rightarrow> move_window (wm_screen_w wm) (wm_screen_h wm) ox oy mx my
    | _ \<Rightarrow> resize_window d mx my) wm, True)"
  using assms position_key [OF assms(1,2)] by (cases d) (simp_all add: handle_mouse_move_def)

text \<open>
  C38: resizing. While an edge is dragged, the window never becomes smaller than 160 by 100 in a direction that is dragged,
  the opposite edge stays where it was at the start, a direction that is not dragged is left alone, and no other
  window changes.
\<close>

theorem resize_bounds:
  assumes "distinct (map w_id (windows wm))" "k < length (windows wm)" "win = windows wm ! k"
    "drag wm = Resizing (w_id win) e sx sy ox oy ow oh" "handle_mouse_move mx my wm = (wm', b)" "win' = windows wm' ! k"
  shows "b \<and> windows wm' = (windows wm)[k := win'] \<and>
    (if e \<in> {EdgeLeft, TopLeft, BottomLeft} then w_x win' + w_width win' = ox + ow \<and> MIN_WIN_WIDTH \<le> w_width win'
     else if e \<in> {EdgeRight, TopRight, BottomRight} then w_x win' = w_x win \<and> MIN_WIN_WIDTH \<le> w_width win'
     else w_x win' = w_x win \<and> w_width win' = w_width win) \<and>
    (if e \<in> {EdgeTop, TopLeft, TopRight} then w_y win' + w_height win' = oy + oh \<and> MIN_WIN_HEIGHT \<le> w_height win'
     else if e \<in> {EdgeBottom, BottomLeft, BottomRight} then w_y win' = w_y win \<and> MIN_WIN_HEIGHT \<le> w_height win'
     else w_y win' = w_y win \<and> w_height win' = w_height win)"
proof -
  let ?d = "Resizing (w_id win) e sx sy ox oy ow oh"
  have m: "wm' = upd_window k (resize_window ?d mx my) wm" "b"
    using assms(5) handle_mouse_move_drag [OF assms(1,2,4)] assms(3) by simp_all
  then have w': "win' = resize_window ?d mx my win" using assms(2,3,6) by (simp add: upd_window_nth)
  have min: "MIN_WIN_WIDTH \<le> smax a MIN_WIN_WIDTH" "MIN_WIN_HEIGHT \<le> smax a MIN_WIN_HEIGHT" for a
    using smax_ge [of MIN_WIN_WIDTH a] smax_ge [of MIN_WIN_HEIGHT a] by (simp_all add: word_le_nat_alt wm_consts)
  have "windows wm' = (windows wm)[k := win']" using m(1) w' assms(3) by (simp add: upd_window_def)
  then show ?thesis unfolding w' using m(2) min by (cases e) (simp_all add: resize_window_def Let_def)
qed

theorem resize_bounds_witness:
  "\<exists>wm'. handle_mouse_move 500 150 (demo_wm\<lparr>drag := Resizing 1 EdgeLeft 100 150 100 50 300 200\<rparr>) = (wm', True) \<and>
    w_x (windows wm' ! 0) + w_width (windows wm' ! 0) = 400 \<and> MIN_WIN_WIDTH \<le> w_width (windows wm' ! 0)"
proof -
  let ?wm = "demo_wm\<lparr>drag := Resizing 1 EdgeLeft 100 150 100 50 300 200\<rparr>"
  obtain wm' b where h: "handle_mouse_move 500 150 ?wm = (wm', b)" by fastforce
  show ?thesis using h resize_bounds [OF _ _ refl _ h refl, of 0 EdgeLeft 100 150 100 50 300 200]
    by (simp add: demo_wm_def demo_window_def)
qed

text \<open>
  a window can be lost at the left edge of the screen. When a window stands closer to the left edge than the place
  where its left border is grabbed, dragging the border to column 0 computes a negative position; as an
  unsigned number it lies beyond every screen, and no point of the screen belongs to the window any more.
\<close>

theorem resize_loses_window:
  assumes "distinct (map w_id (windows wm))" "k < length (windows wm)" "win = windows wm ! k"
    "drag wm = Resizing (w_id win) EdgeLeft sx sy (w_x win) (w_y win) (w_width win) (w_height win)"
    "w_x win < sx" "sx < w_x win + RESIZE_BORDER" "w_x win < 100" "MIN_WIN_WIDTH \<le> w_width win" "w_width win < 0x10000"
  shows "\<forall>px py. px < 0x80000000 \<longrightarrow> \<not> under_mouse px py (windows (fst (handle_mouse_move 0 sy wm)) ! k)"
proof -
  let ?d = "Resizing (w_id win) EdgeLeft sx sy (w_x win) (w_y win) (w_width win) (w_height win)"
  have w': "windows (fst (handle_mouse_move 0 sy wm)) ! k = resize_window ?d 0 sy win"
    using handle_mouse_move_drag [OF assms(1,2,4)] assms(2,3) by (simp add: upd_window_nth)
  have b: "unat (w_x win) < unat sx" "unat sx < unat (w_x win) + 5" "unat (w_x win) < 100" "160 \<le> unat (w_width win)" "unat (w_width win) < 0x10000"
    using assms(5-9) unat_add_no_overflow [of "w_x win" RESIZE_BORDER] by (simp_all add: word_less_nat_alt word_le_nat_alt wm_consts)
  have s: "unat (w_width win + sx) = unat (w_width win) + unat sx" using b by (intro unat_add_no_overflow) simp
  have "sint (w_width win + sx) = int (unat (w_width win + sx))" using s b by (intro sint_small) simp
  then have "160 < sint (w_width win + sx)" using s b by linarith
  then have "smax (w_width win - (0 - sx)) MIN_WIN_WIDTH = w_width win + sx" by (simp add: smax_def wm_consts)
  then have x: "w_x (resize_window ?d 0 sy win) = w_x win - sx" by (simp add: resize_window_def Let_def)
  have "unat (w_x win - sx) = 2 ^ 32 - (unat sx - unat (w_x win))"
    using b by (simp add: unat_sub_if_size word_size)
  then have "unat (sat_sub (w_x win - sx) RESIZE_BORDER) \<ge> 0x80000000" using b by (simp add: wm_consts)
  then show ?thesis unfolding w' under_mouse_def x by (auto simp: word_le_nat_alt word_less_nat_alt)
qed

theorem resize_loses_window_witness:
  "\<not> under_mouse 0 150 (windows (fst (handle_mouse_move 0 150 (demo_wm
     \<lparr>windows := [demo_window 1 0 True], drag := Resizing 1 EdgeLeft 4 150 0 50 300 200\<rparr>))) ! 0)"
  using resize_loses_window [of "demo_wm\<lparr>windows := [demo_window 1 0 True], drag := Resizing 1 EdgeLeft 4 150 0 50 300 200\<rparr>" 0 "demo_window 1 0 True" 4 150]
  by (simp add: demo_wm_def demo_window_def wm_consts)

end
