(* ===== verification/Desktop.thy ===== *)
theory Desktop
  imports Wm Mouse
begin

unbundle bit_operations_syntax

text \<open>
  The desktop, \<^verbatim>\<open>kernel/src/desktop/input.rs\<close> and the event loop of \<^verbatim>\<open>kernel/src/desktop/mod.rs\<close>: the mouse pointer, the icons, the
  start menu and the taskbar, and one iteration of the loop, which takes the events of the mouse and one key and decides
  what is drawn. Mouse, keyboard and window manager are the models of their drivers; drawing itself is left out.
\<close>

subsection \<open>The pointer\<close>

datatype MouseClick = LeftDown | LeftUp | RightDown | RightUp

record MouseTracker =
  prev_left :: bool
  prev_right :: bool
  cursor_x :: int
  cursor_y :: int

definition tracker_new :: "u32 \<Rightarrow> u32 \<Rightarrow> MouseTracker" where
  "tracker_new sw sh = \<lparr>prev_left = False, prev_right = False, cursor_x = sint (sw div 2), cursor_y = sint (sh div 2)\<rparr>"

definition clamp :: "int \<Rightarrow> int \<Rightarrow> int" where
  "clamp n v = (let v = (if v < 0 then 0 else v) in if v \<ge> n then n - 1 else v)"

definition track_event :: "u32 \<Rightarrow> u32 \<Rightarrow> MouseEvent \<Rightarrow> MouseTracker \<times> MouseClick option \<Rightarrow> MouseTracker \<times> MouseClick option" where
  "track_event sw sh e = (\<lambda>(t, click).
     let l = btn_left (ev_buttons e); r = btn_right (ev_buttons e);
         click = (if l \<and> \<not> prev_left t then Some LeftDown else click);
         click = (if \<not> l \<and> prev_left t then Some LeftUp else click);
         click = (if r \<and> \<not> prev_right t then Some RightDown else click)
     in (\<lparr>prev_left = l, prev_right = r, cursor_x = clamp (sint sw) (cursor_x t + sint (ev_dx e)),
          cursor_y = clamp (sint sh) (cursor_y t + sint (ev_dy e))\<rparr>, click))"

lemma read_event_less: "try_read_event m = (m', Some e) \<Longrightarrow> mb_count (MOUSE_BUFFER m') < mb_count (MOUSE_BUFFER m)"
  by (auto simp: try_read_event_def mb_pop_def split: if_splits)

function process_loop :: "u32 \<Rightarrow> u32 \<Rightarrow> (MouseTracker \<times> MouseClick option) \<times> bool \<Rightarrow> Mouse \<Rightarrow> ((MouseTracker \<times> MouseClick option) \<times> bool) \<times> Mouse" where
  "process_loop sw sh s m =
     (case try_read_event m of
        (m', None) \<Rightarrow> (s, m')
      | (m', Some e) \<Rightarrow> process_loop sw sh (track_event sw sh e (fst s), True) m')"
  by pat_completeness auto
termination process_loop
  by (relation "measure (\<lambda>(sw, sh, s, m). mb_count (MOUSE_BUFFER m))") (auto dest: read_event_less [OF sym])

declare process_loop.simps [simp del]

definition process_events :: "u32 \<Rightarrow> u32 \<Rightarrow> MouseTracker \<Rightarrow> Mouse \<Rightarrow> (MouseTracker \<times> Mouse) \<times> bool \<times> MouseClick option" where
  "process_events sw sh t m =
     (let (((t, click), moved), m) = process_loop sw sh ((t, None), False) m
      in ((t, set_position (of_int (cursor_x t)) (of_int (cursor_y t)) m), moved, click))"

definition tracker_x :: "MouseTracker \<Rightarrow> u32" where
  "tracker_x t = of_int (cursor_x t)"

definition tracker_y :: "MouseTracker \<Rightarrow> u32" where
  "tracker_y t = of_int (cursor_y t)"


subsection \<open>Icons and start menu\<close>

record DesktopIcon =
  icon_name :: str
  icon_app :: AppId
  icon_x :: u32
  icon_y :: u32

record DesktopState =
  icons :: "DesktopIcon list"
  selected_icon :: "nat option"
  start_menu_open :: bool
  start_menu_selection :: nat

definition desktop_new :: DesktopState where
  "desktop_new =
     \<lparr>icons = map2 (\<lambda>i (n, a). \<lparr>icon_name = lit n, icon_app = a, icon_x = 20, icon_y = 20 + 70 * of_nat i\<rparr>) [0..<12]
        [(''System Info'', SystemInfo), (''Task Manager'', TaskManager), (''Notepad'', NotepadApp), (''Calculator'', Calculator),
         (''About'', About), (''Terminal'', Terminal), (''Files'', FileBrowser), (''Paint'', Paint), (''Minesweeper'', MinesweeperApp),
         (''Snake'', SnakeApp), (''Settings'', Settings), (''Clock'', Clock)],
      selected_icon = None, start_menu_open = False, start_menu_selection = 0\<rparr>"

definition separator :: str where
  "separator = lit ''  '' @ concat (replicate 13 [0xE2, 0x94, 0x80])"

definition start_menu_items :: "(str \<times> AppId option) list" where
  "start_menu_items =
     [(lit ''  System Info'', Some SystemInfo), (lit ''  Task Manager'', Some TaskManager), (lit ''  Notepad'', Some NotepadApp),
      (lit ''  Calculator'', Some Calculator), (lit ''  About CantayaOS'', Some About), (lit ''  Terminal'', Some Terminal),
      (lit ''  File Browser'', Some FileBrowser), (lit ''  Paint'', Some Paint), (lit ''  Minesweeper'', Some MinesweeperApp),
      (lit ''  Snake'', Some SnakeApp), (lit ''  Settings'', Some Settings), (lit ''  Clock'', Some Clock),
      (separator, None), (lit ''  Exit to Shell'', None)]"

type_synonym ('a, 'w) desk = "DesktopState \<times> 'a WindowManager \<times> 'w"

definition opens :: "('a, 'w) Apps \<Rightarrow> AppId \<Rightarrow> ('a, 'w) desk \<Rightarrow> (('a, 'w) desk \<times> InputResult) option" where
  "opens apps a = (\<lambda>(d, s). map_option (\<lambda>s'. ((d, s'), Redraw)) (open_app apps a s))"

definition handle_desktop_input :: "('a, 'w) Apps \<Rightarrow> KeyEvent \<Rightarrow> ('a, 'w) desk \<Rightarrow> (('a, 'w) desk \<times> InputResult) option" where
  "handle_desktop_input apps e = (\<lambda>(d, s).
     let n = length (icons d); sel = (\<lambda>i. Some ((d\<lparr>selected_icon := Some i\<rparr>, s), Redraw)) in
     if key e = Key_Escape then Some ((d, s), ExitDesktop)
     else if key e = Key_F1 then Some ((d\<lparr>start_menu_open := True, start_menu_selection := 0\<rparr>, s), Redraw)
     else if key e = Key_Tab then
       (if n > 0 then sel (case selected_icon d of Some i \<Rightarrow> (i + 1) mod n | None \<Rightarrow> 0) else Some ((d, s), Redraw))
     else if key e = Key_Up then
       (case selected_icon d of
          Some i \<Rightarrow> if i > 0 then sel (i - 1) else Some ((d, s), Redraw)
        | None \<Rightarrow> if icons d \<noteq> [] then sel 0 else Some ((d, s), Redraw))
     else if key e = Key_Down then
       (case selected_icon d of
          Some i \<Rightarrow> if i + 1 < n then sel (i + 1) else Some ((d, s), Redraw)
        | None \<Rightarrow> if n > 0 then sel 0 else Some ((d, s), Redraw))
     else if key e = Key_Enter then
       (case selected_icon d of
          Some i \<Rightarrow> if i < n then opens apps (icon_app (icons d ! i)) (d, s) else None
        | None \<Rightarrow> Some ((d, s), Redraw))
     else Some ((d, s), Continue))"

definition handle_start_menu_input :: "('a, 'w) Apps \<Rightarrow> KeyEvent \<Rightarrow> ('a, 'w) desk \<Rightarrow> (('a, 'w) desk \<times> InputResult) option" where
  "handle_start_menu_input apps e = (\<lambda>(d, s).
     let cnt = length start_menu_items; m = start_menu_selection d in
     if key e = Key_Escape \<or> key e = Key_F1 then Some ((d\<lparr>start_menu_open := False\<rparr>, s), Redraw)
     else if key e = Key_Up then Some ((if m > 0 then d\<lparr>start_menu_selection := m - 1\<rparr> else d, s), Redraw)
     else if key e = Key_Down then Some ((if m + 1 < cnt then d\<lparr>start_menu_selection := m + 1\<rparr> else d, s), Redraw)
     else if key e = Key_Enter then
       (let d = d\<lparr>start_menu_open := False\<rparr> in
        if m < cnt
        then (case snd (start_menu_items ! m) of
                Some a \<Rightarrow> opens apps a (d, s)
              | None \<Rightarrow> Some ((d, s), ExitDesktop))
        else Some ((d, s), Redraw))
     else Some ((d, s), Continue))"


subsection \<open>Mouse clicks\<close>

definition menu_click :: "('a, 'w) Apps \<Rightarrow> u32 \<Rightarrow> ('a, 'w) desk \<Rightarrow> (('a, 'w) desk \<times> InputResult) option" where
  "menu_click apps off = (\<lambda>(d, s).
     let i = unat (off div (CHAR_HEIGHT + 4)) in
     if i < length start_menu_items \<and> fst (start_menu_items ! i) \<noteq> separator
     then let d = d\<lparr>start_menu_open := False\<rparr> in
          (case snd (start_menu_items ! i) of
             Some a \<Rightarrow> opens apps a (d, s)
           | None \<Rightarrow> Some ((d, s), ExitDesktop))
     else Some ((d, s), Continue))"

definition taskbar_click :: "u32 \<Rightarrow> u32 \<Rightarrow> u32 \<Rightarrow> u32 \<Rightarrow> DesktopState \<times> 'a WindowManager \<Rightarrow> DesktopState \<times> 'a WindowManager" where
  "taskbar_click mx my screen_w tb_y = (\<lambda>(d, wm).
     if mx \<ge> 2 \<and> mx < 62 \<and> my \<ge> tb_y + 2
     then (d\<lparr>start_menu_open := \<not> start_menu_open d, start_menu_selection := 0\<rparr>, wm)
     else
       let btn_area_x = 2 + 60 + 40; btn_area_w = screen_w - btn_area_x - 80 - 8; titles = window_titles wm; n = length titles in
       if n > 0 \<and> mx \<ge> btn_area_x
       then let btn_w = min (btn_area_w div of_nat n) 160; bx = (\<lambda>i. btn_area_x + of_nat i * (btn_w + 2)) in
            (case find (\<lambda>i. mx \<ge> bx i \<and> mx < bx i + btn_w) [0..<n] of
               Some i \<Rightarrow> (d, toggle_minimize_by_id (fst (titles ! i)) wm)
             | None \<Rightarrow> (d, wm))
       else (d, wm))"

definition over_icon :: "u32 \<Rightarrow> u32 \<Rightarrow> DesktopIcon \<Rightarrow> bool" where
  "over_icon mx my ic \<longleftrightarrow>
     (let ax = sat_sub (icon_x ic) 2; ay = sat_sub (icon_y ic) 2; aw = max (of_nat (length (icon_name ic)) * CHAR_WIDTH + 8) 20; ah = 20 + CHAR_HEIGHT + 4
      in mx \<ge> ax \<and> mx < ax + aw \<and> my \<ge> ay \<and> my < ay + ah)"

definition icon_click :: "('a, 'w) Apps \<Rightarrow> u32 \<Rightarrow> u32 \<Rightarrow> ('a, 'w) desk \<Rightarrow> (('a, 'w) desk \<times> InputResult) option" where
  "icon_click apps mx my = (\<lambda>(d, wm, w).
     case position (over_icon mx my) (icons d) of
       Some i \<Rightarrow>
         if selected_icon d = Some i then opens apps (icon_app (icons d ! i)) (d, wm, w)
         else Some ((d\<lparr>selected_icon := Some i\<rparr>, wm, w), Redraw)
     | None \<Rightarrow> Some ((d\<lparr>selected_icon := None\<rparr>, unfocus_all wm, w), Redraw))"

definition handle_mouse_click :: "('a, 'w) Apps \<Rightarrow> u32 \<Rightarrow> u32 \<Rightarrow> u32 \<Rightarrow> u32 \<Rightarrow> ('a, 'w) desk \<Rightarrow> (('a, 'w) desk \<times> InputResult) option" where
  "handle_mouse_click apps mx my sw sh = (\<lambda>(d, wm, w).
     let tb_y = sh - TASKBAR_HEIGHT;
         menu_h = of_nat (length start_menu_items) * (CHAR_HEIGHT + 4) + 4;
         menu_y = sh - TASKBAR_HEIGHT - menu_h
     in if start_menu_open d \<and> mx \<ge> 2 \<and> mx < 202 \<and> my \<ge> menu_y \<and> my < menu_y + menu_h
        then menu_click apps (my - menu_y - 2) (d, wm, w)
        else let d = (if start_menu_open d then d\<lparr>start_menu_open := False\<rparr> else d) in
          if my \<ge> tb_y then (case taskbar_click mx my sw tb_y (d, wm) of (d, wm) \<Rightarrow> Some ((d, wm, w), Redraw))
          else case handle_click apps mx my (wm, w) of
            None \<Rightarrow> None
          | Some (s, Some r) \<Rightarrow> Some ((d, s), r)
          | Some (s, None) \<Rightarrow> icon_click apps mx my (d, s))"


subsection \<open>One iteration of the event loop\<close>

record ('a, 'w) Desktop =
  dk :: "('a, 'w) desk"
  dk_tracker :: MouseTracker
  dk_mouse :: Mouse
  dk_keyboard :: Keyboard
  last_clock_tick :: u64

datatype Drawn = Full | Pointer bool | ClockOnly | Halt

definition mouse_action :: "('a, 'w) Apps \<Rightarrow> u32 \<Rightarrow> u32 \<Rightarrow> u32 \<Rightarrow> u32 \<Rightarrow> MouseClick option \<Rightarrow> ('a, 'w) desk \<Rightarrow> (('a, 'w) desk \<times> InputResult) option" where
  "mouse_action apps sw sh mx my click = (\<lambda>(d, wm, w).
     case click of
       None \<Rightarrow> Some ((d, wm, w), Continue)
     | Some LeftDown \<Rightarrow> handle_mouse_click apps mx my sw sh (d, wm, w)
     | Some LeftUp \<Rightarrow> Some (if is_dragging wm then ((d, handle_mouse_up wm, w), Redraw) else ((d, wm, w), Continue))
     | Some RightDown \<Rightarrow>
         if my < sh - TASKBAR_HEIGHT
         then (case handle_click apps mx my (wm, w) of
                 None \<Rightarrow> None
               | Some ((wm, w), None) \<Rightarrow> Some ((d\<lparr>selected_icon := None\<rparr>, unfocus_all wm, w), Redraw)
               | Some ((wm, w), Some _) \<Rightarrow> Some ((d, wm, w), Redraw))
         else Some ((d, wm, w), Continue)
     | Some RightUp \<Rightarrow> Some ((d, wm, w), Continue))"

definition drag_action :: "bool \<Rightarrow> u32 \<Rightarrow> u32 \<Rightarrow> ('a, 'w) desk \<Rightarrow> ('a, 'w) desk \<times> bool" where
  "drag_action moved mx my = (\<lambda>(d, wm, w).
     if moved \<and> is_dragging wm then (case handle_mouse_move mx my wm of (wm', b) \<Rightarrow> ((d, wm', w), b)) else ((d, wm, w), False))"

definition key_action :: "('a, 'w) Apps \<Rightarrow> KeyEvent option \<Rightarrow> ('a, 'w) desk \<Rightarrow> (('a, 'w) desk \<times> InputResult) option" where
  "key_action apps e = (\<lambda>(d, wm, w).
     case e of
       None \<Rightarrow> Some ((d, wm, w), Continue)
     | Some e \<Rightarrow>
         if start_menu_open d then handle_start_menu_input apps e (d, wm, w)
         else if has_focused_window wm then map_option (\<lambda>(s, r). ((d, s), r)) (handle_input apps e (wm, w))
         else handle_desktop_input apps e (d, wm, w))"

definition desktop_step :: "('a, 'w) Apps \<Rightarrow> u32 \<Rightarrow> u32 \<Rightarrow> u64 \<Rightarrow> ('a, 'w) Desktop \<Rightarrow> (('a, 'w) Desktop \<times> Drawn option) option" where
  "desktop_step apps sw sh now s =
     (case process_events sw sh (dk_tracker s) (dk_mouse s) of ((t, m), moved, click) \<Rightarrow>
      case mouse_action apps sw sh (tracker_x t) (tracker_y t) click (dk s) of
        None \<Rightarrow> None
      | Some (d1, r1) \<Rightarrow>
      case drag_action moved (tracker_x t) (tracker_y t) d1 of (d2, dragged) \<Rightarrow>
      case try_read_char (dk_keyboard s) of
        None \<Rightarrow> None
      | Some (kb, e) \<Rightarrow>
      case key_action apps e d2 of
        None \<Rightarrow> None
      | Some (d3, r3) \<Rightarrow>
          let s = s\<lparr>dk := d3, dk_tracker := t, dk_mouse := m, dk_keyboard := kb\<rparr>;
              redraw = (r1 = Redraw \<or> dragged \<or> r3 = Redraw)
          in if r1 = ExitDesktop \<or> r3 = ExitDesktop then Some (s, None)
             else let tick = (now - last_clock_tick s \<ge> 1000); s = (if tick then s\<lparr>last_clock_tick := now\<rparr> else s)
                  in Some (s, Some (if redraw then Full else if moved then Pointer tick else if tick then ClockOnly else Halt)))"



subsection \<open>The pointer follows the mouse\<close>

lemma read_event_abs:
  assumes "mb_inv (MOUSE_BUFFER m)"
  shows "mb_inv (MOUSE_BUFFER (fst (try_read_event m)))" "mb_abs (MOUSE_BUFFER (fst (try_read_event m))) = tl (mb_abs (MOUSE_BUFFER m))"
    "snd (try_read_event m) = (case mb_abs (MOUSE_BUFFER m) of [] \<Rightarrow> None | e # r \<Rightarrow> Some e)"
  using mouse_queue.pop_inv [OF assms] mouse_queue.pop_abs [OF assms] mouse_queue.pop_res [OF assms]
  by (simp_all add: try_read_event_def split_beta)

lemma process_loop_fold:
  assumes "mb_inv (MOUSE_BUFFER m)"
  shows "\<exists>m'. process_loop sw sh s m = ((fold (track_event sw sh) (mb_abs (MOUSE_BUFFER m)) (fst s), snd s \<or> mb_abs (MOUSE_BUFFER m) \<noteq> []), m') \<and>
    mb_inv (MOUSE_BUFFER m') \<and> mb_abs (MOUSE_BUFFER m') = []"
  using assms
proof (induction "mb_abs (MOUSE_BUFFER m)" arbitrary: s m)
  case Nil
  have a: "mb_abs (MOUSE_BUFFER m) = []" using Nil(1) by simp
  obtain m' where "try_read_event m = (m', None)" using read_event_abs(3) [OF Nil(2)] a by (cases "try_read_event m") simp
  then show ?case using read_event_abs(1,2) [OF Nil(2)] a by (subst process_loop.simps) simp
next
  case (Cons e es)
  have a: "mb_abs (MOUSE_BUFFER m) = e # es" using Cons(2) by simp
  obtain m' where m': "try_read_event m = (m', Some e)"
    using read_event_abs(3) [OF Cons(3)] a by (cases "try_read_event m") simp
  have i: "mb_inv (MOUSE_BUFFER m')" "es = mb_abs (MOUSE_BUFFER m')" using read_event_abs(1,2) [OF Cons(3)] m' a by simp_all
  from Cons(1) [OF i(2,1), of "(track_event sw sh e (fst s), True)"] m' show ?case
    unfolding a i(2) [symmetric] by (subst process_loop.simps) simp
qed

definition on_screen :: "u32 \<Rightarrow> u32 \<Rightarrow> MouseTracker \<Rightarrow> bool" where
  "on_screen sw sh t \<longleftrightarrow> 0 \<le> cursor_x t \<and> cursor_x t < sint sw \<and> 0 \<le> cursor_y t \<and> cursor_y t < sint sh"

lemma track_on_screen: "0 < sint sw \<Longrightarrow> 0 < sint sh \<Longrightarrow> on_screen sw sh (fst (track_event sw sh e s))"
  by (simp add: track_event_def on_screen_def clamp_def Let_def split_beta)

lemma fold_on_screen:
  "0 < sint sw \<Longrightarrow> 0 < sint sh \<Longrightarrow> on_screen sw sh (fst s) \<Longrightarrow> on_screen sw sh (fst (fold (track_event sw sh) es s))"
  by (induction es arbitrary: s) (simp_all add: track_on_screen)

lemma process_events_fold:
  assumes "mb_inv (MOUSE_BUFFER m)" "fold (track_event sw sh) (mb_abs (MOUSE_BUFFER m)) (t, None) = (t', c)"
  shows "\<exists>m'. process_events sw sh t m = ((t', m'), mb_abs (MOUSE_BUFFER m) \<noteq> [], c) \<and> mb_inv (MOUSE_BUFFER m') \<and> mb_abs (MOUSE_BUFFER m') = [] \<and>
    mouse_position m' = (tracker_x t', tracker_y t')"
proof -
  obtain m' where "process_loop sw sh ((t, None), False) m = (((t', c), mb_abs (MOUSE_BUFFER m) \<noteq> []), m')"
      "mb_inv (MOUSE_BUFFER m')" "mb_abs (MOUSE_BUFFER m') = []"
    using process_loop_fold [OF assms(1), of sw sh "((t, None), False)"] assms(2) by auto
  then show ?thesis by (simp add: process_events_def set_position_def mouse_position_def tracker_x_def tracker_y_def)
qed

text \<open>Where the pointer stands after a movement that does not leave the screen, and what the buttons did last.\<close>

definition inside :: "u32 \<Rightarrow> u32 \<Rightarrow> MouseTracker \<Rightarrow> MouseEvent list \<Rightarrow> bool" where
  "inside sw sh t es \<longleftrightarrow> (\<forall>k \<le> length es. 
     0 \<le> cursor_x t + sum_list (map (\<lambda>e. sint (ev_dx e)) (take k es)) \<and> cursor_x t + sum_list (map (\<lambda>e. sint (ev_dx e)) (take k es)) < sint sw \<and>
     0 \<le> cursor_y t + sum_list (map (\<lambda>e. sint (ev_dy e)) (take k es)) \<and> cursor_y t + sum_list (map (\<lambda>e. sint (ev_dy e)) (take k es)) < sint sh)"

lemma clamp_id: "0 \<le> v \<Longrightarrow> v < n \<Longrightarrow> clamp n v = v"
  by (simp add: clamp_def Let_def)

lemma fold_inside:
  "inside sw sh (fst s) es \<Longrightarrow> cursor_x (fst (fold (track_event sw sh) es s)) = cursor_x (fst s) + sum_list (map (\<lambda>e. sint (ev_dx e)) es) \<and>
     cursor_y (fst (fold (track_event sw sh) es s)) = cursor_y (fst s) + sum_list (map (\<lambda>e. sint (ev_dy e)) es)"
proof (induction es arbitrary: s)
  case (Cons e es)
  let ?s = "track_event sw sh e s"
  have c: "cursor_x (fst ?s) = cursor_x (fst s) + sint (ev_dx e)" "cursor_y (fst ?s) = cursor_y (fst s) + sint (ev_dy e)"
    using Cons.prems unfolding inside_def by (force simp: track_event_def Let_def split_beta clamp_id dest: spec [of _ 1])+
  have "inside sw sh (fst ?s) es"
    unfolding inside_def
  proof (intro allI impI)
    fix k assume "k \<le> length es"
    then have "Suc k \<le> length (e # es)" by simp
    with Cons.prems show "0 \<le> cursor_x (fst ?s) + sum_list (map (\<lambda>e. sint (ev_dx e)) (take k es)) \<and> cursor_x (fst ?s) + sum_list (map (\<lambda>e. sint (ev_dx e)) (take k es)) < sint sw \<and>
     0 \<le> cursor_y (fst ?s) + sum_list (map (\<lambda>e. sint (ev_dy e)) (take k es)) \<and> cursor_y (fst ?s) + sum_list (map (\<lambda>e. sint (ev_dy e)) (take k es)) < sint sh"
      unfolding inside_def c by (auto simp: algebra_simps dest!: spec [of _ "Suc k"])
  qed
  from Cons.IH [OF this] show ?case by (simp add: c)
qed simp

text \<open>
  C40: the pointer. Processing the pending mouse events empties the queue and publishes the position; the pointer is on
  the screen after every batch; and when no prefix of the batch leaves the screen, it has moved by the sum
  of the movements.
\<close>

theorem pointer_follows:
  assumes "mb_inv (MOUSE_BUFFER m)" "0 < sint sw" "0 < sint sh" "on_screen sw sh t" "process_events sw sh t m = ((t', m'), moved, c)"
  shows "mb_abs (MOUSE_BUFFER m') = [] \<and> mouse_position m' = (tracker_x t', tracker_y t') \<and> on_screen sw sh t' \<and>
    (moved \<longleftrightarrow> mb_abs (MOUSE_BUFFER m) \<noteq> []) \<and>
    (inside sw sh t (mb_abs (MOUSE_BUFFER m)) \<longrightarrow>
       cursor_x t' = cursor_x t + sum_list (map (\<lambda>e. sint (ev_dx e)) (mb_abs (MOUSE_BUFFER m))) \<and>
       cursor_y t' = cursor_y t + sum_list (map (\<lambda>e. sint (ev_dy e)) (mb_abs (MOUSE_BUFFER m))))"
proof -
  obtain t1 c1 where f: "fold (track_event sw sh) (mb_abs (MOUSE_BUFFER m)) (t, None) = (t1, c1)" by fastforce
  from process_events_fold [OF assms(1) f] assms(5) have "t1 = t'" "mb_abs (MOUSE_BUFFER m') = []" "mouse_position m' = (tracker_x t', tracker_y t')"
    "moved \<longleftrightarrow> mb_abs (MOUSE_BUFFER m) \<noteq> []" by auto
  moreover have "on_screen sw sh t1" using fold_on_screen [OF assms(2,3), of "(t, None)" "mb_abs (MOUSE_BUFFER m)"] assms(4) f by simp
  ultimately show ?thesis using fold_inside [of sw sh "(t, None)" "mb_abs (MOUSE_BUFFER m)"] f by simp
qed

text \<open>One event that moves the pointer five to the right and two up.\<close>

definition demo_mouse :: Mouse where
  "demo_mouse = fold handle_irq [0x09, 0x05, 0x02] mouse_new"

lemma demo_mouse_abs:
  "mb_inv (MOUSE_BUFFER demo_mouse)" "mb_abs (MOUSE_BUFFER demo_mouse) = [\<lparr>ev_dx = 5, ev_dy = - 2, ev_buttons = no_buttons\<lparr>btn_left := True\<rparr>\<rparr>]"
proof -
  let ?e = "\<lparr>ev_dx = 5, ev_dy = - 2, ev_buttons = no_buttons\<lparr>btn_left := True\<rparr>\<rparr>"
  have b: "MOUSE_BUFFER demo_mouse = mb_push ?e mb_new"
    by (simp add: demo_mouse_def mouse_new_def handle_irq_def packet_new_def packet_size_def Let_def decode_packet_def decode_delta_def decode_buttons_def no_buttons_def)
  show "mb_inv (MOUSE_BUFFER demo_mouse)" unfolding b by (rule mb_push_inv [OF mb_new_abs(1)])
  show "mb_abs (MOUSE_BUFFER demo_mouse) = [?e]"
    unfolding b mb_push_abs [OF mb_new_abs(1)] mb_new_abs(2) by (simp add: lastn_def MOUSE_BUFFER_SIZE_def)
qed

theorem pointer_follows_witness:
  "\<exists>t' m'. process_events 1024 768 (tracker_new 1024 768) demo_mouse = ((t', m'), True, Some LeftDown) \<and> cursor_x t' = 517 \<and> cursor_y t' = 382"
proof -
  let ?t = "tracker_new 1024 768"
  have o: "on_screen 1024 768 ?t" by (simp add: on_screen_def tracker_new_def)
  have f: "fold (track_event 1024 768) (mb_abs (MOUSE_BUFFER demo_mouse)) (?t, None) =
    (\<lparr>prev_left = True, prev_right = False, cursor_x = 517, cursor_y = 382\<rparr>, Some LeftDown)"
    unfolding demo_mouse_abs(2) by (simp add: track_event_def tracker_new_def clamp_def no_buttons_def Let_def)
  obtain t' m' moved c where p: "process_events 1024 768 ?t demo_mouse = ((t', m'), moved, c)" by (cases "process_events 1024 768 ?t demo_mouse") auto
  have "inside 1024 768 ?t (mb_abs (MOUSE_BUFFER demo_mouse))"
    unfolding demo_mouse_abs(2) inside_def by (simp add: tracker_new_def le_Suc_eq all_conj_distrib)
  then have "cursor_x t' = 517" "cursor_y t' = 382" "moved"
    using pointer_follows [OF demo_mouse_abs(1) _ _ o p] by (simp_all add: demo_mouse_abs(2) tracker_new_def)
  then show ?thesis using p process_events_fold [OF demo_mouse_abs(1) f] by auto
qed


subsection \<open>The loop runs\<close>

definition apps_return :: "('a, 'w) Apps \<Rightarrow> bool" where
  "apps_return apps \<longleftrightarrow> (\<forall>a w. app_new apps a w \<noteq> None) \<and> (\<forall>e s. app_input apps e s \<noteq> None) \<and> (\<forall>x y s. app_click apps x y s \<noteq> None)"

definition desk_ok :: "('a, 'w) desk \<Rightarrow> bool" where
  "desk_ok = (\<lambda>(d, wm, w). icons d = icons desktop_new \<and> (\<forall>i. selected_icon d = Some i \<longrightarrow> i < length (icons desktop_new)) \<and> start_menu_selection d < length start_menu_items)"

lemma desk_ok_new: "desk_ok (desktop_new, wm, w)"
  by (simp add: desk_ok_def) (simp add: desktop_new_def start_menu_items_def)

lemma icons_ne: "desk_ok (d, s) \<Longrightarrow> 0 < length (icons d)"
  by (simp add: desk_ok_def split_beta) (simp add: desktop_new_def)

lemma apps_returnD:
  assumes "apps_return apps"
  shows "app_new apps a w \<noteq> None" "app_input apps e s \<noteq> None" "app_click apps x y s \<noteq> None"
  using assms unfolding apps_return_def by blast+

lemma open_app_returns: "apps_return apps \<Longrightarrow> open_app apps a s \<noteq> None"
  using apps_returnD(1) [of apps a "snd s"] by (simp add: open_app_def window_new_def Let_def split_beta del: not_None_eq)

lemma opens_ok: "apps_return apps \<Longrightarrow> desk_ok s \<Longrightarrow> \<exists>s' r. opens apps a s = Some (s', r) \<and> desk_ok s'"
  using open_app_returns [of apps a "snd s"] by (auto simp: opens_def desk_ok_def split_beta)

text \<open>A handler returns and keeps the desktop well formed.\<close>

definition good :: "(('a, 'w) desk \<times> 'r) option \<Rightarrow> bool" where
  "good x \<longleftrightarrow> (case x of None \<Rightarrow> False | Some (s', _) \<Rightarrow> desk_ok s')"

lemma good_simps [simp]: "good (Some (s, r)) = desk_ok s" "\<not> good None"
  by (simp_all add: good_def)

lemma goodE: "good x \<Longrightarrow> (\<And>s r. x = Some (s, r) \<Longrightarrow> desk_ok s \<Longrightarrow> P) \<Longrightarrow> P"
  by (cases x) (auto simp: good_def)

lemma good_if: "(b \<Longrightarrow> good x) \<Longrightarrow> (\<not> b \<Longrightarrow> good y) \<Longrightarrow> good (if b then x else y)"
  by simp

lemma good_case: "(v = None \<Longrightarrow> good x) \<Longrightarrow> (\<And>a. v = Some a \<Longrightarrow> good (y a)) \<Longrightarrow> good (case v of None \<Rightarrow> x | Some a \<Rightarrow> y a)"
  by (cases v) simp_all

lemma good_opens: "apps_return apps \<Longrightarrow> desk_ok s \<Longrightarrow> good (opens apps a s)"
  using opens_ok [of apps s a] by auto

lemma desk_ok_upd:
  "desk_ok (d, wm, w) \<Longrightarrow> desk_ok (d\<lparr>start_menu_open := b\<rparr>, wm', w')"
  "desk_ok (d, wm, w) \<Longrightarrow> i < length (icons d) \<Longrightarrow> desk_ok (d\<lparr>selected_icon := Some i\<rparr>, wm', w')"
  "desk_ok (d, wm, w) \<Longrightarrow> desk_ok (d\<lparr>selected_icon := None\<rparr>, wm', w')"
  "desk_ok (d, wm, w) \<Longrightarrow> m < length start_menu_items \<Longrightarrow> desk_ok (d\<lparr>start_menu_selection := m\<rparr>, wm', w')"
  "desk_ok (d, wm, w) \<Longrightarrow> desk_ok (d, wm', w')"
  by (simp_all add: desk_ok_def)

lemma desktop_input_ok: "apps_return apps \<Longrightarrow> desk_ok (d, wm, w) \<Longrightarrow> good (handle_desktop_input apps e (d, wm, w))"
  unfolding handle_desktop_input_def prod.case Let_def using icons_ne [of d "(wm, w)"]
  by (intro good_if good_case good_opens) (auto simp: desk_ok_def split: option.split)

lemma start_menu_input_ok: "apps_return apps \<Longrightarrow> desk_ok (d, wm, w) \<Longrightarrow> good (handle_start_menu_input apps e (d, wm, w))"
  unfolding handle_start_menu_input_def prod.case Let_def
  by (intro good_if good_case good_opens) (auto simp: desk_ok_def)

lemma handle_click_returns:
  assumes "apps_return apps"
  shows "handle_click apps mx my s \<noteq> None"
  by (simp add: handle_click_def Let_def split_beta apps_returnD(3) [OF assms] del: not_None_eq split: option.split)

lemma handle_input_returns:
  assumes "apps_return apps"
  shows "handle_input apps e s \<noteq> None"
  by (simp add: handle_input_def Let_def split_beta apps_returnD(2) [OF assms] del: not_None_eq split: option.split)

lemma mouse_click_ok: "apps_return apps \<Longrightarrow> desk_ok (d, wm, w) \<Longrightarrow> good (handle_mouse_click apps mx my sw sh (d, wm, w))"
proof -
  assume a: "apps_return apps" "desk_ok (d, wm, w)"
  have menu: "good (menu_click apps off (d, wm, w))" for off
    unfolding menu_click_def prod.case Let_def by (intro good_if good_case good_opens) (use a in \<open>auto intro: desk_ok_upd\<close>)
  have icon: "good (icon_click apps mx my (d', wm', w'))" if "desk_ok (d', wm', w')" for d' wm' w'
    unfolding icon_click_def prod.case
    by (intro good_if good_case good_opens) (use a(1) that in \<open>auto simp: position_Some intro: desk_ok_upd\<close>)
  have bar: "good (case taskbar_click mx my sw tb (d', wm) of (d, wm) \<Rightarrow> Some ((d, wm, w), Redraw))" if "desk_ok (d', wm, w)" for tb d'
    using that by (auto simp: taskbar_click_def desk_ok_def Let_def start_menu_items_def split: option.split)
  have click: "good (case handle_click apps mx my (wm, w) of None \<Rightarrow> None | Some (s, Some r) \<Rightarrow> Some ((d', s), r) | Some (s, None) \<Rightarrow> icon_click apps mx my (d', s))"
    if "desk_ok (d', wm, w)" for d'
  proof -
    obtain wm' w' r where "handle_click apps mx my (wm, w) = Some ((wm', w'), r)"
      using handle_click_returns [OF a(1), of mx my "(wm, w)"] by (metis not_None_eq surj_pair)
    moreover have "desk_ok (d', wm', w')" using that by (rule desk_ok_upd(5))
    ultimately show ?thesis using icon by (simp split: option.split)
  qed
  have "desk_ok (if start_menu_open d then d\<lparr>start_menu_open := False\<rparr> else d, wm, w)" using a(2) by (simp add: desk_ok_upd(1))
  then show ?thesis unfolding handle_mouse_click_def prod.case Let_def by (intro good_if menu bar click)
qed

lemma drag_action_ok: "desk_ok s \<Longrightarrow> desk_ok (fst (drag_action moved mx my s))"
  by (cases s) (auto simp: drag_action_def intro: desk_ok_upd split: prod.split)

lemma key_action_ok: "apps_return apps \<Longrightarrow> desk_ok (d, wm, w) \<Longrightarrow> good (key_action apps e (d, wm, w))"
proof -
  assume a: "apps_return apps" "desk_ok (d, wm, w)"
  have "good (map_option (\<lambda>(s, r). ((d, s), r)) (handle_input apps k (wm, w)))" for k
    using handle_input_returns [OF a(1), of k "(wm, w)"] a(2) by (auto intro: desk_ok_upd)
  then show ?thesis unfolding key_action_def prod.case
    by (intro good_if good_case) (use a desktop_input_ok start_menu_input_ok in auto)
qed

lemma mouse_action_ok: "apps_return apps \<Longrightarrow> desk_ok (d, wm, w) \<Longrightarrow> good (mouse_action apps sw sh mx my c (d, wm, w))"
proof -
  assume a: "apps_return apps" "desk_ok (d, wm, w)"
  obtain wm' w' r where "handle_click apps mx my (wm, w) = Some ((wm', w'), r)"
    using handle_click_returns [OF a(1), of mx my "(wm, w)"] by (metis not_None_eq surj_pair)
  then show ?thesis using mouse_click_ok [OF a] a(2)
    by (cases c) (auto simp: mouse_action_def intro: desk_ok_upd split: option.split MouseClick.split)
qed

definition drivers_ok :: "('a, 'w) Desktop \<Rightarrow> bool" where
  "drivers_ok s \<longleftrightarrow> mb_inv (MOUSE_BUFFER (dk_mouse s)) \<and> kb_inv (KEY_BUFFER (dk_keyboard s))"

lemma desktop_step_ok:
  assumes "apps_return apps" "desk_ok (dk s)" "drivers_ok s"
  shows "\<exists>s' f. desktop_step apps sw sh now s = Some (s', f) \<and> desk_ok (dk s') \<and> drivers_ok s'"
proof -
  obtain t c where f: "fold (track_event sw sh) (mb_abs (MOUSE_BUFFER (dk_mouse s))) (dk_tracker s, None) = (t, c)" by fastforce
  obtain m moved where p: "process_events sw sh (dk_tracker s) (dk_mouse s) = ((t, m), moved, c)" "mb_inv (MOUSE_BUFFER m)"
    using process_events_fold [OF _ f] assms(3) by (auto simp: drivers_ok_def)
  obtain d1 r1 where a: "mouse_action apps sw sh (tracker_x t) (tracker_y t) c (dk s) = Some (d1, r1)" "desk_ok d1"
    using mouse_action_ok [OF assms(1), of "fst (dk s)" "fst (snd (dk s))" "snd (snd (dk s))" sw sh "tracker_x t" "tracker_y t" c] assms(2)
    by (auto elim!: goodE)
  obtain d2 b where d: "drag_action moved (tracker_x t) (tracker_y t) d1 = (d2, b)" "desk_ok d2"
    using drag_action_ok [OF a(2), of moved "tracker_x t" "tracker_y t"] by (metis fst_conv surj_pair)
  obtain kb e where k: "try_read_char (dk_keyboard s) = Some (kb, e)" "kb_inv (KEY_BUFFER kb)"
    using try_read_char_abs [of "dk_keyboard s"] assms(3) by (auto simp: drivers_ok_def)
  obtain d3 r3 where ka: "key_action apps e d2 = Some (d3, r3)" "desk_ok d3"
    using key_action_ok [OF assms(1), of "fst d2" "fst (snd d2)" "snd (snd d2)" e] d(2) by (auto elim!: goodE)
  show ?thesis using p(2) k(2) ka(2) by (simp add: desktop_step_def p(1) a(1) d(1) k(1) ka(1) Let_def drivers_ok_def)
qed

text \<open>Iterations of the loop, interleaved with the interrupts of mouse and keyboard.\<close>

inductive desktop_run :: "('a, 'w) Apps \<Rightarrow> u32 \<Rightarrow> u32 \<Rightarrow> ('a, 'w) Desktop \<Rightarrow> ('a, 'w) Desktop \<Rightarrow> bool" for apps sw sh where
  Refl: "desktop_run apps sw sh s s"
| Iterate: "desktop_run apps sw sh s s' \<Longrightarrow> desktop_step apps sw sh now s' = Some (s'', Some f) \<Longrightarrow> desktop_run apps sw sh s s''"
| MouseIrq: "desktop_run apps sw sh s s' \<Longrightarrow> desktop_run apps sw sh s (s'\<lparr>dk_mouse := handle_irq b (dk_mouse s')\<rparr>)"
| KeyIrq: "desktop_run apps sw sh s s' \<Longrightarrow> desktop_run apps sw sh s (s'\<lparr>dk_keyboard := handle_scancode c (dk_keyboard s')\<rparr>)"

definition desktop_start :: "u32 \<Rightarrow> u32 \<Rightarrow> Mouse \<Rightarrow> Keyboard \<Rightarrow> u64 \<Rightarrow> 'w \<Rightarrow> ('a, 'w) Desktop" where
  "desktop_start sw sh m kb tick0 w = \<lparr>dk = (desktop_new, wm_new sw sh, w), dk_tracker = tracker_new sw sh, dk_mouse = m, dk_keyboard = kb, last_clock_tick = tick0\<rparr>"

lemma handle_irq_inv: "mb_inv (MOUSE_BUFFER m) \<Longrightarrow> mb_inv (MOUSE_BUFFER (handle_irq b m))"
  by (simp add: handle_irq_def Let_def mb_push_inv)

lemma desktop_run_ok:
  assumes "desktop_run apps sw sh s s'" "apps_return apps" "desk_ok (dk s)" "drivers_ok s"
  shows "desk_ok (dk s') \<and> drivers_ok s'"
  using assms
proof (induction rule: desktop_run.induct)
  case (Iterate s s' now s'' f)
  then show ?case using desktop_step_ok [of apps s' sw sh now] by auto
next
  case (KeyIrq s s' c)
  then show ?case using scancodes_abs(1) [of "dk_keyboard s'" "[c]"] by (simp add: drivers_ok_def)
qed (simp_all add: drivers_ok_def handle_irq_inv)




subsection \<open>Two surprises\<close>

lemma separator_item: "start_menu_items ! 12 = (separator, None)" "length start_menu_items = 14"
  by (simp_all add: start_menu_items_def)

text \<open>
  the separator of the start menu. A mouse click on the separator line does nothing, but pressing Enter while the
  selection, which the arrow keys move over it like over any item, stands on it leaves the desktop.
\<close>

theorem separator_exits:
  assumes "key e = Key_Enter" "start_menu_selection d = 12"
  shows "handle_start_menu_input apps e (d, s) = Some ((d\<lparr>start_menu_open := False\<rparr>, s), ExitDesktop) \<and>
    menu_click apps (12 * 20 + 7) (d, s) = Some ((d, s), Continue)"
  using assms separator_item by (simp add: handle_start_menu_input_def menu_click_def Let_def CHAR_HEIGHT_def)

theorem separator_exits_witness:
  "handle_start_menu_input plain_apps \<lparr>ascii = 0x0A, key = Key_Enter, pressed = True\<rparr> (desktop_new\<lparr>start_menu_selection := 12\<rparr>, wm_new 800 600, ()) =
     Some ((desktop_new\<lparr>start_menu_selection := 12, start_menu_open := False\<rparr>, wm_new 800 600, ()), ExitDesktop)"
  using separator_exits [of "\<lparr>ascii = 0x0A, key = Key_Enter, pressed = True\<rparr>" "desktop_new\<lparr>start_menu_selection := 12\<rparr>" plain_apps "(wm_new 800 600, ())"]
  by simp

text \<open>
  a quick click is lost. When the press and the release of the left button arrive in one batch of mouse events, the
  loop sees only the release: windows, icons, menu and applications are exactly as if the button had not been pressed.
\<close>

theorem quick_click_lost:
  assumes "mb_inv (MOUSE_BUFFER (dk_mouse s))" "mb_abs (MOUSE_BUFFER (dk_mouse s)) = [p, q]" "btn_left (ev_buttons p)" "\<not> btn_left (ev_buttons q)"
    "\<not> btn_right (ev_buttons p)" "\<not> btn_right (ev_buttons q)" "\<not> is_dragging (fst (snd (dk s)))"
    "kb_inv (KEY_BUFFER (dk_keyboard s))" "kb_abs (KEY_BUFFER (dk_keyboard s)) = []"
  shows "\<exists>s' f. desktop_step apps sw sh now s = Some (s', Some f) \<and> dk s' = dk s"
proof -
  obtain t where f: "fold (track_event sw sh) (mb_abs (MOUSE_BUFFER (dk_mouse s))) (dk_tracker s, None) = (t, Some LeftUp)"
    using assms(2-6) by (simp add: track_event_def Let_def)
  obtain m where p: "process_events sw sh (dk_tracker s) (dk_mouse s) = ((t, m), True, Some LeftUp)"
    using process_events_fold [OF assms(1) f] assms(2) by auto
  obtain kb where k: "try_read_char (dk_keyboard s) = Some (kb, None)" using try_read_char_abs [OF assms(8)] assms(9) by auto
  obtain d wm w where d: "dk s = (d, wm, w)" by (cases "dk s")
  show ?thesis using assms(7) by (simp add: desktop_step_def p k d mouse_action_def drag_action_def key_action_def Let_def)
qed

definition click_mouse :: Mouse where
  "click_mouse = mouse_new\<lparr>MOUSE_BUFFER := fold mb_push [\<lparr>ev_dx = 0, ev_dy = 0, ev_buttons = no_buttons\<lparr>btn_left := True\<rparr>\<rparr>,
     \<lparr>ev_dx = 0, ev_dy = 0, ev_buttons = no_buttons\<rparr>] mb_new\<rparr>"

theorem quick_click_lost_witness:
  "\<exists>s' f. desktop_step plain_apps 1024 768 0 (desktop_start 1024 768 click_mouse keyboard_new 0 ()) = Some (s', Some f) \<and>
    dk s' = (desktop_new, wm_new 1024 768, ())"
proof -
  let ?es = "[\<lparr>ev_dx = 0, ev_dy = 0, ev_buttons = no_buttons\<lparr>btn_left := True\<rparr>\<rparr>, \<lparr>ev_dx = 0, ev_dy = 0, ev_buttons = no_buttons\<rparr>] :: MouseEvent list"
  have "mb_inv (fold mb_push ?es mb_new) \<and> mb_abs (fold mb_push ?es mb_new) = lastn MOUSE_BUFFER_SIZE ?es"
    using mouse_ring.pushes [OF mb_new_abs(1), of ?es] by (simp add: mb_new_abs(2))
  moreover have "lastn MOUSE_BUFFER_SIZE ?es = ?es" by (simp add: lastn_def MOUSE_BUFFER_SIZE_def)
  ultimately show ?thesis
    using quick_click_lost [of "desktop_start 1024 768 click_mouse keyboard_new 0 () :: (unit, unit) Desktop" "?es ! 0" "?es ! 1" plain_apps 1024 768 0]
    by (simp add: desktop_start_def click_mouse_def no_buttons_def is_dragging_def wm_new_def keyboard_new_def kb_new_abs)
qed

end
