(* ===== verification/Loader.thy ===== *)
theory Loader
  imports Prelude
begin

unbundle bit_operations_syntax

text \<open>
  The boot loader's way from the files on the system partition to the image in memory:
  \<^verbatim>\<open>bootloader/src/loader.rs\<close> parses the kernel's ELF file and copies its loadable
  segments into a block of pages, \<^verbatim>\<open>bootloader/src/cmdline.rs\<close> reads and trims the
  command line. Physical memory is a function from addresses to bytes. The firmware (page
  allocation and file access) is a parameter. A failed assertion, an \<^verbatim>\<open>expect\<close> or a
  read outside the file is \<^const>\<open>None\<close>; the array of segment descriptions with its counter
  is the list of its valid entries.
\<close>


section \<open>The file\<close>

definition ELF_MAGIC :: "u8 list" where
  "ELF_MAGIC = [0x7F, 0x45, 0x4C, 0x46]"

definition ELF_CLASS_64 :: u8 where
  "ELF_CLASS_64 = 2"

definition ELF_DATA_LSB :: u8 where
  "ELF_DATA_LSB = 1"

definition ELF_TYPE_EXEC :: u16 where
  "ELF_TYPE_EXEC = 2"

definition ELF_TYPE_DYN :: u16 where
  "ELF_TYPE_DYN = 3"

definition PT_LOAD :: u32 where
  "PT_LOAD = 1"

definition EM_X86_64 :: u16 where
  "EM_X86_64 = 0x3E"

definition PF_X :: u32 where
  "PF_X = 1"

definition PF_W :: u32 where
  "PF_W = 2"

definition PF_R :: u32 where
  "PF_R = 4"

record Elf64Header =
  e_ident :: "u8 list"
  e_type :: u16
  e_machine :: u16
  e_version :: u32
  e_entry :: u64
  e_phoff :: u64
  e_shoff :: u64
  e_flags :: u32
  e_ehsize :: u16
  e_phentsize :: u16
  e_phnum :: u16
  e_shentsize :: u16
  e_shnum :: u16
  e_shstrndx :: u16

record Elf64ProgramHeader =
  p_type :: u32
  p_flags :: u32
  p_offset :: u64
  p_vaddr :: u64
  p_paddr :: u64
  p_filesz :: u64
  p_memsz :: u64
  p_align :: u64

text \<open>
  A field of a packed structure read through a pointer into the file: the bytes at its offset,
  the least significant one first.
\<close>

fun le_value :: "u8 list \<Rightarrow> u64" where
  "le_value [] = 0"
| "le_value (b # bs) = ucast b OR push_bit 8 (le_value bs)"

definition le_field :: "u8 list \<Rightarrow> nat \<Rightarrow> nat \<Rightarrow> u64" where
  "le_field data off n = le_value (take n (drop off data))"

definition HEADER_SIZE :: nat where
  "HEADER_SIZE = 64"

definition PROGRAM_HEADER_SIZE :: nat where
  "PROGRAM_HEADER_SIZE = 56"

definition elf_header :: "u8 list \<Rightarrow> Elf64Header" where
  "elf_header data =
     \<lparr>e_ident = take 16 data,
      e_type = ucast (le_field data 16 2),
      e_machine = ucast (le_field data 18 2),
      e_version = ucast (le_field data 20 4),
      e_entry = le_field data 24 8,
      e_phoff = le_field data 32 8,
      e_shoff = le_field data 40 8,
      e_flags = ucast (le_field data 48 4),
      e_ehsize = ucast (le_field data 52 2),
      e_phentsize = ucast (le_field data 54 2),
      e_phnum = ucast (le_field data 56 2),
      e_shentsize = ucast (le_field data 58 2),
      e_shnum = ucast (le_field data 60 2),
      e_shstrndx = ucast (le_field data 62 2)\<rparr>"

definition program_header :: "u8 list \<Rightarrow> nat \<Rightarrow> Elf64ProgramHeader" where
  "program_header data off =
     \<lparr>p_type = ucast (le_field data off 4),
      p_flags = ucast (le_field data (off + 4) 4),
      p_offset = le_field data (off + 8) 8,
      p_vaddr = le_field data (off + 16) 8,
      p_paddr = le_field data (off + 24) 8,
      p_filesz = le_field data (off + 32) 8,
      p_memsz = le_field data (off + 40) 8,
      p_align = le_field data (off + 48) 8\<rparr>"


section \<open>Loading\<close>

record SegmentInfo =
  offset_from_base :: u64
  seg_size :: u64
  seg_flags :: u32

record KernelLoadInfo =
  entry_point :: u64
  physical_base :: u64
  virtual_base :: u64
  kernel_size :: u64
  segments :: "SegmentInfo list"

type_synonym phys_memory = "u64 \<Rightarrow> u8"

text \<open>
  The four assertions on the header, in their order.
\<close>

definition header_ok :: "u8 list \<Rightarrow> bool" where
  "header_ok data =
     (let h = elf_header data in
      take 4 (e_ident h) = ELF_MAGIC \<and>
      e_ident h ! 4 = ELF_CLASS_64 \<and>
      e_ident h ! 5 = ELF_DATA_LSB \<and>
      (e_type h = ELF_TYPE_EXEC \<or> e_type h = ELF_TYPE_DYN) \<and>
      e_machine h = EM_X86_64)"

text \<open>
  The i-th program header. The bound is checked with the entry size the file declares, while 56
  bytes are read: a read beyond the file is \<^const>\<open>None\<close>, like a failed assertion. The
  addition of the bound check wraps.
\<close>

definition ph_address :: "Elf64Header \<Rightarrow> nat \<Rightarrow> u64" where
  "ph_address h i = e_phoff h + of_nat i * ucast (e_phentsize h)"

definition read_ph :: "u8 list \<Rightarrow> nat \<Rightarrow> Elf64ProgramHeader option" where
  "read_ph data i =
     (let h = elf_header data;
          ph_addr = ph_address h i
      in if \<not> unat (ph_addr + ucast (e_phentsize h)) \<le> length data then None
         else if length data < unat ph_addr + PROGRAM_HEADER_SIZE then None
         else Some (program_header data (unat ph_addr)))"

fun first_pass :: "u8 list \<Rightarrow> nat list \<Rightarrow> u64 \<times> u64 \<Rightarrow> (u64 \<times> u64) option" where
  "first_pass data [] acc = Some acc"
| "first_pass data (i # is) (vbase, total_end) =
     (case read_ph data i of
        None \<Rightarrow> None
      | Some ph \<Rightarrow>
          if p_type ph \<noteq> PT_LOAD then first_pass data is (vbase, total_end)
          else let vaddr = p_vaddr ph;
                   memsz = p_memsz ph
               in first_pass data is
                    (if vaddr < vbase then vaddr else vbase,
                     if vaddr + memsz > total_end then vaddr + memsz else total_end))"

text \<open>
  \<^verbatim>\<open>ptr::write_bytes\<close> and \<^verbatim>\<open>ptr::copy_nonoverlapping\<close>.
\<close>

definition write_zeros :: "u64 \<Rightarrow> u64 \<Rightarrow> phys_memory \<Rightarrow> phys_memory" where
  "write_zeros dest n m = (\<lambda>a. if a - dest < n then 0 else m a)"

definition copy_bytes :: "u64 \<Rightarrow> u8 list \<Rightarrow> phys_memory \<Rightarrow> phys_memory" where
  "copy_bytes dest src m =
     (\<lambda>a. if unat (a - dest) < length src then src ! unat (a - dest) else m a)"

definition MAX_SEGMENTS :: nat where
  "MAX_SEGMENTS = 8"

text \<open>
  One iteration of the second pass. The slice expression panics when its start is after its end,
  which a wrapped sum can produce.
\<close>

definition load_segment ::
  "u8 list \<Rightarrow> u64 \<Rightarrow> u64 \<Rightarrow> Elf64ProgramHeader \<Rightarrow> phys_memory \<times> SegmentInfo list
   \<Rightarrow> (phys_memory \<times> SegmentInfo list) option" where
  "load_segment data phys vbase ph = (\<lambda>(m, segs).
     let offset_in_kernel = p_vaddr ph - vbase;
         dest = phys + offset_in_kernel;
         file_end = p_offset ph + p_filesz ph
     in if \<not> unat file_end \<le> length data then None
        else if file_end < p_offset ph then None
        else let src = take (unat file_end - unat (p_offset ph)) (drop (unat (p_offset ph)) data);
                 m' = copy_bytes dest src m;
                 info = \<lparr>offset_from_base = offset_in_kernel, seg_size = p_memsz ph, seg_flags = p_flags ph\<rparr>
             in Some (m', if length segs < MAX_SEGMENTS then segs @ [info] else segs))"

fun second_pass ::
  "u8 list \<Rightarrow> u64 \<Rightarrow> u64 \<Rightarrow> nat list \<Rightarrow> phys_memory \<times> SegmentInfo list
   \<Rightarrow> (phys_memory \<times> SegmentInfo list) option" where
  "second_pass data phys vbase [] st = Some st"
| "second_pass data phys vbase (i # is) st =
     (let ph = program_header data (unat (ph_address (elf_header data) i))
      in if p_type ph \<noteq> PT_LOAD then second_pass data phys vbase is st
         else case load_segment data phys vbase ph st of
                None \<Rightarrow> None
              | Some st' \<Rightarrow> second_pass data phys vbase is st')"

text \<open>
  The firmware's \<^verbatim>\<open>allocate_pages\<close> is the parameter: the number of pages to the
  address of the block, or \<^const>\<open>None\<close>.
\<close>

definition parse_and_load_elf ::
  "(u64 \<Rightarrow> u64 option) \<Rightarrow> u8 list \<Rightarrow> phys_memory \<Rightarrow> (KernelLoadInfo \<times> phys_memory) option" where
  "parse_and_load_elf allocate_pages data m =
     (if length data < HEADER_SIZE then None
      else if \<not> header_ok data then None
      else
        let h = elf_header data;
            ph_count = unat (e_phnum h)
        in case first_pass data [0..<ph_count] (-1, 0) of
             None \<Rightarrow> None
           | Some (vbase, total_end) \<Rightarrow>
               let total_size = total_end - vbase;
                   pages_needed = (total_size + 4095) div 4096
               in case allocate_pages pages_needed of
                    None \<Rightarrow> None
                  | Some phys_addr \<Rightarrow>
                      (case second_pass data phys_addr vbase [0..<ph_count]
                              (write_zeros phys_addr (pages_needed * 4096) m, []) of
                         None \<Rightarrow> None
                       | Some (m', segs) \<Rightarrow>
                           Some (\<lparr>entry_point = e_entry h, physical_base = phys_addr,
                                  virtual_base = vbase, kernel_size = total_size,
                                  segments = segs\<rparr>, m')))"


section \<open>What loading does\<close>

definition program_headers :: "u8 list \<Rightarrow> Elf64ProgramHeader list" where
  "program_headers data =
     map (\<lambda>i. program_header data (unat (ph_address (elf_header data) i)))
       [0..<unat (e_phnum (elf_header data))]"

definition is_load :: "Elf64ProgramHeader \<Rightarrow> bool" where
  "is_load ph = (p_type ph = PT_LOAD)"

definition loads :: "u8 list \<Rightarrow> Elf64ProgramHeader list" where
  "loads data = filter is_load (program_headers data)"

definition seg_end :: "Elf64ProgramHeader \<Rightarrow> nat" where
  "seg_end ph = unat (p_vaddr ph) + unat (p_memsz ph)"

definition apart :: "Elf64ProgramHeader \<Rightarrow> Elf64ProgramHeader \<Rightarrow> bool" where
  "apart p q = (seg_end p \<le> unat (p_vaddr q) \<or> seg_end q \<le> unat (p_vaddr p))"

text \<open>
  A loadable segment of a well-formed image: it does not reach the end of the address space, its
  file part is not longer than the segment and lies in the file.
\<close>

definition segment_ok :: "u8 list \<Rightarrow> Elf64ProgramHeader \<Rightarrow> bool" where
  "segment_ok data ph =
     (seg_end ph + 4096 \<le> 2 ^ 64 \<and> p_filesz ph \<le> p_memsz ph \<and>
      unat (p_offset ph) + unat (p_filesz ph) \<le> length data)"

definition image_ok :: "u8 list \<Rightarrow> bool" where
  "image_ok data =
     (let h = elf_header data in
      HEADER_SIZE \<le> length data \<and> length data < 2 ^ 64 \<and> header_ok data \<and>
      56 \<le> e_phentsize h \<and>
      unat (e_phoff h) + unat (e_phnum h) * unat (e_phentsize h) \<le> length data \<and>
      loads data \<noteq> [] \<and> list_all (segment_ok data) (loads data) \<and> sorted_wrt apart (loads data))"

lemma unat_sub_less_iff:
  fixes x off :: u64
  assumes "unat off + n \<le> 2 ^ 64"
  shows "unat (x - off) < n \<longleftrightarrow> unat off \<le> unat x \<and> unat x < unat off + n"
  using assms unat_lt2p [of x] by (auto simp: unat_sub_if' split: if_splits)

lemma ph_address_ok:
  assumes "image_ok data" "i < unat (e_phnum (elf_header data))"
  shows "unat (ph_address (elf_header data) i)
           = unat (e_phoff (elf_header data)) + i * unat (e_phentsize (elf_header data))"
    and "unat (ph_address (elf_header data) i) + unat (e_phentsize (elf_header data)) \<le> length data"
proof -
  define h where "h = elf_header data"
  have b: "unat (e_phoff h) + unat (e_phnum h) * unat (e_phentsize h) \<le> length data" "length data < 2 ^ 64"
    using assms(1) by (auto simp: image_ok_def h_def Let_def)
  have "(i + 1) * unat (e_phentsize h) \<le> unat (e_phnum h) * unat (e_phentsize h)"
    using assms(2) by (intro mult_le_mono1) (simp add: h_def)
  hence c: "unat (e_phoff h) + i * unat (e_phentsize h) + unat (e_phentsize h) \<le> length data"
    using b by simp
  have e: "ph_address h i = of_nat (unat (e_phoff h) + i * unat (e_phentsize h))"
    by (simp add: ph_address_def unat_ucast_le)
  have d: "unat (e_phoff h) + i * unat (e_phentsize h) < 2 ^ 64"
    using b c by linarith
  show u: "unat (ph_address (elf_header data) i) = unat (e_phoff (elf_header data)) + i * unat (e_phentsize (elf_header data))"
    unfolding h_def [symmetric] e using d by (subst unat_of_nat_small) simp_all
  show "unat (ph_address (elf_header data) i) + unat (e_phentsize (elf_header data)) \<le> length data"
    unfolding u using c by (simp add: h_def)
qed

lemma read_ph_ok:
  assumes "image_ok data" "i < unat (e_phnum (elf_header data))"
  shows "read_ph data i = Some (program_header data (unat (ph_address (elf_header data) i)))"
proof -
  define h where "h = elf_header data"
  have p: "unat (ph_address h i) + unat (e_phentsize h) \<le> length data"
    using ph_address_ok(2) [OF assms] by (simp add: h_def)
  have l: "length data < 2 ^ 64" "56 \<le> e_phentsize h"
    using assms(1) by (auto simp: image_ok_def h_def Let_def)
  have s: "56 \<le> unat (e_phentsize h)"
    using l(2) by (simp add: word_le_nat_alt)
  have "unat (ph_address h i + ucast (e_phentsize h)) = unat (ph_address h i) + unat (e_phentsize h)"
    using p l(1) by (subst unat_add_no_overflow) (simp_all add: unat_ucast_le)
  thus ?thesis
    using p s by (simp add: read_ph_def h_def [symmetric] PROGRAM_HEADER_SIZE_def)
qed

definition pass_step :: "u64 \<times> u64 \<Rightarrow> Elf64ProgramHeader \<Rightarrow> u64 \<times> u64" where
  "pass_step acc ph = (min (p_vaddr ph) (fst acc), max (p_vaddr ph + p_memsz ph) (snd acc))"

lemma first_pass_foldl:
  assumes "image_ok data" "\<forall>i\<in>set is. i < unat (e_phnum (elf_header data))"
  shows "first_pass data is acc =
    Some (foldl pass_step acc (filter is_load
      (map (\<lambda>i. program_header data (unat (ph_address (elf_header data) i))) is)))"
  using assms(2)
proof (induction "is" arbitrary: acc)
  case (Cons i "is")
  have "read_ph data i = Some (program_header data (unat (ph_address (elf_header data) i)))"
    using Cons.prems by (intro read_ph_ok [OF assms(1)]) simp
  thus ?case
    using Cons by (cases acc) (auto simp: Let_def is_load_def pass_step_def min_def max_def not_less)
qed simp

fun load_all ::
  "u8 list \<Rightarrow> u64 \<Rightarrow> u64 \<Rightarrow> Elf64ProgramHeader list \<Rightarrow> phys_memory \<times> SegmentInfo list
   \<Rightarrow> (phys_memory \<times> SegmentInfo list) option" where
  "load_all data phys vbase [] st = Some st"
| "load_all data phys vbase (ph # phs) st =
     (case load_segment data phys vbase ph st of
        None \<Rightarrow> None
      | Some st' \<Rightarrow> load_all data phys vbase phs st')"

lemma second_pass_load_all:
  "second_pass data phys vbase is st =
     load_all data phys vbase (filter is_load
       (map (\<lambda>i. program_header data (unat (ph_address (elf_header data) i))) is)) st"
  by (induction "is" arbitrary: st) (auto simp: Let_def is_load_def split: option.split)

lemma foldl_pass_step:
  assumes "foldl pass_step (vb, te) phs = (vb', te')"
  shows "vb' \<le> vb" "te \<le> te'"
    and "\<And>ph. ph \<in> set phs \<Longrightarrow> vb' \<le> p_vaddr ph \<and> p_vaddr ph + p_memsz ph \<le> te'"
    and "vb' = vb \<or> vb' \<in> p_vaddr ` set phs"
    and "te' = te \<or> te' \<in> (\<lambda>ph. p_vaddr ph + p_memsz ph) ` set phs"
proof -
  have "vb' \<le> vb \<and> te \<le> te' \<and> (\<forall>ph\<in>set phs. vb' \<le> p_vaddr ph \<and> p_vaddr ph + p_memsz ph \<le> te')
     \<and> (vb' = vb \<or> vb' \<in> p_vaddr ` set phs)
     \<and> (te' = te \<or> te' \<in> (\<lambda>ph. p_vaddr ph + p_memsz ph) ` set phs)"
    using assms
  proof (induction phs arbitrary: vb te)
    case (Cons ph phs)
    have "foldl pass_step (min (p_vaddr ph) vb, max (p_vaddr ph + p_memsz ph) te) phs = (vb', te')"
      using Cons.prems by (simp add: pass_step_def [of _ ph])
    from Cons.IH [OF this] show ?case
      by (auto simp: min_def max_def split: if_splits)
  qed simp
  thus "vb' \<le> vb" "te \<le> te'"
    and "\<And>ph. ph \<in> set phs \<Longrightarrow> vb' \<le> p_vaddr ph \<and> p_vaddr ph + p_memsz ph \<le> te'"
    and "vb' = vb \<or> vb' \<in> p_vaddr ` set phs"
    and "te' = te \<or> te' \<in> (\<lambda>ph. p_vaddr ph + p_memsz ph) ` set phs"
    by blast+
qed

text \<open>
  Where the base is below every segment, offsets in the image are differences of addresses.
\<close>

lemma unat_offset:
  fixes v b :: u64
  shows "b \<le> v \<Longrightarrow> unat (v - b) = unat v - unat b"
  by (simp add: unat_sub word_le_nat_alt)

definition segment_info :: "u64 \<Rightarrow> Elf64ProgramHeader \<Rightarrow> SegmentInfo" where
  "segment_info vbase ph =
     \<lparr>offset_from_base = p_vaddr ph - vbase, seg_size = p_memsz ph, seg_flags = p_flags ph\<rparr>"

lemma segment_okD:
  assumes "segment_ok data ph"
  shows "unat (p_vaddr ph + p_memsz ph) = seg_end ph" "seg_end ph + 4096 \<le> 2 ^ 64"
    "unat (p_filesz ph) \<le> unat (p_memsz ph)"
    "unat (p_offset ph) + unat (p_filesz ph) \<le> length data"
  using assms by (auto simp: segment_ok_def seg_end_def word_le_nat_alt unat_add_lem [THEN iffD1])

lemma load_segment_ok:
  assumes "segment_ok data ph" "length data < 2 ^ 64"
  shows "load_segment data phys vbase ph (m, segs) =
    Some (\<lambda>a. if unat (a - phys - (p_vaddr ph - vbase)) < unat (p_filesz ph)
              then data ! (unat (p_offset ph) + unat (a - phys - (p_vaddr ph - vbase))) else m a,
          if length segs < MAX_SEGMENTS then segs @ [segment_info vbase ph] else segs)"
proof -
  note s = segment_okD [OF assms(1)]
  have u: "unat (p_offset ph + p_filesz ph) = unat (p_offset ph) + unat (p_filesz ph)"
    using s(4) assms(2) by (simp add: unat_add_lem [THEN iffD1])
  have n: "\<not> p_offset ph + p_filesz ph < p_offset ph"
    by (simp add: word_less_nat_alt u)
  have l: "length (take (unat (p_filesz ph)) (drop (unat (p_offset ph)) data)) = unat (p_filesz ph)"
    using s(4) by simp
  have e: "a - (phys + (p_vaddr ph - vbase)) = a - phys - (p_vaddr ph - vbase)" for a
    by simp
  show ?thesis
    unfolding load_segment_def copy_bytes_def Let_def e segment_info_def
    using s(4) n by (auto simp: u l fun_eq_iff)
qed

text \<open>
  A virtual address that the file part of a segment provides.
\<close>

definition in_file :: "Elf64ProgramHeader \<Rightarrow> nat \<Rightarrow> bool" where
  "in_file ph v = (unat (p_vaddr ph) \<le> v \<and> v < unat (p_vaddr ph) + unat (p_filesz ph))"

text \<open>
  The memory after the second pass: a byte of the file part of a segment, or what was there.
\<close>

lemma load_all_ok:
  assumes "list_all (segment_ok data) phs" "length data < 2 ^ 64" "sorted_wrt apart phs"
    and "\<And>ph. ph \<in> set phs \<Longrightarrow> vbase \<le> p_vaddr ph"
  shows "\<exists>m'. load_all data phys vbase phs (m, segs)
      = Some (m', segs @ map (segment_info vbase) (take (MAX_SEGMENTS - length segs) phs))
    \<and> (\<forall>ph\<in>set phs. \<forall>j<unat (p_filesz ph).
         m' (phys + (p_vaddr ph - vbase) + of_nat j) = data ! (unat (p_offset ph) + j))
    \<and> (\<forall>a. (\<forall>ph\<in>set phs. \<not> in_file ph (unat vbase + unat (a - phys))) \<longrightarrow> m' a = m a)"
  using assms
proof (induction phs arbitrary: m segs)
  case (Cons ph phs)
  define off where "off = p_vaddr ph - vbase"
  define m1 where "m1 = (\<lambda>a. if unat (a - phys - off) < unat (p_filesz ph)
              then data ! (unat (p_offset ph) + unat (a - phys - off)) else m a)"
  define s1 where "s1 = (if length segs < MAX_SEGMENTS then segs @ [segment_info vbase ph] else segs)"
  have ok: "segment_ok data ph" "vbase \<le> p_vaddr ph"
    using Cons.prems by auto
  note s = segment_okD [OF ok(1)]
  have st: "load_segment data phys vbase ph (m, segs) = Some (m1, s1)"
    unfolding load_segment_ok [OF ok(1) Cons.prems(2)] m1_def s1_def off_def by simp
  have uo: "unat off = unat (p_vaddr ph) - unat vbase" "unat vbase \<le> unat (p_vaddr ph)"
    using ok(2) by (auto simp: off_def unat_offset word_le_nat_alt)
  have bound: "unat off + unat (p_filesz ph) \<le> 2 ^ 64"
    using s uo by (simp add: seg_end_def)
  have hit: "unat (x - off) < unat (p_filesz ph) \<longleftrightarrow> in_file ph (unat vbase + unat x)" for x
    unfolding unat_sub_less_iff [OF bound] in_file_def using uo by auto
  from Cons.IH [of m1 s1] Cons.prems obtain m' where
    r: "load_all data phys vbase phs (m1, s1)
          = Some (m', s1 @ map (segment_info vbase) (take (MAX_SEGMENTS - length s1) phs))"
    and f: "\<forall>ph\<in>set phs. \<forall>j<unat (p_filesz ph).
         m' (phys + (p_vaddr ph - vbase) + of_nat j) = data ! (unat (p_offset ph) + j)"
    and o: "\<forall>a. (\<forall>ph\<in>set phs. \<not> in_file ph (unat vbase + unat (a - phys))) \<longrightarrow> m' a = m1 a"
    by auto
  have segs: "s1 @ map (segment_info vbase) (take (MAX_SEGMENTS - length s1) phs)
      = segs @ map (segment_info vbase) (take (MAX_SEGMENTS - length segs) (ph # phs))"
    by (auto simp: s1_def take_Cons' Suc_diff_Suc [symmetric] Suc_diff_le)
  have own: "m' (phys + off + of_nat j) = data ! (unat (p_offset ph) + j)" if j: "j < unat (p_filesz ph)" for j
  proof -
    have jb: "j < 2 ^ 64"
      using j unat_lt2p [of "p_filesz ph"] by simp
    have x: "unat (of_nat j :: u64) = j"
      by (rule unat_of_nat_small) (use jb in simp)
    have a: "phys + off + of_nat j - phys = off + of_nat j" by simp
    have ua: "unat (off + of_nat j) = unat off + j"
      using bound j x by (subst unat_add_lem [THEN iffD1]) (auto simp: x)
    have "\<not> in_file q (unat vbase + unat (off + of_nat j))"
      if q: "q \<in> set phs" for q
    proof -
      have "apart ph q" "segment_ok data q"
        using Cons.prems q by (auto simp: list_all_iff)
      thus ?thesis
        using uo j s(3) segment_okD(3) [of data q] unfolding ua by (auto simp: apart_def seg_end_def in_file_def)
    qed
    hence "m' (phys + off + of_nat j) = m1 (phys + off + of_nat j)"
      using o by (simp add: a)
    thus ?thesis
      using j by (simp add: m1_def x)
  qed
  have keep: "m' a = m a"
    if n: "\<forall>q\<in>set (ph # phs). \<not> in_file q (unat vbase + unat (a - phys))" for a
  proof -
    have "m' a = m1 a" using o n by simp
    moreover have "\<not> unat (a - phys - off) < unat (p_filesz ph)"
      using n unfolding hit by simp
    ultimately show ?thesis by (simp add: m1_def)
  qed
  have "load_all data phys vbase (ph # phs) (m, segs)
      = Some (m', segs @ map (segment_info vbase) (take (MAX_SEGMENTS - length segs) (ph # phs)))"
    using r by (simp add: st segs)
  moreover have "\<forall>q\<in>set (ph # phs). \<forall>j<unat (p_filesz q).
         m' (phys + (p_vaddr q - vbase) + of_nat j) = data ! (unat (p_offset q) + j)"
    using f own by (simp add: off_def)
  ultimately show ?case
    using keep by blast
qed simp

text \<open>
  The extent of the image in virtual memory, and the pages it takes.
\<close>

definition image_base :: "u8 list \<Rightarrow> nat" where
  "image_base data = Min (set (map (\<lambda>ph. unat (p_vaddr ph)) (loads data)))"

definition image_end :: "u8 list \<Rightarrow> nat" where
  "image_end data = Max (set (map seg_end (loads data)))"

definition image_pages :: "u8 list \<Rightarrow> nat" where
  "image_pages data = (image_end data - image_base data + 4095) div 4096"

lemma image_extent:
  assumes "image_ok data" "ph \<in> set (loads data)"
  shows "image_base data \<le> unat (p_vaddr ph)" "seg_end ph \<le> image_end data"
    "image_base data \<le> image_end data" "image_end data + 4096 \<le> 2 ^ 64"
proof -
  show b: "image_base data \<le> unat (p_vaddr ph)" and e: "seg_end ph \<le> image_end data"
    using assms(2) by (auto simp: image_base_def image_end_def)
  show "image_base data \<le> image_end data"
    using b e by (simp add: seg_end_def)
  have "image_end data \<in> set (map seg_end (loads data))"
    unfolding image_end_def using assms(2) by (intro Max_in) auto
  thus "image_end data + 4096 \<le> 2 ^ 64"
    using assms(1) by (auto simp: image_ok_def Let_def list_all_iff segment_ok_def)
qed

lemma first_pass_extent:
  assumes "image_ok data"
  shows "first_pass data [0..<unat (e_phnum (elf_header data))] (-1, 0)
    = Some (of_nat (image_base data), of_nat (image_end data))"
proof -
  obtain vb te where r: "foldl pass_step (-1, 0) (loads data) = (vb, te)"
    by (cases "foldl pass_step (-1, 0) (loads data)")
  have fp: "first_pass data [0..<unat (e_phnum (elf_header data))] (-1, 0) = Some (vb, te)"
    by (subst first_pass_foldl [OF assms]) (auto simp: r [unfolded loads_def program_headers_def])
  note f = foldl_pass_step [OF r]
  obtain p ps where l: "loads data = p # ps"
    using assms by (cases "loads data") (auto simp: image_ok_def Let_def)
  have e: "unat (p_vaddr ph + p_memsz ph) = seg_end ph" if "ph \<in> set (loads data)" for ph
    using assms that segment_okD(1) by (auto simp: image_ok_def Let_def list_all_iff)
  have "unat vb = image_base data"
    unfolding image_base_def
  proof (rule Min_eqI [symmetric])
    show "unat vb \<in> set (map (\<lambda>ph. unat (p_vaddr ph)) (loads data))"
    proof (cases "vb = -1")
      case True
      then have "vb = p_vaddr p" using f(3) [of p] l by (simp add: word_order.extremum_unique)
      then show ?thesis using l by auto
    next
      case False
      then show ?thesis using f(4) by auto
    qed
  qed (use f(3) in \<open>auto simp: word_le_nat_alt\<close>)
  moreover have "unat te = image_end data"
    unfolding image_end_def
  proof (rule Max_eqI [symmetric])
    show "unat te \<in> set (map seg_end (loads data))"
    proof (cases "te = 0")
      case True
      then have "te = p_vaddr p + p_memsz p" using f(3) [of p] l by simp
      then show ?thesis using l e [of p] by auto
    next
      case False
      then show ?thesis using f(5) e by force
    qed
  qed (use f(3) e in \<open>force simp: word_le_nat_alt\<close>)+
  ultimately show ?thesis
    unfolding fp by (metis of_nat_unat ucast_id)
qed

lemma image_bounds:
  assumes "image_ok data"
  shows "image_base data \<le> image_end data" "image_end data + 4096 \<le> 2 ^ 64"
    "image_pages data * 4096 < 2 ^ 64" "image_end data - image_base data \<le> image_pages data * 4096"
proof -
  have l: "hd (loads data) \<in> set (loads data)"
    using assms by (auto simp: image_ok_def Let_def)
  show b: "image_base data \<le> image_end data" "image_end data + 4096 \<le> 2 ^ 64"
    using image_extent(3,4) [OF assms l] .
  thus "image_pages data * 4096 < 2 ^ 64" "image_end data - image_base data \<le> image_pages data * 4096"
    unfolding image_pages_def by linarith+
qed

lemma unat_image_pages:
  assumes "image_ok data"
  shows "unat (of_nat (image_pages data) * 4096 :: u64) = image_pages data * 4096"
proof -
  have "of_nat (image_pages data) * 4096 = (of_nat (image_pages data * 4096) :: u64)"
    by simp
  thus ?thesis
    using image_bounds(3) [OF assms] by (simp only:) (rule unat_of_nat_small, simp)
qed

lemma pages_needed:
  assumes "image_ok data"
  shows "unat (of_nat (image_end data) - of_nat (image_base data) :: u64) = image_end data - image_base data"
    and "(of_nat (image_end data) - of_nat (image_base data) + 4095) div 4096 = (of_nat (image_pages data) :: u64)"
proof -
  define vb te :: u64 where "vb = of_nat (image_base data)" and "te = of_nat (image_end data)"
  note b = image_bounds(1,2) [OF assms]
  have "unat vb = image_base data" "unat te = image_end data"
    using b by (auto simp: vb_def te_def unat_of_nat_small)
  hence tot: "unat (te - vb) = image_end data - image_base data"
    using b(1) by (simp add: unat_offset word_le_nat_alt)
  hence "unat (te - vb + 4095) = image_end data - image_base data + 4095"
    using b by (subst unat_add_no_overflow) simp_all
  hence "unat ((te - vb + 4095) div 4096) = image_pages data"
    by (simp add: unat_div image_pages_def)
  thus "(of_nat (image_end data) - of_nat (image_base data) + 4095) div 4096 = (of_nat (image_pages data) :: u64)"
    unfolding vb_def te_def by (metis of_nat_unat ucast_id)
  show "unat (of_nat (image_end data) - of_nat (image_base data) :: u64) = image_end data - image_base data"
    using tot by (simp add: vb_def te_def)
qed

text \<open>
  The part of a segment beyond its file bytes, and what is beyond the pages of the image, is in
  the file part of no segment.
\<close>

lemma bss_not_in_file:
  assumes "image_ok data" "ph \<in> set (loads data)" "q \<in> set (loads data)"
    and "unat (p_filesz ph) \<le> j" "j < unat (p_memsz ph)"
  shows "\<not> in_file q (unat (p_vaddr ph) + j)"
proof (cases "q = ph")
  case False
  have "apart ph q \<or> apart q ph"
    using assms(1-3) False
    by (auto simp: image_ok_def Let_def sorted_wrt_iff_nth_less in_set_conv_nth) (metis linorder_neqE_nat)
  moreover have "unat (p_filesz q) \<le> unat (p_memsz q)"
    using assms(1,3) segment_okD(3) by (auto simp: image_ok_def Let_def list_all_iff)
  ultimately show ?thesis
    using assms(5) by (auto simp: apart_def seg_end_def in_file_def)
qed (use assms(4) in \<open>simp add: in_file_def\<close>)

lemma outside_not_in_file:
  assumes "image_ok data" "q \<in> set (loads data)" "image_pages data * 4096 \<le> x"
  shows "\<not> in_file q (image_base data + x)"
proof -
  have "unat (p_filesz q) \<le> unat (p_memsz q)"
    using assms(1,2) segment_okD(3) by (auto simp: image_ok_def Let_def list_all_iff)
  thus ?thesis
    using image_extent(2,3) [OF assms(1,2)] image_bounds(4) [OF assms(1)] assms(3)
    by (auto simp: in_file_def seg_end_def)
qed

lemma segment_byte_offset:
  assumes "image_ok data" "ph \<in> set (loads data)" "j < unat (p_memsz ph)"
  shows "unat ((p_vaddr ph - of_nat (image_base data)) + of_nat j) = unat (p_vaddr ph) - image_base data + j"
    and "unat (p_vaddr ph) - image_base data + j < image_pages data * 4096"
proof -
  note e = image_extent [OF assms(1,2)] and b = image_bounds [OF assms(1)]
  have ub: "unat (of_nat (image_base data) :: u64) = image_base data"
    using b by (simp add: unat_of_nat_small)
  have off: "unat (p_vaddr ph - of_nat (image_base data)) = unat (p_vaddr ph) - image_base data"
    using e(1) ub by (simp add: unat_offset word_le_nat_alt)
  have "unat (of_nat j :: u64) = j"
    using assms(3) unat_lt2p [of "p_memsz ph"] by (simp add: unat_of_nat_small)
  thus "unat ((p_vaddr ph - of_nat (image_base data)) + of_nat j) = unat (p_vaddr ph) - image_base data + j"
    using e b assms(3) off by (subst unat_add_no_overflow) (auto simp: seg_end_def)
  show "unat (p_vaddr ph) - image_base data + j < image_pages data * 4096"
    using e b assms(3) by (auto simp: seg_end_def)
qed

text \<open>
  A well-formed image is loaded exactly. When the firmware has the pages, loading succeeds;
  the base is the lowest address of a segment and the size reaches to the highest end. In the block
  the firmware gave, every segment stands at its distance from the base: first its bytes of the
  file, then zeros up to its size in memory. No byte outside the block changes, and up to eight
  segments are described for the mapping with their own offset, size and permissions.
\<close>

theorem elf_loaded:
  assumes "image_ok data" "allocate_pages (of_nat (image_pages data)) = Some phys"
  shows "\<exists>info m'. parse_and_load_elf allocate_pages data m = Some (info, m')
    \<and> entry_point info = e_entry (elf_header data) \<and> physical_base info = phys
    \<and> unat (virtual_base info) = image_base data
    \<and> unat (kernel_size info) = image_end data - image_base data
    \<and> segments info = map (segment_info (virtual_base info)) (take MAX_SEGMENTS (loads data))
    \<and> (\<forall>ph\<in>set (loads data). \<forall>j<unat (p_memsz ph).
         m' (phys + (p_vaddr ph - virtual_base info) + of_nat j)
           = (if j < unat (p_filesz ph) then data ! (unat (p_offset ph) + j) else 0))
    \<and> (\<forall>a. image_pages data * 4096 \<le> unat (a - phys) \<longrightarrow> m' a = m a)"
proof -
  define vb :: u64 where "vb = of_nat (image_base data)"
  define te :: u64 where "te = of_nat (image_end data)"
  define m0 where "m0 = write_zeros phys (of_nat (image_pages data) * 4096) m"
  have ok: "HEADER_SIZE \<le> length data" "length data < 2 ^ 64" "header_ok data"
    "list_all (segment_ok data) (loads data)" "sorted_wrt apart (loads data)"
    using assms(1) by (auto simp: image_ok_def Let_def)
  have uvb: "unat vb = image_base data"
    using image_bounds [OF assms(1)] by (simp add: vb_def unat_of_nat_small)
  have above: "\<And>ph. ph \<in> set (loads data) \<Longrightarrow> vb \<le> p_vaddr ph"
    using image_extent(1) [OF assms(1)] by (simp add: word_le_nat_alt uvb)
  obtain m' where
    run: "load_all data phys vb (loads data) (m0, []) = Some (m', map (segment_info vb) (take MAX_SEGMENTS (loads data)))"
    and f: "\<forall>ph\<in>set (loads data). \<forall>j<unat (p_filesz ph).
         m' (phys + (p_vaddr ph - vb) + of_nat j) = data ! (unat (p_offset ph) + j)"
    and o: "\<forall>a. (\<forall>ph\<in>set (loads data). \<not> in_file ph (image_base data + unat (a - phys))) \<longrightarrow> m' a = m0 a"
    using load_all_ok [OF ok(4,2,5) above, of phys m0 "[]"] by (auto simp: uvb)
  have bss: "m' (phys + (p_vaddr ph - vb) + of_nat j) = 0"
    if ph: "ph \<in> set (loads data)" and j: "j < unat (p_memsz ph)" "unat (p_filesz ph) \<le> j" for ph j
  proof -
    define a where "a = phys + (p_vaddr ph - vb) + of_nat j"
    have "a - phys = (p_vaddr ph - of_nat (image_base data)) + of_nat j"
      by (simp add: a_def vb_def)
    hence e: "unat (a - phys) = unat (p_vaddr ph) - image_base data + j"
      using segment_byte_offset(1) [OF assms(1) ph j(1)] by (simp only:)
    have "m' a = m0 a"
      using o bss_not_in_file [OF assms(1) ph _ j(2,1)] image_extent(1) [OF assms(1) ph] by (simp add: e)
    thus ?thesis
      using segment_byte_offset(2) [OF assms(1) ph j(1)]
      by (simp add: a_def [symmetric] e m0_def write_zeros_def word_less_nat_alt unat_image_pages [OF assms(1)])
  qed
  have outside: "m' a = m a" if a: "image_pages data * 4096 \<le> unat (a - phys)" for a
    using o outside_not_in_file [OF assms(1) _ a] a
    by (simp add: m0_def write_zeros_def word_less_nat_alt unat_image_pages [OF assms(1)])
  have "second_pass data phys vb [0..<unat (e_phnum (elf_header data))] (m0, [])
      = Some (m', map (segment_info vb) (take MAX_SEGMENTS (loads data)))"
    using run by (simp add: second_pass_load_all loads_def program_headers_def)
  hence "parse_and_load_elf allocate_pages data m =
     Some (\<lparr>entry_point = e_entry (elf_header data), physical_base = phys, virtual_base = vb,
            kernel_size = te - vb, segments = map (segment_info vb) (take MAX_SEGMENTS (loads data))\<rparr>, m')"
    using ok(1,3) assms(2) first_pass_extent [OF assms(1)] pages_needed(2) [OF assms(1)]
    by (simp add: parse_and_load_elf_def Let_def vb_def te_def m0_def)
  moreover have "unat (te - vb) = image_end data - image_base data"
    unfolding vb_def te_def by (rule pages_needed(1) [OF assms(1)])
  moreover have "\<forall>ph\<in>set (loads data). \<forall>j<unat (p_memsz ph).
         m' (phys + (p_vaddr ph - vb) + of_nat j)
           = (if j < unat (p_filesz ph) then data ! (unat (p_offset ph) + j) else 0)"
    using f bss by (auto simp: not_less simp del: add_diff_eq)
  ultimately show ?thesis
    using outside by (intro exI conjI) (assumption | simp add: uvb)+
qed

definition sample_elf :: "u8 list" where
  "sample_elf =
     [0x7F, 0x45, 0x4C, 0x46, 2, 1, 1, 0, 0, 0, 0, 0, 0, 0, 0, 0,
      2, 0, 0x3E, 0, 1, 0, 0, 0,
      0x02, 0x10, 0, 0, 0, 0, 0, 0,
      64, 0, 0, 0, 0, 0, 0, 0,
      0, 0, 0, 0, 0, 0, 0, 0,
      0, 0, 0, 0, 64, 0, 56, 0, 2, 0, 0, 0, 0, 0, 0, 0,
      1, 0, 0, 0, 5, 0, 0, 0,
      176, 0, 0, 0, 0, 0, 0, 0,
      0, 0x10, 0, 0, 0, 0, 0, 0,
      0, 0x10, 0, 0, 0, 0, 0, 0,
      3, 0, 0, 0, 0, 0, 0, 0,
      5, 0, 0, 0, 0, 0, 0, 0,
      0, 0, 0, 0, 0, 0, 0, 0,
      1, 0, 0, 0, 6, 0, 0, 0,
      179, 0, 0, 0, 0, 0, 0, 0,
      0, 0x20, 0, 0, 0, 0, 0, 0,
      0, 0x20, 0, 0, 0, 0, 0, 0,
      1, 0, 0, 0, 0, 0, 0, 0,
      16, 0, 0, 0, 0, 0, 0, 0,
      0, 0, 0, 0, 0, 0, 0, 0,
      0xAA, 0xBB, 0xCC, 0xDD]"

lemma sample_elf_header:
  "elf_header sample_elf =
     \<lparr>e_ident = [0x7F, 0x45, 0x4C, 0x46, 2, 1, 1, 0, 0, 0, 0, 0, 0, 0, 0, 0], e_type = 2, e_machine = 0x3E,
      e_version = 1, e_entry = 0x1002, e_phoff = 64, e_shoff = 0, e_flags = 0, e_ehsize = 64,
      e_phentsize = 56, e_phnum = 2, e_shentsize = 0, e_shnum = 0, e_shstrndx = 0\<rparr>"
  by (simp add: elf_header_def le_field_def sample_elf_def push_bit_eq_mult)

lemma sample_elf_loads:
  "loads sample_elf =
     [\<lparr>p_type = 1, p_flags = 5, p_offset = 176, p_vaddr = 0x1000, p_paddr = 0x1000, p_filesz = 3,
       p_memsz = 5, p_align = 0\<rparr>,
      \<lparr>p_type = 1, p_flags = 6, p_offset = 179, p_vaddr = 0x2000, p_paddr = 0x2000, p_filesz = 1,
       p_memsz = 16, p_align = 0\<rparr>]"
  by (simp add: loads_def program_headers_def sample_elf_header ph_address_def upt_rec program_header_def
      le_field_def is_load_def PT_LOAD_def)
    (simp add: sample_elf_def push_bit_eq_mult)

lemma sample_elf_image:
  "image_ok sample_elf" "image_pages sample_elf = 2" "image_base sample_elf = 4096"
  by (simp_all add: image_ok_def image_pages_def image_base_def image_end_def sample_elf_loads
      sample_elf_header header_ok_def ELF_MAGIC_def ELF_CLASS_64_def ELF_DATA_LSB_def ELF_TYPE_EXEC_def
      EM_X86_64_def HEADER_SIZE_def segment_ok_def apart_def seg_end_def Let_def)
    (simp_all add: sample_elf_def)

theorem elf_loaded_witness:
  "\<exists>info m'. parse_and_load_elf (\<lambda>n. if n = 2 then Some 0x200000 else None) sample_elf (\<lambda>_. 0xFF) = Some (info, m')
    \<and> virtual_base info = 0x1000 \<and> physical_base info = 0x200000
    \<and> m' 0x200002 = 0xCC \<and> m' 0x200003 = 0 \<and> m' 0x201000 = 0xDD \<and> m' 0x20100F = 0 \<and> m' 0x202000 = 0xFF"
proof -
  define alloc :: "u64 \<Rightarrow> u64 option" where "alloc = (\<lambda>n. if n = 2 then Some 0x200000 else None)"
  have a: "alloc (of_nat (image_pages sample_elf)) = Some 0x200000"
    by (simp add: sample_elf_image alloc_def)
  obtain info m' where r: "parse_and_load_elf alloc sample_elf (\<lambda>_. 0xFF) = Some (info, m')"
    and v: "physical_base info = 0x200000" "unat (virtual_base info) = 4096"
    and b: "\<forall>ph\<in>set (loads sample_elf). \<forall>j<unat (p_memsz ph).
         m' (0x200000 + (p_vaddr ph - virtual_base info) + of_nat j)
           = (if j < unat (p_filesz ph) then sample_elf ! (unat (p_offset ph) + j) else 0)"
    and o: "\<forall>a. 2 * 4096 \<le> unat (a - 0x200000) \<longrightarrow> m' a = 0xFF"
    using elf_loaded [of sample_elf alloc, OF sample_elf_image(1) a, of "\<lambda>_. 0xFF"]
    by (auto simp: sample_elf_image)
  have vb: "virtual_base info = 0x1000"
    using v(2) by (metis of_nat_numeral of_nat_unat ucast_id)
  have t: "m' (0x200000 + of_nat j) = (if j < 3 then sample_elf ! (176 + j) else 0)" if "j < 5" for j
    using b that by (simp add: sample_elf_loads vb)
  have d: "m' (0x201000 + of_nat j) = (if j < 1 then sample_elf ! (179 + j) else 0)" if "j < 16" for j
    using b that by (simp add: sample_elf_loads vb)
  show ?thesis
    using r [unfolded alloc_def] v(1) vb t [of 2] t [of 3] d [of 0] d [of 15] o
    by (intro exI [of _ info] exI [of _ m']) (simp add: sample_elf_def)
qed


section \<open>The command line\<close>

text \<open>
  \<^verbatim>\<open>cmdline.rs\<close>: the file is read into a buffer of 256 bytes. The firmware's file
  access is the parameter: the bytes the read stored, or \<^const>\<open>None\<close> when one of the
  steps up to the read failed.
\<close>

definition MAX_CMDLINE_LEN :: nat where
  "MAX_CMDLINE_LEN = 256"

definition CMDLINE_PATH :: string where
  "CMDLINE_PATH = [CHR 0x5C] @ ''cantaya'' @ [CHR 0x5C] @ ''cmdline.txt''"

definition str_to_ucs2 :: "string \<Rightarrow> u16 list \<Rightarrow> u16 list option" where
  "str_to_ucs2 s buf =
     (let chars = length s in
      if chars + 1 > length buf then None
      else let buf' = map (\<lambda>c. of_nat (of_char c)) s @ drop chars buf;
               buf'' = buf'[chars := 0]
           in if 0 \<in> set (take chars buf'') then None else Some (take (chars + 1) buf''))"

fun trim_end :: "u8 list \<Rightarrow> nat \<Rightarrow> nat" where
  "trim_end buf 0 = 0"
| "trim_end buf (Suc n) =
     (if buf ! n = 0x20 \<or> buf ! n = 0x0A \<or> buf ! n = 0x0D \<or> buf ! n = 0x09 then trim_end buf n else Suc n)"

function trim_start :: "u8 list \<Rightarrow> nat \<Rightarrow> nat \<Rightarrow> nat" where
  "trim_start buf len start =
     (if start < len \<and> (buf ! start = 0x20 \<or> buf ! start = 0x09) then trim_start buf len (start + 1) else start)"
  by pat_completeness auto

termination trim_start
  by (relation "measure (\<lambda>(buf, len, start). len - start)") auto

declare trim_start.simps [simp del]

definition load_command_line :: "(u16 list \<Rightarrow> u8 list option) \<Rightarrow> u8 list \<times> nat" where
  "load_command_line read_file =
     (let buf = replicate MAX_CMDLINE_LEN 0 in
      case str_to_ucs2 CMDLINE_PATH (replicate 64 0) of
        None \<Rightarrow> (buf, 0)
      | Some path \<Rightarrow>
          (case read_file path of
             None \<Rightarrow> (buf, 0)
           | Some bytes \<Rightarrow>
               let bytes_read = length (take MAX_CMDLINE_LEN bytes);
                   buf = take MAX_CMDLINE_LEN bytes @ drop bytes_read buf;
                   len = trim_end buf bytes_read;
                   start = trim_start buf len 0
               in if start > 0 \<and> start < len
                  then (take (len - start) (drop start buf) @ replicate (MAX_CMDLINE_LEN - (len - start)) 0, len - start)
                  else (buf, len)))"

definition blank :: "u8 \<Rightarrow> bool" where
  "blank b = (b = 0x20 \<or> b = 0x09)"

definition blank_or_newline :: "u8 \<Rightarrow> bool" where
  "blank_or_newline b = (b = 0x20 \<or> b = 0x0A \<or> b = 0x0D \<or> b = 0x09)"

text \<open>
  The reference: the first 256 bytes without blanks in front and without blanks and line ends
  behind.
\<close>

definition trimmed :: "u8 list \<Rightarrow> u8 list" where
  "trimmed bs = dropWhile blank (rev (dropWhile blank_or_newline (rev (take MAX_CMDLINE_LEN bs))))"

lemma trim_end_take:
  "n \<le> length buf \<Longrightarrow> take (trim_end buf n) buf = rev (dropWhile blank_or_newline (rev (take n buf)))
     \<and> trim_end buf n \<le> n"
  by (induction n) (auto simp: take_Suc_conv_app_nth blank_or_newline_def)

lemma trim_start_drop:
  "len \<le> length buf \<Longrightarrow> start \<le> len \<Longrightarrow>
   drop (trim_start buf len start) (take len buf) = dropWhile blank (drop start (take len buf))
     \<and> trim_start buf len start \<le> len"
proof (induction buf len start rule: trim_start.induct)
  case (1 buf len start)
  show ?case
  proof (cases "start < len")
    case True
    have "drop start (take len buf) = buf ! start # drop (Suc start) (take len buf)"
      using True "1.prems" by (simp add: Cons_nth_drop_Suc [symmetric])
    then show ?thesis
      using 1 True by (auto simp: blank_def trim_start.simps [of buf len start])
  qed (use 1 in \<open>auto simp: trim_start.simps [of buf len len]\<close>)
qed

lemma dropWhile_blank_id:
  "dropWhile blank (rev (dropWhile blank_or_newline xs)) = [] \<longleftrightarrow> dropWhile blank_or_newline xs = []"
proof
  assume "dropWhile blank (rev (dropWhile blank_or_newline xs)) = []"
  hence a: "\<forall>x\<in>set (dropWhile blank_or_newline xs). blank x"
    by (simp add: dropWhile_eq_Nil_conv)
  show "dropWhile blank_or_newline xs = []"
  proof (rule ccontr)
    assume n: "dropWhile blank_or_newline xs \<noteq> []"
    hence "\<not> blank_or_newline (hd (dropWhile blank_or_newline xs))"
      by (rule hd_dropWhile)
    moreover have "blank (hd (dropWhile blank_or_newline xs))"
      using a n by simp
    ultimately show False by (simp add: blank_def blank_or_newline_def)
  qed
qed (simp only: rev.simps dropWhile.simps)

text \<open>
  The kernel's view of the command line, the first \<^verbatim>\<open>length\<close> bytes of the buffer, is
  the trimmed beginning of the file, and the buffer keeps its 256 bytes.
\<close>

theorem command_line_trimmed:
  assumes "load_command_line read_file = (buf, len)"
  shows "length buf = MAX_CMDLINE_LEN \<and> len \<le> MAX_CMDLINE_LEN
    \<and> take len buf = (case read_file (map (\<lambda>c. of_nat (of_char c)) CMDLINE_PATH @ [0]) of
                        None \<Rightarrow> [] | Some bs \<Rightarrow> trimmed bs)"
proof -
  have p: "str_to_ucs2 CMDLINE_PATH (replicate 64 0) = Some (map (\<lambda>c. of_nat (of_char c)) CMDLINE_PATH @ [0])"
    by code_simp
  show ?thesis
  proof (cases "read_file (map (\<lambda>c. of_nat (of_char c)) CMDLINE_PATH @ [0])")
    case None
    then show ?thesis using assms by (auto simp: load_command_line_def p Let_def)
  next
    case (Some bs)
    define t where "t = take MAX_CMDLINE_LEN bs"
    define b where "b = t @ drop (length t) (replicate MAX_CMDLINE_LEN (0::u8))"
    define e where "e = trim_end b (length t)"
    define s where "s = trim_start b e 0"
    have lb: "length b = MAX_CMDLINE_LEN" "length t \<le> MAX_CMDLINE_LEN" by (simp_all add: b_def t_def)
    have tk: "take (length t) b = t" by (simp add: b_def)
    have te: "take e b = rev (dropWhile blank_or_newline (rev t)) \<and> e \<le> length t"
      using trim_end_take [of "length t" b] lb by (simp add: e_def [symmetric] tk)
    have ts: "drop s (take e b) = trimmed bs \<and> s \<le> e"
      using trim_start_drop [of e b 0] lb te by (simp add: s_def trimmed_def t_def)
    have r: "(buf, len) = (if s > 0 \<and> s < e
                  then (take (e - s) (drop s b) @ replicate (MAX_CMDLINE_LEN - (e - s)) 0, e - s) else (b, e))"
      using assms by (simp only: load_command_line_def p option.case Some Let_def t_def b_def e_def s_def)
    have full: "e = 0" if "s = e"
    proof -
      have "drop s (take e b) = []" using that by simp
      hence "trimmed bs = []" using ts by (simp only:)
      hence "dropWhile blank_or_newline (rev t) = []"
        unfolding trimmed_def t_def by (simp only: dropWhile_blank_id)
      hence "take e b = []" using te by (simp only: rev.simps)
      thus "e = 0" using lb(1) by (auto simp only: take_eq_Nil MAX_CMDLINE_LEN_def list.size)
    qed
    have tr: "take (e - s) (drop s b) = trimmed bs"
      by (rule ts [THEN conjunct1, unfolded drop_take])
    moreover have le: "s \<le> e" "e \<le> length t"
      using ts te by blast+
    moreover have "length (trimmed bs) = e - s"
      using arg_cong [OF tr, of length] lb le by simp
    ultimately show ?thesis
      using r lb full Some by (auto split: if_splits)
  qed
qed

end
