(* ===== verification/Boot_Paging.thy ===== *)
theory Boot_Paging
  imports Paging Loader "HOL-Library.Monad_Syntax"
begin

unbundle bit_operations_syntax

text \<open>
  The page tables the boot loader builds before it jumps to the kernel
  (\<^verbatim>\<open>bootloader/src/paging.rs\<close>). The state holds the words of physical memory, the
  list of pages the firmware's \<^verbatim>\<open>allocate_pages\<close> will hand out one after the other, and
  the recorded table pages (\<^verbatim>\<open>PT_PAGES\<close> up to its counter). A panic, here a failed
  allocation, is \<^const>\<open>None\<close>. The entries, indices and the tree of tables are those of the
  kernel's own code in \<^verbatim>\<open>Paging\<close>, so that what is built here is read by the kernel's
  \<^const>\<open>translate\<close>. Enabling the no-execute bit and the jump are processor instructions and
  not part of the model; whether no-execute is on is an argument.
\<close>

section \<open>The operations\<close>

datatype PixelFormat = Bgr | Rgb | Unknown

record FramebufferInfo =
  fb_address :: u64
  fb_size :: u64
  fb_width :: u32
  fb_height :: u32
  fb_stride :: u32
  fb_format :: PixelFormat

record Boot =
  bmem :: "u64 \<Rightarrow> u64"
  pool :: "u64 list"
  pt_pages :: "u64 list"

definition KERNEL_VADDR_BASE :: u64 where
  "KERNEL_VADDR_BASE = 0xFFFFFFFF80000000"

definition MAX_PT_PAGES :: nat where
  "MAX_PT_PAGES = 128"

definition page_table_pages :: "Boot \<Rightarrow> u64 list" where
  "page_table_pages b = pt_pages b"

definition allocate_page_table :: "Boot \<Rightarrow> (Boot \<times> u64) option" where
  "allocate_page_table b =
     (case pool b of
        [] \<Rightarrow> None
      | addr # rest \<Rightarrow>
          Some (\<lparr>bmem = (\<lambda>a. if unat addr \<le> unat a \<and> unat a < unat addr + 4096 then 0 else bmem b a),
                 pool = rest,
                 pt_pages = (if length (pt_pages b) < MAX_PT_PAGES then pt_pages b @ [addr] else pt_pages b)\<rparr>, addr))"

definition write_word :: "Boot \<Rightarrow> u64 \<Rightarrow> nat \<Rightarrow> u64 \<Rightarrow> Boot" where
  "write_word b t i e = b\<lparr>bmem := (bmem b)(entry_addr t i := e)\<rparr>"

definition get_or_create_table :: "Boot \<Rightarrow> u64 \<Rightarrow> nat \<Rightarrow> (Boot \<times> u64) option" where
  "get_or_create_table b t i =
     (let e = table_entry (bmem b) t i in
      if e AND PRESENT \<noteq> 0 then Some (b, e AND 0x000FFFFFFFFFF000)
      else do {
        (b, new_table) \<leftarrow> allocate_page_table b;
        Some (write_word b t i (new_table OR PRESENT OR WRITABLE), new_table)
      })"

definition map_huge_page :: "u64 \<Rightarrow> Boot \<Rightarrow> u64 \<Rightarrow> u64 \<Rightarrow> Boot option" where
  "map_huge_page pml4 b virtual_addr physical_addr =
     do {
       (b, pdp) \<leftarrow> get_or_create_table b pml4 (pml4_index virtual_addr);
       (b, pd) \<leftarrow> get_or_create_table b pdp (pdp_index virtual_addr);
       Some (write_word b pd (pd_index virtual_addr) (physical_addr OR PRESENT OR WRITABLE OR HUGE_PAGE))
     }"

definition map_4k_page_flags :: "u64 \<Rightarrow> Boot \<Rightarrow> u64 \<Rightarrow> u64 \<Rightarrow> u64 \<Rightarrow> Boot option" where
  "map_4k_page_flags pml4 b virtual_addr physical_addr flags =
     do {
       (b, pdp) \<leftarrow> get_or_create_table b pml4 (pml4_index virtual_addr);
       (b, pd) \<leftarrow> get_or_create_table b pdp (pdp_index virtual_addr);
       (b, pt) \<leftarrow> get_or_create_table b pd (pd_index virtual_addr);
       Some (write_word b pt (pt_index virtual_addr) (physical_addr OR flags))
     }"

definition map_4k_page :: "u64 \<Rightarrow> Boot \<Rightarrow> u64 \<Rightarrow> u64 \<Rightarrow> Boot option" where
  "map_4k_page pml4 b virtual_addr physical_addr =
     map_4k_page_flags pml4 b virtual_addr physical_addr (PRESENT OR WRITABLE)"

text \<open>
  A loop whose body may panic.
\<close>

fun for_each :: "('b \<Rightarrow> 'x \<Rightarrow> 'b option) \<Rightarrow> 'x list \<Rightarrow> 'b \<Rightarrow> 'b option" where
  "for_each f [] b = Some b"
| "for_each f (x # xs) b = do { b \<leftarrow> f b x; for_each f xs b }"

text \<open>
  The flags of a segment, and its pages; the loop over the first 4 GiB has 2048 iterations.
\<close>

definition segment_flags :: "SegmentInfo \<Rightarrow> u64" where
  "segment_flags seg =
     (let flags = PRESENT;
          flags = (if seg_flags seg AND PF_W \<noteq> 0 then flags OR WRITABLE else flags)
      in if seg_flags seg AND PF_X = 0 then flags OR NO_EXECUTE else flags)"

definition pages_of :: "u64 \<Rightarrow> u64 \<Rightarrow> nat" where
  "pages_of page bytes = unat ((bytes + page - 1) div page)"

definition map_segment :: "u64 \<Rightarrow> KernelLoadInfo \<Rightarrow> Boot \<Rightarrow> SegmentInfo \<Rightarrow> Boot option" where
  "map_segment pml4 k b seg =
     for_each (\<lambda>b p. map_4k_page_flags pml4 b
                 (KERNEL_VADDR_BASE + offset_from_base seg + of_nat p * PAGE_SIZE)
                 (physical_base k + offset_from_base seg + of_nat p * PAGE_SIZE)
                 (segment_flags seg))
       [0..<pages_of PAGE_SIZE (seg_size seg)] b"

definition map_identity :: "u64 \<Rightarrow> Boot \<Rightarrow> Boot option" where
  "map_identity pml4 b =
     for_each (\<lambda>b i. map_huge_page pml4 b (of_nat i * HUGE_PAGE_SIZE) (of_nat i * HUGE_PAGE_SIZE)) [0..<2048] b"

definition map_kernel :: "u64 \<Rightarrow> KernelLoadInfo \<Rightarrow> bool \<Rightarrow> Boot \<Rightarrow> Boot option" where
  "map_kernel pml4 k nx_enabled b =
     (if length (segments k) > 0 \<and> nx_enabled
      then for_each (map_segment pml4 k) (segments k) b
      else for_each (\<lambda>b i. map_4k_page pml4 b (KERNEL_VADDR_BASE + of_nat i * PAGE_SIZE)
                                (physical_base k + of_nat i * PAGE_SIZE))
             [0..<pages_of PAGE_SIZE (kernel_size k)] b)"

definition fb_base_aligned :: "FramebufferInfo \<Rightarrow> u64" where
  "fb_base_aligned fb = fb_address fb AND NOT (HUGE_PAGE_SIZE - 1)"

definition map_framebuffer :: "u64 \<Rightarrow> FramebufferInfo \<Rightarrow> Boot \<Rightarrow> Boot option" where
  "map_framebuffer pml4 fb b =
     for_each (\<lambda>b i. let addr = fb_base_aligned fb + of_nat i * HUGE_PAGE_SIZE in map_huge_page pml4 b addr addr)
       [0..<pages_of HUGE_PAGE_SIZE (fb_size fb)] b"

definition setup_kernel_page_tables ::
  "KernelLoadInfo \<Rightarrow> FramebufferInfo \<Rightarrow> bool \<Rightarrow> Boot \<Rightarrow> (Boot \<times> u64) option" where
  "setup_kernel_page_tables k fb nx_enabled b =
     do {
       (b, pml4) \<leftarrow> allocate_page_table b;
       b \<leftarrow> map_identity pml4 b;
       b \<leftarrow> map_kernel pml4 k nx_enabled b;
       b \<leftarrow> map_framebuffer pml4 fb b;
       Some (b, pml4)
     }"


section \<open>The tables the boot loader builds\<close>

text \<open>
  A huge page is written where no table hangs.
\<close>

lemma overwrite_huge:
  assumes tree: "pt_tree mm r" and one: "one_entry mm mm' r t0 i0"
    and p0: "pidx p0" "descend mm r 3 p0 = Some t0" "length p0 = 2"
    and old: "descend mm r 3 (p0 @ [i0]) = None"
    and new: "is_present (table_entry mm' t0 i0)" "is_huge (table_entry mm' t0 i0)"
  shows "pidx q \<Longrightarrow> descend mm' r 3 q = descend mm r 3 q"
    and "pidx q \<Longrightarrow> length q = 4 \<Longrightarrow> resolve mm' r q =
      (if prefix (p0 @ [i0]) q then Some (1, table_entry mm' t0 i0) else resolve mm r q)"
proof -
  have to': "descend mm' r 3 p0 = Some t0" using descend_to_changed [OF tree one p0(1,2)] .
  { assume q: "pidx q"
    show "descend mm' r 3 q = descend mm r 3 q"
    proof (cases "prefix (p0 @ [i0]) q")
      case False
      then show ?thesis using descend_one_entry [OF tree one p0(1,2) q] by auto
    next
      case True
      then obtain b where b: "q = (p0 @ [i0]) @ b" by (auto simp: prefix_def)
      have "descend mm r 3 q = None" using old unfolding b by (subst descend_append) simp
      moreover have "descend mm' r 3 q = None"
        using to' new p0(3) unfolding b append_assoc
        by (subst descend_append) (simp add: descend.simps Let_def eval_nat_numeral)
      ultimately show ?thesis by simp
    qed }
  { assume q: "pidx q" "length q = 4"
    show "resolve mm' r q = (if prefix (p0 @ [i0]) q then Some (1, table_entry mm' t0 i0) else resolve mm r q)"
    proof (cases "prefix (p0 @ [i0]) q")
      case False
      then show ?thesis using resolve_one_entry [OF tree one p0(1,2) q] by auto
    next
      case True
      then obtain b where b: "q = p0 @ i0 # b" by (auto simp: prefix_def)
      have "length b = 1" using q b p0(3) by simp
      then show ?thesis
        using resolve_descend [OF to', of "i0 # b"] b new p0(3) True by (auto simp: resolve.simps Let_def)
    qed }
qed

text \<open>
  The invariant of the construction: the tables form a tree, the pages the firmware still has to
  give are good and none of them is a table, the table pages are recorded as long as the array has
  room, the lower half has huge pages only and the upper half small pages only.
\<close>

definition pages_good :: "u64 list \<Rightarrow> bool" where
  "pages_good ps = (distinct ps \<and> list_all (\<lambda>f. aligned f \<and> unat f < 2 ^ 52) ps)"

definition halves :: "(u64 \<Rightarrow> u64) \<Rightarrow> u64 \<Rightarrow> bool" where
  "halves mm r \<longleftrightarrow>
     (\<forall>q. pidx q \<and> length q = 3 \<and> hd q < 256 \<longrightarrow> descend mm r 3 q = None) \<and>
     (\<forall>q e. pidx q \<and> length q = 4 \<longrightarrow> resolve mm r q \<noteq> Some (2, e) \<and> (256 \<le> hd q \<longrightarrow> resolve mm r q \<noteq> Some (1, e)))"

definition recorded :: "Boot \<Rightarrow> u64 \<Rightarrow> bool" where
  "recorded b r \<longleftrightarrow> length (pt_pages b) \<le> MAX_PT_PAGES \<and>
     (length (pt_pages b) < MAX_PT_PAGES \<longrightarrow> tables (bmem b) r = set (pt_pages b))"

definition boot_inv :: "Boot \<Rightarrow> u64 \<Rightarrow> bool" where
  "boot_inv b r \<longleftrightarrow> pt_tree (bmem b) r \<and> pages_good (pool b) \<and> tables (bmem b) r \<inter> set (pool b) = {}
     \<and> recorded b r \<and> halves (bmem b) r"

abbreviation mapping_at :: "Boot \<Rightarrow> u64 \<Rightarrow> nat list \<Rightarrow> (nat \<times> u64) option" where
  "mapping_at b r q \<equiv> resolve (bmem b) r q"

lemma write_word_entry:
  assumes "aligned t" "aligned t'" "i < 512" "j < 512"
  shows "table_entry (bmem (write_word b t i e)) t' j = (if t' = t \<and> j = i then e else table_entry (bmem b) t' j)"
  using assms by (auto simp: write_word_def table_entry_def entry_addr_eq_iff)

lemma allocate_entry:
  assumes "allocate_page_table b = Some (b', f)" "aligned t" "aligned f" "j < 512"
  shows "table_entry (bmem b') t j = (if t = f then 0 else table_entry (bmem b) t j)"
proof -
  have "bmem b' = mem (zero_frame \<lparr>frames = undefined, mem = bmem b, kernel_pml4_phys = 0, invlpg_log = []\<rparr> f)"
    using assms(1) by (auto simp: allocate_page_table_def zero_frame_def split: list.splits)
  then show ?thesis by (simp only: zero_frame_entry [OF assms(2,3,4)] Machine.simps)
qed

lemma present_and: "e AND PRESENT \<noteq> 0 \<longleftrightarrow> is_present e"
  by (simp add: is_present_def)

lemma address_and: "e AND 0x000FFFFFFFFFF000 = pte_address e"
  by (simp add: pte_address_def ADDR_MASK_def)

lemma frame_or:
  assumes "aligned f" "unat f < 2 ^ 52"
  shows "f OR flags = pte_set f flags"
  by (simp add: pte_set_def mask_frame [OF assms])

lemma table_flags_0: "table_flags 0 = PRESENT OR WRITABLE"
  by (simp add: table_flags_def)

text \<open>
  One level of the walk: a table is at the end of the longer path, all other tables and all
  mappings are as before, and at most one page of the firmware is used.
\<close>

lemma get_or_create_table_ok:
  assumes inv: "boot_inv b r" and p0: "pidx p0" "descend (bmem b) r 3 p0 = Some t" "length p0 < 3" "i < 512"
    and nh: "p0 \<noteq> [] \<Longrightarrow> is_present (table_entry (bmem b) t i) \<Longrightarrow> \<not> is_huge (table_entry (bmem b) t i)"
    and half: "length p0 = 2 \<Longrightarrow> 256 \<le> hd p0"
    and pool: "pool b \<noteq> []"
  shows "\<exists>b' t'. get_or_create_table b t i = Some (b', t') \<and> boot_inv b' r
    \<and> (\<forall>q. pidx q \<longrightarrow> descend (bmem b') r 3 q = (if q = p0 @ [i] then Some t' else descend (bmem b) r 3 q))
    \<and> (\<forall>q. pidx q \<and> length q = 4 \<longrightarrow> mapping_at b' r q = mapping_at b r q)
    \<and> length (pool b) \<le> length (pool b') + 1"
proof (cases "is_present (table_entry (bmem b) t i)")
  case True
  obtain n where n: "3 - length p0 = Suc n" using p0(3) by (metis Suc_diff_Suc)
  have "n < 2 \<longrightarrow> p0 \<noteq> []" using n by (cases p0) auto
  hence "descend (bmem b) r 3 (p0 @ [i]) = Some (pte_address (table_entry (bmem b) t i))"
    using descend_snoc [OF p0(2) n, of i] True nh by simp
  then show ?thesis
    using True inv by (auto simp: get_or_create_table_def present_and address_and Let_def)
next
  case False
  obtain f rest where f: "pool b = f # rest" using pool by (cases "pool b") auto
  obtain b1 where al: "allocate_page_table b = Some (b1, f)" "pool b1 = rest"
    "pt_pages b1 = (if length (pt_pages b) < MAX_PT_PAGES then pt_pages b @ [f] else pt_pages b)"
    by (simp add: allocate_page_table_def f)
  define b' where "b' = write_word b1 t i (f OR PRESENT OR WRITABLE)"
  have tree: "pt_tree (bmem b) r" and good: "aligned f" "unat f < 2 ^ 52" and fresh: "f \<notin> tables (bmem b) r"
    using inv f by (auto simp: boot_inv_def pages_good_def)
  have e: "f OR PRESENT OR WRITABLE = pte_set f (table_flags 0)"
    using frame_or [OF good, of "PRESENT OR WRITABLE"] by (simp add: table_flags_0 or.assoc)
  have t: "t \<in> tables (bmem b) r" "aligned t" "t \<noteq> f"
    using tablesI [OF p0(1,2)] tables_aligned [OF tree] fresh by auto
  have read: "table_entry (bmem b') t' j =
      (if t' = t \<and> j = i then pte_set f (table_flags 0) else if t' = f then 0 else table_entry (bmem b) t' j)"
    if "aligned t'" "j < 512" for t' j
    using that p0(4) t(2) good allocate_entry [OF al(1) that(1) good(1) that(2)]
    unfolding b'_def e by (auto simp: write_word_entry)
  have one: "one_entry (bmem b) (bmem b') r t i"
    using tables_aligned [OF tree] fresh by (auto simp: one_entry_def read)
  have ent: "is_present (table_entry (bmem b') t i)" "\<not> is_huge (table_entry (bmem b') t i)"
    "pte_address (table_entry (bmem b') t i) = f"
    using t p0(4) table_flags_ok [of 0] mask_frame [OF good]
    by (simp_all add: read pte_address_set is_present_set is_huge_set)
  have z: "\<And>j. j < 512 \<Longrightarrow> table_entry (bmem b') f j = 0" using good t(3) by (simp add: read)
  note at = attach_table [OF tree one p0 False ent z fresh]
  note tr = attach_table_tree [OF tree one p0 False ent z fresh]
  have "halves (bmem b') r"
    using inv half p0(3) unfolding boot_inv_def halves_def
    by (auto simp: at hd_append split: if_splits)
  moreover have "recorded b' r"
    using inv f al tr(2) by (auto simp: boot_inv_def recorded_def b'_def write_word_def)
  ultimately have "boot_inv b' r"
    using inv tr f al(2) by (auto simp: boot_inv_def pages_good_def b'_def write_word_def)
  moreover have "get_or_create_table b t i = Some (b', f)"
    using False by (simp add: get_or_create_table_def present_and al b'_def)
  moreover have "length (pool b) \<le> length (pool b') + 1"
    using f al(2) by (simp add: b'_def write_word_def)
  ultimately show ?thesis using at by blast
qed

lemma index_less: "pml4_index v < 512" "pdp_index v < 512" "pd_index v < 512" "pt_index v < 512"
  using pidx_indices(1) [of v] by (simp_all add: indices_def)

lemma no_giant:
  assumes "halves mm r" "pidx [i, j]" "descend mm r 3 [i] = Some t" "is_present (table_entry mm t j)"
  shows "\<not> is_huge (table_entry mm t j)"
proof
  assume h: "is_huge (table_entry mm t j)"
  have "resolve mm r ([i] @ [j, 0, 0]) = Some (2, table_entry mm t j)"
    using resolve_descend [OF assms(3), of "[j, 0, 0]"] assms(4) h by (simp add: resolve.simps Let_def)
  then show False using assms(1,2) by (auto simp: halves_def)
qed

lemma no_huge_high:
  assumes "halves mm r" "pidx [i, j, k]" "256 \<le> i" "descend mm r 3 [i, j] = Some t" "is_present (table_entry mm t k)"
  shows "\<not> is_huge (table_entry mm t k)"
proof
  assume h: "is_huge (table_entry mm t k)"
  have "resolve mm r ([i, j] @ [k, 0]) = Some (1, table_entry mm t k)"
    using resolve_descend [OF assms(4), of "[k, 0]"] assms(5) h by (simp add: resolve.simps Let_def)
  then show False using assms(1,2,3) by (auto simp: halves_def)
qed

text \<open>
  The two upper levels, which both mapping operations share.
\<close>

lemma upper_levels:
  assumes inv: "boot_inv b r" and pool: "2 \<le> length (pool b)"
  shows "\<exists>b1 pdp b2 pd. get_or_create_table b r (pml4_index v) = Some (b1, pdp)
    \<and> get_or_create_table b1 pdp (pdp_index v) = Some (b2, pd) \<and> boot_inv b2 r
    \<and> descend (bmem b2) r 3 [pml4_index v, pdp_index v] = Some pd
    \<and> (\<forall>q. pidx q \<and> length q = 3 \<longrightarrow> descend (bmem b2) r 3 q = descend (bmem b) r 3 q)
    \<and> (\<forall>q. pidx q \<and> length q = 4 \<longrightarrow> mapping_at b2 r q = mapping_at b r q)
    \<and> length (pool b) \<le> length (pool b2) + 2"
proof -
  have ne0: "pool b \<noteq> []" using pool by auto
  obtain b1 pdp where 1: "get_or_create_table b r (pml4_index v) = Some (b1, pdp)" "boot_inv b1 r"
    "\<forall>q. pidx q \<longrightarrow> descend (bmem b1) r 3 q = (if q = [pml4_index v] then Some pdp else descend (bmem b) r 3 q)"
    "\<forall>q. pidx q \<and> length q = 4 \<longrightarrow> mapping_at b1 r q = mapping_at b r q" "length (pool b) \<le> length (pool b1) + 1"
    using get_or_create_table_ok [OF inv _ _ _ _ _ _ ne0, of "[]" r "pml4_index v"] by (auto simp: index_less)
  have d1: "descend (bmem b1) r 3 [pml4_index v] = Some pdp" using 1(3) by (simp add: index_less)
  have nh: "is_present (table_entry (bmem b1) pdp (pdp_index v)) \<Longrightarrow> \<not> is_huge (table_entry (bmem b1) pdp (pdp_index v))"
    using no_giant [OF _ _ d1] 1(2) by (simp add: boot_inv_def index_less)
  have ne: "pool b1 \<noteq> []" using 1(5) pool by auto
  obtain b2 pd where 2: "get_or_create_table b1 pdp (pdp_index v) = Some (b2, pd)" "boot_inv b2 r"
    "\<forall>q. pidx q \<longrightarrow> descend (bmem b2) r 3 q = (if q = [pml4_index v, pdp_index v] then Some pd else descend (bmem b1) r 3 q)"
    "\<forall>q. pidx q \<and> length q = 4 \<longrightarrow> mapping_at b2 r q = mapping_at b1 r q" "length (pool b1) \<le> length (pool b2) + 1"
    using get_or_create_table_ok [OF 1(2) _ d1 _ _ nh _ ne] by (auto simp: index_less)
  have "descend (bmem b2) r 3 [pml4_index v, pdp_index v] = Some pd" using 2(3) by (simp add: index_less)
  moreover have "\<forall>q. pidx q \<and> length q = 3 \<longrightarrow> descend (bmem b2) r 3 q = descend (bmem b) r 3 q"
    using 1(3) 2(3) by auto
  moreover have "length (pool b) \<le> length (pool b2) + 2" using 1(5) 2(5) by simp
  ultimately show ?thesis using 1 2 by (metis (no_types, lifting))
qed

text \<open>
  The mapping operations on the partial map of pages: a huge page changes the 512 pages of one
  page directory entry, a small page changes one.
\<close>

lemma write_word_inv:
  assumes "boot_inv b r" "b' = write_word b t i e"
    and "\<And>q. pidx q \<Longrightarrow> descend (bmem b') r 3 q = descend (bmem b) r 3 q" and "halves (bmem b') r"
  shows "boot_inv b' r"
proof -
  have "tables (bmem b') r = tables (bmem b) r" "pt_tree (bmem b') r"
    using assms(1,3) by (auto simp: tables_def pt_tree_def boot_inv_def)
  then show ?thesis
    using assms by (simp add: boot_inv_def recorded_def write_word_def)
qed

lemma one_entry_write_word:
  assumes "pt_tree (bmem b) r" "t0 \<in> tables (bmem b) r" "i0 < 512"
  shows "one_entry (bmem b) (bmem (write_word b t0 i0 e)) r t0 i0"
    "table_entry (bmem (write_word b t0 i0 e)) t0 i0 = e"
  using assms tables_aligned [OF assms(1)] by (auto simp: one_entry_def write_word_entry)

definition huge_entry :: "u64 \<Rightarrow> u64" where
  "huge_entry a = a OR PRESENT OR WRITABLE OR HUGE_PAGE"

lemma bit_HUGE_PAGE: "bit HUGE_PAGE n \<longleftrightarrow> n = 7" "bit NO_EXECUTE n \<longleftrightarrow> n = 63"
proof -
  have e: "HUGE_PAGE = 2 ^ 7" "NO_EXECUTE = 2 ^ 63" by (simp_all add: flag_defs)
  show "bit HUGE_PAGE n \<longleftrightarrow> n = 7" "bit NO_EXECUTE n \<longleftrightarrow> n = 63"
    unfolding e bit_exp_iff by auto
qed

lemma huge_entry_flags: "is_present (huge_entry a)" "is_huge (huge_entry a)"
  by (auto simp: huge_entry_def is_present_bit is_huge_bit bit_simps bit_flags bit_HUGE_PAGE)

lemma map_huge_page_ok:
  assumes inv: "boot_inv b r" and pool: "2 \<le> length (pool b)" and low: "pml4_index v < 256"
  shows "\<exists>b'. map_huge_page r b v a = Some b' \<and> boot_inv b' r \<and> length (pool b) \<le> length (pool b') + 2
    \<and> (\<forall>q. pidx q \<and> length q = 4 \<longrightarrow> mapping_at b' r q =
         (if take 3 q = take 3 (indices v) then Some (1, huge_entry a) else mapping_at b r q))"
proof -
  obtain b1 pdp b2 pd where u: "get_or_create_table b r (pml4_index v) = Some (b1, pdp)"
    "get_or_create_table b1 pdp (pdp_index v) = Some (b2, pd)" and inv2: "boot_inv b2 r"
    and d2: "descend (bmem b2) r 3 [pml4_index v, pdp_index v] = Some pd"
    and same: "\<forall>q. pidx q \<and> length q = 4 \<longrightarrow> mapping_at b2 r q = mapping_at b r q"
    and pl: "length (pool b) \<le> length (pool b2) + 2"
    using upper_levels [OF inv pool, of v] by blast
  define b' where "b' = write_word b2 pd (pd_index v) (huge_entry a)"
  have tree: "pt_tree (bmem b2) r" and hv: "halves (bmem b2) r" using inv2 by (simp_all add: boot_inv_def)
  have p: "pidx [pml4_index v, pdp_index v]" by (simp add: index_less)
  note w = one_entry_write_word [OF tree tablesI [OF p d2] index_less(3) [of v], of "huge_entry a", folded b'_def]
  have old: "descend (bmem b2) r 3 ([pml4_index v, pdp_index v] @ [pd_index v]) = None"
    using hv low by (simp add: halves_def index_less)
  have new: "is_present (table_entry (bmem b') pd (pd_index v))" "is_huge (table_entry (bmem b') pd (pd_index v))"
    by (simp_all add: w(2) huge_entry_flags)
  note o = overwrite_huge [OF tree w(1) p d2 _ old new]
  have pre: "prefix ([pml4_index v, pdp_index v] @ [pd_index v]) q \<longleftrightarrow> take 3 q = take 3 (indices v)"
    if "length q = 4" for q
    using that by (cases q; cases "tl q"; cases "tl (tl q)") (auto simp: indices_def)
  have map: "mapping_at b' r q = (if take 3 q = take 3 (indices v) then Some (1, huge_entry a) else mapping_at b r q)"
    if "pidx q" "length q = 4" for q
    using o(2) [OF _ that] pre [OF that(2)] same that by (simp add: w(2))
  have hd: "hd q = pml4_index v" if "take 3 q = take 3 (indices v)" "length q = 4" for q
    using that by (cases q) (auto simp: indices_def)
  have "halves (bmem b') r"
    using hv low o(1) map same hd unfolding halves_def by (auto split: if_splits)
  then have "boot_inv b' r"
    using write_word_inv [OF inv2 b'_def] o(1) by simp
  moreover have "map_huge_page r b v a = Some b'"
    using u by (simp add: map_huge_page_def b'_def huge_entry_def)
  moreover have "length (pool b) \<le> length (pool b') + 2" using pl by (simp add: b'_def write_word_def)
  ultimately show ?thesis using map by blast
qed

lemma map_4k_page_flags_ok:
  assumes inv: "boot_inv b r" and pool: "3 \<le> length (pool b)" and high: "256 \<le> pml4_index v"
    and flags: "bit flags 0"
  shows "\<exists>b'. map_4k_page_flags r b v a flags = Some b' \<and> boot_inv b' r \<and> length (pool b) \<le> length (pool b') + 3
    \<and> (\<forall>q. pidx q \<and> length q = 4 \<longrightarrow> mapping_at b' r q =
         (if q = indices v then Some (0, a OR flags) else mapping_at b r q))"
proof -
  have "2 \<le> length (pool b)" using pool by simp
  then obtain b1 pdp b2 pd where u: "get_or_create_table b r (pml4_index v) = Some (b1, pdp)"
    "get_or_create_table b1 pdp (pdp_index v) = Some (b2, pd)" and inv2: "boot_inv b2 r"
    and d2: "descend (bmem b2) r 3 [pml4_index v, pdp_index v] = Some pd"
    and same: "\<forall>q. pidx q \<and> length q = 4 \<longrightarrow> mapping_at b2 r q = mapping_at b r q"
    and pl: "length (pool b) \<le> length (pool b2) + 2"
    using upper_levels [OF inv, of v] by blast
  have nh: "is_present (table_entry (bmem b2) pd (pd_index v)) \<Longrightarrow> \<not> is_huge (table_entry (bmem b2) pd (pd_index v))"
    using no_huge_high [OF _ _ high d2] inv2 by (simp add: boot_inv_def index_less)
  have ne: "pool b2 \<noteq> []" using pl pool by auto
  obtain b3 pt where 3: "get_or_create_table b2 pd (pd_index v) = Some (b3, pt)" "boot_inv b3 r"
    "\<forall>q. pidx q \<longrightarrow> descend (bmem b3) r 3 q =
       (if q = [pml4_index v, pdp_index v, pd_index v] then Some pt else descend (bmem b2) r 3 q)"
    "\<forall>q. pidx q \<and> length q = 4 \<longrightarrow> mapping_at b3 r q = mapping_at b2 r q" "length (pool b2) \<le> length (pool b3) + 1"
    using get_or_create_table_ok [OF inv2 _ d2 _ _ nh _ ne] high by (auto simp: index_less)
  have p: "pidx [pml4_index v, pdp_index v, pd_index v]" by (simp add: index_less)
  have d3: "descend (bmem b3) r 3 [pml4_index v, pdp_index v, pd_index v] = Some pt" using 3(3) p by simp
  define b' where "b' = write_word b3 pt (pt_index v) (a OR flags)"
  have tree: "pt_tree (bmem b3) r" and hv: "halves (bmem b3) r" using 3(2) by (simp_all add: boot_inv_def)
  note w = one_entry_write_word [OF tree tablesI [OF p d3] index_less(4) [of v], of "a OR flags", folded b'_def]
  note o = overwrite_leaf [OF tree w(1) p d3]
  have pres: "is_present (a OR flags)" using flags by (simp add: is_present_bit bit_simps)
  have map: "mapping_at b' r q = (if q = indices v then Some (0, a OR flags) else mapping_at b r q)"
    if "pidx q" "length q = 4" for q
    using o(2) [OF _ that] same 3(4) that pres by (simp add: w(2) indices_snoc)
  have "halves (bmem b') r"
    using hv o(1) map same 3(4) unfolding halves_def by (auto split: if_splits)
  then have "boot_inv b' r"
    using write_word_inv [OF 3(2) b'_def] o(1) by simp
  moreover have "map_4k_page_flags r b v a flags = Some b'"
    using u 3(1) by (simp add: map_4k_page_flags_def b'_def)
  moreover have "length (pool b) \<le> length (pool b') + 3" using pl 3(5) by (simp add: b'_def write_word_def)
  ultimately show ?thesis using map by blast
qed

text \<open>
  A construction step: it succeeds with \<open>n\<close> pages of the firmware at most, keeps the invariant and
  changes the mapping of each page by \<open>g\<close>.
\<close>

definition maps_to ::
  "u64 \<Rightarrow> nat \<Rightarrow> (nat list \<Rightarrow> (nat \<times> u64) option \<Rightarrow> (nat \<times> u64) option) \<Rightarrow> Boot \<Rightarrow> Boot option \<Rightarrow> bool" where
  "maps_to r n g b res \<longleftrightarrow>
     (\<exists>b'. res = Some b' \<and> boot_inv b' r \<and> length (pool b) \<le> length (pool b') + n
        \<and> (\<forall>q. pidx q \<and> length q = 4 \<longrightarrow> mapping_at b' r q = g q (mapping_at b r q)))"

lemma maps_toE:
  assumes "maps_to r n g b res"
  obtains b' where "res = Some b'" "boot_inv b' r" "length (pool b) \<le> length (pool b') + n"
    "\<And>q. pidx q \<Longrightarrow> length q = 4 \<Longrightarrow> mapping_at b' r q = g q (mapping_at b r q)"
  using assms by (auto simp: maps_to_def)

definition set_huge :: "u64 \<Rightarrow> u64 \<Rightarrow> nat list \<Rightarrow> (nat \<times> u64) option \<Rightarrow> (nat \<times> u64) option" where
  "set_huge v a q x = (if take 3 q = take 3 (indices v) then Some (1, huge_entry a) else x)"

definition set_page :: "u64 \<Rightarrow> u64 \<Rightarrow> nat list \<Rightarrow> (nat \<times> u64) option \<Rightarrow> (nat \<times> u64) option" where
  "set_page v e q x = (if q = indices v then Some (0, e) else x)"

lemma map_huge_page_maps:
  "boot_inv b r \<Longrightarrow> 2 \<le> length (pool b) \<Longrightarrow> pml4_index v < 256 \<Longrightarrow>
   maps_to r 2 (set_huge v a) b (map_huge_page r b v a)"
  using map_huge_page_ok [of b r v a] by (auto simp: maps_to_def set_huge_def)

lemma map_4k_page_flags_maps:
  "boot_inv b r \<Longrightarrow> 3 \<le> length (pool b) \<Longrightarrow> 256 \<le> pml4_index v \<Longrightarrow> bit flags 0 \<Longrightarrow>
   maps_to r 3 (set_page v (a OR flags)) b (map_4k_page_flags r b v a flags)"
  using map_4k_page_flags_ok [of b r v flags a] by (auto simp: maps_to_def set_page_def)

lemma for_each_maps:
  assumes "boot_inv b r" "sum_list (map c xs) \<le> length (pool b)"
    and "\<And>b x. x \<in> set xs \<Longrightarrow> boot_inv b r \<Longrightarrow> c x \<le> length (pool b) \<Longrightarrow> maps_to r (c x) (g x) b (f b x)"
  shows "maps_to r (sum_list (map c xs)) (\<lambda>q. fold (\<lambda>x. g x q) xs) b (for_each f xs b)"
  using assms
proof (induction xs arbitrary: b)
  case (Cons x xs)
  obtain b1 where 1: "f b x = Some b1" "boot_inv b1 r" "length (pool b) \<le> length (pool b1) + c x"
    "\<And>q. pidx q \<Longrightarrow> length q = 4 \<Longrightarrow> mapping_at b1 r q = g x q (mapping_at b r q)"
    using Cons.prems(3) [of x b] Cons.prems(1,2) by (auto elim!: maps_toE)
  have "maps_to r (sum_list (map c xs)) (\<lambda>q. fold (\<lambda>x. g x q) xs) b1 (for_each f xs b1)"
    using Cons.prems(2) 1(3) by (intro Cons.IH 1(2) Cons.prems(3)) auto
  then show ?case
    using 1 by (auto simp: maps_to_def)
qed (simp add: maps_to_def)

lemma maps_to_bind:
  assumes "maps_to r n g b res" "\<And>b'. boot_inv b' r \<Longrightarrow> length (pool b) \<le> length (pool b') + n \<Longrightarrow> maps_to r n' g' b' (f b')"
  shows "maps_to r (n + n') (\<lambda>q x. g' q (g q x)) b (res \<bind> f)"
proof -
  obtain b1 where 1: "res = Some b1" "boot_inv b1 r" "length (pool b) \<le> length (pool b1) + n"
    "\<And>q. pidx q \<Longrightarrow> length q = 4 \<Longrightarrow> mapping_at b1 r q = g q (mapping_at b r q)"
    using assms(1) by (auto elim!: maps_toE)
  obtain b2 where 2: "f b1 = Some b2" "boot_inv b2 r" "length (pool b1) \<le> length (pool b2) + n'"
    "\<And>q. pidx q \<Longrightarrow> length q = 4 \<Longrightarrow> mapping_at b2 r q = g' q (mapping_at b1 r q)"
    using assms(2) [OF 1(2,3)] by (auto elim!: maps_toE)
  show ?thesis
    unfolding maps_to_def using 1 2 by (intro exI [of _ b2]) simp
qed

text \<open>
  Where all updates that hit agree, the fold of the updates is that update.
\<close>

lemma fold_hits:
  assumes "\<And>x. x \<in> set xs \<Longrightarrow> P x \<Longrightarrow> e x = E"
  shows "fold (\<lambda>x y. if P x then e x else y) xs y = (if \<exists>x\<in>set xs. P x then E else y)"
  using assms by (induction xs arbitrary: y) auto


section \<open>Addresses\<close>

lemma take_indices_iff:
  assumes "unat v < 2 ^ 48" "unat w < 2 ^ 48"
  shows "take 3 (indices v) = take 3 (indices w) \<longleftrightarrow> unat v div 2 ^ 21 = unat w div 2 ^ 21"
proof -
  define x y where "x = unat v div 2 ^ 21" and "y = unat w div 2 ^ 21"
  have "x < 2 ^ 27" "y < 2 ^ 27" using assms by (simp_all add: x_def y_def less_mult_imp_div_less)
  then have "x mod 68719476736 = x" "y mod 68719476736 = y" "x div 134217728 = 0" "y div 134217728 = 0"
    by simp_all
  then have "x = y \<longleftrightarrow> x mod 512 = y mod 512 \<and> x div 512 mod 512 = y div 512 mod 512
      \<and> x div 262144 mod 512 = y div 262144 mod 512"
    using digits_eq_iff [of x y] by simp
  then show ?thesis
    by (auto simp: indices_def index_defs index_bits x_def y_def div_mult2_eq [symmetric])
qed

lemma pml4_low: "unat v < 2 ^ 47 \<Longrightarrow> pml4_index v < 256"
proof -
  assume "unat v < 2 ^ 47"
  then have "unat v div 2 ^ 39 < 256" by (simp add: less_mult_imp_div_less)
  then show ?thesis by (simp add: pml4_index_def index_bits)
qed

lemma unat_kernel_addr:
  assumes "x < 2 ^ 31"
  shows "unat (KERNEL_VADDR_BASE + of_nat x) = 2 ^ 64 - 2 ^ 31 + x"
  using assms by (subst unat_add_no_overflow) (simp_all add: KERNEL_VADDR_BASE_def unat_of_nat_small)

lemma pml4_high:
  assumes "x < 2 ^ 31"
  shows "256 \<le> pml4_index (KERNEL_VADDR_BASE + of_nat x)"
proof -
  have "(2 ^ 64 - 2 ^ 31 + x) div 2 ^ 39 = (2 ^ 25 - 1 :: nat)"
    using assms by (intro div_nat_eqI) simp_all
  then show ?thesis
    unfolding pml4_index_def index_bits unat_kernel_addr [OF assms] by simp
qed

lemma indices_kernel_iff:
  assumes "x < 2 ^ 31" "y < 2 ^ 31"
  shows "indices (KERNEL_VADDR_BASE + of_nat x) = indices (KERNEL_VADDR_BASE + of_nat y) \<longleftrightarrow> x div 4096 = y div 4096"
proof -
  have page: "page_of (KERNEL_VADDR_BASE + of_nat z) = 2 ^ 36 - 2 ^ 19 + z div 4096" if "z < 2 ^ 31" for z
  proof -
    have e: "2 ^ 64 - 2 ^ 31 + z = z + (2 ^ 52 - 2 ^ 19) * 4096" by simp
    have "(2 ^ 64 - 2 ^ 31 + z) div 4096 = 2 ^ 52 - 2 ^ 19 + z div 4096"
      unfolding e by (rule div_mult_self1) simp
    moreover have "2 ^ 52 - 2 ^ 19 + z div 4096 = (2 ^ 36 - 2 ^ 19 + z div 4096) + (2 ^ 16 - 1) * 2 ^ 36" by simp
    ultimately have "(2 ^ 64 - 2 ^ 31 + z) div 4096 mod 2 ^ 36 = (2 ^ 36 - 2 ^ 19 + z div 4096) mod 2 ^ 36"
      by (metis mod_mult_self1)
    also have "\<dots> = 2 ^ 36 - 2 ^ 19 + z div 4096"
      using that by (intro mod_less) (simp add: less_mult_imp_div_less)
    finally show ?thesis unfolding page_of_def unat_kernel_addr [OF that] .
  qed
  show ?thesis unfolding indices_eq_iff page [OF assms(1)] page [OF assms(2)] by simp
qed

text \<open>
  The huge page of an address, and the translation through it.
\<close>

definition huge_base :: "u64 \<Rightarrow> u64" where
  "huge_base v = v AND NOT (HUGE_PAGE_SIZE - 1)"

lemma huge_mask: "HUGE_PAGE_SIZE - 1 = mask 21"
  by (simp add: HUGE_PAGE_SIZE_def mask_eq_exp_minus_1)

lemma unat_huge_base: "unat (huge_base v) = unat v div 2 ^ 21 * 2 ^ 21"
proof -
  have d: "unat (drop_bit 21 v) = unat v div 2 ^ 21"
    by (simp add: drop_bit_eq_div unat_div)
  have "huge_base v = push_bit 21 (drop_bit 21 v)"
    unfolding huge_base_def huge_mask by (rule bit_word_eqI) (auto simp: bit_simps)
  then have "unat (huge_base v) = unat (push_bit 21 (drop_bit 21 v))" by simp
  also have "\<dots> = unat (drop_bit 21 v) * 2 ^ 21"
  proof -
    have "unat v div 2 ^ 21 * 2 ^ 21 \<le> unat v" by (rule div_times_less_eq_dividend)
    then have "unat (drop_bit 21 v) * 2 ^ 21 < 2 ^ 64"
      unfolding d using unat_lt2p [of v] by simp
    then show ?thesis by (simp add: push_bit_eq_mult unat_word_ariths mult.commute)
  qed
  finally show ?thesis by (simp only: d)
qed

lemma huge_translate:
  assumes "unat v < 2 ^ 52"
  shows "pte_address (huge_entry (huge_base v)) OR (v AND page_mask 1) = v"
proof -
  have hi: "\<not> bit v n" if "52 \<le> n" for n
  proof -
    have "take_bit 52 (unat v) = unat v" using assms by (rule take_bit_nat_eq_self)
    then have "\<not> bit (unat v) n" using that by (metis bit_take_bit_iff not_le)
    then show ?thesis by (auto simp: bit_unsigned_iff dest: bit_imp_le_length)
  qed
  have m: "page_mask 1 = mask 21" by (simp add: page_mask_def huge_mask)
  have b: "bit (pte_address (huge_entry (huge_base v)) OR (v AND mask 21)) n \<longleftrightarrow> bit v n" if "n < 64" for n
    using hi [of n] that unfolding pte_address_def huge_entry_def huge_base_def huge_mask
    by (cases "n < 21"; cases "n < 52") (auto simp: bit_simps bit_ADDR_MASK bit_flags bit_HUGE_PAGE)
  show ?thesis unfolding m by (rule bit_word_eqI) (simp add: b)
qed


section \<open>The address space of the kernel\<close>

lemma boot_inv_start:
  assumes "allocate_page_table b = Some (b1, r)" "pages_good (pool b)" "pt_pages b = []"
  shows "boot_inv b1 r" "\<And>q. pidx q \<Longrightarrow> length q = 4 \<Longrightarrow> mapping_at b1 r q = None"
    "length (pool b) = length (pool b1) + 1"
proof -
  obtain rest where p: "pool b = r # rest" "pool b1 = rest" "pt_pages b1 = [r]"
    using assms(1,3) by (auto simp: allocate_page_table_def MAX_PT_PAGES_def split: list.splits)
  have al: "aligned r" using assms(2) p(1) by (simp add: pages_good_def)
  have z: "table_entry (bmem b1) r j = 0" if "j < 512" for j
    using allocate_entry [OF assms(1) al al that] by simp
  have d: "descend (bmem b1) r 3 q = (if q = [] then Some r else None)" if "pidx q" for q
    using that z by (cases q) (auto simp: descend.simps Let_def eval_nat_numeral)
  show res: "mapping_at b1 r q = None" if "pidx q" "length q = 4" for q
    using that z by (cases q) (auto simp: resolve.simps Let_def)
  have tabs: "tables (bmem b1) r = {r}"
    using d unfolding tables_def by (auto split: if_splits intro: exI [of _ "[]"])
  have "pt_tree (bmem b1) r"
    using al d unfolding pt_tree_def by (auto split: if_splits)
  moreover have "halves (bmem b1) r"
    using d res unfolding halves_def by auto
  ultimately show "boot_inv b1 r"
    using tabs p assms(2) by (simp add: boot_inv_def recorded_def pages_good_def MAX_PT_PAGES_def)
  show "length (pool b) = length (pool b1) + 1" using p by simp
qed

text \<open>
  A run of huge pages that map to themselves.
\<close>

definition identity_upd :: "u64 \<Rightarrow> nat \<Rightarrow> nat list \<Rightarrow> (nat \<times> u64) option \<Rightarrow> (nat \<times> u64) option" where
  "identity_upd base n q =
     fold (\<lambda>i. set_huge (base + of_nat i * HUGE_PAGE_SIZE) (base + of_nat i * HUGE_PAGE_SIZE) q) [0..<n]"

definition huge_run :: "u64 \<Rightarrow> nat \<Rightarrow> bool" where
  "huge_run base n \<longleftrightarrow> unat base mod 2 ^ 21 = 0 \<and> unat base + n * 2 ^ 21 \<le> 2 ^ 47"

lemma unat_huge_run:
  assumes "huge_run base n" "i < n"
  shows "unat (base + of_nat i * HUGE_PAGE_SIZE) = unat base + i * 2 ^ 21"
proof -
  have "(i + 1) * 2 ^ 21 \<le> n * 2 ^ 21" using assms(2) by (intro mult_le_mono1) simp
  then have b: "unat base + i * 2 ^ 21 < 2 ^ 47" using assms(1) by (simp add: huge_run_def)
  have "base + of_nat i * HUGE_PAGE_SIZE = of_nat (unat base + i * 2 ^ 21)"
    by (simp add: HUGE_PAGE_SIZE_def)
  then show ?thesis using b by (simp only:) (rule unat_of_nat_small, simp)
qed

lemma identity_maps:
  assumes "boot_inv b r" "2 * n \<le> length (pool b)" "huge_run base n"
  shows "maps_to r (2 * n) (identity_upd base n) b
    (for_each (\<lambda>b i. let a = base + of_nat i * HUGE_PAGE_SIZE in map_huge_page r b a a) [0..<n] b)"
proof -
  have s: "sum_list (map (\<lambda>i. 2) [0..<n]) = 2 * n" by (simp add: sum_list_triv)
  have "maps_to r (sum_list (map (\<lambda>i. 2) [0..<n])) (identity_upd base n) b
    (for_each (\<lambda>b i. let a = base + of_nat i * HUGE_PAGE_SIZE in map_huge_page r b a a) [0..<n] b)"
    unfolding identity_upd_def
  proof (rule for_each_maps)
    show "sum_list (map (\<lambda>i. 2) [0..<n]) \<le> length (pool b)" unfolding s by (rule assms(2))
    fix b i
    assume i: "i \<in> set [0..<n]" and b: "boot_inv b r" "2 \<le> length (pool b)"
    have "unat (base + of_nat i * HUGE_PAGE_SIZE) < 2 ^ 47"
    proof -
      have "(i + 1) * 2 ^ 21 \<le> n * 2 ^ 21" using i by (intro mult_le_mono1) simp
      then show ?thesis using unat_huge_run [OF assms(3), of i] i assms(3) by (simp add: huge_run_def)
    qed
    then show "maps_to r 2 (set_huge (base + of_nat i * HUGE_PAGE_SIZE) (base + of_nat i * HUGE_PAGE_SIZE)) b
        (let a = base + of_nat i * HUGE_PAGE_SIZE in map_huge_page r b a a)"
      unfolding Let_def by (intro map_huge_page_maps b pml4_low)
  qed (rule assms(1))
  then show ?thesis unfolding s .
qed

lemma identity_upd_low:
  assumes "huge_run base n" "unat v < 2 ^ 47"
  shows "identity_upd base n (indices v) x =
    (if unat base \<le> unat v \<and> unat v < unat base + n * 2 ^ 21 then Some (1, huge_entry (huge_base v)) else x)"
proof -
  have hit: "take 3 (indices v) = take 3 (indices (base + of_nat i * HUGE_PAGE_SIZE))
      \<longleftrightarrow> unat v div 2 ^ 21 = unat base div 2 ^ 21 + i" if "i < n" for i
  proof -
    have u: "unat (base + of_nat i * HUGE_PAGE_SIZE) = unat base + i * 2 ^ 21"
      using unat_huge_run [OF assms(1) that] .
    have "(i + 1) * 2 ^ 21 \<le> n * 2 ^ 21" using that by (intro mult_le_mono1) simp
    then have "unat base + i * 2 ^ 21 < 2 ^ 48" using assms(1) by (simp add: huge_run_def)
    then show ?thesis
      using assms(2) by (subst take_indices_iff) (auto simp: u)
  qed
  have ent: "base + of_nat i * HUGE_PAGE_SIZE = huge_base v"
    if "i < n" "unat v div 2 ^ 21 = unat base div 2 ^ 21 + i" for i
  proof -
    have "unat (huge_base v) = (unat base div 2 ^ 21) * 2 ^ 21 + i * 2 ^ 21"
      unfolding unat_huge_base that(2) by (simp add: distrib_right)
    also have "\<dots> = unat base + i * 2 ^ 21"
      using assms(1) by (simp add: huge_run_def) (metis dvd_div_mult_self mod_0_imp_dvd)
    finally show ?thesis
      using unat_huge_run [OF assms(1) that(1)] by (simp add: word_unat_eq_iff)
  qed
  obtain k where k: "unat base = k * 2 ^ 21"
    using assms(1) by (auto simp: huge_run_def)
  have ex: "(\<exists>i\<in>set [0..<n]. unat v div 2 ^ 21 = unat base div 2 ^ 21 + i)
      \<longleftrightarrow> unat base \<le> unat v \<and> unat v < unat base + n * 2 ^ 21"
  proof -
    have "(\<exists>i\<in>set [0..<n]. unat v div 2 ^ 21 = k + i) \<longleftrightarrow> k \<le> unat v div 2 ^ 21 \<and> unat v div 2 ^ 21 < k + n"
      by (auto simp: Bex_def) (metis add_diff_inverse_nat less_diff_conv2 not_less add.commute)
    also have "\<dots> \<longleftrightarrow> k * 2 ^ 21 \<le> unat v \<and> unat v < (k + n) * 2 ^ 21"
      by (simp add: less_eq_div_iff_mult_less_eq div_less_iff_less_mult)
    finally show ?thesis by (simp add: k distrib_right)
  qed
  have upd: "Some (1, huge_entry (base + of_nat i * HUGE_PAGE_SIZE)) = Some (1, huge_entry (huge_base v))"
    if "i \<in> set [0..<n]" "take 3 (indices v) = take 3 (indices (base + of_nat i * HUGE_PAGE_SIZE))" for i
  proof -
    have "i < n" using that(1) by simp
    then show ?thesis using ent that(2) unfolding hit [OF \<open>i < n\<close>] by (simp only:)
  qed
  have "(\<exists>i\<in>set [0..<n]. take 3 (indices v) = take 3 (indices (base + of_nat i * HUGE_PAGE_SIZE)))
      \<longleftrightarrow> (\<exists>i\<in>set [0..<n]. unat v div 2 ^ 21 = unat base div 2 ^ 21 + i)"
    by (rule bex_cong [OF refl], rule hit) (simp only: set_upt atLeastLessThan_iff)
  then show ?thesis
    unfolding identity_upd_def set_huge_def [abs_def] ex [symmetric]
    by (simp only: fold_hits [OF upd])
qed

lemma identity_upd_high:
  assumes "huge_run base n" "256 \<le> pml4_index v"
  shows "identity_upd base n (indices v) x = x"
proof -
  have "take 3 (indices v) \<noteq> take 3 (indices (base + of_nat i * HUGE_PAGE_SIZE))" if "i < n" for i
  proof -
    have "(i + 1) * 2 ^ 21 \<le> n * 2 ^ 21" using that by (intro mult_le_mono1) simp
    then have "pml4_index (base + of_nat i * HUGE_PAGE_SIZE) < 256"
      using assms(1) unat_huge_run [OF assms(1) that] by (intro pml4_low) (simp add: huge_run_def)
    then show ?thesis using assms(2) by (auto simp: indices_def)
  qed
  then show ?thesis
    using fold_hits [of "[0..<n]" "\<lambda>i. take 3 (indices v) = take 3 (indices (base + of_nat i * HUGE_PAGE_SIZE))"]
    by (auto simp: identity_upd_def set_huge_def [abs_def])
qed

text \<open>
  A run of small pages of the kernel image.
\<close>

definition pages_upd ::
  "u64 \<Rightarrow> u64 \<Rightarrow> nat \<Rightarrow> u64 \<Rightarrow> nat list \<Rightarrow> (nat \<times> u64) option \<Rightarrow> (nat \<times> u64) option" where
  "pages_upd phys off n flags q =
     fold (\<lambda>p. set_page (KERNEL_VADDR_BASE + off + of_nat p * PAGE_SIZE)
                 ((phys + off + of_nat p * PAGE_SIZE) OR flags) q) [0..<n]"

definition page_run :: "u64 \<Rightarrow> nat \<Rightarrow> bool" where
  "page_run off n \<longleftrightarrow> aligned off \<and> unat off + n * 4096 \<le> 2 ^ 31"

lemma page_run_addr:
  assumes "page_run off n" "p < n"
  shows "c + off + of_nat p * PAGE_SIZE = c + of_nat (unat off + p * 4096)" "unat off + p * 4096 < 2 ^ 31"
proof -
  have "(p + 1) * 4096 \<le> n * 4096" using assms(2) by (intro mult_le_mono1) simp
  then show "unat off + p * 4096 < 2 ^ 31" using assms(1) by (simp add: page_run_def)
  show "c + off + of_nat p * PAGE_SIZE = c + of_nat (unat off + p * 4096)"
    by (simp add: PAGE_SIZE_def)
qed

lemma pages_maps:
  assumes "boot_inv b r" "3 * n \<le> length (pool b)" "page_run off n" "bit flags 0"
  shows "maps_to r (3 * n) (pages_upd phys off n flags) b
    (for_each (\<lambda>b p. map_4k_page_flags r b (KERNEL_VADDR_BASE + off + of_nat p * PAGE_SIZE)
       (phys + off + of_nat p * PAGE_SIZE) flags) [0..<n] b)"
proof -
  have s: "sum_list (map (\<lambda>i. 3) [0..<n]) = 3 * n" by (simp add: sum_list_triv)
  have "maps_to r (sum_list (map (\<lambda>i. 3) [0..<n])) (pages_upd phys off n flags) b
    (for_each (\<lambda>b p. map_4k_page_flags r b (KERNEL_VADDR_BASE + off + of_nat p * PAGE_SIZE)
       (phys + off + of_nat p * PAGE_SIZE) flags) [0..<n] b)"
    unfolding pages_upd_def
  proof (rule for_each_maps)
    show "sum_list (map (\<lambda>i. 3) [0..<n]) \<le> length (pool b)" unfolding s by (rule assms(2))
    fix b p
    assume p: "p \<in> set [0..<n]" and b: "boot_inv b r" "3 \<le> length (pool b)"
    have "p < n" using p by simp
    note a = page_run_addr [OF assms(3) this]
    show "maps_to r 3 (set_page (KERNEL_VADDR_BASE + off + of_nat p * PAGE_SIZE) ((phys + off + of_nat p * PAGE_SIZE) OR flags)) b
        (map_4k_page_flags r b (KERNEL_VADDR_BASE + off + of_nat p * PAGE_SIZE) (phys + off + of_nat p * PAGE_SIZE) flags)"
      using pml4_high [OF a(2)] unfolding a(1) [symmetric]
      by (intro map_4k_page_flags_maps b assms(4))
  qed (rule assms(1))
  then show ?thesis unfolding s .
qed

lemma pages_upd_high:
  assumes "page_run off n" "x < 2 ^ 31"
  shows "pages_upd phys off n flags (indices (KERNEL_VADDR_BASE + of_nat x)) y =
    (if unat off \<le> x \<and> x < unat off + n * 4096 then Some (0, (phys + of_nat (x div 4096 * 4096)) OR flags) else y)"
proof -
  obtain k where k: "unat off = k * 4096"
    using assms(1) by (auto simp: page_run_def aligned_def)
  have hit: "indices (KERNEL_VADDR_BASE + of_nat x) = indices (KERNEL_VADDR_BASE + off + of_nat p * PAGE_SIZE)
      \<longleftrightarrow> x div 4096 = k + p" if "p < n" for p
  proof -
    have "(k * 4096 + p * 4096) div 4096 = k + p" by simp
    then show ?thesis
      unfolding page_run_addr(1) [OF assms(1) that]
        indices_kernel_iff [OF assms(2) page_run_addr(2) [OF assms(1) that]] by (simp only: k)
  qed
  have ent: "phys + off + of_nat p * PAGE_SIZE = phys + of_nat (x div 4096 * 4096)"
    if "p < n" "x div 4096 = k + p" for p
    unfolding page_run_addr(1) [OF assms(1) that(1)] that(2) by (simp add: k distrib_right)
  have ex: "(\<exists>p\<in>set [0..<n]. x div 4096 = k + p) \<longleftrightarrow> unat off \<le> x \<and> x < unat off + n * 4096"
  proof -
    have "(\<exists>p\<in>set [0..<n]. x div 4096 = k + p) \<longleftrightarrow> k \<le> x div 4096 \<and> x div 4096 < k + n"
      by (auto simp: Bex_def) (metis add_diff_inverse_nat less_diff_conv2 not_less add.commute)
    also have "\<dots> \<longleftrightarrow> k * 4096 \<le> x \<and> x < (k + n) * 4096"
      by (simp add: less_eq_div_iff_mult_less_eq div_less_iff_less_mult)
    finally show ?thesis by (simp add: k distrib_right)
  qed
  have upd: "Some (0, (phys + off + of_nat p * PAGE_SIZE) OR flags) = Some (0, (phys + of_nat (x div 4096 * 4096)) OR flags)"
    if "p \<in> set [0..<n]" "indices (KERNEL_VADDR_BASE + of_nat x) = indices (KERNEL_VADDR_BASE + off + of_nat p * PAGE_SIZE)" for p
  proof -
    have "p < n" using that(1) by simp
    then show ?thesis using ent that(2) unfolding hit [OF \<open>p < n\<close>] by (simp only:)
  qed
  have "(\<exists>p\<in>set [0..<n]. indices (KERNEL_VADDR_BASE + of_nat x) = indices (KERNEL_VADDR_BASE + off + of_nat p * PAGE_SIZE))
      \<longleftrightarrow> (\<exists>p\<in>set [0..<n]. x div 4096 = k + p)"
    by (rule bex_cong [OF refl], rule hit) (simp only: set_upt atLeastLessThan_iff)
  then show ?thesis
    unfolding pages_upd_def set_page_def [abs_def] ex [symmetric]
    by (simp only: fold_hits [OF upd])
qed

lemma pages_upd_low:
  assumes "page_run off n" "pml4_index v < 256"
  shows "pages_upd phys off n flags (indices v) y = y"
proof -
  have "indices v \<noteq> indices (KERNEL_VADDR_BASE + off + of_nat p * PAGE_SIZE)" if "p < n" for p
    unfolding page_run_addr(1) [OF assms(1) that]
    using pml4_high [OF page_run_addr(2) [OF assms(1) that]] assms(2) by (auto simp: indices_def)
  then show ?thesis
    using fold_hits [of "[0..<n]" "\<lambda>p. indices v = indices (KERNEL_VADDR_BASE + off + of_nat p * PAGE_SIZE)"]
    by (auto simp: pages_upd_def set_page_def [abs_def])
qed

text \<open>
  The pages of the image: what the loader must guarantee, and the page a kernel address has.
\<close>

definition seg_pages :: "SegmentInfo \<Rightarrow> nat" where
  "seg_pages seg = pages_of PAGE_SIZE (seg_size seg)"

definition covers :: "SegmentInfo \<Rightarrow> nat \<Rightarrow> bool" where
  "covers seg x \<longleftrightarrow> unat (offset_from_base seg) \<le> x \<and> x < unat (offset_from_base seg) + seg_pages seg * 4096"

definition seg_apart :: "SegmentInfo \<Rightarrow> SegmentInfo \<Rightarrow> bool" where
  "seg_apart s t \<longleftrightarrow>
     unat (offset_from_base s) + seg_pages s * 4096 \<le> unat (offset_from_base t)
     \<or> unat (offset_from_base t) + seg_pages t * 4096 \<le> unat (offset_from_base s)"

definition kernel_ok :: "KernelLoadInfo \<Rightarrow> bool" where
  "kernel_ok k \<longleftrightarrow> aligned (physical_base k) \<and> unat (physical_base k) + 2 ^ 31 \<le> 2 ^ 52
     \<and> pages_of PAGE_SIZE (kernel_size k) * 4096 \<le> 2 ^ 31
     \<and> list_all (\<lambda>s. page_run (offset_from_base s) (seg_pages s)) (segments k) \<and> sorted_wrt seg_apart (segments k)"

definition kernel_entry :: "KernelLoadInfo \<Rightarrow> nat \<Rightarrow> u64 \<Rightarrow> u64" where
  "kernel_entry k x flags = (physical_base k + of_nat (x div 4096 * 4096)) OR flags"

definition kernel_upd :: "KernelLoadInfo \<Rightarrow> bool \<Rightarrow> nat list \<Rightarrow> (nat \<times> u64) option \<Rightarrow> (nat \<times> u64) option" where
  "kernel_upd k nx q =
     (if segments k \<noteq> [] \<and> nx
      then fold (\<lambda>s. pages_upd (physical_base k) (offset_from_base s) (seg_pages s) (segment_flags s) q) (segments k)
      else pages_upd (physical_base k) 0 (pages_of PAGE_SIZE (kernel_size k)) (PRESENT OR WRITABLE) q)"

definition kernel_pages :: "KernelLoadInfo \<Rightarrow> bool \<Rightarrow> nat" where
  "kernel_pages k nx =
     (if segments k \<noteq> [] \<and> nx then sum_list (map seg_pages (segments k)) else pages_of PAGE_SIZE (kernel_size k))"

lemma segment_flags_bits:
  "bit (segment_flags s) n \<longleftrightarrow>
     n = 0 \<or> n = 1 \<and> seg_flags s AND PF_W \<noteq> 0 \<or> n = 63 \<and> seg_flags s AND PF_X = 0"
  by (auto simp: segment_flags_def Let_def bit_simps bit_flags bit_HUGE_PAGE)

lemma map_kernel_maps:
  assumes "boot_inv b r" "3 * kernel_pages k nx \<le> length (pool b)" "kernel_ok k"
  shows "maps_to r (3 * kernel_pages k nx) (kernel_upd k nx) b (map_kernel r k nx b)"
proof (cases "segments k \<noteq> [] \<and> nx")
  case True
  have s: "sum_list (map (\<lambda>s. 3 * seg_pages s) (segments k)) = 3 * kernel_pages k nx"
    using True by (simp add: kernel_pages_def sum_list_const_mult)
  have "maps_to r (sum_list (map (\<lambda>s. 3 * seg_pages s) (segments k)))
     (\<lambda>q. fold (\<lambda>s. pages_upd (physical_base k) (offset_from_base s) (seg_pages s) (segment_flags s) q) (segments k)) b
     (for_each (map_segment r k) (segments k) b)"
  proof (rule for_each_maps)
    fix b seg
    assume seg: "seg \<in> set (segments k)" and b: "boot_inv b r" "3 * seg_pages seg \<le> length (pool b)"
    then have "page_run (offset_from_base seg) (seg_pages seg)"
      using assms(3) by (auto simp: kernel_ok_def list_all_iff)
    then show "maps_to r (3 * seg_pages seg)
        (pages_upd (physical_base k) (offset_from_base seg) (seg_pages seg) (segment_flags seg)) b (map_segment r k b seg)"
      using pages_maps [OF b, of "offset_from_base seg" "segment_flags seg" "physical_base k"]
      by (simp add: map_segment_def seg_pages_def segment_flags_bits)
  qed (use assms s in auto)
  then show ?thesis
    using True unfolding s by (simp add: map_kernel_def kernel_upd_def [abs_def])
next
  case False
  have "page_run 0 (pages_of PAGE_SIZE (kernel_size k))"
    using assms(3) by (simp add: kernel_ok_def page_run_def aligned_def)
  moreover have "bit (PRESENT OR WRITABLE) 0" by (simp add: bit_simps bit_flags)
  ultimately show ?thesis
    using pages_maps [OF assms(1), of "pages_of PAGE_SIZE (kernel_size k)" 0 "PRESENT OR WRITABLE" "physical_base k"]
      assms(2) False
    by (auto simp: map_kernel_def kernel_upd_def [abs_def] kernel_pages_def map_4k_page_def)
qed

lemma kernel_upd_low:
  assumes "kernel_ok k" "pml4_index v < 256"
  shows "kernel_upd k nx (indices v) y = y"
proof -
  have "fold (\<lambda>s. pages_upd (physical_base k) (offset_from_base s) (seg_pages s) (segment_flags s) (indices v)) ss y = y"
    if "set ss \<subseteq> set (segments k)" for ss
    using that assms by (induction ss) (auto simp: pages_upd_low kernel_ok_def list_all_iff)
  moreover have "page_run 0 (pages_of PAGE_SIZE (kernel_size k))"
    using assms(1) by (simp add: kernel_ok_def page_run_def aligned_def)
  ultimately show ?thesis
    using assms(2) by (simp add: kernel_upd_def pages_upd_low)
qed

lemma kernel_upd_segment:
  assumes "kernel_ok k" "s \<in> set (segments k)" "covers s x" "x < 2 ^ 31"
  shows "kernel_upd k True (indices (KERNEL_VADDR_BASE + of_nat x)) y = Some (0, kernel_entry k x (segment_flags s))"
proof -
  have same: "t = s" if t: "t \<in> set (segments k)" "covers t x" for t
  proof (rule ccontr)
    assume "t \<noteq> s"
    then have "seg_apart t s \<or> seg_apart s t"
      using assms(1,2) t(1)
      by (auto simp: kernel_ok_def sorted_wrt_iff_nth_less in_set_conv_nth) (metis linorder_neqE_nat)
    then show False using assms(3) t(2) by (auto simp: seg_apart_def covers_def)
  qed
  have "fold (\<lambda>t. pages_upd (physical_base k) (offset_from_base t) (seg_pages t) (segment_flags t)
           (indices (KERNEL_VADDR_BASE + of_nat x))) (segments k) y
      = fold (\<lambda>t y. if covers t x then Some (0, kernel_entry k x (segment_flags t)) else y) (segments k) y"
    using assms(1,4)
    by (intro fold_cong) (auto simp: kernel_ok_def list_all_iff pages_upd_high covers_def kernel_entry_def fun_eq_iff)
  also have "\<dots> = (if \<exists>t\<in>set (segments k). covers t x then Some (0, kernel_entry k x (segment_flags s)) else y)"
    by (rule fold_hits) (use same in blast)
  also have "\<dots> = Some (0, kernel_entry k x (segment_flags s))"
    using assms(2,3) by (intro if_P) blast
  finally have "fold (\<lambda>t. pages_upd (physical_base k) (offset_from_base t) (seg_pages t) (segment_flags t)
           (indices (KERNEL_VADDR_BASE + of_nat x))) (segments k) y = Some (0, kernel_entry k x (segment_flags s))" .
  moreover have "segments k \<noteq> [] \<and> True" using assms(2) by auto
  ultimately show ?thesis
    unfolding kernel_upd_def by (simp only: if_True not_False_eq_True simp_thms)
qed

lemma kernel_upd_plain:
  assumes "kernel_ok k" "\<not> (segments k \<noteq> [] \<and> nx)" "x < pages_of PAGE_SIZE (kernel_size k) * 4096"
  shows "kernel_upd k nx (indices (KERNEL_VADDR_BASE + of_nat x)) y = Some (0, kernel_entry k x (PRESENT OR WRITABLE))"
proof -
  have "page_run 0 (pages_of PAGE_SIZE (kernel_size k))" "x < 2 ^ 31"
    using assms by (simp_all add: kernel_ok_def page_run_def aligned_def)
  then show ?thesis
    using assms(2,3) by (auto simp: kernel_upd_def pages_upd_high kernel_entry_def)
qed

text \<open>
  What the whole set-up needs of the firmware: a page for every table that can be needed.
\<close>

definition boot_pages_needed :: "KernelLoadInfo \<Rightarrow> FramebufferInfo \<Rightarrow> bool \<Rightarrow> nat" where
  "boot_pages_needed k fb nx = 1 + 2 * 2048 + 3 * kernel_pages k nx + 2 * pages_of HUGE_PAGE_SIZE (fb_size fb)"

definition fb_pages :: "FramebufferInfo \<Rightarrow> nat" where
  "fb_pages fb = pages_of HUGE_PAGE_SIZE (fb_size fb)"

definition fb_ok :: "FramebufferInfo \<Rightarrow> bool" where
  "fb_ok fb \<longleftrightarrow> unat (fb_address fb) + fb_pages fb * 2 ^ 21 \<le> 2 ^ 47"

lemma fb_run:
  assumes "fb_ok fb"
  shows "huge_run (fb_base_aligned fb) (fb_pages fb)" "unat (fb_base_aligned fb) \<le> unat (fb_address fb)"
proof -
  have e: "unat (fb_base_aligned fb) = unat (fb_address fb) div 2 ^ 21 * 2 ^ 21"
    using unat_huge_base [of "fb_address fb"] by (simp add: fb_base_aligned_def huge_base_def)
  show le: "unat (fb_base_aligned fb) \<le> unat (fb_address fb)"
    unfolding e by (rule div_times_less_eq_dividend)
  have "unat (fb_base_aligned fb) mod 2 ^ 21 = 0"
    unfolding e by (rule mod_mult_self2_is_0)
  with le show "huge_run (fb_base_aligned fb) (fb_pages fb)"
    using assms by (auto simp: huge_run_def fb_ok_def)
qed

lemma setup_maps:
  assumes "pages_good (pool b)" "pt_pages b = []" "boot_pages_needed k fb nx \<le> length (pool b)" "kernel_ok k" "fb_ok fb"
  shows "\<exists>b' r. setup_kernel_page_tables k fb nx b = Some (b', r) \<and> boot_inv b' r \<and> r = hd (pool b)
    \<and> (\<forall>q. pidx q \<and> length q = 4 \<longrightarrow> mapping_at b' r q =
         identity_upd (fb_base_aligned fb) (fb_pages fb) q (kernel_upd k nx q (identity_upd 0 2048 q None)))"
proof -
  obtain b1 r where al: "allocate_page_table b = Some (b1, r)" "r = hd (pool b)"
    using assms(3) by (cases "pool b") (auto simp: allocate_page_table_def boot_pages_needed_def)
  note st = boot_inv_start [OF al(1) assms(1,2)]
  have id: "maps_to r (2 * 2048) (identity_upd 0 2048) b1 (map_identity r b1)"
    using identity_maps [OF st(1), of 2048 0] assms(3) st(3)
    by (simp add: map_identity_def Let_def boot_pages_needed_def huge_run_def)
  have ker: "maps_to r (2 * 2048 + 3 * kernel_pages k nx) (\<lambda>q x. kernel_upd k nx q (identity_upd 0 2048 q x)) b1
     (map_identity r b1 \<bind> map_kernel r k nx)"
  proof (rule maps_to_bind [OF id])
    fix b2
    assume "boot_inv b2 r" "length (pool b1) \<le> length (pool b2) + 2 * 2048"
    then show "maps_to r (3 * kernel_pages k nx) (kernel_upd k nx) b2 (map_kernel r k nx b2)"
      using assms(3) st(3) by (intro map_kernel_maps assms(4)) (simp_all add: boot_pages_needed_def)
  qed
  have "maps_to r (2 * 2048 + 3 * kernel_pages k nx + 2 * fb_pages fb)
     (\<lambda>q x. identity_upd (fb_base_aligned fb) (fb_pages fb) q (kernel_upd k nx q (identity_upd 0 2048 q x))) b1
     (map_identity r b1 \<bind> map_kernel r k nx \<bind> map_framebuffer r fb)"
  proof (rule maps_to_bind [OF ker])
    fix b3
    assume "boot_inv b3 r" "length (pool b1) \<le> length (pool b3) + (2 * 2048 + 3 * kernel_pages k nx)"
    then show "maps_to r (2 * fb_pages fb) (identity_upd (fb_base_aligned fb) (fb_pages fb)) b3 (map_framebuffer r fb b3)"
      unfolding map_framebuffer_def fb_pages_def [symmetric]
      using assms(3) st(3) by (intro identity_maps fb_run assms(5)) (simp_all add: boot_pages_needed_def fb_pages_def)
  qed
  then obtain b' where b': "map_identity r b1 \<bind> map_kernel r k nx \<bind> map_framebuffer r fb = Some b'" "boot_inv b' r"
    "\<And>q. pidx q \<Longrightarrow> length q = 4 \<Longrightarrow> mapping_at b' r q =
       identity_upd (fb_base_aligned fb) (fb_pages fb) q (kernel_upd k nx q (identity_upd 0 2048 q (mapping_at b1 r q)))"
    by (auto elim!: maps_toE)
  have "setup_kernel_page_tables k fb nx b = Some (b', r)"
    using b'(1) by (auto simp: setup_kernel_page_tables_def al(1) bind_eq_Some_conv)
  then show ?thesis using b'(2,3) st(2) al(2) by (auto split: option.splits)
qed

lemma kernel_entry_translate:
  assumes "kernel_ok k" "x < 2 ^ 31" "flags_ok flags"
  shows "pte_address (kernel_entry k x flags) OR (KERNEL_VADDR_BASE + of_nat x AND page_mask 0) = physical_base k + of_nat x"
    and "pte_address (kernel_entry k x flags) = physical_base k + of_nat (x div 4096 * 4096)"
    and "bit (kernel_entry k x flags) n \<longleftrightarrow> bit (physical_base k + of_nat (x div 4096 * 4096)) n \<or> bit flags n"
proof -
  define f where "f = physical_base k + of_nat (x div 4096 * 4096)"
  define y where "y = x div 4096 * 4096"
  have y: "y \<le> x" "x - y = x mod 4096" by (simp_all add: y_def minus_div_mult_eq_mod)
  have uy: "unat (of_nat y :: u64) = y" using y assms(2) by (intro unat_of_nat_small) simp
  have uf: "unat f = unat (physical_base k) + y"
    unfolding f_def y_def [symmetric] using y assms(1,2) uy by (subst unat_add_no_overflow) (simp_all add: kernel_ok_def)
  have al: "aligned f" "unat f < 2 ^ 52"
    using assms(1,2) y by (simp_all add: aligned_def uf kernel_ok_def) (simp add: y_def mod_add_eq [symmetric])
  have e: "kernel_entry k x flags = pte_set f flags"
    by (simp only: kernel_entry_def f_def [symmetric] frame_or [OF al])
  show p: "pte_address (kernel_entry k x flags) = physical_base k + of_nat (x div 4096 * 4096)"
    unfolding e pte_address_set [OF assms(3)] mask_frame [OF al] by (simp only: f_def)
  show "bit (kernel_entry k x flags) n \<longleftrightarrow> bit (physical_base k + of_nat (x div 4096 * 4096)) n \<or> bit flags n"
    unfolding kernel_entry_def by (simp add: bit_or_iff)
  have m: "page_mask 0 = mask 12" by (simp add: page_mask_def mask_eq_exp_minus_1)
  have "take_bit 12 (KERNEL_VADDR_BASE + of_nat x) = of_nat (x mod 4096)"
  proof -
    have "unat (take_bit 12 (KERNEL_VADDR_BASE + of_nat x)) = (2 ^ 64 - 2 ^ 31 + x) mod 4096"
      using unat_kernel_addr [OF assms(2)] by (simp add: take_bit_eq_mod unat_mod)
    also have "\<dots> = (x + (2 ^ 52 - 2 ^ 19) * 4096) mod 4096" by (simp add: add.commute)
    also have "\<dots> = x mod 4096" by (simp only: mod_mult_self1)
    finally have "unat (take_bit 12 (KERNEL_VADDR_BASE + of_nat x)) = unat (of_nat (x mod 4096) :: u64)"
      by (simp add: unat_of_nat_small)
    then show ?thesis by (simp add: word_unat_eq_iff)
  qed
  then have off: "KERNEL_VADDR_BASE + of_nat x AND page_mask 0 = of_nat (x mod 4096)"
    unfolding m by (simp add: take_bit_eq_mask)
  have "f OR of_nat (x mod 4096) = f + of_nat (x mod 4096)"
  proof (rule disjunctive_add [symmetric])
    fix n
    have "\<not> bit (of_nat (x mod 4096) :: u64) n" if "12 \<le> n"
    proof -
      have "of_nat (x mod 4096) = take_bit 12 (of_nat x :: u64)"
        by (simp add: word_unat_eq_iff take_bit_eq_mod unat_mod unat_of_nat mod_mod_cancel)
      then show ?thesis using that by (simp add: bit_take_bit_iff)
    qed
    then show "\<not> bit f n \<or> \<not> bit (of_nat (x mod 4096) :: u64) n"
      using al(1) unfolding aligned_iff_bits by (meson not_le)
  qed
  also have "\<dots> = physical_base k + of_nat x"
  proof -
    have "(of_nat (x div 4096 * 4096) + of_nat (x mod 4096) :: u64) = of_nat (x div 4096 * 4096 + x mod 4096)"
      by (simp only: of_nat_add)
    then show ?thesis unfolding f_def by (simp only: add.assoc div_mult_mod_eq)
  qed
  finally show "pte_address (kernel_entry k x flags) OR (KERNEL_VADDR_BASE + of_nat x AND page_mask 0) = physical_base k + of_nat x"
    unfolding p f_def off .
qed

lemma segment_flags_ok: "flags_ok (segment_flags s)"
  by (auto simp: flags_ok_iff_bits segment_flags_bits)

lemma kernel_entry_flags:
  assumes "kernel_ok k" "x < 2 ^ 31"
  shows "bit (kernel_entry k x (segment_flags s)) 1 \<longleftrightarrow> seg_flags s AND PF_W \<noteq> 0"
    "bit (kernel_entry k x (segment_flags s)) 63 \<longleftrightarrow> seg_flags s AND PF_X = 0"
proof -
  have page: "\<not> bit (physical_base k + of_nat (x div 4096 * 4096)) n" if "n = 1 \<or> n = 63" for n
  proof -
    have "bit (pte_address (kernel_entry k x (segment_flags s))) n \<longleftrightarrow>
        bit (physical_base k + of_nat (x div 4096 * 4096)) n"
      by (simp only: kernel_entry_translate(2) [OF assms segment_flags_ok])
    then show ?thesis using that by (auto simp: pte_address_def bit_and_iff bit_ADDR_MASK)
  qed
  show "bit (kernel_entry k x (segment_flags s)) 1 \<longleftrightarrow> seg_flags s AND PF_W \<noteq> 0"
    "bit (kernel_entry k x (segment_flags s)) 63 \<longleftrightarrow> seg_flags s AND PF_X = 0"
    using page [of 1] page [of 63]
    by (simp_all add: kernel_entry_translate(3) [OF assms segment_flags_ok] segment_flags_bits del: of_nat_mult)
qed

text \<open>
  The mappings of the finished tables: the lower half, the kernel's half, and how the kernel's code
  reads them.
\<close>

lemma setup_low:
  assumes "pages_good (pool b)" "pt_pages b = []" "boot_pages_needed k fb nx \<le> length (pool b)" "kernel_ok k" "fb_ok fb"
    and "setup_kernel_page_tables k fb nx b = Some (b', r)"
    and v: "unat v < 2 ^ 47"
  shows "mapping_at b' r (indices v) =
    (if unat v < 2 ^ 32 \<or> unat (fb_base_aligned fb) \<le> unat v \<and> unat v < unat (fb_base_aligned fb) + fb_pages fb * 2 ^ 21
     then Some (1, huge_entry (huge_base v)) else None)"
proof -
  have "huge_run 0 2048" by (simp add: huge_run_def)
  then show ?thesis
    using setup_maps [OF assms(1-5)] assms(6) identity_upd_low [OF fb_run(1) [OF assms(5)] v]
      kernel_upd_low [OF assms(4) pml4_low [OF v]]
    by (auto simp: identity_upd_low [OF _ v])
qed

lemma setup_low_translates:
  assumes "pages_good (pool b)" "pt_pages b = []" "boot_pages_needed k fb nx \<le> length (pool b)" "kernel_ok k" "fb_ok fb"
    and "setup_kernel_page_tables k fb nx b = Some (b', r)"
    and "unat v < 2 ^ 32 \<or> unat (fb_base_aligned fb) \<le> unat v \<and> unat v < unat (fb_base_aligned fb) + fb_pages fb * 2 ^ 21"
    and "mem m = bmem b'"
  shows "translate m r v = Some v"
proof -
  have v: "unat v < 2 ^ 47" using assms(7) fb_run(1) [OF assms(5)] by (auto simp: huge_run_def)
  then have "unat v < 2 ^ 52" by simp
  then show ?thesis
    using setup_low [OF assms(1-6) v] assms(7,8)
    by (simp add: translate_lookup huge_translate del: One_nat_def)
qed

lemma setup_high:
  assumes "pages_good (pool b)" "pt_pages b = []" "boot_pages_needed k fb nx \<le> length (pool b)" "kernel_ok k" "fb_ok fb"
    and "setup_kernel_page_tables k fb nx b = Some (b', r)"
    and x: "x < 2 ^ 31"
  shows "mapping_at b' r (indices (KERNEL_VADDR_BASE + of_nat x)) = kernel_upd k nx (indices (KERNEL_VADDR_BASE + of_nat x)) None"
proof -
  have "huge_run 0 2048" by (simp add: huge_run_def)
  then show ?thesis
    using setup_maps [OF assms(1-5)] assms(6) identity_upd_high [OF fb_run(1) [OF assms(5)] pml4_high [OF x]]
    by (auto simp: identity_upd_high [OF _ pml4_high [OF x]])
qed

lemma setup_segment_translates:
  assumes "pages_good (pool b)" "pt_pages b = []" "boot_pages_needed k fb nx \<le> length (pool b)" "kernel_ok k" "fb_ok fb"
    and "setup_kernel_page_tables k fb nx b = Some (b', r)"
    and "s \<in> set (segments k)" "covers s x" "mem m = bmem b'" "nx"
  shows "translate m r (KERNEL_VADDR_BASE + of_nat x) = Some (physical_base k + of_nat x)
    \<and> (\<exists>e. resolve (mem m) r (indices (KERNEL_VADDR_BASE + of_nat x)) = Some (0, e)
         \<and> (bit e 1 \<longleftrightarrow> seg_flags s AND PF_W \<noteq> 0) \<and> (bit e 63 \<longleftrightarrow> seg_flags s AND PF_X = 0))"
proof -
  have x: "x < 2 ^ 31"
    using assms(4,7,8) by (auto simp: kernel_ok_def list_all_iff page_run_def covers_def)
  have "resolve (mem m) r (indices (KERNEL_VADDR_BASE + of_nat x)) = Some (0, kernel_entry k x (segment_flags s))"
    using setup_high [OF assms(1-6) x] kernel_upd_segment [OF assms(4,7,8) x] assms(9,10) by simp
  then show ?thesis
    using kernel_entry_translate(1) [OF assms(4) x segment_flags_ok] kernel_entry_flags [OF assms(4) x, of s]
    by (simp add: translate_lookup)
qed

lemma setup_plain_translates:
  assumes "pages_good (pool b)" "pt_pages b = []" "boot_pages_needed k fb nx \<le> length (pool b)" "kernel_ok k" "fb_ok fb"
    and "setup_kernel_page_tables k fb nx b = Some (b', r)"
    and "x < pages_of PAGE_SIZE (kernel_size k) * 4096" "mem m = bmem b'" "\<not> nx"
  shows "translate m r (KERNEL_VADDR_BASE + of_nat x) = Some (physical_base k + of_nat x)"
proof -
  have x: "x < 2 ^ 31" using assms(4,7) by (simp add: kernel_ok_def)
  have f: "flags_ok (PRESENT OR WRITABLE)" using table_flags_ok(1) [of 0] by (simp add: table_flags_0)
  have "resolve (mem m) r (indices (KERNEL_VADDR_BASE + of_nat x)) = Some (0, kernel_entry k x (PRESENT OR WRITABLE))"
    using setup_high [OF assms(1-6) x] kernel_upd_plain [OF assms(4) _ assms(7), of nx] assms(8,9) by simp
  then show ?thesis
    using kernel_entry_translate(1) [OF assms(4) x f] by (simp add: translate_lookup)
qed

text \<open>
  C2: The boot loader hands the kernel a complete address space. When the firmware has enough pages,
  the set-up succeeds, the tables form a tree, and as long as the list of table pages has room it
  names exactly the tables. Every address below 4 GiB and every address of the framebuffer's huge
  pages translates to itself. With no-execute enabled, every byte of a segment translates to its
  place in the loaded image, and its page can be written exactly when the segment has the W
  permission and executed exactly when it has the X permission; otherwise every byte of the image is
  mapped, writable and executable.
\<close>

theorem boot_address_space:
  assumes "pages_good (pool b)" "pt_pages b = []" "boot_pages_needed k fb nx \<le> length (pool b)"
    and "kernel_ok k" "fb_ok fb"
  shows "\<exists>b' r. setup_kernel_page_tables k fb nx b = Some (b', r) \<and> pt_tree (bmem b') r
    \<and> (length (page_table_pages b') < MAX_PT_PAGES \<longrightarrow> set (page_table_pages b') = tables (bmem b') r)
    \<and> (\<forall>(m :: Machine) v. mem m = bmem b' \<and> unat v < 2 ^ 32 \<longrightarrow> translate m r v = Some v)
    \<and> (\<forall>(m :: Machine) v. mem m = bmem b' \<and> unat (fb_base_aligned fb) \<le> unat v
         \<and> unat v < unat (fb_base_aligned fb) + fb_pages fb * 2 ^ 21 \<longrightarrow> translate m r v = Some v)
    \<and> (nx \<longrightarrow> (\<forall>(m :: Machine) s x. mem m = bmem b' \<and> s \<in> set (segments k) \<and> covers s x \<longrightarrow>
         translate m r (KERNEL_VADDR_BASE + of_nat x) = Some (physical_base k + of_nat x)
         \<and> (\<exists>e. resolve (mem m) r (indices (KERNEL_VADDR_BASE + of_nat x)) = Some (0, e)
              \<and> (bit e 1 \<longleftrightarrow> seg_flags s AND PF_W \<noteq> 0) \<and> (bit e 63 \<longleftrightarrow> seg_flags s AND PF_X = 0))))
    \<and> (\<not> nx \<longrightarrow> (\<forall>(m :: Machine) x. mem m = bmem b' \<and> x < pages_of PAGE_SIZE (kernel_size k) * 4096 \<longrightarrow>
         translate m r (KERNEL_VADDR_BASE + of_nat x) = Some (physical_base k + of_nat x)))"
proof -
  obtain b' r where s: "setup_kernel_page_tables k fb nx b = Some (b', r)" and inv: "boot_inv b' r"
    using setup_maps [OF assms] by blast
  have tree: "pt_tree (bmem b') r"
    and rec: "length (page_table_pages b') < MAX_PT_PAGES \<longrightarrow> set (page_table_pages b') = tables (bmem b') r"
    using inv by (auto simp: boot_inv_def recorded_def page_table_pages_def)
  note low = setup_low_translates [OF assms s]
  have seg: "nx \<longrightarrow> (\<forall>(m :: Machine) s x. mem m = bmem b' \<and> s \<in> set (segments k) \<and> covers s x \<longrightarrow>
         translate m r (KERNEL_VADDR_BASE + of_nat x) = Some (physical_base k + of_nat x)
         \<and> (\<exists>e. resolve (mem m) r (indices (KERNEL_VADDR_BASE + of_nat x)) = Some (0, e)
              \<and> (bit e 1 \<longleftrightarrow> seg_flags s AND PF_W \<noteq> 0) \<and> (bit e 63 \<longleftrightarrow> seg_flags s AND PF_X = 0)))"
    using setup_segment_translates [OF assms s] by blast
  have plain: "\<not> nx \<longrightarrow> (\<forall>(m :: Machine) x. mem m = bmem b' \<and> x < pages_of PAGE_SIZE (kernel_size k) * 4096 \<longrightarrow>
         translate m r (KERNEL_VADDR_BASE + of_nat x) = Some (physical_base k + of_nat x))"
    using setup_plain_translates [OF assms s] by blast
  show ?thesis
    by (intro exI [of _ b'] exI [of _ r] conjI s tree rec seg plain) (blast intro: low)+
qed

definition sample_pool :: "u64 list" where
  "sample_pool = map (\<lambda>i. of_nat ((i + 1) * 4096)) [0..<5000]"

lemma sample_pool_good: "pages_good sample_pool" "length sample_pool = 5000"
proof -
  have u: "unat (of_nat ((i + 1) * 4096) :: u64) = (i + 1) * 4096" if "i < 5000" for i
    using that by (intro unat_of_nat_small) simp
  have "inj_on (\<lambda>i. of_nat ((i + 1) * 4096) :: u64) (set [0..<5000])"
  proof (rule inj_onI)
    fix i j
    assume "i \<in> set [0..<5000]" "j \<in> set [0..<5000]" "(of_nat ((i + 1) * 4096) :: u64) = of_nat ((j + 1) * 4096)"
    then show "i = j" using u [of i] u [of j] by (metis Suc_eq_plus1 atLeastLessThan_iff diff_Suc_1 mult_cancel2 set_upt zero_neq_numeral)
  qed
  then show "pages_good sample_pool"
    using u by (simp add: pages_good_def sample_pool_def distinct_map list_all_iff aligned_def del: of_nat_mult of_nat_Suc of_nat_add)
  show "length sample_pool = 5000" by (simp add: sample_pool_def)
qed

definition sample_kernel :: KernelLoadInfo where
  "sample_kernel = \<lparr>entry_point = KERNEL_VADDR_BASE, physical_base = 0x200000,
     virtual_base = KERNEL_VADDR_BASE, kernel_size = 0x1800,
     segments = [\<lparr>offset_from_base = 0, seg_size = 0x800, seg_flags = 5\<rparr>,
                 \<lparr>offset_from_base = 0x1000, seg_size = 0x800, seg_flags = 6\<rparr>]\<rparr>"

definition sample_fb :: FramebufferInfo where
  "sample_fb = \<lparr>fb_address = 0x100100000, fb_size = 0x200000, fb_width = 1024, fb_height = 512,
     fb_stride = 4096, fb_format = Bgr\<rparr>"

definition sample_boot :: Boot where
  "sample_boot = \<lparr>bmem = (\<lambda>_. 0), pool = sample_pool, pt_pages = []\<rparr>"

lemma sample_setup:
  "pages_good (pool sample_boot)" "pt_pages sample_boot = []"
  "boot_pages_needed sample_kernel sample_fb True \<le> length (pool sample_boot)"
  "kernel_ok sample_kernel" "fb_ok sample_fb"
  by (simp_all add: sample_boot_def sample_pool_good sample_kernel_def sample_fb_def boot_pages_needed_def
      kernel_pages_def seg_pages_def pages_of_def PAGE_SIZE_def HUGE_PAGE_SIZE_def kernel_ok_def page_run_def
      aligned_def seg_apart_def fb_ok_def fb_pages_def)

theorem boot_address_space_witness:
  "\<exists>b' r. setup_kernel_page_tables sample_kernel sample_fb True sample_boot = Some (b', r)
    \<and> (\<forall>m :: Machine. mem m = bmem b' \<longrightarrow> translate m r 0x12345678 = Some 0x12345678
       \<and> translate m r (KERNEL_VADDR_BASE + 0x1004) = Some 0x201004)"
proof -
  obtain b' r where s: "setup_kernel_page_tables sample_kernel sample_fb True sample_boot = Some (b', r)"
    and low: "\<forall>(m :: Machine) v. mem m = bmem b' \<and> unat v < 2 ^ 32 \<longrightarrow> translate m r v = Some v"
    and seg: "\<forall>(m :: Machine) s x. mem m = bmem b' \<and> s \<in> set (segments sample_kernel) \<and> covers s x \<longrightarrow>
         translate m r (KERNEL_VADDR_BASE + of_nat x) = Some (physical_base sample_kernel + of_nat x)"
    using boot_address_space [OF sample_setup] by blast
  have "covers \<lparr>offset_from_base = 0x1000, seg_size = 0x800, seg_flags = 6\<rparr> 0x1004"
    by (simp add: covers_def seg_pages_def pages_of_def PAGE_SIZE_def)
  moreover have "\<lparr>offset_from_base = 0x1000, seg_size = 0x800, seg_flags = 6\<rparr> \<in> set (segments sample_kernel)"
    "physical_base sample_kernel = 0x200000"
    by (simp_all add: sample_kernel_def)
  ultimately have "translate m r (KERNEL_VADDR_BASE + 0x1004) = Some 0x201004" if "mem m = bmem b'" for m :: Machine
    using seg [THEN spec [of _ m], THEN spec [of _ "\<lparr>offset_from_base = 0x1000, seg_size = 0x800, seg_flags = 6\<rparr>"],
        THEN spec [of _ "0x1004"]] that by simp
  moreover have "translate m r 0x12345678 = Some 0x12345678" if "mem m = bmem b'" for m :: Machine
    using low that by simp
  ultimately show ?thesis using s by blast
qed

text \<open>
  The number of huge pages for the framebuffer is computed from its size alone, while the first page
  starts at the address rounded down: above 4 GiB, the end of a framebuffer that does not start at a
  multiple of 2 MiB can be left without a mapping.
\<close>

theorem framebuffer_tail_unmapped:
  assumes "pages_good (pool b)" "pt_pages b = []" "boot_pages_needed k fb nx \<le> length (pool b)"
    and "kernel_ok k" "fb_ok fb" "setup_kernel_page_tables k fb nx b = Some (b', r)"
    and v: "2 ^ 32 \<le> unat v" "unat (fb_base_aligned fb) + fb_pages fb * 2 ^ 21 \<le> unat v" "unat v < 2 ^ 47"
    and "mem m = bmem b'"
  shows "translate m r v = None"
  using setup_low [OF assms(1-6) v(3)] v by (simp add: translate_lookup assms(10))

theorem framebuffer_tail_unmapped_witness:
  "\<exists>b' r. setup_kernel_page_tables sample_kernel sample_fb True sample_boot = Some (b', r)
    \<and> (\<forall>m :: Machine. mem m = bmem b' \<longrightarrow> translate m r 0x1002FFFFC = None)"
proof -
  obtain b' r where s: "setup_kernel_page_tables sample_kernel sample_fb True sample_boot = Some (b', r)"
    using setup_maps [OF sample_setup] by blast
  have "translate m r 0x1002FFFFC = None" if "mem m = bmem b'" for m :: Machine
  proof (rule framebuffer_tail_unmapped [OF sample_setup s _ _ _ that])
    show "unat (fb_base_aligned sample_fb) + fb_pages sample_fb * 2 ^ 21 \<le> unat (0x1002FFFFC :: u64)"
      by (simp add: fb_base_aligned_def sample_fb_def fb_pages_def pages_of_def HUGE_PAGE_SIZE_def)
  qed simp_all
  with s show ?thesis by blast
qed

end
