(* ===== verification/Spec2Isabelle.thy ===== *)
theory Spec2Isabelle
  imports Vmm Heap Scheduler Vfs Net Calc Keyboard Mouse Rtc Minesweeper Snake Notepad Desktop Boot_Paging
begin

unbundle bit_operations_syntax

text \<open>
  A verification development of CantayaOS, a 64-bit operating system in Rust: a UEFI boot loader
  (\<^verbatim>\<open>bootloader/\<close>), the boot protocol shared with the kernel (\<^verbatim>\<open>shared/\<close>) and a
  kernel with memory management, scheduling, storage, network, drivers, a shell and a desktop
  (\<^verbatim>\<open>kernel/\<close>). All paths below are relative to \<^verbatim>\<open>src/\<close>.

  \<^bold>\<open>How the parts interact.\<close> The boot loader copies the kernel file into memory, builds page
  tables and a memory map and jumps. The kernel turns the memory map into a bitmap of free frames;
  page tables, the virtual memory manager and the heap take frames from it in that order. The
  scheduler allocates stacks and switches tasks at timer ticks. The file system reads and writes
  sectors through the block layer, and the path layer uses it. The network stack polls the driver's
  receive queue. Keyboard and mouse interrupts fill buffers which the desktop's event loop reads to
  drive the window manager and the applications.

  \<^bold>\<open>Theories and sources.\<close>

  \<^item> \<^verbatim>\<open>Prelude\<close>: machine integers, byte codecs, lemmas on words and lists; \<^verbatim>\<open>Fifo\<close>: bounded
    queues as a locale, interpreted on the ring buffers; \<^verbatim>\<open>Rust_Str\<close>, \<^verbatim>\<open>Rust_Vec\<close>,
    \<^verbatim>\<open>Lcg\<close>, \<^verbatim>\<open>Desktop_Types\<close>: strings, vectors, the pseudo-random generator and the types
    that applications and window manager share.
  \<^item> \<^verbatim>\<open>Loader\<close>: \<^verbatim>\<open>bootloader/src/loader.rs\<close> and \<^verbatim>\<open>cmdline.rs\<close>. Physical memory is a
    function from addresses to bytes. A well-formed file is loaded exactly, and the command line is
    the trimmed file.
  \<^item> \<^verbatim>\<open>Boot_Paging\<close>: \<^verbatim>\<open>bootloader/src/paging.rs\<close>. Each mapping operation is shown to change one
    entry of a partial map of pages; the finished address space and its permissions follow.
  \<^item> \<^verbatim>\<open>Boot_Info\<close>: the memory map of \<^verbatim>\<open>shared/src/boot_info.rs\<close> and \<^verbatim>\<open>memory.rs\<close>: sorting,
    merging and re-tagging keep what the map says of each address.
  \<^item> \<^verbatim>\<open>Frame_Allocator\<close>: \<^verbatim>\<open>kernel/src/memory/frame_allocator.rs\<close>: the lowest free frame is
    granted, frames are granted once, and the start-up frees exactly the usable frames.
  \<^item> \<^verbatim>\<open>Paging\<close>: \<^verbatim>\<open>kernel/src/memory/paging.rs\<close> over a store of words: mapping and unmapping
    change one translation, tables form a tree, and tear-down returns exactly the user tables.
  \<^item> \<^verbatim>\<open>Vmm\<close>, \<^verbatim>\<open>Heap\<close>: \<^verbatim>\<open>kernel/src/memory/vmm.rs\<close> and \<^verbatim>\<open>heap.rs\<close>: fresh ranges with
    roll-back; live allocations never overlap for alignments up to 8, and overlap above.
  \<^item> \<^verbatim>\<open>Scheduler\<close>: \<^verbatim>\<open>kernel/src/core_kernel/scheduler.rs\<close>: the state invariant over all reachable
    states, the choice of the next task and the absence of starvation at the highest priority.
  \<^item> \<^verbatim>\<open>Block\<close>, \<^verbatim>\<open>Fat32\<close>, \<^verbatim>\<open>Vfs\<close>: \<^verbatim>\<open>kernel/src/storage/\<close> with the request interface of
    \<^verbatim>\<open>hal/virtio_blk.rs\<close>: write and read back, deletion, return on broken tables, path resolution.
  \<^item> \<^verbatim>\<open>Net_Device\<close>, \<^verbatim>\<open>Net\<close>: the receive side of \<^verbatim>\<open>hal/virtio_net.rs\<close> and \<^verbatim>\<open>kernel/src/net/\<close>:
    frames in order, datagrams and echo requests delivered between two hosts.
  \<^item> \<^verbatim>\<open>Keyboard\<close>, \<^verbatim>\<open>Mouse\<close>, \<^verbatim>\<open>Rtc\<close>: the drivers of \<^verbatim>\<open>kernel/src/hal/\<close> with their ports as
    streams: typed text and mouse packets come back, a stable clock is read correctly.
  \<^item> \<^verbatim>\<open>Calc\<close>: \<^verbatim>\<open>kernel/src/shell/calc.rs\<close>: the parser computes the value of the expression.
  \<^item> \<^verbatim>\<open>Minesweeper\<close>, \<^verbatim>\<open>Snake\<close>, \<^verbatim>\<open>Notepad\<close>: \<^verbatim>\<open>kernel/src/desktop/apps/\<close>: flood filling, moves, and
    editing of lines as editing of one text.
  \<^item> \<^verbatim>\<open>Wm\<close>, \<^verbatim>\<open>Desktop\<close>: \<^verbatim>\<open>kernel/src/desktop/wm.rs\<close>, \<^verbatim>\<open>input.rs\<close>, \<^verbatim>\<open>mod.rs\<close>: the window
    stack's invariant, clicks, resizing, and an event loop that never gets stuck.

  This theory composes the loader with the page tables: the kernel sees its image.

  \<^bold>\<open>Conventions.\<close> A Rust structure is a record, an enumeration a datatype. Integers that can reach
  the end of their range are words and wrap as in the release profile, other counters are natural
  numbers. A panic or a read outside a buffer is \<^const>\<open>None\<close>. A lock is the exclusive use of the
  state. Devices, interrupts and the firmware are parameters, streams or lists in the state, and
  what is needed of them is a hypothesis.

  \<^bold>\<open>Bounds and termination.\<close> No definition carries fuel. A loop that ends for every input is a
  total function; one that may run forever is a partial function in the option type, and the
  properties that speak of its result prove that it returns: freeing a cluster chain zeroes an entry
  in each turn, the walks of the heap follow a finite list, and an iteration of the desktop's event
  loop always returns. The number of firmware pages demanded for the boot page tables, one root, two
  for each huge page and three for each small page, is an upper bound: no mapping operation creates
  more tables. A ready task of the highest priority waits at most 64 slots of 52 ticks.

  \<^bold>\<open>Not modelled.\<close> Drawing (\<^verbatim>\<open>graphics/\<close>, the draw functions of the desktop, the boot splash and
  the framebuffer set-up): its result is pixels, which only the
  mouse cursor reads back, to restore what it covered. Processor and device
  set-up by port and register access (\<^verbatim>\<open>hal/\<close> without the files above: GDT, IDT, interrupt
  controller, PCI, ACPI, serial line, speaker, CPU and the descriptor rings of \<^verbatim>\<open>virtio.rs\<close>): what they
  do is decided by the hardware. The shell (\<^verbatim>\<open>shell/\<close> without \<^verbatim>\<open>calc.rs\<close>) prints the results of the
  operations modelled here. The executive (\<^verbatim>\<open>executive/\<close>), logging, error codes, the self tests and the
  remaining applications are not covered either. The kernel's entry and \<^verbatim>\<open>main.rs\<close> of the boot
  loader call the parts in order; their firmware calls are outside the repository.
\<close>

section \<open>From the file to the running image\<close>

lemma seg_pages_cover:
  assumes "segment_ok data ph" "j < unat (p_memsz ph)"
  shows "j < seg_pages (segment_info vb ph) * 4096"
proof -
  have "unat (p_memsz ph) + 4096 \<le> 2 ^ 64"
    using segment_okD(2) [OF assms(1)] by (simp add: seg_end_def)
  hence "unat (p_memsz ph + 4096 - 1) = unat (p_memsz ph) + 4095"
    using unat_add_no_overflow [of "p_memsz ph" 4095] by (simp add: add_diff_eq [symmetric])
  hence "seg_pages (segment_info vb ph) = (unat (p_memsz ph) + 4095) div 4096"
    by (simp add: seg_pages_def segment_info_def pages_of_def PAGE_SIZE_def unat_div)
  thus ?thesis using assms(2) by linarith
qed

lemma loaded_segment_covers:
  assumes "image_ok data" "image_base data = unat KERNEL_VADDR_BASE" "ph \<in> set (loads data)" "j < unat (p_memsz ph)"
  defines "x \<equiv> unat (p_vaddr ph) - image_base data + j"
  shows "covers (segment_info KERNEL_VADDR_BASE ph) x" "KERNEL_VADDR_BASE + of_nat x = p_vaddr ph + of_nat j"
    "phys + of_nat x = phys + (p_vaddr ph - KERNEL_VADDR_BASE) + of_nat j"
proof -
  have le: "KERNEL_VADDR_BASE \<le> p_vaddr ph"
    using image_extent(1) [OF assms(1,3)] assms(2) by (simp add: word_le_nat_alt)
  have off: "unat (p_vaddr ph - KERNEL_VADDR_BASE) = unat (p_vaddr ph) - image_base data"
    using unat_offset [OF le] assms(2) by simp
  have "segment_ok data ph"
    using assms(1,3) by (auto simp: image_ok_def Let_def list_all_iff)
  from seg_pages_cover [OF this assms(4), of KERNEL_VADDR_BASE]
  show "covers (segment_info KERNEL_VADDR_BASE ph) x"
    by (simp add: covers_def segment_info_def off x_def)
  have "(of_nat x :: u64) = of_nat (unat (p_vaddr ph - KERNEL_VADDR_BASE)) + of_nat j"
    unfolding x_def off by (simp only: of_nat_add)
  hence x: "(of_nat x :: u64) = (p_vaddr ph - KERNEL_VADDR_BASE) + of_nat j"
    by (simp only: of_nat_unat ucast_id)
  show "KERNEL_VADDR_BASE + of_nat x = p_vaddr ph + of_nat j"
    unfolding x by simp
  show "phys + of_nat x = phys + (p_vaddr ph - KERNEL_VADDR_BASE) + of_nat j"
    unfolding x by (simp only: add.assoc)
qed


definition linked_elf :: "u8 list" where
  "linked_elf =
     [0x7F, 0x45, 0x4C, 0x46, 2, 1, 1, 0, 0, 0, 0, 0, 0, 0, 0, 0,
      2, 0, 0x3E, 0, 1, 0, 0, 0,
      0, 0, 0, 0x80, 0xFF, 0xFF, 0xFF, 0xFF,
      64, 0, 0, 0, 0, 0, 0, 0,
      0, 0, 0, 0, 0, 0, 0, 0,
      0, 0, 0, 0, 64, 0, 56, 0, 2, 0, 0, 0, 0, 0, 0, 0,
      1, 0, 0, 0, 5, 0, 0, 0,
      176, 0, 0, 0, 0, 0, 0, 0,
      0, 0, 0, 0x80, 0xFF, 0xFF, 0xFF, 0xFF,
      0, 0, 0, 0, 0, 0, 0, 0,
      3, 0, 0, 0, 0, 0, 0, 0,
      5, 0, 0, 0, 0, 0, 0, 0,
      0, 0, 0, 0, 0, 0, 0, 0,
      1, 0, 0, 0, 6, 0, 0, 0,
      179, 0, 0, 0, 0, 0, 0, 0,
      0, 0x10, 0, 0x80, 0xFF, 0xFF, 0xFF, 0xFF,
      0, 0, 0, 0, 0, 0, 0, 0,
      1, 0, 0, 0, 0, 0, 0, 0,
      16, 0, 0, 0, 0, 0, 0, 0,
      0, 0, 0, 0, 0, 0, 0, 0,
      0xAA, 0xBB, 0xCC, 0xDD]"

lemma linked_elf_header:
  "elf_header linked_elf =
     \<lparr>e_ident = [0x7F, 0x45, 0x4C, 0x46, 2, 1, 1, 0, 0, 0, 0, 0, 0, 0, 0, 0], e_type = 2, e_machine = 0x3E,
      e_version = 1, e_entry = 0xFFFFFFFF80000000, e_phoff = 64, e_shoff = 0, e_flags = 0, e_ehsize = 64,
      e_phentsize = 56, e_phnum = 2, e_shentsize = 0, e_shnum = 0, e_shstrndx = 0\<rparr>"
  by (simp add: elf_header_def le_field_def linked_elf_def push_bit_eq_mult)

lemma linked_elf_loads:
  "loads linked_elf =
     [\<lparr>p_type = 1, p_flags = 5, p_offset = 176, p_vaddr = 0xFFFFFFFF80000000, p_paddr = 0, p_filesz = 3,
       p_memsz = 5, p_align = 0\<rparr>,
      \<lparr>p_type = 1, p_flags = 6, p_offset = 179, p_vaddr = 0xFFFFFFFF80001000, p_paddr = 0, p_filesz = 1,
       p_memsz = 16, p_align = 0\<rparr>]"
  by (simp add: loads_def program_headers_def linked_elf_header ph_address_def upt_rec program_header_def
      le_field_def is_load_def PT_LOAD_def)
    (simp add: linked_elf_def push_bit_eq_mult)

lemma linked_elf_image:
  "image_ok linked_elf" "image_pages linked_elf = 2" "image_base linked_elf = 0xFFFFFFFF80000000"
  "image_end linked_elf = 0xFFFFFFFF80001010"
  by (simp_all add: image_ok_def image_pages_def image_base_def image_end_def linked_elf_loads
      linked_elf_header header_ok_def ELF_MAGIC_def ELF_CLASS_64_def ELF_DATA_LSB_def ELF_TYPE_EXEC_def
      EM_X86_64_def HEADER_SIZE_def segment_ok_def apart_def seg_end_def Let_def)
    (simp_all add: linked_elf_def)


end
